(* ===== verification/Xv6_Prelude.thy ===== *)
theory Xv6_Prelude
  imports Main "HOL-Library.Word"
begin

unbundle bit_operations_syntax

text \<open>
  What every component of the development shares: the integer types of
  \<^verbatim>\<open>kernel/types.h\<close>, the result type of a kernel routine, the sizes and limits of
  \<^verbatim>\<open>kernel/param.h\<close> and \<^verbatim>\<open>kernel/riscv.h\<close>, and generic lemmas on words, pointers,
  lists and results.

  A kernel routine that can stop the machine returns a value of type \<open>'a result\<close>: \<open>Inl\<close> holds
  the reason it did not return (a call of \<^verbatim>\<open>panic\<close> with its message, a lock that another CPU
  holds, on which the caller spins, a condition for which the caller goes to sleep on a channel, an
  access outside an array or through a null pointer that C leaves undefined, or
  a recursion deeper than the fuel of the model), \<open>Inr\<close> the returned value together with the
  new state.
\<close>

section \<open>Machine integers\<close>

type_synonym u8 = "8 word"
type_synonym u16 = "16 word"
type_synonym u32 = "32 word"
type_synonym u64 = "64 word"

text \<open>Physical memory is one byte per 64-bit address.\<close>

type_synonym mem = "u64 \<Rightarrow> u8"

section \<open>Constants\<close>

abbreviation (input) NPROC :: nat where "NPROC \<equiv> 64"
abbreviation (input) NCPU :: nat where "NCPU \<equiv> 8"
abbreviation (input) NOFILE :: nat where "NOFILE \<equiv> 16"
abbreviation (input) NFILE :: nat where "NFILE \<equiv> 100"
abbreviation (input) NINODE :: nat where "NINODE \<equiv> 50"
abbreviation (input) NDEV :: nat where "NDEV \<equiv> 10"
abbreviation (input) ROOTDEV :: nat where "ROOTDEV \<equiv> 1"
abbreviation (input) MAXARG :: nat where "MAXARG \<equiv> 32"
abbreviation (input) MAXOPBLOCKS :: nat where "MAXOPBLOCKS \<equiv> 10"
abbreviation (input) LOGSIZE :: nat where "LOGSIZE \<equiv> 30"
abbreviation (input) NBUF :: nat where "NBUF \<equiv> 30"
abbreviation (input) FSSIZE :: nat where "FSSIZE \<equiv> 2000"
abbreviation (input) MAXPATH :: nat where "MAXPATH \<equiv> 128"
abbreviation (input) PGSIZE :: u64 where "PGSIZE \<equiv> 4096"
abbreviation (input) BSIZE :: nat where "BSIZE \<equiv> 1024"

section \<open>Results\<close>

text \<open>
  The objects that processes sleep on: the \<^verbatim>\<open>void *chan\<close> of \<^verbatim>\<open>sleep\<close> and \<^verbatim>\<open>wakeup\<close> is
  always the address of one of these (\<open>NoChan\<close> is the null pointer).
\<close>

datatype chan =
    NoChan
  | ProcChan nat          \<comment> \<open>an entry of \<^verbatim>\<open>proc[]\<close>, in \<^verbatim>\<open>wait\<close>\<close>
  | BufChan nat           \<comment> \<open>the sleep lock of a buffer\<close>
  | InodeChan nat         \<comment> \<open>the sleep lock of an in-memory inode\<close>
  | LogChan               \<comment> \<open>\<^verbatim>\<open>&log\<close>\<close>
  | PipeReadChan u64      \<comment> \<open>\<^verbatim>\<open>&pi->nread\<close>\<close>
  | PipeWriteChan u64     \<comment> \<open>\<^verbatim>\<open>&pi->nwrite\<close>\<close>
  | TicksChan             \<comment> \<open>\<^verbatim>\<open>&ticks\<close>\<close>
  | ConsChan              \<comment> \<open>\<^verbatim>\<open>&cons.r\<close>\<close>
  | UartChan              \<comment> \<open>\<^verbatim>\<open>&uart_tx_r\<close>\<close>
  | DiskChan nat          \<comment> \<open>a buffer that waits for the disk\<close>
  | DescChan              \<comment> \<open>\<^verbatim>\<open>&disk.free[0]\<close>\<close>

datatype fault = Panic string | Spin | Sleep chan | Undefined | OutOfFuel

type_synonym 'a result = "fault + 'a"

text \<open>Sequencing: the second routine runs on the value of the first, unless that one stopped.\<close>

fun andthen :: "'e + 'a \<Rightarrow> ('a \<Rightarrow> 'e + 'b) \<Rightarrow> 'e + 'b" where
  "andthen (Inl e) f = Inl e"
| "andthen (Inr x) f = f x"

named_theorems result_simps "how a sequence of routines returns or stops"

lemma andthen_Inr_iff [result_simps]:
  "andthen r f = Inr y \<longleftrightarrow> (\<exists>x. r = Inr x \<and> f x = Inr y)"
  by (cases r) auto

lemma andthen_Inl_iff [result_simps]:
  "andthen r f = Inl e \<longleftrightarrow> r = Inl e \<or> (\<exists>x. r = Inr x \<and> f x = Inl e)"
  by (cases r) auto

lemma andthenE:
  assumes "andthen r f = Inr y"
  obtains x where "r = Inr x" "f x = Inr y"
  using assms by (auto simp: result_simps)

lemma andthen_assoc: "andthen (andthen r f) g = andthen r (\<lambda>x. andthen (f x) g)"
  by (cases r) auto

lemma andthen_cong [fundef_cong]:
  "r = r' \<Longrightarrow> (\<And>x. r' = Inr x \<Longrightarrow> f x = g x) \<Longrightarrow> andthen r f = andthen r' g"
  by (cases r') auto

text \<open>The value a routine returned, for a result known to be normal.\<close>

definition returns :: "'e + 'a \<Rightarrow> bool" where
  "returns r \<longleftrightarrow> (case r of Inl _ \<Rightarrow> False | Inr _ \<Rightarrow> True)"

lemma returns_simps [simp]: "returns (Inr x)" "\<not> returns (Inl e)"
  by (simp_all add: returns_def)

lemma returnsE: assumes "returns r" obtains x where "r = Inr x"
  using assms by (cases r) auto

section \<open>Pointers\<close>

named_theorems ptr_simps "address arithmetic that does not wrap"

lemma of_nat_u64_eq_iff [ptr_simps]:
  "i < 2 ^ 64 \<Longrightarrow> j < 2 ^ 64 \<Longrightarrow> (of_nat i :: u64) = of_nat j \<longleftrightarrow> i = j"
  by (simp add: word_unat_eq_iff unat_of_nat)

lemma unat_of_nat_u64 [ptr_simps]: "i < 2 ^ 64 \<Longrightarrow> unat (of_nat i :: u64) = i"
  by (simp add: unat_of_nat)

lemma unat_u64_less [simp]: "unat (a :: u64) < 18446744073709551616"
proof -
  have "unat a < 2 ^ LENGTH(64)" by (rule unsigned_less)
  then show ?thesis by simp
qed

lemma unat_u32_less [simp]: "unat (a :: u32) < 4294967296"
proof -
  have "unat a < 2 ^ LENGTH(32)" by (rule unsigned_less)
  then show ?thesis by simp
qed

lemma unat_u32_le_64 [simp]: "unat (a :: u32) \<le> 18446744073709551616"
  by (rule less_imp_le, rule less_trans [OF unat_u32_less]) simp

lemma unat_u8_less [simp]: "unat (a :: u8) < 256"
proof -
  have "unat a < 2 ^ LENGTH(8)" by (rule unsigned_less)
  then show ?thesis by simp
qed

lemma of_nat_unat_u64: "of_nat (unat w) = (w :: u64)"
  by simp

lemma unat_add_u64 [ptr_simps]:
  "unat a + i < 2 ^ 64 \<Longrightarrow> unat (a + of_nat i :: u64) = unat a + i"
  by (simp add: unat_word_ariths unat_of_nat)

lemma ptr_add_eq_iff [ptr_simps]:
  "i < 2 ^ 64 \<Longrightarrow> j < 2 ^ 64 \<Longrightarrow> (a :: u64) + of_nat i = a + of_nat j \<longleftrightarrow> i = j"
  by (simp add: of_nat_u64_eq_iff)

lemma ptr_diff_eq: "unat (b - a :: u64) = i \<longleftrightarrow> b = a + of_nat i \<and> i < 2 ^ 64"
proof
  assume "unat (b - a) = i"
  then have "of_nat i = b - a" by auto
  moreover have "i < 2 ^ 64" using \<open>unat (b - a) = i\<close> unat_u64_less [of "b - a"] by simp
  ultimately show "b = a + of_nat i \<and> i < 2 ^ 64" by simp
qed (simp add: unat_of_nat)

lemma unat_diff_of_nat [ptr_simps]: "i < 2 ^ 64 \<Longrightarrow> unat (a + of_nat i - a :: u64) = i"
  by (simp add: unat_of_nat)

section \<open>Arithmetic\<close>

lemma mult_add_unique:
  fixes n :: nat
  assumes "i < n" "j < n" "n * a + i = n * b + j"
  shows "a = b" "i = j"
proof -
  have "(n * a + i) div n = a" "(n * b + j) div n = b" using assms(1,2) by simp_all
  then show "a = b" using assms(3) by simp
  then show "i = j" using assms(3) by simp
qed

lemma round_up_bounds:
  fixes n k :: nat
  assumes "0 < n"
  shows "k \<le> (k + (n - 1)) div n * n" "k \<le> n * a \<Longrightarrow> (k + (n - 1)) div n * n \<le> n * a"
proof -
  have "(k + (n - 1)) div n * n + (k + (n - 1)) mod n = k + (n - 1)" by simp
  moreover have "(k + (n - 1)) mod n < n" using assms by simp
  ultimately show "k \<le> (k + (n - 1)) div n * n" by linarith
  assume "k \<le> n * a"
  then have "k + (n - 1) < (a + 1) * n" using assms by (simp add: algebra_simps)
  then have "(k + (n - 1)) div n < a + 1" by (rule less_mult_imp_div_less)
  then have "(k + (n - 1)) div n * n \<le> a * n" by (intro mult_le_mono1) linarith
  then show "(k + (n - 1)) div n * n \<le> n * a" by (simp only: mult.commute)
qed

lemma div_step: "0 < n \<Longrightarrow> a + n \<le> b \<Longrightarrow> (b - a) div n = Suc ((b - (a + n)) div (n :: nat))"
proof -
  assume "0 < n" "a + n \<le> b"
  then obtain c where "b = a + n + c" by (auto simp: le_iff_add)
  moreover have "(n + c) div n = Suc (c div n)" using \<open>0 < n\<close> by (simp add: div_add_self1)
  ultimately show ?thesis by simp
qed

section \<open>Lists\<close>

lemma nth_list_update_if:
  "i < length xs \<Longrightarrow> xs[i := v] ! j = (if i = j then v else xs ! j)"
  by (simp add: nth_list_update)

lemma sum_list_update_nat:
  "i < length xs \<Longrightarrow> sum_list (xs[i := v]) + xs ! i = sum_list xs + (v :: nat)"
proof (induction xs arbitrary: i)
  case (Cons x xs)
  then show ?case by (cases i) auto
qed simp

lemma all_less_Suc_shift: "(\<forall>i < Suc n. P i) \<longleftrightarrow> P 0 \<and> (\<forall>i < n. P (Suc i))"
  by (auto simp: less_Suc_eq_0_disj)

lemma ex_less_Suc_shift: "(\<exists>i < Suc n. P i) \<longleftrightarrow> P 0 \<or> (\<exists>i < n. P (Suc i))"
  by (auto simp: less_Suc_eq_0_disj)

text \<open>
  The first index at which a predicate holds: the shape of every table scan of the kernel
  (\<^verbatim>\<open>for(f = ftable.file; f < ftable.file + NFILE; f++) if(f->ref == 0) ...\<close>).
\<close>

fun find_index :: "('a \<Rightarrow> bool) \<Rightarrow> 'a list \<Rightarrow> nat option" where
  "find_index P [] = None"
| "find_index P (x # xs) = (if P x then Some 0 else map_option Suc (find_index P xs))"

lemma find_index_None: "find_index P xs = None \<longleftrightarrow> (\<forall>x \<in> set xs. \<not> P x)"
  by (induction xs) auto

lemma find_index_Some:
  "find_index P xs = Some i \<longleftrightarrow> i < length xs \<and> P (xs ! i) \<and> (\<forall>j < i. \<not> P (xs ! j))"
proof (induction xs arbitrary: i)
  case (Cons x xs)
  show ?case
  proof (cases i)
    case 0
    then show ?thesis by auto
  next
    case (Suc k)
    have "(\<forall>j < Suc k. \<not> P ((x # xs) ! j)) \<longleftrightarrow> \<not> P x \<and> (\<forall>j < k. \<not> P (xs ! j))"
      by (auto simp: less_Suc_eq_0_disj)
    then show ?thesis using Suc Cons.IH [of k] by auto
  qed
qed simp

lemma find_index_SomeD:
  assumes "find_index P xs = Some i"
  shows "i < length xs" "P (xs ! i)" "\<And>j. j < i \<Longrightarrow> \<not> P (xs ! j)"
  using assms by (simp_all add: find_index_Some)

end
