(* ===== verification/CString.thy ===== *)
theory CString
  imports Xv6_Prelude
begin

text \<open>
  The kernel's string library, \<^verbatim>\<open>kernel/string.c\<close>, over byte memory. Each loop of the C code
  is a recursive function on the same counters; a routine that writes returns the new memory (the
  pointer it returns is its first argument). Sizes are C's \<open>uint\<close> or \<open>int\<close>.

  Shown here: \<open>memset\<close> and \<open>memmove\<close> have their specified effect at every address
  (\<open>memmove\<close> also when source and destination overlap), \<open>memcmp\<close> decides equality,
  \<open>strncmp\<close> returns zero exactly on strings that agree up to the bound, \<open>strncpy\<close>
  pads with zeros, and \<open>safestrcpy\<close> always terminates the destination.
\<close>

section \<open>Definitions\<close>

subsection \<open>memset, memcmp\<close>

function memset_loop :: "mem \<Rightarrow> u64 \<Rightarrow> u8 \<Rightarrow> nat \<Rightarrow> nat \<Rightarrow> mem" where
  "memset_loop m dst c i n =
     (if i < n then memset_loop (m(dst + of_nat i := c)) dst c (Suc i) n else m)"
  by pat_completeness auto
termination
  by (relation "measure (\<lambda>(m, dst, c, i, n). n - i)") auto

declare memset_loop.simps [simp del]

definition memset :: "mem \<Rightarrow> u64 \<Rightarrow> int \<Rightarrow> u32 \<Rightarrow> mem" where
  "memset m dst c n = memset_loop m dst (word_of_int c) 0 (unat n)"

fun memcmp_loop :: "mem \<Rightarrow> u64 \<Rightarrow> u64 \<Rightarrow> nat \<Rightarrow> int" where
  "memcmp_loop m s1 s2 0 = 0"
| "memcmp_loop m s1 s2 (Suc n) =
     (if m s1 \<noteq> m s2 then uint (m s1) - uint (m s2)
      else memcmp_loop m (s1 + 1) (s2 + 1) n)"

definition memcmp :: "mem \<Rightarrow> u64 \<Rightarrow> u64 \<Rightarrow> u32 \<Rightarrow> int" where
  "memcmp m v1 v2 n = memcmp_loop m v1 v2 (unat n)"

subsection \<open>memmove\<close>

text \<open>\<^verbatim>\<open>while(n-- > 0) *--d = *--s;\<close>\<close>

fun copy_backward :: "mem \<Rightarrow> u64 \<Rightarrow> u64 \<Rightarrow> nat \<Rightarrow> mem" where
  "copy_backward m d s 0 = m"
| "copy_backward m d s (Suc n) = copy_backward (m(d - 1 := m (s - 1))) (d - 1) (s - 1) n"

text \<open>\<^verbatim>\<open>while(n-- > 0) *d++ = *s++;\<close>\<close>

fun copy_forward :: "mem \<Rightarrow> u64 \<Rightarrow> u64 \<Rightarrow> nat \<Rightarrow> mem" where
  "copy_forward m d s 0 = m"
| "copy_forward m d s (Suc n) = copy_forward (m(d := m s)) (d + 1) (s + 1) n"

definition memmove :: "mem \<Rightarrow> u64 \<Rightarrow> u64 \<Rightarrow> u32 \<Rightarrow> mem" where
  "memmove m dst src n =
     (if n = 0 then m
      else if src < dst \<and> src + ucast n > dst
      then copy_backward m (dst + ucast n) (src + ucast n) (unat n)
      else copy_forward m dst src (unat n))"

definition memcpy :: "mem \<Rightarrow> u64 \<Rightarrow> u64 \<Rightarrow> u32 \<Rightarrow> mem" where
  "memcpy m dst src n = memmove m dst src n"

subsection \<open>Strings\<close>

text \<open>The pair of pointers and the count left when the loop of \<open>strncmp\<close> stops.\<close>

fun strncmp_loop :: "mem \<Rightarrow> u64 \<Rightarrow> u64 \<Rightarrow> nat \<Rightarrow> nat \<times> u64 \<times> u64" where
  "strncmp_loop m p q 0 = (0, p, q)"
| "strncmp_loop m p q (Suc n) =
     (if m p \<noteq> 0 \<and> m p = m q then strncmp_loop m (p + 1) (q + 1) n else (Suc n, p, q))"

definition strncmp :: "mem \<Rightarrow> u64 \<Rightarrow> u64 \<Rightarrow> u32 \<Rightarrow> int" where
  "strncmp m p q n =
     (case strncmp_loop m p q (unat n) of
        (k, p', q') \<Rightarrow> if k = 0 then 0 else uint (m p') - uint (m q'))"

text \<open>
  \<open>strncpy\<close>: the copying loop leaves the count, the destination pointer and the memory; the
  second loop writes zeros. The count is C's \<open>int\<close>; \<^verbatim>\<open>n-- > 0\<close> with \<open>n \<le> 0\<close> runs no iteration.
\<close>

fun strncpy_copy :: "mem \<Rightarrow> u64 \<Rightarrow> u64 \<Rightarrow> nat \<Rightarrow> mem \<times> u64 \<times> nat" where
  "strncpy_copy m s t 0 = (m, s, 0)"
| "strncpy_copy m s t (Suc n) =
     (let m' = m(s := m t) in
      if m t \<noteq> 0 then strncpy_copy m' (s + 1) (t + 1) n else (m', s + 1, n))"

fun strncpy_pad :: "mem \<Rightarrow> u64 \<Rightarrow> nat \<Rightarrow> mem" where
  "strncpy_pad m s 0 = m"
| "strncpy_pad m s (Suc n) = strncpy_pad (m(s := 0)) (s + 1) n"

definition strncpy :: "mem \<Rightarrow> u64 \<Rightarrow> u64 \<Rightarrow> int \<Rightarrow> mem" where
  "strncpy m s t n = (case strncpy_copy m s t (nat n) of (m', s', k) \<Rightarrow> strncpy_pad m' s' k)"

text \<open>\<^verbatim>\<open>while(--n > 0 && (*s++ = *t++) != 0);\<close> and then \<^verbatim>\<open>*s = 0;\<close>\<close>

fun safestrcpy_loop :: "mem \<Rightarrow> u64 \<Rightarrow> u64 \<Rightarrow> nat \<Rightarrow> mem" where
  "safestrcpy_loop m s t 0 = m(s := 0)"
| "safestrcpy_loop m s t (Suc n) =
     (let m' = m(s := m t) in
      if m t \<noteq> 0 then safestrcpy_loop m' (s + 1) (t + 1) n else m'(s + 1 := 0))"

definition safestrcpy :: "mem \<Rightarrow> u64 \<Rightarrow> u64 \<Rightarrow> int \<Rightarrow> mem" where
  "safestrcpy m s t n = (if n \<le> 0 then m else safestrcpy_loop m s t (nat (n - 1)))"

text \<open>\<^verbatim>\<open>for(n = 0; s[n]; n++);\<close> need not stop: \<open>None\<close> is a run that never finds a zero.\<close>

partial_function (option) strlen_loop :: "mem \<Rightarrow> u64 \<Rightarrow> nat \<Rightarrow> nat option" where
  "strlen_loop m s n = (if m (s + of_nat n) = 0 then Some n else strlen_loop m s (Suc n))"

definition strlen :: "mem \<Rightarrow> u64 \<Rightarrow> nat option" where
  "strlen m s = strlen_loop m s 0"

subsection \<open>Byte ranges\<close>

text \<open>The \<open>n\<close> bytes at an address, and the bytes of a C string of known contents.\<close>

fun bytes_at :: "mem \<Rightarrow> u64 \<Rightarrow> nat \<Rightarrow> u8 list" where
  "bytes_at m a 0 = []"
| "bytes_at m a (Suc n) = m a # bytes_at m (a + 1) n"

definition cstr_at :: "mem \<Rightarrow> u64 \<Rightarrow> u8 list \<Rightarrow> bool" where
  "cstr_at m a xs \<longleftrightarrow> 0 \<notin> set xs \<and> bytes_at m a (length xs) = xs \<and> m (a + of_nat (length xs)) = 0"

text \<open>An address lies in the \<open>n\<close> bytes from \<open>a\<close>.\<close>

definition in_range :: "u64 \<Rightarrow> nat \<Rightarrow> u64 \<Rightarrow> bool" where
  "in_range a n x \<longleftrightarrow> unat (x - a) < n"

section \<open>Lemmas\<close>

lemma length_bytes_at [simp]: "length (bytes_at m a n) = n"
  by (induction n arbitrary: a) auto

lemma nth_bytes_at [simp]: "i < n \<Longrightarrow> bytes_at m a n ! i = m (a + of_nat i)"
proof (induction n arbitrary: a i)
  case (Suc n)
  then show ?case by (cases i) (auto simp: algebra_simps)
qed simp

lemma in_range_iff: "n \<le> 2 ^ 64 \<Longrightarrow> in_range a n x \<longleftrightarrow> (\<exists>i < n. x = a + of_nat i)"
  unfolding in_range_def by (metis ptr_diff_eq order_less_le_trans)

lemma in_range_0 [simp]: "\<not> in_range a 0 x"
  by (simp add: in_range_def)

lemma in_range_offset [simp]: "i < 2 ^ 64 \<Longrightarrow> in_range a n (a + of_nat i) \<longleftrightarrow> i < n"
  by (simp add: in_range_def unat_of_nat)

lemma in_range_Suc: "Suc n \<le> 2 ^ 64 \<Longrightarrow> in_range a (Suc n) x \<longleftrightarrow> x = a \<or> in_range (a + 1) n x"
proof -
  assume n: "Suc n \<le> 2 ^ 64"
  have "(\<exists>i < Suc n. x = a + of_nat i) \<longleftrightarrow> x = a \<or> (\<exists>i < n. x = a + 1 + of_nat i)"
    by (auto simp: less_Suc_eq_0_disj algebra_simps)
  with n show ?thesis by (simp add: in_range_iff)
qed

lemma bytes_at_cong: "(\<And>i. i < n \<Longrightarrow> m (a + of_nat i) = m' (a + of_nat i)) \<Longrightarrow> bytes_at m a n = bytes_at m' a n"
  by (rule nth_equalityI) auto

lemma memset_loop_apply:
  "n \<le> 2 ^ 64 \<Longrightarrow> memset_loop m dst c i n x =
     (if i \<le> unat (x - dst) \<and> unat (x - dst) < n then c else m x)"
proof (induction m dst c i n rule: memset_loop.induct)
  case (1 m dst c i n)
  show ?case
  proof (cases "i < n")
    case True
    have eq: "x = dst + of_nat i \<longleftrightarrow> unat (x - dst) = i"
      using True "1.prems" by (auto simp: ptr_diff_eq)
    have "memset_loop m dst c i n x = memset_loop (m(dst + of_nat i := c)) dst c (Suc i) n x"
      by (subst memset_loop.simps) (simp add: True)
    also have "\<dots> = (if Suc i \<le> unat (x - dst) \<and> unat (x - dst) < n then c else (m(dst + of_nat i := c)) x)"
      by (rule "1.IH" [OF True "1.prems"])
    finally show ?thesis using True eq by auto
  next
    case False
    then show ?thesis by (subst memset_loop.simps) auto
  qed
qed

lemma memset_apply:
  "memset m dst c n x = (if in_range dst (unat n) x then word_of_int c else m x)"
proof -
  have "unat n \<le> 2 ^ 64" by simp
  then show ?thesis by (simp add: memset_def memset_loop_apply in_range_def)
qed

lemma memcmp_loop_eq_0: "memcmp_loop m s1 s2 n = 0 \<longleftrightarrow> bytes_at m s1 n = bytes_at m s2 n"
  by (induction n arbitrary: s1 s2) (auto simp: word_uint_eq_iff)

lemma copy_forward_apply:
  assumes "\<And>i j. j < i \<Longrightarrow> i < n \<Longrightarrow> d + of_nat j \<noteq> s + of_nat i" "n \<le> 2 ^ 64"
  shows "copy_forward m d s n x = (if in_range d n x then m (s + (x - d)) else m x)"
  using assms
proof (induction n arbitrary: m d s)
  case (Suc n)
  have "copy_forward (m(d := m s)) (d + 1) (s + 1) n x =
      (if in_range (d + 1) n x then (m(d := m s)) (s + 1 + (x - (d + 1))) else (m(d := m s)) x)"
  proof (rule Suc.IH)
    fix i j assume "j < i" "i < n"
    then show "d + 1 + of_nat j \<noteq> s + 1 + of_nat i"
      using Suc.prems(1) [of "Suc j" "Suc i"] by (simp add: algebra_simps)
  qed (use Suc.prems(2) in simp)
  moreover have "in_range (d + 1) n x \<Longrightarrow> s + (x - d) \<noteq> d"
  proof -
    assume "in_range (d + 1) n x"
    then obtain i where "i < n" "x = d + 1 + of_nat i" using Suc.prems(2) by (auto simp: in_range_iff)
    then show ?thesis using Suc.prems(1) [of 0 "Suc i"] by auto
  qed
  moreover have "in_range d (Suc n) x \<longleftrightarrow> x = d \<or> in_range (d + 1) n x"
    by (rule in_range_Suc [OF Suc.prems(2)])
  moreover have "\<not> in_range (d + 1) n d"
    using Suc.prems(2) by (auto simp: in_range_def unsigned_minus_1_eq_mask mask_eq_exp_minus_1)
  ultimately show ?case by auto
qed simp

lemma copy_backward_apply:
  assumes "\<And>i j. i < j \<Longrightarrow> j < n \<Longrightarrow> d + of_nat j \<noteq> s + of_nat i" "n \<le> 2 ^ 64"
  shows "copy_backward m (d + of_nat n) (s + of_nat n) n x =
    (if in_range d n x then m (s + (x - d)) else m x)"
  using assms
proof (induction n arbitrary: m)
  case (Suc n)
  let ?m = "m(d + of_nat n := m (s + of_nat n))"
  have "copy_backward ?m (d + of_nat n) (s + of_nat n) n x =
      (if in_range d n x then ?m (s + (x - d)) else ?m x)"
    by (rule Suc.IH) (use Suc.prems in \<open>auto simp: less_Suc_eq\<close>)
  moreover have "in_range d n x \<Longrightarrow> s + (x - d) \<noteq> d + of_nat n"
  proof -
    assume "in_range d n x"
    then obtain i where "i < n" "x = d + of_nat i" using Suc.prems(2) by (auto simp: in_range_iff)
    then show ?thesis using Suc.prems(1) [of i n] by auto
  qed
  moreover have "in_range d (Suc n) x \<longleftrightarrow> x = d + of_nat n \<or> in_range d n x"
    using Suc.prems(2) by (auto simp: in_range_iff less_Suc_eq)
  moreover have "\<not> in_range d n (d + of_nat n)"
    using Suc.prems(2) by simp
  ultimately show ?case by auto
qed simp

text \<open>The direction test of \<open>memmove\<close> picks the loop that reads every byte before it is overwritten.\<close>

lemma memmove_apply:
  assumes "unat src + unat n < 2 ^ 64" "unat dst + unat n \<le> 2 ^ 64"
  shows "memmove m dst src n x = (if in_range dst (unat n) x then m (src + (x - dst)) else m x)"
proof -
  have un: "ucast n = (of_nat (unat n) :: u64)" by simp
  have n32: "unat n \<le> 2 ^ 64" by simp
  have u: "\<And>a i. unat a + unat n \<le> 2 ^ 64 \<Longrightarrow> i < unat n \<Longrightarrow> unat (a + of_nat i :: u64) = unat a + i"
    by (simp add: unat_add_u64)
  consider "n = 0" | "n \<noteq> 0" "src < dst" "src + ucast n > dst" | "n \<noteq> 0" "\<not> (src < dst \<and> src + ucast n > dst)"
    by blast
  then show ?thesis
  proof cases
    case 1
    then show ?thesis by (simp add: memmove_def)
  next
    case 2
    have "dst + of_nat j \<noteq> src + of_nat i" if "i < j" "j < unat n" for i j
    proof
      assume "dst + of_nat j = src + of_nat i"
      then have "unat dst + j = unat src + i" using u [OF assms(2) that(2)] u [OF less_imp_le [OF assms(1)], of i] that by auto
      then show False using that 2(2) by (simp add: word_less_nat_alt)
    qed
    then show ?thesis using 2 copy_backward_apply [of "unat n" dst src m x] n32
      by (simp add: memmove_def un del: of_nat_unat)
  next
    case 3
    have "dst + of_nat j \<noteq> src + of_nat i" if "j < i" "i < unat n" for i j
    proof
      assume "dst + of_nat j = src + of_nat i"
      then have eq: "unat dst + j = unat src + i" using u [OF less_imp_le [OF assms(1)] that(2)] u [OF assms(2), of j] that by auto
      then have lt: "src < dst" using that by (simp add: word_less_nat_alt)
      have "dst < src + ucast n"
        using eq that assms(1) by (simp add: un unat_add_u64 word_less_nat_alt del: of_nat_unat)
      with 3 lt show False by blast
    qed
    then show ?thesis using 3 copy_forward_apply [of "unat n" dst src m x] n32
      by (auto simp: memmove_def)
  qed
qed

subsection \<open>String lemmas\<close>

lemma cstr_at_Nil [simp]: "cstr_at m p [] \<longleftrightarrow> m p = 0"
  by (simp add: cstr_at_def)

lemma cstr_at_Cons [simp]: "cstr_at m p (x # xs) \<longleftrightarrow> x \<noteq> 0 \<and> m p = x \<and> cstr_at m (p + 1) xs"
  by (auto simp: cstr_at_def algebra_simps)

lemma cstr_at_nth: "cstr_at m p xs \<Longrightarrow> i < length xs \<Longrightarrow> m (p + of_nat i) = xs ! i"
  unfolding cstr_at_def by (metis nth_bytes_at)

text \<open>A write outside the bytes of a string and its terminator keeps the string.\<close>

lemma cstr_at_upd:
  "\<lbrakk>cstr_at m p xs; \<And>j. j \<le> length xs \<Longrightarrow> a \<noteq> p + of_nat j\<rbrakk> \<Longrightarrow> cstr_at (m(a := v)) p xs"
proof (induction xs arbitrary: p)
  case Nil
  then show ?case using Nil.prems(2) [of 0] by auto
next
  case (Cons x xs)
  have "\<And>j. j \<le> length xs \<Longrightarrow> a \<noteq> p + 1 + of_nat j"
    using Cons.prems(2) [of "Suc j" for j] by (auto simp: algebra_simps)
  with Cons.IH [of "p + 1"] Cons.prems(1) have "cstr_at (m(a := v)) (p + 1) xs"
    by (auto simp: fun_upd_def)
  then show ?case using Cons.prems(1) Cons.prems(2) [of 0] by (auto simp: fun_upd_def)
qed

text \<open>What \<open>strncmp\<close> computes on the contents of its two strings.\<close>

fun str_diff :: "u8 list \<Rightarrow> u8 list \<Rightarrow> int" where
  "str_diff [] [] = 0"
| "str_diff (x # xs) [] = uint x"
| "str_diff [] (y # ys) = - uint y"
| "str_diff (x # xs) (y # ys) = (if x = y then str_diff xs ys else uint x - uint y)"

lemma str_diff_zero_iff: "0 \<notin> set xs \<Longrightarrow> 0 \<notin> set ys \<Longrightarrow> str_diff xs ys = 0 \<longleftrightarrow> xs = ys"
  by (induction xs ys rule: str_diff.induct) (auto simp: word_uint_eq_iff)

lemma strncmp_loop_diff:
  "\<lbrakk>cstr_at m p xs; cstr_at m q ys\<rbrakk> \<Longrightarrow>
   (case strncmp_loop m p q n of (k, p', q') \<Rightarrow> if k = 0 then 0 else uint (m p') - uint (m q'))
     = str_diff (take n xs) (take n ys)"
proof (induction n arbitrary: p q xs ys)
  case (Suc n)
  then show ?case by (cases xs; cases ys) auto
qed simp

lemma strncmp_loop_zero:
  "fst (strncmp_loop m p q n) = 0 \<longleftrightarrow>
     (\<forall>i < n. m (p + of_nat i) \<noteq> 0 \<and> m (p + of_nat i) = m (q + of_nat i))"
proof (induction n arbitrary: p q)
  case (Suc n)
  show ?case by (auto simp: Suc.IH all_less_Suc_shift algebra_simps)
qed simp

lemma strncpy_pad_apply:
  "n \<le> 2 ^ 64 \<Longrightarrow> strncpy_pad m s n x = (if in_range s n x then 0 else m x)"
proof (induction n arbitrary: m s)
  case (Suc n)
  then show ?case using in_range_Suc [of n s x] by auto
qed simp

lemma strncpy_loops_apply:
  "\<lbrakk>cstr_at m t xs; \<And>i j. i < n \<Longrightarrow> j \<le> length xs \<Longrightarrow> s + of_nat i \<noteq> t + of_nat j; n \<le> 2 ^ 64\<rbrakk> \<Longrightarrow>
   (case strncpy_copy m s t n of (m', s', k) \<Rightarrow> strncpy_pad m' s' k) x =
     (if in_range s n x then (if unat (x - s) < length xs then xs ! unat (x - s) else 0) else m x)"
proof (induction n arbitrary: m s t xs)
  case (Suc n)
  have rg: "in_range s (Suc n) x \<longleftrightarrow> x = s \<or> in_range (s + 1) n x"
    using Suc.prems(3) by (rule in_range_Suc)
  show ?case
  proof (cases xs)
    case Nil
    then show ?thesis using Suc.prems rg by (auto simp: strncpy_pad_apply)
  next
    case (Cons c cs)
    have frame: "cstr_at (m(s := c)) (t + 1) cs"
    proof (rule cstr_at_upd)
      fix j assume "j \<le> length cs"
      then show "s \<noteq> t + 1 + of_nat j"
        using Suc.prems(2) [of 0 "Suc j"] Cons by (auto simp: algebra_simps)
    qed (use Suc.prems(1) Cons in auto)
    have apart: "s + 1 + of_nat i \<noteq> t + 1 + of_nat j" if "i < n" "j \<le> length cs" for i j
      using Suc.prems(2) [of "Suc i" "Suc j"] that Cons by (auto simp: algebra_simps)
    have shift: "unat (x - s) = Suc (unat (x - (s + 1)))" if "in_range (s + 1) n x"
    proof -
      from that obtain i where i: "i < n" "x = s + 1 + of_nat i"
        using Suc.prems(3) by (auto simp: in_range_iff)
      then have "x - s = of_nat (Suc i)" "x - (s + 1) = of_nat i" by (auto simp: algebra_simps)
      then show ?thesis using i Suc.prems(3) by (simp add: unat_of_nat del: of_nat_Suc)
    qed
    have "\<not> in_range (s + 1) n s"
      using Suc.prems(3) by (auto simp: in_range_def unsigned_minus_1_eq_mask mask_eq_exp_minus_1)
    then show ?thesis
      using Suc.IH [OF frame apart] Suc.prems(1,3) Cons rg shift
      by (auto simp: fun_upd_def)
  qed
qed simp

lemma safestrcpy_loop_cstr:
  "\<lbrakk>cstr_at m t xs; \<And>i j. i \<le> n \<Longrightarrow> j \<le> length xs \<Longrightarrow> s + of_nat i \<noteq> t + of_nat j; n < 2 ^ 63\<rbrakk> \<Longrightarrow>
   cstr_at (safestrcpy_loop m s t n) s (take n xs) \<and>
   (\<forall>x. \<not> in_range s (Suc n) x \<longrightarrow> safestrcpy_loop m s t n x = m x)"
proof (induction n arbitrary: m s t xs)
  case 0
  then show ?case by (auto simp: in_range_def)
next
  case (Suc n)
  have rg: "in_range s (Suc (Suc n)) x \<longleftrightarrow> x = s \<or> in_range (s + 1) (Suc n) x" for x
    using Suc.prems(3) by (intro in_range_Suc) simp
  show ?case
  proof (cases xs)
    case Nil
    have "in_range (s + 1) (Suc n) (s + 1)" by (simp add: in_range_def)
    then show ?thesis using Nil Suc.prems rg by (auto simp: rg)
  next
    case (Cons c cs)
    have frame: "cstr_at (m(s := c)) (t + 1) cs"
    proof (rule cstr_at_upd)
      fix j assume "j \<le> length cs"
      then show "s \<noteq> t + 1 + of_nat j"
        using Suc.prems(2) [of 0 "Suc j"] Cons by (auto simp: algebra_simps)
    qed (use Suc.prems(1) Cons in auto)
    have apart: "s + 1 + of_nat i \<noteq> t + 1 + of_nat j" if "i \<le> n" "j \<le> length cs" for i j
      using Suc.prems(2) [of "Suc i" "Suc j"] that Cons by (auto simp: algebra_simps)
    have "n < 2 ^ 63" using Suc.prems(3) by simp
    note IH = Suc.IH [OF frame apart this]
    have "\<not> in_range (s + 1) (Suc n) s"
      using Suc.prems(3) by (auto simp: in_range_def unsigned_minus_1_eq_mask mask_eq_exp_minus_1)
    then show ?thesis using IH Suc.prems(1) Cons by (auto simp: rg fun_upd_def)
  qed
qed

lemma strlen_loop_cstr:
  "m (s + of_nat k) = 0 \<Longrightarrow> (\<And>i. n \<le> i \<Longrightarrow> i < k \<Longrightarrow> m (s + of_nat i) \<noteq> 0) \<Longrightarrow> n \<le> k \<Longrightarrow>
   strlen_loop m s n = Some k"
proof (induction "k - n" arbitrary: n)
  case 0
  then show ?case by (simp add: strlen_loop.simps)
next
  case (Suc d)
  then have "strlen_loop m s (Suc n) = Some k" by simp
  moreover have "m (s + of_nat n) \<noteq> 0" using Suc.prems(2) [of n] Suc.hyps(2) by simp
  ultimately show ?case by (subst strlen_loop.simps) simp
qed

section \<open>Properties\<close>

text \<open>
  C29. \<open>memmove\<close> copies: after the call each of the \<open>n\<close> destination bytes holds what the
  corresponding source byte held before the call, and no other byte changes. Source and destination
  may overlap in either direction; the only conditions are that neither range runs over the end of
  the address space.
\<close>

theorem memmove_correct:
  assumes "unat src + unat n < 2 ^ 64" "unat dst + unat n \<le> 2 ^ 64"
  shows "bytes_at (memmove m dst src n) dst (unat n) = bytes_at m src (unat n) \<and>
    (\<forall>x. \<not> in_range dst (unat n) x \<longrightarrow> memmove m dst src n x = m x)"
proof -
  have "memmove m dst src n (dst + of_nat i) = m (src + of_nat i)" if "i < unat n" for i
  proof -
    have "i < 4294967296" using that unat_u32_less by (rule less_trans)
    then have "i < 2 ^ 64" by simp
    then show ?thesis using that by (simp add: memmove_apply [OF assms])
  qed
  then have "bytes_at (memmove m dst src n) dst (unat n) = bytes_at m src (unat n)"
    by (intro nth_equalityI) auto
  then show ?thesis by (simp add: memmove_apply [OF assms])
qed

text \<open>Overlapping ranges: three bytes moved up by one.\<close>

theorem memmove_correct_witness:
  "bytes_at (memmove (\<lambda>a. ucast a) 101 100 3) 101 (unat (3 :: u32)) = bytes_at (\<lambda>a. ucast a) 100 (unat (3 :: u32))
   \<and> memmove (\<lambda>a. ucast a) 101 100 3 104 = 104"
  using memmove_correct [of 100 3 101 "\<lambda>a. ucast a"]
  by (simp add: in_range_def)

text \<open>
  \<open>strncmp\<close> on two C strings returns the difference of the first bytes in which their first
  \<open>n\<close> bytes differ, counting the end of a string as a zero byte; it returns zero exactly when the two
  strings agree up to the bound.
\<close>

theorem strncmp_correct:
  assumes "cstr_at m p xs" "cstr_at m q ys"
  shows "strncmp m p q n = str_diff (take (unat n) xs) (take (unat n) ys) \<and>
    (strncmp m p q n = 0 \<longleftrightarrow> take (unat n) xs = take (unat n) ys)"
proof -
  have "strncmp m p q n = str_diff (take (unat n) xs) (take (unat n) ys)"
    unfolding strncmp_def using assms by (rule strncmp_loop_diff)
  moreover have "0 \<notin> set (take (unat n) xs)" "0 \<notin> set (take (unat n) ys)"
    using assms by (auto simp: cstr_at_def dest: in_set_takeD)
  ultimately show ?thesis by (simp add: str_diff_zero_iff)
qed

theorem strncmp_correct_witness:
  "strncmp ((\<lambda>_. 0)(8 := 97, 9 := 98, 16 := 97, 17 := 99)) 8 16 14 = -1"
  using strncmp_correct [of "(\<lambda>_. 0)(8 := 97, 9 := 98, 16 := 97, 17 := 99)" 8 "[97, 98]" 16 "[97, 99]" 14]
  by simp

text \<open>
  \<open>strncpy\<close> and \<open>safestrcpy\<close> on a source string that does not overlap the destination.
  \<open>strncpy\<close> writes exactly \<open>n\<close> bytes, the string and then zeros (so a string of \<open>n\<close> or more
  bytes is left unterminated, which directory entries rely on); \<open>safestrcpy\<close> leaves a terminated
  string, the first \<open>n - 1\<close> bytes of the source, and writes nothing outside the \<open>n\<close> bytes.
\<close>

theorem strncpy_safestrcpy_correct:
  assumes "cstr_at m t xs" "0 < n" "n < 2 ^ 31"
    and "\<And>i j. i < nat n \<Longrightarrow> j \<le> length xs \<Longrightarrow> s + of_nat i \<noteq> t + of_nat j"
  shows "bytes_at (strncpy m s t n) s (nat n) = take (nat n) (xs @ replicate (nat n) 0) \<and>
    cstr_at (safestrcpy m s t n) s (take (nat n - 1) xs) \<and>
    (\<forall>x. \<not> in_range s (nat n) x \<longrightarrow> strncpy m s t n x = m x \<and> safestrcpy m s t n x = m x)"
proof -
  have n: "nat n < 2 ^ 31" using assms(2,3) by auto
  have sn: "strncpy m s t n y = (if in_range s (nat n) y
      then (if unat (y - s) < length xs then xs ! unat (y - s) else 0) else m y)" for y
    unfolding strncpy_def using assms(1,4) n by (intro strncpy_loops_apply) auto
  have "bytes_at (strncpy m s t n) s (nat n) = take (nat n) (xs @ replicate (nat n) 0)"
    using n by (intro nth_equalityI) (auto simp: sn unat_of_nat nth_append)
  moreover have "Suc (nat (n - 1)) = nat n" using assms(2) by simp
  then have "cstr_at (safestrcpy_loop m s t (nat (n - 1))) s (take (nat (n - 1)) xs) \<and>
      (\<forall>y. \<not> in_range s (nat n) y \<longrightarrow> safestrcpy_loop m s t (nat (n - 1)) y = m y)"
    using safestrcpy_loop_cstr [OF assms(1), of "nat (n - 1)" s] assms(4) n by auto
  moreover have "nat (n - 1) = nat n - 1" by simp
  ultimately show ?thesis using assms(2) by (auto simp: safestrcpy_def sn)
qed

theorem strncpy_safestrcpy_correct_witness:
  "bytes_at (strncpy ((\<lambda>_. 7)(8 := 97, 9 := 98, 10 := 0)) 16 8 4) 16 4 = [97, 98, 0, 0]
   \<and> cstr_at (safestrcpy ((\<lambda>_. 7)(8 := 97, 9 := 98, 10 := 0)) 16 8 2) 16 [97]"
proof -
  let ?m = "(\<lambda>_. 7 :: u8)(8 := 97, 9 := 98, 10 := 0)"
  have str: "cstr_at ?m 8 [97, 98]" by simp
  have far: "(16 :: u64) + of_nat i \<noteq> 8 + of_nat j" if "i < 4" "j \<le> 2" for i j
  proof -
    have "unat ((16 :: u64) + of_nat i) = 16 + i" "unat ((8 :: u64) + of_nat j) = 8 + j"
      using that unat_add_u64 [of 16 i] unat_add_u64 [of 8 j] by simp_all
    then have "16 + of_nat i = (8 :: u64) + of_nat j \<Longrightarrow> 16 + i = 8 + j" by metis
    then show ?thesis using that by linarith
  qed
  show ?thesis
    using strncpy_safestrcpy_correct [OF str, of 4 16] strncpy_safestrcpy_correct [OF str, of 2 16] far
    by (simp add: numeral_2_eq_2)
qed

end
