(* ===== verification/Phys_Mem.thy ===== *)
theory Phys_Mem
  imports CString
begin

text \<open>
  Words in physical memory and the address macros of \<^verbatim>\<open>kernel/riscv.h\<close> and
  \<^verbatim>\<open>kernel/memlayout.h\<close>: little-endian 64-bit loads and stores over byte memory,
  \<^verbatim>\<open>PGROUNDUP\<close> and \<^verbatim>\<open>PGROUNDDOWN\<close>, the page-table-entry macros and the index fields of a
  virtual address.

  Shown here: loads after stores at the same and at other aligned addresses, the effect of the
  rounding macros (with the wrap-around of \<^verbatim>\<open>PGROUNDUP\<close> near the end of the address space), that a
  page-table entry gives back the page it was made from, and that a virtual address below
  \<^verbatim>\<open>MAXVA\<close> is determined by its three index fields and its offset.
\<close>

section \<open>Definitions\<close>

subsection \<open>Loads and stores\<close>

fun load_le :: "mem \<Rightarrow> u64 \<Rightarrow> nat \<Rightarrow> nat" where
  "load_le m a 0 = 0"
| "load_le m a (Suc n) = unat (m a) + 256 * load_le m (a + 1) n"

fun store_le :: "mem \<Rightarrow> u64 \<Rightarrow> nat \<Rightarrow> nat \<Rightarrow> mem" where
  "store_le m a v 0 = m"
| "store_le m a v (Suc n) = store_le (m(a := of_nat (v mod 256))) (a + 1) (v div 256) n"

definition load64 :: "mem \<Rightarrow> u64 \<Rightarrow> u64" where
  "load64 m a = of_nat (load_le m a 8)"

definition store64 :: "mem \<Rightarrow> u64 \<Rightarrow> u64 \<Rightarrow> mem" where
  "store64 m a w = store_le m a (unat w) 8"

text \<open>The bytes of an integer stored little-endian, and the integer they stand for.\<close>

fun le_bytes :: "nat \<Rightarrow> nat \<Rightarrow> u8 list" where
  "le_bytes 0 v = []"
| "le_bytes (Suc n) v = of_nat (v mod 256) # le_bytes n (v div 256)"

fun le_val :: "u8 list \<Rightarrow> nat" where
  "le_val [] = 0"
| "le_val (b # bs) = unat b + 256 * le_val bs"

subsection \<open>Memory layout\<close>

abbreviation (input) KERNBASE :: u64 where "KERNBASE \<equiv> 0x80000000"
abbreviation (input) PHYSTOP :: u64 where "PHYSTOP \<equiv> 0x88000000"
abbreviation (input) UART0 :: u64 where "UART0 \<equiv> 0x10000000"
abbreviation (input) VIRTIO0 :: u64 where "VIRTIO0 \<equiv> 0x10001000"
abbreviation (input) PLIC :: u64 where "PLIC \<equiv> 0x0c000000"

definition MAXVA :: u64 where
  "MAXVA = push_bit (9 + 9 + 9 + 12 - 1) 1"

definition TRAMPOLINE :: u64 where
  "TRAMPOLINE = MAXVA - PGSIZE"

definition TRAPFRAME :: u64 where
  "TRAPFRAME = TRAMPOLINE - PGSIZE"

definition KSTACK :: "nat \<Rightarrow> u64" where
  "KSTACK p = TRAMPOLINE - (of_nat p + 1) * 2 * PGSIZE"

subsection \<open>Pages and page-table entries\<close>

definition PGROUNDUP :: "u64 \<Rightarrow> u64" where
  "PGROUNDUP sz = (sz + PGSIZE - 1) AND NOT (PGSIZE - 1)"

definition PGROUNDDOWN :: "u64 \<Rightarrow> u64" where
  "PGROUNDDOWN a = a AND NOT (PGSIZE - 1)"

abbreviation (input) PTE_V :: u64 where "PTE_V \<equiv> 1"
abbreviation (input) PTE_R :: u64 where "PTE_R \<equiv> 2"
abbreviation (input) PTE_W :: u64 where "PTE_W \<equiv> 4"
abbreviation (input) PTE_X :: u64 where "PTE_X \<equiv> 8"
abbreviation (input) PTE_U :: u64 where "PTE_U \<equiv> 16"

definition PA2PTE :: "u64 \<Rightarrow> u64" where
  "PA2PTE pa = push_bit 10 (drop_bit 12 pa)"

definition PTE2PA :: "u64 \<Rightarrow> u64" where
  "PTE2PA pte = push_bit 12 (drop_bit 10 pte)"

definition PTE_FLAGS :: "u64 \<Rightarrow> u64" where
  "PTE_FLAGS pte = pte AND 0x3FF"

definition PXSHIFT :: "nat \<Rightarrow> nat" where
  "PXSHIFT level = 12 + 9 * level"

definition PX :: "nat \<Rightarrow> u64 \<Rightarrow> u64" where
  "PX level va = drop_bit (PXSHIFT level) va AND 0x1FF"

section \<open>Lemmas on loads and stores\<close>

lemma load_le_less: "load_le m a n < 256 ^ n"
proof (induction n arbitrary: a)
  case (Suc n)
  have "load_le m (a + 1) n + 1 \<le> 256 ^ n" using Suc [of "a + 1"] by simp
  then have "256 * (load_le m (a + 1) n + 1) \<le> 256 * 256 ^ n" by (rule mult_le_mono2)
  moreover obtain x where "unat (m a) = x" "x < 256" using unat_u8_less by blast
  ultimately show ?case by simp
qed simp

lemma store_le_other: "n \<le> 2 ^ 64 \<Longrightarrow> \<not> in_range a n x \<Longrightarrow> store_le m a v n x = m x"
proof (induction n arbitrary: m a v)
  case (Suc n)
  then show ?case using in_range_Suc [of n a x] by auto
qed simp

lemma load_le_cong: "(\<And>i. i < n \<Longrightarrow> m (a + of_nat i) = m' (a + of_nat i)) \<Longrightarrow> load_le m a n = load_le m' a n"
proof (induction n arbitrary: a)
  case (Suc n)
  have "load_le m (a + 1) n = load_le m' (a + 1) n"
  proof (rule Suc.IH)
    fix i assume "i < n"
    then show "m (a + 1 + of_nat i) = m' (a + 1 + of_nat i)"
      using Suc.prems [of "Suc i"] by (simp add: algebra_simps)
  qed
  then show ?case using Suc.prems [of 0] by simp
qed simp

lemma load_store_le: "n < 2 ^ 64 \<Longrightarrow> load_le (store_le m a v n) a n = v mod 256 ^ n"
proof (induction n arbitrary: m a v)
  case (Suc n)
  have "store_le m a v (Suc n) a = of_nat (v mod 256)"
  proof -
    have "\<not> in_range (a + 1) n a"
      using Suc.prems by (auto simp: in_range_def unsigned_minus_1_eq_mask mask_eq_exp_minus_1)
    then show ?thesis using Suc.prems by (simp add: store_le_other)
  qed
  moreover have "unat (of_nat (v mod 256) :: u8) = v mod 256" by (simp add: unat_of_nat)
  moreover have "load_le (store_le m a v (Suc n)) (a + 1) n = v div 256 mod 256 ^ n"
    using Suc.IH Suc.prems by simp
  ultimately show ?case
    by (simp add: mod_mult2_eq)
qed simp

lemma load64_store64_same [simp]: "load64 (store64 m a w) a = w"
  by (simp add: load64_def store64_def load_store_le)

lemma store64_other: "\<not> in_range a 8 x \<Longrightarrow> store64 m a w x = m x"
  by (simp add: store64_def store_le_other)

lemma load64_cong: "(\<And>i. i < 8 \<Longrightarrow> m (a + of_nat i) = m' (a + of_nat i)) \<Longrightarrow> load64 m a = load64 m' a"
  unfolding load64_def by (metis load_le_cong)

lemma length_le_bytes [simp]: "length (le_bytes n v) = n"
  by (induction n arbitrary: v) auto

lemma le_val_bytes [simp]: "le_val (le_bytes n v) = v mod 256 ^ n"
proof (induction n arbitrary: v)
  case (Suc n)
  have "unat (of_nat (v mod 256) :: u8) = v mod 256" by (simp add: unat_of_nat)
  then show ?case using Suc by (simp add: mod_mult2_eq)
qed simp

lemma le_bytes_val: "le_bytes (length bs) (le_val bs) = bs"
proof (induction bs)
  case (Cons b bs)
  obtain x where x: "unat b = x" "x < 256" using unat_u8_less by blast
  have "(x + 256 * le_val bs) mod 256 = x" "(x + 256 * le_val bs) div 256 = le_val bs" using x(2) by simp_all
  moreover have "of_nat x = b" using x(1) by auto
  ultimately show ?case using Cons x(1) by simp
qed simp

section \<open>Lemmas on the rounding macros\<close>

lemma low_masks: "(4095 :: u64) = mask 12" "(0x3FF :: u64) = mask 10" "(0x1FF :: u64) = mask 9"
  by (simp_all add: mask_eq_exp_minus_1)

lemma bit_low_masks:
  "bit (4095 :: u64) n \<longleftrightarrow> n < 12" "bit (0x3FF :: u64) n \<longleftrightarrow> n < 10" "bit (0x1FF :: u64) n \<longleftrightarrow> n < 9"
  unfolding low_masks by (auto simp only: bit_mask_iff possible_bit_word len_num1 len_bit0 len_bit1)

lemma PGROUNDDOWN_eq: "PGROUNDDOWN a = push_bit 12 (drop_bit 12 a)"
proof (rule bit_word_eqI)
  fix n
  assume "n < LENGTH(64)"
  have "PGROUNDDOWN a = a AND NOT 4095" by (simp add: PGROUNDDOWN_def)
  also have "bit (a AND NOT 4095) n = bit (push_bit 12 (drop_bit 12 a)) n"
    using \<open>n < LENGTH(64)\<close>
    unfolding bit_and_iff bit_not_iff bit_push_bit_iff bit_drop_bit_eq bit_low_masks by auto
  finally show "bit (PGROUNDDOWN a) n = bit (push_bit 12 (drop_bit 12 a)) n" .
qed

lemma PGROUNDUP_eq: "PGROUNDUP sz = PGROUNDDOWN (sz + 4095)"
  by (simp add: PGROUNDUP_def PGROUNDDOWN_def algebra_simps)

lemma unat_PGROUNDDOWN: "unat (PGROUNDDOWN a) = unat a div 4096 * 4096"
proof -
  have "unat a div 4096 * 4096 \<le> unat a" by simp
  then have "unat a div 4096 * 4096 < 18446744073709551616"
    using unat_u64_less [of a] by (rule le_less_trans)
  then show ?thesis
    by (simp add: PGROUNDDOWN_eq push_bit_eq_mult drop_bit_eq_div unat_word_ariths unat_div)
qed

lemma unat_PGROUNDUP:
  "unat (PGROUNDUP sz) = (if unat sz + 4095 < 2 ^ 64 then (unat sz + 4095) div 4096 * 4096 else 0)"
proof -
  have eq: "unat (PGROUNDUP sz) = unat (sz + 4095) div 4096 * 4096"
    by (simp add: PGROUNDUP_eq unat_PGROUNDDOWN)
  show ?thesis
  proof (cases "unat sz + 4095 < 2 ^ 64")
    case True
    then have "unat (sz + 4095) = unat sz + 4095" using unat_add_u64 [of sz 4095] by simp
    with True eq show ?thesis by simp
  next
    case False
    then have "unat (sz + 4095) = unat sz + 4095 - 2 ^ 64"
      by (simp add: unat_plus_if')
    moreover obtain x where "unat sz = x" "x < 18446744073709551616" using unat_u64_less by blast
    then have "unat sz + 4095 - 2 ^ 64 < 4096" by simp
    ultimately show ?thesis using False eq by simp
  qed
qed

lemma PGROUNDDOWN_aligned: "PGROUNDDOWN a mod 4096 = 0"
  by (simp add: word_unat_eq_iff unat_mod unat_PGROUNDDOWN)

lemma PGROUNDDOWN_le: "PGROUNDDOWN a \<le> a"
  by (simp add: word_le_nat_alt unat_PGROUNDDOWN)

lemma aligned_iff_unat: "(a :: u64) mod 4096 = 0 \<longleftrightarrow> 4096 dvd unat a"
  by (simp add: word_unat_eq_iff unat_mod dvd_eq_mod_eq_0)

lemma PGROUNDDOWN_id: "a mod 4096 = 0 \<Longrightarrow> PGROUNDDOWN a = a"
  by (simp add: word_unat_eq_iff [of "PGROUNDDOWN a"] unat_PGROUNDDOWN aligned_iff_unat)

section \<open>Lemmas on page-table entries and indices\<close>

lemma bit_small_flags: "flags AND NOT 0x3FF = 0 \<Longrightarrow> bit (flags :: u64) n \<Longrightarrow> n < 10"
proof (rule ccontr)
  assume f: "flags AND NOT 0x3FF = 0" "bit flags n" "\<not> n < 10"
  have "\<not> bit (0x3FF :: u64) n" using f(3) unfolding bit_low_masks .
  moreover have "n < 64" using f(2) by (rule bit_imp_le_length [where w = flags, simplified])
  ultimately have "bit (flags AND NOT 0x3FF) n" using f(2) unfolding bit_and_iff bit_not_iff by simp
  then show False using f(1) by simp
qed

lemma bit_aligned: "(pa :: u64) mod 4096 = 0 \<Longrightarrow> n < 12 \<Longrightarrow> \<not> bit pa n"
proof -
  assume "pa mod 4096 = 0" "n < 12"
  then have "PGROUNDDOWN pa = pa" by (simp add: PGROUNDDOWN_id)
  then have "pa = push_bit 12 (drop_bit 12 pa)" by (metis PGROUNDDOWN_eq)
  then have "bit pa n = bit (push_bit 12 (drop_bit 12 pa)) n" by simp
  then show ?thesis using \<open>n < 12\<close> by (simp add: bit_push_bit_iff)
qed

lemma PTE2PA_PA2PTE:
  assumes "pa mod 4096 = 0" "flags AND NOT 0x3FF = 0"
  shows "PTE2PA (PA2PTE pa OR flags) = pa"
proof (rule bit_word_eqI)
  fix n
  assume n: "n < LENGTH(64)"
  have "\<not> bit flags (n - 2)" if "12 \<le> n" using bit_small_flags [OF assms(2), of "n - 2"] that by linarith
  moreover have "12 \<le> n" if "bit pa n" using bit_aligned [OF assms(1), of n] that by linarith
  ultimately show "bit (PTE2PA (PA2PTE pa OR flags)) n = bit pa n"
    using n by (auto simp: PTE2PA_def PA2PTE_def bit_push_bit_iff bit_drop_bit_eq bit_or_iff)
qed

lemma PTE2PA_aligned: "PTE2PA pte mod 4096 = 0"
proof -
  have "4096 dvd unat (PTE2PA pte)"
  proof -
    have "unat (PTE2PA pte) = unat (drop_bit 10 pte) * 4096 mod 2 ^ 64"
      by (simp add: PTE2PA_def push_bit_eq_mult unat_word_ariths)
    moreover have "(4096 :: nat) dvd 2 ^ 64" by simp
    ultimately show ?thesis by (metis dvd_mod dvd_triv_right)
  qed
  then show ?thesis by (simp add: aligned_iff_unat)
qed

lemma PTE_FLAGS_PA2PTE:
  assumes "flags AND NOT 0x3FF = 0"
  shows "PTE_FLAGS (PA2PTE pa OR flags) = flags"
proof (rule bit_word_eqI)
  fix n
  assume n: "n < LENGTH(64)"
  show "bit (PTE_FLAGS (PA2PTE pa OR flags)) n = bit flags n"
    using n bit_small_flags [OF assms, of n]
    unfolding PTE_FLAGS_def PA2PTE_def bit_and_iff bit_or_iff bit_push_bit_iff bit_low_masks by auto
qed

lemma and_flag_PA2PTE:
  assumes "k < 10"
  shows "(PA2PTE pa OR flags) AND 2 ^ k = flags AND 2 ^ k"
proof (rule bit_word_eqI)
  fix n
  assume "n < LENGTH(64)"
  then show "bit ((PA2PTE pa OR flags) AND 2 ^ k) n = bit (flags AND 2 ^ k) n"
    using assms by (auto simp: PA2PTE_def bit_and_iff bit_or_iff bit_push_bit_iff bit_exp_iff)
qed

lemma bit_PX: "bit (PX l va) n \<longleftrightarrow> n < 9 \<and> bit va (12 + 9 * l + n)"
  unfolding PX_def PXSHIFT_def bit_and_iff bit_low_masks bit_drop_bit_eq by (auto simp: algebra_simps)

lemma unat_PX_less [simp]: "unat (PX l va) < 512"
proof -
  have "PX l va = take_bit 9 (drop_bit (PXSHIFT l) va)"
    unfolding PX_def low_masks take_bit_eq_mask ..
  then have "unat (PX l va) = take_bit 9 (unat (drop_bit (PXSHIFT l) va))"
    by (simp add: unsigned_take_bit_eq)
  then show ?thesis by (simp add: take_bit_eq_mod)
qed

lemma bit_below_MAXVA: "va < MAXVA \<Longrightarrow> bit va n \<Longrightarrow> n < 38"
proof (rule ccontr)
  assume va: "va < MAXVA" "bit va n" "\<not> n < 38"
  have "unat va < 2 ^ 38" using va(1) by (simp add: MAXVA_def word_less_nat_alt)
  then have "take_bit 38 (unat va) = unat va" by (simp add: take_bit_eq_mod)
  moreover have "bit (unat va) n" using va(2) by (simp add: bit_unsigned_iff)
  ultimately have "bit (take_bit 38 (unat va)) n" by simp
  then show False using va(3) by (simp add: bit_take_bit_iff)
qed

lemma PX_inj:
  assumes "va < MAXVA" "vb < MAXVA" "PX 0 va = PX 0 vb" "PX 1 va = PX 1 vb" "PX 2 va = PX 2 vb"
  shows "PGROUNDDOWN va = PGROUNDDOWN vb"
proof (rule bit_word_eqI)
  fix n
  assume n: "n < LENGTH(64)"
  have idx: "bit va (12 + 9 * l + k) = bit vb (12 + 9 * l + k)" if "l \<in> {0, 1, 2}" "k < 9" for l k
    using assms(3-5) that bit_PX [of l va k] bit_PX [of l vb k] by auto
  have "bit va n = bit vb n" if "12 \<le> n"
  proof -
    consider "n < 21" | "21 \<le> n" "n < 30" | "30 \<le> n" "n < 39" | "39 \<le> n" by linarith
    then show ?thesis
    proof cases
      case 1
      then show ?thesis using idx [of 0 "n - 12"] that by simp
    next
      case 2
      then show ?thesis using idx [of 1 "n - 21"] by simp
    next
      case 3
      then show ?thesis using idx [of 2 "n - 30"] by simp
    next
      case 4
      then show ?thesis using bit_below_MAXVA assms(1,2) by fastforce
    qed
  qed
  then show "bit (PGROUNDDOWN va) n = bit (PGROUNDDOWN vb) n"
    by (auto simp: PGROUNDDOWN_eq bit_push_bit_iff bit_drop_bit_eq)
qed

end
