(* ===== verification/Interfaces.thy ===== *)
theory Interfaces
  imports Xv6_Prelude
begin

text \<open>
  The contracts that several components of the kernel share, as locales. The laws are what a
  provider promises, the lemmas what its clients may use; each provider interprets the locale on its
  own definitions.

  \<^item> \<open>invariant_system\<close>: a state machine with an inductive invariant (spinlocks, the process
    table, the log, pipes).
  \<^item> \<open>slot_allocator\<close>: an allocator that hands out identifiers that are not in use (pages,
    disk blocks, files, descriptors).
  \<^item> \<open>bounded_fifo\<close>: a bounded queue of bytes (pipes, the UART transmit buffer).
  \<^item> \<open>lock_protocol\<close>: a lock that at most one owner holds (spinlocks and sleeplocks).
\<close>

section \<open>State machines with an inductive invariant\<close>

inductive reachable :: "('s \<Rightarrow> bool) \<Rightarrow> ('s \<Rightarrow> 's \<Rightarrow> bool) \<Rightarrow> 's \<Rightarrow> bool"
  for init :: "'s \<Rightarrow> bool" and step :: "'s \<Rightarrow> 's \<Rightarrow> bool" where
  reachable_init: "init s \<Longrightarrow> reachable init step s"
| reachable_step: "reachable init step s \<Longrightarrow> step s t \<Longrightarrow> reachable init step t"

locale invariant_system =
  fixes init :: "'s \<Rightarrow> bool"
    and step :: "'s \<Rightarrow> 's \<Rightarrow> bool"
    and inv :: "'s \<Rightarrow> bool"
  assumes inv_init: "init s \<Longrightarrow> inv s"
    and inv_step: "inv s \<Longrightarrow> step s t \<Longrightarrow> inv t"
begin

lemma reachable_inv: "reachable init step s \<Longrightarrow> inv s"
  by (induction rule: reachable.induct) (auto intro: inv_init inv_step)

lemma steps_inv: "step\<^sup>*\<^sup>* s t \<Longrightarrow> inv s \<Longrightarrow> inv t"
  by (induction rule: rtranclp_induct) (auto intro: inv_step)

end

section \<open>Allocators\<close>

text \<open>
  \<open>used s\<close> is the set of identifiers handed out and not given back, \<open>pool\<close> the identifiers
  there are. An allocation returns an unused identifier of the pool or, only when none is left,
  nothing; giving an identifier back makes exactly that one unused.
\<close>

locale slot_allocator =
  fixes alloc :: "'s \<Rightarrow> ('i \<times> 's) option"
    and free :: "'i \<Rightarrow> 's \<Rightarrow> 's"
    and used :: "'s \<Rightarrow> 'i set"
    and pool :: "'i set"
    and inv :: "'s \<Rightarrow> bool"
  assumes alloc_Some: "inv s \<Longrightarrow> alloc s = Some (i, s') \<Longrightarrow>
      i \<in> pool \<and> i \<notin> used s \<and> used s' = insert i (used s) \<and> inv s'"
    and alloc_None: "inv s \<Longrightarrow> alloc s = None \<Longrightarrow> pool \<subseteq> used s"
    and free_used: "inv s \<Longrightarrow> i \<in> used s \<Longrightarrow> used (free i s) = used s - {i} \<and> inv (free i s)"
    and used_pool: "inv s \<Longrightarrow> used s \<subseteq> pool"
begin

lemma alloc_distinct:
  assumes "inv s" "alloc s = Some (i, s1)" "alloc s1 = Some (j, s2)"
  shows "i \<noteq> j" "used s2 = {i, j} \<union> used s"
  using alloc_Some [OF assms(1,2)] alloc_Some [OF _ assms(3)] by auto

lemma alloc_succeeds:
  assumes "inv s" "used s \<noteq> pool"
  shows "\<exists>i s'. alloc s = Some (i, s')"
  using assms alloc_None used_pool by (cases "alloc s") fastforce+

lemma alloc_free_inverse:
  assumes "inv s" "alloc s = Some (i, s')"
  shows "used (free i s') = used s" "inv (free i s')"
  using alloc_Some [OF assms] free_used [of s' i] by auto

lemma alloc_after_free:
  assumes "inv s" "i \<in> used s"
  shows "\<exists>j s'. alloc (free i s) = Some (j, s')"
  using free_used [OF assms] used_pool [OF assms(1)] assms(2) alloc_succeeds [of "free i s"] by auto

text \<open>A run of allocations never hands out the same identifier twice.\<close>

fun alloc_many :: "nat \<Rightarrow> 's \<Rightarrow> ('i list \<times> 's) option" where
  "alloc_many 0 s = Some ([], s)"
| "alloc_many (Suc n) s =
     (case alloc s of None \<Rightarrow> None
      | Some (i, s') \<Rightarrow> map_option (\<lambda>(is, t). (i # is, t)) (alloc_many n s'))"

lemma alloc_many_distinct:
  "inv s \<Longrightarrow> alloc_many n s = Some (is, t) \<Longrightarrow>
     distinct is \<and> set is \<inter> used s = {} \<and> used t = set is \<union> used s \<and> inv t"
proof (induction n arbitrary: s "is")
  case (Suc n)
  then obtain i s' js where a: "alloc s = Some (i, s')" and m: "alloc_many n s' = Some (js, t)" and is_eq: "is = i # js"
    by (auto split: option.splits)
  note a' = alloc_Some [OF Suc.prems(1) a]
  from Suc.IH [OF _ m] a' show ?case by (auto simp: is_eq)
qed simp

end

section \<open>Bounded queues\<close>

text \<open>\<open>contents\<close> lists the queued items, oldest first; \<open>cap\<close> bounds their number.\<close>

locale bounded_fifo =
  fixes put :: "'a \<Rightarrow> 'q \<Rightarrow> 'q"
    and get :: "'q \<Rightarrow> 'a \<times> 'q"
    and full :: "'q \<Rightarrow> bool"
    and empty :: "'q \<Rightarrow> bool"
    and contents :: "'q \<Rightarrow> 'a list"
    and cap :: nat
    and inv :: "'q \<Rightarrow> bool"
  assumes full_iff: "inv q \<Longrightarrow> full q \<longleftrightarrow> length (contents q) = cap"
    and empty_iff: "inv q \<Longrightarrow> empty q \<longleftrightarrow> contents q = []"
    and bound: "inv q \<Longrightarrow> length (contents q) \<le> cap"
    and put_contents: "inv q \<Longrightarrow> \<not> full q \<Longrightarrow> inv (put x q) \<and> contents (put x q) = contents q @ [x]"
    and get_contents: "inv q \<Longrightarrow> \<not> empty q \<Longrightarrow> get q = (x, q') \<Longrightarrow>
        inv q' \<and> contents q = x # contents q'"
begin

text \<open>Putting a list of items while there is room appends them; taking them out gives them back.\<close>

fun put_all :: "'a list \<Rightarrow> 'q \<Rightarrow> 'q" where
  "put_all [] q = q"
| "put_all (x # xs) q = put_all xs (put x q)"

fun get_n :: "nat \<Rightarrow> 'q \<Rightarrow> 'a list \<times> 'q" where
  "get_n 0 q = ([], q)"
| "get_n (Suc n) q = (case get q of (x, q') \<Rightarrow> case get_n n q' of (xs, q'') \<Rightarrow> (x # xs, q''))"

lemma put_all_contents:
  "inv q \<Longrightarrow> length (contents q) + length xs \<le> cap \<Longrightarrow>
     inv (put_all xs q) \<and> contents (put_all xs q) = contents q @ xs"
proof (induction xs arbitrary: q)
  case (Cons x xs)
  then have "\<not> full q" using full_iff by auto
  then show ?case using put_contents [of q x] Cons by auto
qed simp

lemma get_n_contents:
  "inv q \<Longrightarrow> n \<le> length (contents q) \<Longrightarrow>
     inv (snd (get_n n q)) \<and> contents q = fst (get_n n q) @ contents (snd (get_n n q)) \<and>
     length (fst (get_n n q)) = n"
proof (induction n arbitrary: q)
  case (Suc n)
  obtain x q' where g: "get q = (x, q')" by fastforce
  have "\<not> empty q" using Suc.prems empty_iff by auto
  with get_contents [OF Suc.prems(1) _ g] have q': "inv q'" "contents q = x # contents q'" by auto
  then have "n \<le> length (contents q')" using Suc.prems(2) by simp
  from Suc.IH [OF q'(1) this] show ?case using q' g by (auto split: prod.splits)
qed simp

lemma put_get_roundtrip:
  assumes "inv q" "empty q" "length xs \<le> cap"
  shows "fst (get_n (length xs) (put_all xs q)) = xs"
    and "contents (snd (get_n (length xs) (put_all xs q))) = []"
proof -
  have "contents q = []" using assms empty_iff by blast
  with put_all_contents [of q xs] assms have p: "inv (put_all xs q)" "contents (put_all xs q) = xs" by auto
  let ?g = "get_n (length xs) (put_all xs q)"
  have "xs = fst ?g @ contents (snd ?g)" "length (fst ?g) = length xs"
    using get_n_contents [OF p(1), of "length xs"] p(2) by auto
  then show "fst ?g = xs" "contents (snd ?g) = []"
    by (metis append_Nil2 append_eq_append_conv)+
qed

end

section \<open>Locks\<close>

text \<open>
  \<open>acq p l\<close> is the lock after owner \<open>p\<close> took it, or nothing where \<open>p\<close> would wait;
  \<open>rel p l\<close> the lock after \<open>p\<close> gave it back, or nothing where that is an error.
\<close>

locale lock_protocol =
  fixes acq :: "'p \<Rightarrow> 'l \<Rightarrow> 'l option"
    and rel :: "'p \<Rightarrow> 'l \<Rightarrow> 'l option"
    and holds :: "'p \<Rightarrow> 'l \<Rightarrow> bool"
    and is_free :: "'l \<Rightarrow> bool"
  assumes acq_free: "acq p l = Some l' \<Longrightarrow> is_free l \<and> holds p l' \<and> \<not> is_free l'"
    and free_acq: "is_free l \<Longrightarrow> \<exists>l'. acq p l = Some l'"
    and rel_holds: "rel p l = Some l' \<Longrightarrow> holds p l \<and> is_free l'"
    and holds_rel: "holds p l \<Longrightarrow> \<exists>l'. rel p l = Some l'"
    and holds_unique: "holds p l \<Longrightarrow> holds q l \<Longrightarrow> p = q"
    and free_not_held: "is_free l \<Longrightarrow> \<not> holds p l"
begin

lemma exclusive: "acq p l = Some l' \<Longrightarrow> holds q l' \<longleftrightarrow> q = p"
  using acq_free holds_unique by blast

lemma held_blocks: "holds p l \<Longrightarrow> acq q l = None"
  using acq_free free_not_held by (cases "acq q l") blast+

lemma only_holder_releases: "holds p l \<Longrightarrow> rel q l \<noteq> None \<Longrightarrow> q = p"
  using rel_holds holds_unique by blast

lemma acq_rel_acq:
  assumes "acq p l = Some l1" "rel p l1 = Some l2"
  shows "\<exists>l3. acq q l2 = Some l3"
  using rel_holds [OF assms(2)] free_acq by blast

end

end
