(* ===== verification/Spinlock.thy ===== *)
theory Spinlock
  imports Interfaces
begin

text \<open>
  Spin locks and interrupt nesting, \<^verbatim>\<open>kernel/spinlock.c\<close> with \<^verbatim>\<open>intr_on\<close>, \<^verbatim>\<open>intr_off\<close>
  and \<^verbatim>\<open>intr_get\<close> of \<^verbatim>\<open>kernel/riscv.h\<close>.

  A CPU is the part of \<^verbatim>\<open>struct cpu\<close> the locks use, with the interrupt-enable bit of its
  \<^verbatim>\<open>sstatus\<close> register. \<open>acquire\<close> and \<open>release\<close> are the whole routines as one CPU runs them
  without interference: a lock that another CPU holds makes the caller \<open>Spin\<close>. The second part
  models the same two routines as they interleave on several CPUs, one memory access of the C code
  per step.

  Shown here: matched \<open>push_off\<close>/\<open>pop_off\<close> sequences restore the interrupt state and keep interrupts
  off in between, \<open>acquire\<close> and \<open>release\<close> meet the lock contract, at most one CPU is ever between
  \<open>acquire\<close> and \<open>release\<close>, and neither of the two panics can be reached by CPUs that call them in turn.
\<close>

section \<open>Definitions\<close>

text \<open>\<open>hart\<close> is the CPU's index in \<^verbatim>\<open>cpus[]\<close>, which \<^verbatim>\<open>mycpu()\<close> reads from \<^verbatim>\<open>tp\<close>.\<close>

record cpu =
  hart :: nat
  sie :: bool
  noff :: int
  intena :: bool

record spinlock =
  locked :: bool
  lname :: string
  lcpu :: "nat option"

definition intr_on :: "cpu \<Rightarrow> cpu" where
  "intr_on c = c\<lparr>sie := True\<rparr>"

definition intr_off :: "cpu \<Rightarrow> cpu" where
  "intr_off c = c\<lparr>sie := False\<rparr>"

definition intr_get :: "cpu \<Rightarrow> bool" where
  "intr_get c = sie c"

definition push_off :: "cpu \<Rightarrow> cpu" where
  "push_off c =
     (let old = intr_get c;
          c1 = intr_off c;
          c2 = (if noff c1 = 0 then c1\<lparr>intena := old\<rparr> else c1)
      in c2\<lparr>noff := noff c2 + 1\<rparr>)"

definition pop_off :: "cpu \<Rightarrow> cpu result" where
  "pop_off c =
     (if intr_get c then Inl (Panic ''pop_off - interruptible'')
      else if noff c < 1 then Inl (Panic ''pop_off'')
      else let c1 = c\<lparr>noff := noff c - 1\<rparr>
           in Inr (if noff c1 = 0 \<and> intena c1 then intr_on c1 else c1))"

definition initlock :: "string \<Rightarrow> spinlock" where
  "initlock name = \<lparr>locked = False, lname = name, lcpu = None\<rparr>"

definition holding :: "spinlock \<Rightarrow> cpu \<Rightarrow> bool" where
  "holding lk c \<longleftrightarrow> locked lk \<and> lcpu lk = Some (hart c)"

definition acquire :: "spinlock \<Rightarrow> cpu \<Rightarrow> (spinlock \<times> cpu) result" where
  "acquire lk c =
     (let c1 = push_off c in
      if holding lk c1 then Inl (Panic ''acquire'')
      else if locked lk then Inl Spin
      else Inr (lk\<lparr>locked := True, lcpu := Some (hart c1)\<rparr>, c1))"

definition release :: "spinlock \<Rightarrow> cpu \<Rightarrow> (spinlock \<times> cpu) result" where
  "release lk c =
     (if \<not> holding lk c then Inl (Panic ''release'')
      else andthen (pop_off c) (\<lambda>c1. Inr (lk\<lparr>lcpu := None, locked := False\<rparr>, c1)))"

subsection \<open>Interleaving\<close>

text \<open>Where a CPU is in \<open>acquire\<close> or \<open>release\<close>.\<close>

datatype lock_pc = Outside | Spinning | Swapped | Inside | CpuCleared

record lock_world =
  wlock :: spinlock
  wpc :: "nat \<Rightarrow> lock_pc"

text \<open>
  One step is one CPU \<open>h\<close> doing one access: the check of \<^verbatim>\<open>holding\<close>, one atomic swap of
  \<^verbatim>\<open>lk->locked\<close>, the store to \<^verbatim>\<open>lk->cpu\<close>, the check and store at the start of \<open>release\<close>,
  and the final atomic store of zero. The two panics are guards here; that they never stop a CPU is proved below.
\<close>

inductive lock_step :: "lock_world \<Rightarrow> lock_world \<Rightarrow> bool" where
  enter: "wpc w h = Outside \<Longrightarrow> \<not> (locked (wlock w) \<and> lcpu (wlock w) = Some h) \<Longrightarrow>
    lock_step w (w\<lparr>wpc := (wpc w)(h := Spinning)\<rparr>)"
| swap_busy: "wpc w h = Spinning \<Longrightarrow> locked (wlock w) \<Longrightarrow>
    lock_step w (w\<lparr>wlock := (wlock w)\<lparr>locked := True\<rparr>\<rparr>)"
| swap_free: "wpc w h = Spinning \<Longrightarrow> \<not> locked (wlock w) \<Longrightarrow>
    lock_step w (w\<lparr>wlock := (wlock w)\<lparr>locked := True\<rparr>, wpc := (wpc w)(h := Swapped)\<rparr>)"
| set_cpu: "wpc w h = Swapped \<Longrightarrow>
    lock_step w (w\<lparr>wlock := (wlock w)\<lparr>lcpu := Some h\<rparr>, wpc := (wpc w)(h := Inside)\<rparr>)"
| clear_cpu: "wpc w h = Inside \<Longrightarrow> locked (wlock w) \<and> lcpu (wlock w) = Some h \<Longrightarrow>
    lock_step w (w\<lparr>wlock := (wlock w)\<lparr>lcpu := None\<rparr>, wpc := (wpc w)(h := CpuCleared)\<rparr>)"
| unlock: "wpc w h = CpuCleared \<Longrightarrow>
    lock_step w (w\<lparr>wlock := (wlock w)\<lparr>locked := False\<rparr>, wpc := (wpc w)(h := Outside)\<rparr>)"

definition lock_world_init :: "lock_world \<Rightarrow> bool" where
  "lock_world_init w \<longleftrightarrow> (\<exists>name. wlock w = initlock name) \<and> wpc w = (\<lambda>_. Outside)"

text \<open>
  The CPUs that have swapped a one into the lock and not yet stored the zero: there is at most one,
  there is one exactly when \<open>locked\<close> is set, and \<open>lcpu\<close> names it exactly while it is inside.
\<close>

definition owns :: "lock_pc \<Rightarrow> bool" where
  "owns p \<longleftrightarrow> p \<in> {Swapped, Inside, CpuCleared}"

definition lock_inv :: "lock_world \<Rightarrow> bool" where
  "lock_inv w \<longleftrightarrow>
     (\<forall>h k. owns (wpc w h) \<longrightarrow> owns (wpc w k) \<longrightarrow> h = k) \<and>
     (locked (wlock w) \<longleftrightarrow> (\<exists>h. owns (wpc w h))) \<and>
     (\<forall>h. lcpu (wlock w) = Some h \<longleftrightarrow> wpc w h = Inside)"

subsection \<open>Sequences of push_off and pop_off\<close>

datatype irq_op = Push | Pop

fun run_irq :: "irq_op list \<Rightarrow> cpu \<Rightarrow> cpu result" where
  "run_irq [] c = Inr c"
| "run_irq (Push # ops) c = run_irq ops (push_off c)"
| "run_irq (Pop # ops) c = andthen (pop_off c) (run_irq ops)"

text \<open>Matched from nesting depth \<open>d\<close>: never more pops than pushes, and all undone at the end.\<close>

fun matched :: "nat \<Rightarrow> irq_op list \<Rightarrow> bool" where
  "matched d [] \<longleftrightarrow> d = 0"
| "matched d (Push # ops) \<longleftrightarrow> matched (Suc d) ops"
| "matched d (Pop # ops) \<longleftrightarrow> 0 < d \<and> matched (d - 1) ops"

section \<open>Lemmas\<close>

lemmas irq_defs = push_off_def pop_off_def intr_on_def intr_off_def intr_get_def

text \<open>The CPU state between kernel operations: interrupts are off while the nesting depth is positive.\<close>

definition cpu_ok :: "cpu \<Rightarrow> bool" where
  "cpu_ok c \<longleftrightarrow> 0 \<le> noff c \<and> (0 < noff c \<longrightarrow> \<not> sie c)"

lemma push_off_facts [simp]:
  "hart (push_off c) = hart c" "noff (push_off c) = noff c + 1" "\<not> sie (push_off c)"
  by (simp_all add: irq_defs Let_def)

lemma push_off_ok: "cpu_ok c \<Longrightarrow> cpu_ok (push_off c)"
  by (auto simp: cpu_ok_def)

lemma pop_off_push_off:
  assumes "cpu_ok c"
  shows "pop_off (push_off c) = Inr (c\<lparr>intena := (if noff c = 0 then sie c else intena c)\<rparr>)"
  using assms by (auto simp: irq_defs Let_def cpu_ok_def)

lemma acquire_free:
  "\<not> locked lk \<Longrightarrow> acquire lk c = Inr (lk\<lparr>locked := True, lcpu := Some (hart c)\<rparr>, push_off c)"
  by (simp add: acquire_def holding_def Let_def)

lemma acquire_Inr_iff:
  "acquire lk c = Inr r \<longleftrightarrow> \<not> locked lk \<and> r = (lk\<lparr>locked := True, lcpu := Some (hart c)\<rparr>, push_off c)"
  by (auto simp: acquire_def holding_def Let_def)

text \<open>
  A critical section that does not touch the lock or the CPU leaves the lock free and the CPU as it
  was, but for the saved interrupt state, which is only meaningful inside the section.
\<close>

definition after_section :: "cpu \<Rightarrow> cpu" where
  "after_section c = c\<lparr>intena := (if noff c = 0 then sie c else intena c)\<rparr>"

lemma after_section_facts [simp]:
  "hart (after_section c) = hart c" "noff (after_section c) = noff c" "sie (after_section c) = sie c"
  "cpu_ok (after_section c) = cpu_ok c" "after_section (after_section c) = after_section c"
  by (simp_all add: after_section_def cpu_ok_def)

lemma release_acquired:
  assumes "cpu_ok c"
  shows "release (lk\<lparr>locked := True, lcpu := Some (hart c)\<rparr>) (push_off c) =
     Inr (lk\<lparr>locked := False, lcpu := None\<rparr>, after_section c)"
  using assms by (simp add: release_def holding_def pop_off_push_off after_section_def)

lemma run_irq_matched:
  assumes "matched d ops" "noff c = int d" "if d = 0 then sie c = b else \<not> sie c \<and> intena c = b"
  shows "\<exists>c'. run_irq ops c = Inr c' \<and> sie c' = b \<and> noff c' = 0 \<and> hart c' = hart c"
  using assms
proof (induction d ops arbitrary: c rule: matched.induct)
  case (2 d ops)
  then show ?case using "2.IH" [of "push_off c"] by (auto simp: irq_defs Let_def split: if_splits)
next
  case (3 d ops)
  then obtain k where d: "d = Suc k" by (cases d) auto
  let ?c = "c\<lparr>noff := int k\<rparr>"
  have "pop_off c = Inr (if k = 0 \<and> b then intr_on ?c else ?c)"
    using "3.prems" d by (auto simp: irq_defs Let_def)
  moreover have "\<exists>c'. run_irq ops (if k = 0 \<and> b then intr_on ?c else ?c) = Inr c' \<and> sie c' = b \<and> noff c' = 0 \<and> hart c' = hart c"
    using "3.IH" [of "if k = 0 \<and> b then intr_on ?c else ?c"] "3.prems" d by (auto simp: intr_on_def split: if_splits)
  ultimately show ?case by simp
qed auto

text \<open>The lock contract.\<close>

definition spin_acq :: "nat \<Rightarrow> spinlock \<Rightarrow> spinlock option" where
  "spin_acq h lk = (case acquire lk \<lparr>hart = h, sie = True, noff = 0, intena = False\<rparr> of
     Inl _ \<Rightarrow> None | Inr (lk', _) \<Rightarrow> Some lk')"

definition spin_rel :: "nat \<Rightarrow> spinlock \<Rightarrow> spinlock option" where
  "spin_rel h lk = (case release lk \<lparr>hart = h, sie = False, noff = 1, intena = True\<rparr> of
     Inl _ \<Rightarrow> None | Inr (lk', _) \<Rightarrow> Some lk')"

interpretation spin: lock_protocol spin_acq spin_rel
    "\<lambda>h lk. locked lk \<and> lcpu lk = Some h" "\<lambda>lk. \<not> locked lk"
  by unfold_locales
    (auto simp: spin_acq_def spin_rel_def acquire_def release_def holding_def irq_defs Let_def split: if_splits)

lemma owns_simps [simp]:
  "owns Swapped" "owns Inside" "owns CpuCleared" "\<not> owns Outside" "\<not> owns Spinning"
  by (simp_all add: owns_def)

lemma lock_inv_init: "lock_world_init w \<Longrightarrow> lock_inv w"
  by (auto simp: lock_world_init_def lock_inv_def initlock_def)

lemma lock_inv_step: "lock_step w w' \<Longrightarrow> lock_inv w \<Longrightarrow> lock_inv w'"
proof (induction rule: lock_step.induct)
  case (enter w h)
  have same: "owns (((wpc w)(h := Spinning)) k) = owns (wpc w k)" "((wpc w)(h := Spinning)) k = Inside \<longleftrightarrow> wpc w k = Inside" for k
    using enter by auto
  from enter show ?case unfolding lock_inv_def by (simp add: same del: fun_upd_apply)
next
  case (swap_free w h)
  then have "\<forall>k. \<not> owns (wpc w k)" by (auto simp: lock_inv_def)
  with swap_free show ?case by (auto simp: lock_inv_def)
next
  case (set_cpu w h)
  then have other: "\<forall>k. k \<noteq> h \<longrightarrow> \<not> owns (wpc w k)" and self: "owns (wpc w h)"
    unfolding lock_inv_def by (metis owns_simps(1))+
  then have "\<forall>k. k \<noteq> h \<longrightarrow> wpc w k \<noteq> Inside" by (auto simp: owns_def)
  moreover have "locked (wlock w)" using set_cpu.prems self unfolding lock_inv_def by blast
  ultimately show ?case using set_cpu other by (auto simp: lock_inv_def)
next
  case (clear_cpu w h)
  then have "\<forall>k. k \<noteq> h \<longrightarrow> \<not> owns (wpc w k)" unfolding lock_inv_def by auto
  then have "\<forall>k. k \<noteq> h \<longrightarrow> wpc w k \<noteq> Inside" by (auto simp: owns_def)
  with clear_cpu show ?case by (auto simp: lock_inv_def)
next
  case (unlock w h)
  then have other: "\<forall>k. k \<noteq> h \<longrightarrow> \<not> owns (wpc w k)" unfolding lock_inv_def by auto
  then have "\<forall>k. k \<noteq> h \<longrightarrow> wpc w k \<noteq> Inside" by (auto simp: owns_def)
  with unlock other show ?case by (auto simp: lock_inv_def)
qed (auto simp: lock_inv_def)

interpretation locks: invariant_system lock_world_init lock_step lock_inv
  by unfold_locales (auto intro: lock_inv_init lock_inv_step)

section \<open>Properties\<close>

text \<open>
  C28. Mutual exclusion: in every state that CPUs running \<open>acquire\<close> and \<open>release\<close> on one lock can
  reach, at most one CPU is between the successful swap of \<open>acquire\<close> and the final store of
  \<open>release\<close>. Moreover a CPU that is about to call \<open>acquire\<close> never sees itself as the holder and
  one that is about to call \<open>release\<close> always does, so neither panic is reached.
\<close>

theorem spinlock_mutual_exclusion:
  assumes "reachable lock_world_init lock_step w"
  shows "(owns (wpc w h) \<and> owns (wpc w k) \<longrightarrow> h = k) \<and>
    (wpc w h = Outside \<longrightarrow> \<not> (locked (wlock w) \<and> lcpu (wlock w) = Some h)) \<and>
    (wpc w h = Inside \<longrightarrow> locked (wlock w) \<and> lcpu (wlock w) = Some h)"
proof -
  have inv: "lock_inv w" using assms by (rule locks.reachable_inv)
  have "owns (wpc w h) \<and> owns (wpc w k) \<longrightarrow> h = k"
    using inv unfolding lock_inv_def by blast
  moreover have "wpc w h = Outside \<longrightarrow> \<not> (locked (wlock w) \<and> lcpu (wlock w) = Some h)"
    using inv unfolding lock_inv_def by auto
  moreover have "wpc w h = Inside \<longrightarrow> locked (wlock w) \<and> lcpu (wlock w) = Some h"
    using inv unfolding lock_inv_def by (metis owns_simps(2))
  ultimately show ?thesis by blast
qed

definition lock_example :: lock_world where
  "lock_example = \<lparr>wlock = \<lparr>locked = True, lname = ''kmem'', lcpu = Some 1\<rparr>, wpc = (\<lambda>_. Outside)(1 := Inside, 2 := Spinning)\<rparr>"

lemma lock_example_reachable: "reachable lock_world_init lock_step lock_example"
proof -
  let ?l = "\<lambda>b c. \<lparr>locked = b, lname = ''kmem'', lcpu = c\<rparr>"
  let ?w = "\<lambda>l p. \<lparr>wlock = l, wpc = p\<rparr> :: lock_world"
  have 0: "reachable lock_world_init lock_step (?w (?l False None) (\<lambda>_. Outside))"
    by (rule reachable_init) (auto simp: lock_world_init_def initlock_def)
  have 1: "reachable lock_world_init lock_step (?w (?l False None) ((\<lambda>_. Outside)(1 := Spinning)))"
    using reachable_step [OF 0 lock_step.enter [of _ 1]] by simp
  have 2: "reachable lock_world_init lock_step (?w (?l False None) ((\<lambda>_. Outside)(1 := Spinning, 2 := Spinning)))"
    using reachable_step [OF 1 lock_step.enter [of _ 2]] by simp
  have 3: "reachable lock_world_init lock_step (?w (?l True None) ((\<lambda>_. Outside)(1 := Swapped, 2 := Spinning)))"
    using reachable_step [OF 2 lock_step.swap_free [of _ 1]] by (simp add: fun_upd_twist)
  show ?thesis
    using reachable_step [OF 3 lock_step.set_cpu [of _ 1]] by (simp add: fun_upd_twist lock_example_def)
qed

theorem spinlock_mutual_exclusion_witness:
  "owns (wpc lock_example 1) \<and> \<not> owns (wpc lock_example 2) \<and> lcpu (wlock lock_example) = Some 1"
  using spinlock_mutual_exclusion [OF lock_example_reachable, of 1 2]
  by (auto simp: lock_example_def)

text \<open>
  A matched sequence of \<open>push_off\<close> and \<open>pop_off\<close> calls on a CPU with nesting depth zero
  never panics and gives the CPU back with the interrupt-enable bit it had, whatever it was, and
  depth zero; and a sequence that pops once too often from depth zero does panic.
\<close>

theorem push_pop_matched:
  assumes "noff c = 0" "matched 0 ops"
  shows "(\<exists>c'. run_irq ops c = Inr c' \<and> sie c' = sie c \<and> noff c' = 0) \<and>
    (\<not> sie c \<longrightarrow> run_irq [Pop] c = Inl (Panic ''pop_off''))"
  using run_irq_matched [OF assms(2), of c "sie c"] assms(1) by (auto simp: irq_defs)

theorem push_pop_matched_witness:
  "\<exists>c'. run_irq [Push, Push, Pop, Pop] \<lparr>hart = 0, sie = True, noff = 0, intena = False\<rparr> = Inr c' \<and> sie c'"
  using push_pop_matched [of "\<lparr>hart = 0, sie = True, noff = 0, intena = False\<rparr>" "[Push, Push, Pop, Pop]"] by auto

text \<open>
  \<open>acquire\<close> followed by \<open>release\<close> on a free lock succeeds, gives the lock back free and
  leaves the CPU's interrupt state and nesting depth as they were; inside, interrupts are off and
  the CPU is the holder, a second \<open>acquire\<close> by the same CPU panics, one by another CPU spins, and a
  \<open>release\<close> by another CPU panics.
\<close>

theorem acquire_release:
  assumes "\<not> locked lk" "cpu_ok c"
  shows "\<exists>lk1 c1. acquire lk c = Inr (lk1, c1) \<and> holding lk1 c1 \<and> \<not> sie c1 \<and>
      acquire lk1 c1 = Inl (Panic ''acquire'') \<and>
      (\<forall>d. hart d \<noteq> hart c \<longrightarrow> acquire lk1 d = Inl Spin \<and> release lk1 d = Inl (Panic ''release'')) \<and>
      (\<exists>lk2 c2. release lk1 c1 = Inr (lk2, c2) \<and> \<not> locked lk2 \<and> sie c2 = sie c \<and> noff c2 = noff c)"
proof -
  let ?lk = "lk\<lparr>locked := True, lcpu := Some (hart c)\<rparr>"
  have a: "acquire lk c = Inr (?lk, push_off c)" using assms(1) by (rule acquire_free)
  have r: "release ?lk (push_off c) = Inr (lk\<lparr>locked := False, lcpu := None\<rparr>, after_section c)"
    using assms(2) by (rule release_acquired)
  have "holding ?lk (push_off c)" "acquire ?lk (push_off c) = Inl (Panic ''acquire'')"
    by (simp_all add: holding_def acquire_def Let_def)
  moreover have "acquire ?lk d = Inl Spin \<and> release ?lk d = Inl (Panic ''release'')" if "hart d \<noteq> hart c" for d
    using that by (simp add: holding_def acquire_def release_def Let_def)
  ultimately show ?thesis using a r by (intro exI [of _ ?lk] exI [of _ "push_off c"]) auto
qed

theorem acquire_release_witness:
  "\<exists>lk1 c1. acquire (initlock ''x'') \<lparr>hart = 3, sie = True, noff = 0, intena = False\<rparr> = Inr (lk1, c1) \<and> holding lk1 c1"
  using acquire_release [of "initlock ''x''" "\<lparr>hart = 3, sie = True, noff = 0, intena = False\<rparr>"]
  by (auto simp: initlock_def cpu_ok_def)

end
