(* ===== verification/Kalloc.thy ===== *)
theory Kalloc
  imports Phys_Mem Spinlock
begin

text \<open>
  The physical page allocator, \<^verbatim>\<open>kernel/kalloc.c\<close>. The free pages form a list threaded
  through the pages themselves: the first eight bytes of a free page hold the address of the next
  one (\<^verbatim>\<open>struct run\<close>). The state is the memory, the list head \<^verbatim>\<open>kmem.freelist\<close>, the lock
  \<^verbatim>\<open>kmem.lock\<close> and the CPU that runs the code. The symbol \<^verbatim>\<open>end\<close>, the first address after the
  kernel, is placed by the linker: it is the parameter \<open>kend\<close>.

  Shown here: the free list stays a list of distinct pages of the allocator's range; \<open>kfree\<close>
  pushes the page, \<open>kalloc\<close> pops one and returns 0 exactly when there is none; no other page is
  written; booting frees every whole page of the range; and the allocator meets the contract
  \<open>slot_allocator\<close>.
\<close>

section \<open>Definitions\<close>

record kst =
  kcpu :: cpu
  kmem_lock :: spinlock
  freelist :: u64
  ram :: mem

definition kfree :: "u64 \<Rightarrow> u64 \<Rightarrow> 'z kst_scheme \<Rightarrow> 'z kst_scheme result" where
  "kfree kend pa s =
     (if pa mod PGSIZE \<noteq> 0 \<or> pa < kend \<or> pa \<ge> PHYSTOP then Inl (Panic ''kfree'')
      else
        let s1 = s\<lparr>ram := memset (ram s) pa 1 4096\<rparr> in
        andthen (acquire (kmem_lock s1) (kcpu s1)) (\<lambda>(lk, c).
        let s2 = s1\<lparr>kmem_lock := lk, kcpu := c\<rparr>;
            s3 = s2\<lparr>ram := store64 (ram s2) pa (freelist s2)\<rparr>;
            s4 = s3\<lparr>freelist := pa\<rparr> in
        andthen (release (kmem_lock s4) (kcpu s4)) (\<lambda>(lk, c).
        Inr (s4\<lparr>kmem_lock := lk, kcpu := c\<rparr>))))"

definition kalloc :: "'z kst_scheme \<Rightarrow> (u64 \<times> 'z kst_scheme) result" where
  "kalloc s =
     andthen (acquire (kmem_lock s) (kcpu s)) (\<lambda>(lk, c).
     let s1 = s\<lparr>kmem_lock := lk, kcpu := c\<rparr>;
         r = freelist s1;
         s2 = (if r \<noteq> 0 then s1\<lparr>freelist := load64 (ram s1) r\<rparr> else s1) in
     andthen (release (kmem_lock s2) (kcpu s2)) (\<lambda>(lk, c).
     let s3 = s2\<lparr>kmem_lock := lk, kcpu := c\<rparr> in
     Inr (r, if r \<noteq> 0 then s3\<lparr>ram := memset (ram s3) r 5 4096\<rparr> else s3)))"

lemma kfree_below_PHYSTOP: "kfree kend pa s = Inr s' \<Longrightarrow> pa < PHYSTOP"
  by (auto simp: kfree_def split: if_splits)

text \<open>The loop of \<^verbatim>\<open>freerange\<close>: it ends because \<open>kfree\<close> panics on an address past \<^verbatim>\<open>PHYSTOP\<close>.\<close>

function freerange_loop :: "u64 \<Rightarrow> u64 \<Rightarrow> u64 \<Rightarrow> 'z kst_scheme \<Rightarrow> 'z kst_scheme result" where
  "freerange_loop kend p pa_end s =
     (if p + PGSIZE \<le> pa_end
      then andthen (kfree kend p s) (\<lambda>s'. freerange_loop kend (p + PGSIZE) pa_end s')
      else Inr s)"
  by pat_completeness auto
termination
proof (relation "measure (\<lambda>(kend, p, pa_end, s). 2 ^ 64 - unat p)")
  fix kend p pa_end :: u64 and s s' :: "'z kst_scheme"
  assume "kfree kend p s = Inr s'"
  then have "p < PHYSTOP" by (rule kfree_below_PHYSTOP)
  then have "unat p < 2281701376" by (simp add: word_less_nat_alt)
  then have "unat (p + 4096) = unat p + 4096" using unat_add_u64 [of p 4096] by simp
  then show "((kend, p + PGSIZE, pa_end, s'), (kend, p, pa_end, s)) \<in> measure (\<lambda>(kend, p, pa_end, s). 2 ^ 64 - unat p)"
    using \<open>unat p < 2281701376\<close> by simp
qed simp

declare freerange_loop.simps [simp del]

definition freerange :: "u64 \<Rightarrow> u64 \<Rightarrow> u64 \<Rightarrow> 'z kst_scheme \<Rightarrow> 'z kst_scheme result" where
  "freerange kend pa_start pa_end s = freerange_loop kend (PGROUNDUP pa_start) pa_end s"

definition kinit :: "u64 \<Rightarrow> 'z kst_scheme \<Rightarrow> 'z kst_scheme result" where
  "kinit kend s = freerange kend kend PHYSTOP (s\<lparr>kmem_lock := initlock ''kmem''\<rparr>)"

subsection \<open>The free list\<close>

text \<open>The pages on the list that starts at \<open>r\<close>.\<close>

fun flist :: "mem \<Rightarrow> u64 \<Rightarrow> u64 list \<Rightarrow> bool" where
  "flist m r [] \<longleftrightarrow> r = 0"
| "flist m r (p # ps) \<longleftrightarrow> r = p \<and> p \<noteq> 0 \<and> flist m (load64 m p) ps"

definition page_ok :: "u64 \<Rightarrow> u64 \<Rightarrow> bool" where
  "page_ok kend p \<longleftrightarrow> p mod PGSIZE = 0 \<and> kend \<le> p \<and> p < PHYSTOP"

definition kinv :: "u64 \<Rightarrow> 'z kst_scheme \<Rightarrow> u64 list \<Rightarrow> bool" where
  "kinv kend s ps \<longleftrightarrow>
     0 < kend \<and> kend \<le> PHYSTOP \<and>
     flist (ram s) (freelist s) ps \<and> distinct ps \<and> (\<forall>p \<in> set ps. page_ok kend p) \<and>
     \<not> locked (kmem_lock s) \<and> cpu_ok (kcpu s)"

section \<open>Lemmas\<close>

text \<open>The bytes of the page at \<open>p\<close>.\<close>

definition in_page :: "u64 \<Rightarrow> u64 \<Rightarrow> bool" where
  "in_page p x \<longleftrightarrow> in_range p 4096 x"

lemma page_bound: "p < PHYSTOP \<Longrightarrow> i \<le> 4096 \<Longrightarrow> unat (p + of_nat i) = unat p + i"
  by (simp add: word_less_nat_alt unat_add_u64)

lemma in_page_unique:
  assumes "p mod PGSIZE = 0" "q mod PGSIZE = 0" "p < PHYSTOP" "q < PHYSTOP" "in_page p x" "in_page q x"
  shows "p = q"
proof -
  obtain i j where i: "i < 4096" "x = p + of_nat i" and j: "j < 4096" "x = q + of_nat j"
    using assms(5,6) by (auto simp: in_page_def in_range_iff)
  have "unat p + i = unat q + j"
    using page_bound [OF assms(3), of i] page_bound [OF assms(4), of j] i j by simp
  moreover obtain a b where "unat p = 4096 * a" "unat q = 4096 * b"
    using assms(1,2) by (auto simp: aligned_iff_unat elim!: dvdE)
  ultimately have "unat p = unat q" using mult_add_unique(1) [OF i(1) j(1)] by simp
  then show ?thesis by (simp add: word_unat_eq_iff)
qed

lemma flist_cong:
  "(\<And>p i. p \<in> set ps \<Longrightarrow> i < 8 \<Longrightarrow> m (p + of_nat i) = m' (p + of_nat i)) \<Longrightarrow> flist m r ps = flist m' r ps"
proof (induction ps arbitrary: r)
  case (Cons p ps)
  have "load64 m p = load64 m' p" by (rule load64_cong) (use Cons.prems in auto)
  then show ?case using Cons by auto
qed simp

lemma flist_unique: "flist m r ps \<Longrightarrow> flist m r qs \<Longrightarrow> ps = qs"
  by (induction ps arbitrary: r qs) (case_tac qs; auto)+

lemma page_ok_D: "page_ok kend p \<Longrightarrow> p mod PGSIZE = 0 \<and> p < PHYSTOP"
  by (simp add: page_ok_def)

text \<open>A write inside one page of the range is not seen by the list links of other pages.\<close>

lemma flist_other_page:
  assumes "\<forall>q \<in> set ps. page_ok kend q" "page_ok kend p" "p \<notin> set ps"
    and "\<And>x. \<not> in_page p x \<Longrightarrow> m' x = m x"
  shows "flist m' r ps = flist m r ps"
proof (rule flist_cong)
  fix q i assume q: "q \<in> set ps" and i: "i < (8 :: nat)"
  have "in_page q (q + of_nat i)" using i by (simp add: in_page_def)
  moreover have "q \<noteq> p" using q assms(3) by auto
  ultimately have "\<not> in_page p (q + of_nat i)"
    using in_page_unique [of p q] assms(1,2) q page_ok_D by blast
  then show "m' (q + of_nat i) = m (q + of_nat i)" by (rule assms(4))
qed

lemma kfree_memory:
  assumes "\<not> in_page pa x"
  shows "store64 (memset m pa 1 4096) pa w x = m x"
proof -
  have "\<not> in_range pa 8 x" using assms by (auto simp: in_page_def in_range_def)
  then show ?thesis using assms by (simp add: store64_other memset_apply in_page_def)
qed

text \<open>The state after \<open>kfree\<close> and \<open>kalloc\<close> on a free lock.\<close>

lemma kfree_eq:
  assumes "page_ok kend pa" "\<not> locked (kmem_lock s)" "cpu_ok (kcpu s)"
  shows "kfree kend pa s = Inr (s\<lparr>ram := store64 (memset (ram s) pa 1 4096) pa (freelist s), freelist := pa,
           kmem_lock := (kmem_lock s)\<lparr>locked := False, lcpu := None\<rparr>, kcpu := after_section (kcpu s)\<rparr>)"
proof -
  have "\<not> (pa mod PGSIZE \<noteq> 0 \<or> pa < kend \<or> pa \<ge> PHYSTOP)"
    using assms(1) by (auto simp: page_ok_def)
  then show ?thesis
    using assms(2,3) by (simp add: kfree_def acquire_free release_acquired Let_def)
qed

lemma kalloc_eq:
  assumes "\<not> locked (kmem_lock s)" "cpu_ok (kcpu s)"
  shows "kalloc s = Inr (freelist s, if freelist s = 0
      then s\<lparr>kmem_lock := (kmem_lock s)\<lparr>locked := False, lcpu := None\<rparr>, kcpu := after_section (kcpu s)\<rparr>
      else s\<lparr>kmem_lock := (kmem_lock s)\<lparr>locked := False, lcpu := None\<rparr>, kcpu := after_section (kcpu s),
             freelist := load64 (ram s) (freelist s), ram := memset (ram s) (freelist s) 5 4096\<rparr>)"
  using assms by (simp add: kalloc_def acquire_free release_acquired Let_def)

lemma kfree_spec:
  assumes "kinv kend s ps" "page_ok kend p" "p \<notin> set ps"
  shows "\<exists>s'. kfree kend p s = Inr s' \<and> kinv kend s' (p # ps) \<and> (\<forall>x. \<not> in_page p x \<longrightarrow> ram s' x = ram s x)"
proof -
  let ?m = "store64 (memset (ram s) p 1 4096) p (freelist s)"
  let ?s = "s\<lparr>ram := ?m, freelist := p,
           kmem_lock := (kmem_lock s)\<lparr>locked := False, lcpu := None\<rparr>, kcpu := after_section (kcpu s)\<rparr>"
  have "kfree kend p s = Inr ?s" using assms by (simp add: kfree_eq kinv_def)
  moreover have "p \<noteq> 0" using assms(1,2) by (auto simp: kinv_def page_ok_def)
  moreover have "flist ?m (freelist s) ps = flist (ram s) (freelist s) ps"
    using assms by (intro flist_other_page [of _ kend p]) (auto simp: kinv_def kfree_memory)
  ultimately show ?thesis
    using assms by (intro exI [of _ ?s]) (auto simp: kinv_def kfree_memory)
qed

lemma kalloc_spec:
  assumes "kinv kend s ps"
  shows "\<exists>r s'. kalloc s = Inr (r, s') \<and>
    (case ps of [] \<Rightarrow> r = 0 \<and> kinv kend s' [] \<and> ram s' = ram s
     | p # qs \<Rightarrow> r = p \<and> kinv kend s' qs \<and>
         (\<forall>x. ram s' x = (if in_page p x then 5 else ram s x)))"
proof (cases ps)
  case Nil
  then show ?thesis using assms by (auto simp: kalloc_eq kinv_def)
next
  case (Cons p qs)
  let ?m = "memset (ram s) p 5 4096"
  have "flist ?m (load64 (ram s) p) qs = flist (ram s) (load64 (ram s) p) qs"
    using assms Cons by (intro flist_other_page [of _ kend p]) (auto simp: kinv_def memset_apply in_page_def)
  then show ?thesis using assms Cons
    by (auto simp: kalloc_eq kinv_def memset_apply in_page_def)
qed

lemma aligned_less_step:
  assumes "p mod 4096 = 0" "q mod 4096 = 0" "p \<le> PHYSTOP" "q \<le> PHYSTOP"
  shows "(p :: u64) < q \<longleftrightarrow> p + 4096 \<le> q"
    and "unat p \<le> 2281701376 \<Longrightarrow> unat (p + 4096) = unat p + 4096"
proof -
  have b: "unat p \<le> 2281701376" using assms(3) by (simp add: word_le_nat_alt)
  then have u: "unat (p + 4096) = unat p + 4096" using unat_add_u64 [of p 4096] by simp
  then show "unat p \<le> 2281701376 \<Longrightarrow> unat (p + 4096) = unat p + 4096" by simp
  obtain a b where "unat p = 4096 * a" "unat q = 4096 * b"
    using assms(1,2) by (auto simp: aligned_iff_unat elim!: dvdE)
  moreover have "4096 * a + 4096 = 4096 * (a + 1)" by simp
  ultimately show "p < q \<longleftrightarrow> p + 4096 \<le> q"
    unfolding word_less_nat_alt word_le_nat_alt u by (simp only: mult_less_cancel1 mult_le_cancel1) auto
qed

lemma freerange_loop_spec:
  assumes "kinv kend s ps" "p mod 4096 = 0" "kend \<le> p" "p \<le> PHYSTOP"
    "set ps = {q. page_ok kend q \<and> q < p}"
  shows "\<exists>s' ps'. freerange_loop kend p PHYSTOP s = Inr s' \<and> kinv kend s' ps' \<and> set ps' = {q. page_ok kend q}"
  using assms
proof (induction "2281701376 - unat p" arbitrary: p s ps rule: less_induct)
  case less
  have top: "(PHYSTOP :: u64) mod 4096 = 0" by simp
  note step = aligned_less_step [OF less.prems(2) top less.prems(4) order_refl]
  show ?case
  proof (cases "p < PHYSTOP")
    case True
    then have pg: "page_ok kend p" using less.prems by (simp add: page_ok_def)
    moreover have "p \<notin> set ps" using less.prems(5) by simp
    ultimately obtain s' where f: "kfree kend p s = Inr s'" and k: "kinv kend s' (p # ps)"
      using kfree_spec [OF less.prems(1)] by blast
    have lt: "unat p < 2281701376" using True by (simp add: word_less_nat_alt)
    have u: "unat (p + 4096) = unat p + 4096" using step(2) lt by simp
    have al: "(p + 4096) mod 4096 = 0" using less.prems(2) by (simp add: aligned_iff_unat u)
    have le: "kend \<le> p + 4096" using less.prems(3) by (simp add: word_le_nat_alt u)
    have "q < p + 4096 \<longleftrightarrow> q < p \<or> q = p" if "page_ok kend q" for q
    proof -
      have "q mod 4096 = 0" "q \<le> PHYSTOP" using that by (auto simp: page_ok_def)
      from aligned_less_step(1) [OF less.prems(2) this(1) less.prems(4) this(2)]
      show ?thesis by (metis linorder_not_less order_le_less)
    qed
    then have "set (p # ps) = {q. page_ok kend q \<and> q < p + 4096}"
      using less.prems(5) pg by auto
    moreover have "2281701376 - unat (p + 4096) < 2281701376 - unat p" using u lt by simp
    ultimately have "\<exists>t ps'. freerange_loop kend (p + 4096) PHYSTOP s' = Inr t \<and> kinv kend t ps' \<and> set ps' = {q. page_ok kend q}"
      using less.hyps [OF _ k al le] step(1) True by blast
    then show ?thesis using True step(1) f by (subst freerange_loop.simps) auto
  next
    case False
    then have "p = PHYSTOP" using less.prems(4) by simp
    then show ?thesis using less.prems by (subst freerange_loop.simps) (auto simp: page_ok_def)
  qed
qed

lemma PGROUNDUP_least:
  assumes "kend \<le> PHYSTOP" "q mod 4096 = 0" "kend \<le> q"
  shows "PGROUNDUP kend \<le> q" "kend \<le> PGROUNDUP kend" "PGROUNDUP kend mod 4096 = 0"
proof -
  have k: "unat kend \<le> 2281701376" using assms(1) by (simp add: word_le_nat_alt)
  then have u: "unat (PGROUNDUP kend) = (unat kend + 4095) div 4096 * 4096" by (simp add: unat_PGROUNDUP)
  obtain a where a: "unat q = 4096 * a" using assms(2) by (auto simp: aligned_iff_unat elim!: dvdE)
  have "unat kend \<le> 4096 * a" using assms(3) a by (simp add: word_le_nat_alt)
  then have "(unat kend + 4095) div 4096 * 4096 \<le> 4096 * a" using round_up_bounds(2) [of 4096 "unat kend" a] by simp
  then show "PGROUNDUP kend \<le> q" by (simp add: word_le_nat_alt u a)
  have "unat kend \<le> (unat kend + 4095) div 4096 * 4096" using round_up_bounds(1) [of 4096 "unat kend"] by simp
  then show "kend \<le> PGROUNDUP kend" by (simp add: word_le_nat_alt u)
  show "PGROUNDUP kend mod 4096 = 0" by (simp add: aligned_iff_unat u)
qed

subsection \<open>The allocator contract\<close>

definition page_alloc :: "'z kst_scheme \<Rightarrow> (u64 \<times> 'z kst_scheme) option" where
  "page_alloc s = (case kalloc s of Inl _ \<Rightarrow> None | Inr (r, s') \<Rightarrow> if r = 0 then None else Some (r, s'))"

definition page_free :: "u64 \<Rightarrow> u64 \<Rightarrow> 'z kst_scheme \<Rightarrow> 'z kst_scheme" where
  "page_free kend p s = (case kfree kend p s of Inl _ \<Rightarrow> s | Inr s' \<Rightarrow> s')"

text \<open>The pages of the range that are not on the free list.\<close>

definition pages_used :: "u64 \<Rightarrow> 'z kst_scheme \<Rightarrow> u64 set" where
  "pages_used kend s = {p. page_ok kend p \<and> (\<forall>ps. kinv kend s ps \<longrightarrow> p \<notin> set ps)}"

lemma pages_used_eq: "kinv kend s ps \<Longrightarrow> pages_used kend s = {p. page_ok kend p} - set ps"
proof -
  assume k: "kinv kend s ps"
  then have "kinv kend s qs \<longleftrightarrow> qs = ps" for qs
    using flist_unique [of "ram s" "freelist s" qs ps] by (auto simp: kinv_def)
  then show ?thesis by (auto simp: pages_used_def)
qed

interpretation pages: slot_allocator page_alloc "page_free kend" "pages_used kend" "{p. page_ok kend p}"
    "\<lambda>s. \<exists>ps. kinv kend s ps" for kend
proof unfold_locales
  fix s s' :: "'z kst_scheme" and i
  assume "\<exists>ps. kinv kend s ps" and a: "page_alloc s = Some (i, s')"
  then obtain ps where k: "kinv kend s ps" by blast
  then have "ps \<noteq> []" using a kalloc_spec [OF k] by (auto simp: page_alloc_def split: if_splits)
  then obtain p qs where ps: "ps = p # qs" by (cases ps) auto
  then have "i = p" "kinv kend s' qs"
    using a kalloc_spec [OF k] by (auto simp: page_alloc_def split: if_splits)
  then show "i \<in> {p. page_ok kend p} \<and> i \<notin> pages_used kend s \<and>
      pages_used kend s' = insert i (pages_used kend s) \<and> (\<exists>ps. kinv kend s' ps)"
    using pages_used_eq [OF k] pages_used_eq [of kend s' qs] k ps by (auto simp: kinv_def [of kend s])
next
  fix s :: "'z kst_scheme"
  assume "\<exists>ps. kinv kend s ps" and a: "page_alloc s = None"
  then obtain ps where k: "kinv kend s ps" by blast
  have "ps = []"
  proof (cases ps)
    case (Cons p qs)
    then have "p \<noteq> 0" using k by (auto simp: kinv_def)
    then show ?thesis using a kalloc_spec [OF k] Cons by (auto simp: page_alloc_def)
  qed
  then show "{p. page_ok kend p} \<subseteq> pages_used kend s" using k by (auto simp: pages_used_eq)
next
  fix s :: "'z kst_scheme" and i
  assume "\<exists>ps. kinv kend s ps" and i: "i \<in> pages_used kend s"
  then obtain ps where k: "kinv kend s ps" by blast
  then have "page_ok kend i" "i \<notin> set ps" using i by (auto simp: pages_used_eq)
  then obtain s' where "kfree kend i s = Inr s'" "kinv kend s' (i # ps)" using kfree_spec [OF k] by blast
  then have "kinv kend (page_free kend i s) (i # ps)" by (simp add: page_free_def)
  then show "pages_used kend (page_free kend i s) = pages_used kend s - {i} \<and> (\<exists>ps. kinv kend (page_free kend i s) ps)"
    using k by (auto simp: pages_used_eq)
qed (auto simp: pages_used_def)

section \<open>Properties\<close>

text \<open>
  C22. The page allocator keeps its free list well formed. From a state whose free list holds the
  distinct pages \<open>ps\<close> of the allocator's range, \<open>kfree\<close> of a page of the range that is not on
  the list returns with the list \<open>p # ps\<close>; \<open>kalloc\<close> returns the first page of the list and
  leaves the rest, or returns 0 when the list is empty; \<open>kfree\<close> of an address that is not a
  page of the range panics. Neither writes outside the page it handles, and the lock is free again.
\<close>

theorem kalloc_kfree_correct:
  assumes "kinv kend s ps"
  shows "(page_ok kend p \<and> p \<notin> set ps \<longrightarrow> (\<exists>s'. kfree kend p s = Inr s' \<and> kinv kend s' (p # ps) \<and>
      (\<forall>x. \<not> in_page p x \<longrightarrow> ram s' x = ram s x))) \<and>
    (\<not> page_ok kend p \<longrightarrow> kfree kend p s = Inl (Panic ''kfree'')) \<and>
    (\<exists>r s'. kalloc s = Inr (r, s') \<and> (if ps = [] then r = 0 \<and> kinv kend s' []
      else r = hd ps \<and> kinv kend s' (tl ps)) \<and> (\<forall>x. \<not> in_page r x \<longrightarrow> ram s' x = ram s x))"
proof (intro conjI)
  show "page_ok kend p \<and> p \<notin> set ps \<longrightarrow> (\<exists>s'. kfree kend p s = Inr s' \<and> kinv kend s' (p # ps) \<and>
      (\<forall>x. \<not> in_page p x \<longrightarrow> ram s' x = ram s x))"
    using kfree_spec [OF assms] by blast
  show "\<not> page_ok kend p \<longrightarrow> kfree kend p s = Inl (Panic ''kfree'')"
    by (auto simp: kfree_def page_ok_def)
  show "\<exists>r s'. kalloc s = Inr (r, s') \<and> (if ps = [] then r = 0 \<and> kinv kend s' []
      else r = hd ps \<and> kinv kend s' (tl ps)) \<and> (\<forall>x. \<not> in_page r x \<longrightarrow> ram s' x = ram s x)"
    using kalloc_spec [OF assms] by (cases ps) auto
qed

text \<open>
  Booting frees every page: \<open>kinit\<close> on an empty list returns normally, and afterwards the free list holds
  exactly the page-aligned addresses between the end of the kernel and \<^verbatim>\<open>PHYSTOP\<close>, each once.
\<close>

theorem kinit_frees_all:
  assumes "0 < kend" "kend \<le> PHYSTOP" "freelist s = 0" "cpu_ok (kcpu s)"
  shows "\<exists>s' ps. kinit kend s = Inr s' \<and> kinv kend s' ps \<and> set ps = {p. page_ok kend p}"
proof -
  let ?s = "s\<lparr>kmem_lock := initlock ''kmem''\<rparr>"
  have k: "kinv kend ?s []" using assms by (simp add: kinv_def initlock_def)
  have "(PHYSTOP :: u64) mod 4096 = 0" by simp
  note up = PGROUNDUP_least [OF assms(2) this assms(2)]
  have "\<not> q < PGROUNDUP kend" if "page_ok kend q" for q
    using that PGROUNDUP_least(1) [OF assms(2), of q] by (auto simp: page_ok_def)
  then have "set [] = {q. page_ok kend q \<and> q < PGROUNDUP kend}" by auto
  from freerange_loop_spec [OF k up(3) up(2) up(1) this] show ?thesis
    by (simp add: kinit_def freerange_def)
qed

text \<open>
  The allocator never hands a page out twice: a run of \<open>kalloc\<close> calls on a well-formed state
  returns distinct pages, none of which was in use before, and afterwards exactly these are in use in addition.
\<close>

theorem kalloc_no_double_allocation:
  assumes "kinv kend s ps" "pages.alloc_many n s = Some (is, t)"
  shows "distinct is \<and> set is \<inter> pages_used kend s = {} \<and> pages_used kend t = set is \<union> pages_used kend s"
  using pages.alloc_many_distinct [of kend s n "is" t] assms by blast

section \<open>Witnesses\<close>

text \<open>A machine at boot: interrupts off, nothing on the free list, memory filled with zeros.\<close>

definition boot_cpu :: cpu where
  "boot_cpu = \<lparr>hart = 0, sie = False, noff = 0, intena = False\<rparr>"

definition boot_kst :: kst where
  "boot_kst = \<lparr>kcpu = boot_cpu, kmem_lock = initlock ''kmem'', freelist = 0, ram = (\<lambda>_. 0)\<rparr>"

lemma boot_kinv: "0 < kend \<Longrightarrow> kend \<le> PHYSTOP \<Longrightarrow> kinv kend boot_kst []"
  by (simp add: kinv_def boot_kst_def boot_cpu_def initlock_def cpu_ok_def)

theorem kalloc_kfree_correct_witness:
  "(\<exists>s'. kfree 0x80021d40 0x80022000 boot_kst = Inr s' \<and> kinv 0x80021d40 s' [0x80022000]) \<and>
   kfree 0x80021d40 0x80022001 boot_kst = Inl (Panic ''kfree'') \<and>
   (\<exists>s'. kalloc boot_kst = Inr (0, s'))"
proof -
  have k: "kinv 0x80021d40 boot_kst []" by (rule boot_kinv) simp_all
  have "page_ok 0x80021d40 0x80022000" "\<not> page_ok 0x80021d40 0x80022001"
    by (simp_all add: page_ok_def)
  then show ?thesis
    using kalloc_kfree_correct [OF k, of "0x80022000"] kalloc_kfree_correct [OF k, of "0x80022001"]
    by auto
qed

theorem kinit_frees_all_witness:
  "\<exists>s' ps. kinit 0x80021d40 boot_kst = Inr s' \<and> kinv 0x80021d40 s' ps \<and> 0x87fff000 \<in> set ps"
proof -
  have "page_ok 0x80021d40 0x87fff000" by (simp add: page_ok_def)
  moreover have "\<exists>s' ps. kinit 0x80021d40 boot_kst = Inr s' \<and> kinv 0x80021d40 s' ps \<and> set ps = {p. page_ok 0x80021d40 p}"
    by (rule kinit_frees_all) (simp_all add: boot_kst_def boot_cpu_def cpu_ok_def)
  ultimately show ?thesis by auto
qed

theorem kalloc_no_double_allocation_witness:
  "\<exists>s t p q. pages.alloc_many 2 (s :: kst) = Some ([p, q], t) \<and> p \<noteq> q \<and> pages_used 0x80021d40 t = {p, q} \<union> pages_used 0x80021d40 s"
proof -
  let ?e = "0x80021d40 :: u64" and ?p = "0x80022000 :: u64" and ?q = "0x80023000 :: u64"
  have pg: "page_ok ?e ?p" "page_ok ?e ?q" by (simp_all add: page_ok_def)
  have k0: "kinv ?e boot_kst []" by (rule boot_kinv) simp_all
  obtain s1 :: kst where k1: "kinv ?e s1 [?p]" using kfree_spec [OF k0 pg(1)] by auto
  obtain s2 :: kst where k2: "kinv ?e s2 [?q, ?p]" using kfree_spec [OF k1 pg(2)] by auto
  obtain s3 where a3: "page_alloc s2 = Some (?q, s3)" and k3: "kinv ?e s3 [?p]"
    using kalloc_spec [OF k2] by (auto simp: page_alloc_def)
  obtain s4 where a4: "page_alloc s3 = Some (?p, s4)"
    using kalloc_spec [OF k3] by (auto simp: page_alloc_def)
  have "pages.alloc_many 2 s2 = Some ([?q, ?p], s4)"
    using a3 a4 by (simp add: numeral_2_eq_2)
  with kalloc_no_double_allocation [OF k2 this] show ?thesis
    by (intro exI [of _ s2] exI [of _ s4] exI [of _ ?q] exI [of _ ?p]) auto
qed

end
