(* ===== verification/Vm.thy ===== *)
theory Vm
  imports Kalloc
begin

text \<open>
  Page tables, \<^verbatim>\<open>kernel/vm.c\<close>. A page table is a tree of three levels of pages in physical
  memory, each page an array of 512 entries of 64 bits; the routines read and write it there, and
  take the pages they need from the page allocator. A routine that returns a pointer to an entry
  returns its address, 0 for the null pointer; C's \<open>int\<close> results are \<open>int\<close>.

  Loops over addresses run on 64-bit words, with their wrap-around; they end because \<open>walk\<close>
  panics at \<^verbatim>\<open>MAXVA\<close>. \<open>freewalk\<close> follows pointers found in memory, so it carries fuel (the
  depth of its recursion); a table of three levels needs three units.
\<close>

section \<open>Definitions\<close>

subsection \<open>walk, walkaddr, mappages\<close>

text \<open>One iteration per level: follow the entry, or allocate and link a zeroed page.\<close>

fun walk_loop :: "nat \<Rightarrow> u64 \<Rightarrow> u64 \<Rightarrow> bool \<Rightarrow> 'z kst_scheme \<Rightarrow> (u64 \<times> 'z kst_scheme) result" where
  "walk_loop 0 pagetable va alloc s = Inr (pagetable + 8 * PX 0 va, s)"
| "walk_loop (Suc l) pagetable va alloc s =
     (let pte = pagetable + 8 * PX (Suc l) va in
      if load64 (ram s) pte AND PTE_V \<noteq> 0
      then walk_loop l (PTE2PA (load64 (ram s) pte)) va alloc s
      else if \<not> alloc then Inr (0, s)
      else andthen (kalloc s) (\<lambda>(p, s1).
        if p = 0 then Inr (0, s1)
        else let s2 = s1\<lparr>ram := memset (ram s1) p 0 4096\<rparr>;
                 s3 = s2\<lparr>ram := store64 (ram s2) pte (PA2PTE p OR PTE_V)\<rparr>
             in walk_loop l p va alloc s3))"

definition walk :: "u64 \<Rightarrow> u64 \<Rightarrow> bool \<Rightarrow> 'z kst_scheme \<Rightarrow> (u64 \<times> 'z kst_scheme) result" where
  "walk pagetable va alloc s =
     (if va \<ge> MAXVA then Inl (Panic ''walk'') else walk_loop 2 pagetable va alloc s)"

definition walkaddr :: "u64 \<Rightarrow> u64 \<Rightarrow> 'z kst_scheme \<Rightarrow> (u64 \<times> 'z kst_scheme) result" where
  "walkaddr pagetable va s =
     (if va \<ge> MAXVA then Inr (0, s)
      else andthen (walk pagetable va False s) (\<lambda>(pte, s).
        if pte = 0 then Inr (0, s)
        else if load64 (ram s) pte AND PTE_V = 0 then Inr (0, s)
        else if load64 (ram s) pte AND PTE_U = 0 then Inr (0, s)
        else Inr (PTE2PA (load64 (ram s) pte), s)))"

lemma walk_below_MAXVA: "walk pt va alloc s = Inr r \<Longrightarrow> va < MAXVA"
  by (auto simp: walk_def split: if_splits)

text \<open>Every address loop over pages below \<^verbatim>\<open>MAXVA\<close> ends.\<close>

lemma MAXVA_unat: "unat MAXVA = 274877906944"
  by (simp add: MAXVA_def)

lemma page_step_decreases: "a < MAXVA \<Longrightarrow> 2 ^ 64 - unat (a + PGSIZE) < 2 ^ 64 - unat a"
proof -
  assume "a < MAXVA"
  then have "unat a < 274877906944" by (simp add: word_less_nat_alt MAXVA_unat)
  then show ?thesis using unat_add_u64 [of a 4096] by simp
qed

function mappages_loop :: "u64 \<Rightarrow> u64 \<Rightarrow> u64 \<Rightarrow> u64 \<Rightarrow> u64 \<Rightarrow> 'z kst_scheme \<Rightarrow> (int \<times> 'z kst_scheme) result" where
  "mappages_loop pagetable a lst pa perm s =
     andthen (walk pagetable a True s) (\<lambda>(pte, s1).
       if pte = 0 then Inr (-1, s1)
       else if load64 (ram s1) pte AND PTE_V \<noteq> 0 then Inl (Panic ''mappages: remap'')
       else let s2 = s1\<lparr>ram := store64 (ram s1) pte (PA2PTE pa OR perm OR PTE_V)\<rparr> in
            if a = lst then Inr (0, s2)
            else mappages_loop pagetable (a + PGSIZE) lst (pa + PGSIZE) perm s2)"
  by pat_completeness auto
termination
  by (relation "measure (\<lambda>(pt, a, lst, pa, perm, s). 2 ^ 64 - unat a)")
    (use page_step_decreases in \<open>auto dest!: walk_below_MAXVA\<close>)

declare mappages_loop.simps [simp del]

definition mappages :: "u64 \<Rightarrow> u64 \<Rightarrow> u64 \<Rightarrow> u64 \<Rightarrow> u64 \<Rightarrow> 'z kst_scheme \<Rightarrow> (int \<times> 'z kst_scheme) result" where
  "mappages pagetable va sz pa perm s =
     (if sz = 0 then Inl (Panic ''mappages: size'')
      else mappages_loop pagetable (PGROUNDDOWN va) (PGROUNDDOWN (va + sz - 1)) pa perm s)"

definition kvmmap :: "u64 \<Rightarrow> u64 \<Rightarrow> u64 \<Rightarrow> u64 \<Rightarrow> u64 \<Rightarrow> 'z kst_scheme \<Rightarrow> 'z kst_scheme result" where
  "kvmmap kpgtbl va pa sz perm s =
     andthen (mappages kpgtbl va sz pa perm s) (\<lambda>(r, s1).
       if r \<noteq> 0 then Inl (Panic ''kvmmap'') else Inr s1)"

text \<open>
  The kernel's own table. The end of the kernel text and the trampoline page are placed by the
  linker: the parameters \<open>etext\<close> and \<open>trampoline\<close>. \<open>proc_mapstacks\<close> is in
  \<^verbatim>\<open>kernel/proc.c\<close>; \<open>p\<close> is the index of the process.
\<close>

function proc_mapstacks_loop :: "u64 \<Rightarrow> nat \<Rightarrow> 'z kst_scheme \<Rightarrow> 'z kst_scheme result" where
  "proc_mapstacks_loop kpgtbl p s =
     (if p < NPROC then
        andthen (kalloc s) (\<lambda>(pa, s1).
          if pa = 0 then Inl (Panic ''kalloc'')
          else andthen (kvmmap kpgtbl (KSTACK p) pa PGSIZE (PTE_R OR PTE_W) s1)
                 (\<lambda>s2. proc_mapstacks_loop kpgtbl (Suc p) s2))
      else Inr s)"
  by pat_completeness auto
termination
  by (relation "measure (\<lambda>(kpgtbl, p, s). NPROC - p)") auto

declare proc_mapstacks_loop.simps [simp del]

definition proc_mapstacks :: "u64 \<Rightarrow> 'z kst_scheme \<Rightarrow> 'z kst_scheme result" where
  "proc_mapstacks kpgtbl s = proc_mapstacks_loop kpgtbl 0 s"

definition kvmmake :: "u64 \<Rightarrow> u64 \<Rightarrow> 'z kst_scheme \<Rightarrow> (u64 \<times> 'z kst_scheme) result" where
  "kvmmake etext trampoline s =
     andthen (kalloc s) (\<lambda>(kpgtbl, s).
     let s = s\<lparr>ram := memset (ram s) kpgtbl 0 4096\<rparr> in
     andthen (kvmmap kpgtbl UART0 UART0 PGSIZE (PTE_R OR PTE_W) s) (\<lambda>s.
     andthen (kvmmap kpgtbl VIRTIO0 VIRTIO0 PGSIZE (PTE_R OR PTE_W) s) (\<lambda>s.
     andthen (kvmmap kpgtbl PLIC PLIC 0x400000 (PTE_R OR PTE_W) s) (\<lambda>s.
     andthen (kvmmap kpgtbl KERNBASE KERNBASE (etext - KERNBASE) (PTE_R OR PTE_X) s) (\<lambda>s.
     andthen (kvmmap kpgtbl etext etext (PHYSTOP - etext) (PTE_R OR PTE_W) s) (\<lambda>s.
     andthen (kvmmap kpgtbl TRAMPOLINE trampoline PGSIZE (PTE_R OR PTE_X) s) (\<lambda>s.
     andthen (proc_mapstacks kpgtbl s) (\<lambda>s.
     Inr (kpgtbl, s)))))))))"

subsection \<open>uvmunmap, uvmcreate, uvmfirst, uvmalloc, uvmdealloc\<close>

function uvmunmap_loop :: "u64 \<Rightarrow> u64 \<Rightarrow> u64 \<Rightarrow> u64 \<Rightarrow> bool \<Rightarrow> 'z kst_scheme \<Rightarrow> 'z kst_scheme result" where
  "uvmunmap_loop kend pagetable a stop do_free s =
     (if a < stop then
        andthen (walk pagetable a False s) (\<lambda>(pte, s1).
          if pte = 0 then Inl (Panic ''uvmunmap: walk'')
          else if load64 (ram s1) pte AND PTE_V = 0 then Inl (Panic ''uvmunmap: not mapped'')
          else if PTE_FLAGS (load64 (ram s1) pte) = PTE_V then Inl (Panic ''uvmunmap: not a leaf'')
          else andthen (if do_free then kfree kend (PTE2PA (load64 (ram s1) pte)) s1 else Inr s1) (\<lambda>s2.
            uvmunmap_loop kend pagetable (a + PGSIZE) stop do_free (s2\<lparr>ram := store64 (ram s2) pte 0\<rparr>)))
      else Inr s)"
  by pat_completeness auto
termination
  by (relation "measure (\<lambda>(kend, pt, a, stop, f, s). 2 ^ 64 - unat a)")
    (use page_step_decreases in \<open>auto dest!: walk_below_MAXVA\<close>)

declare uvmunmap_loop.simps [simp del]

definition uvmunmap :: "u64 \<Rightarrow> u64 \<Rightarrow> u64 \<Rightarrow> u64 \<Rightarrow> bool \<Rightarrow> 'z kst_scheme \<Rightarrow> 'z kst_scheme result" where
  "uvmunmap kend pagetable va npages do_free s =
     (if va mod PGSIZE \<noteq> 0 then Inl (Panic ''uvmunmap: not aligned'')
      else uvmunmap_loop kend pagetable va (va + npages * PGSIZE) do_free s)"

definition uvmcreate :: "'z kst_scheme \<Rightarrow> (u64 \<times> 'z kst_scheme) result" where
  "uvmcreate s =
     andthen (kalloc s) (\<lambda>(pagetable, s1).
       if pagetable = 0 then Inr (0, s1)
       else Inr (pagetable, s1\<lparr>ram := memset (ram s1) pagetable 0 4096\<rparr>))"

definition uvmfirst :: "u64 \<Rightarrow> u64 \<Rightarrow> u32 \<Rightarrow> 'z kst_scheme \<Rightarrow> 'z kst_scheme result" where
  "uvmfirst pagetable src sz s =
     (if sz \<ge> 4096 then Inl (Panic ''uvmfirst: more than a page'')
      else andthen (kalloc s) (\<lambda>(mem, s1).
        let s2 = s1\<lparr>ram := memset (ram s1) mem 0 4096\<rparr> in
        andthen (mappages pagetable 0 PGSIZE mem (PTE_W OR PTE_R OR PTE_X OR PTE_U) s2) (\<lambda>(r, s3).
        Inr (s3\<lparr>ram := memmove (ram s3) mem src sz\<rparr>))))"

text \<open>\<^verbatim>\<open>int npages = ...\<close>: the number of pages passes through C's 32-bit \<open>int\<close>.\<close>

definition int32_of :: "u64 \<Rightarrow> u64" where
  "int32_of w = scast (ucast w :: u32)"

definition uvmdealloc :: "u64 \<Rightarrow> u64 \<Rightarrow> u64 \<Rightarrow> u64 \<Rightarrow> 'z kst_scheme \<Rightarrow> (u64 \<times> 'z kst_scheme) result" where
  "uvmdealloc kend pagetable oldsz newsz s =
     (if newsz \<ge> oldsz then Inr (oldsz, s)
      else andthen
        (if PGROUNDUP newsz < PGROUNDUP oldsz
         then let npages = int32_of ((PGROUNDUP oldsz - PGROUNDUP newsz) div PGSIZE)
              in uvmunmap kend pagetable (PGROUNDUP newsz) npages True s
         else Inr s)
        (\<lambda>s1. Inr (newsz, s1)))"

lemma mappages_below_MAXVA:
  "mappages pt a sz mem perm s = Inr (r, s') \<Longrightarrow> PGROUNDDOWN a < MAXVA"
  by (auto simp: mappages_def mappages_loop.simps [of pt "PGROUNDDOWN a"] result_simps
      split: if_splits dest!: walk_below_MAXVA)

lemma mappages_step_decreases:
  assumes "mappages pt a sz mem perm s = Inr r"
  shows "2 ^ 64 - unat (a + PGSIZE) < 2 ^ 64 - unat a"
proof -
  have "PGROUNDDOWN a < MAXVA" using mappages_below_MAXVA assms by (cases r) blast
  then have "unat a div 4096 * 4096 < 274877906944"
    by (simp add: word_less_nat_alt MAXVA_unat unat_PGROUNDDOWN)
  then have "unat a < 274877906944 + 4096" by linarith
  then show ?thesis using unat_add_u64 [of a 4096] by simp
qed

text \<open>
  The loop of \<open>uvmalloc\<close>: \<open>start\<close> is the rounded-up old size, to which a failure shrinks the
  process back.
\<close>

function uvmalloc_loop :: "u64 \<Rightarrow> u64 \<Rightarrow> u64 \<Rightarrow> u64 \<Rightarrow> u64 \<Rightarrow> u64 \<Rightarrow> 'z kst_scheme \<Rightarrow> (u64 \<times> 'z kst_scheme) result" where
  "uvmalloc_loop kend pagetable start a newsz xperm s =
     (if a < newsz then
        andthen (kalloc s) (\<lambda>(mem, s1).
          if mem = 0 then andthen (uvmdealloc kend pagetable a start s1) (\<lambda>(_, s2). Inr (0, s2))
          else let s2 = s1\<lparr>ram := memset (ram s1) mem 0 4096\<rparr> in
            andthen (mappages pagetable a PGSIZE mem (PTE_R OR PTE_U OR xperm) s2) (\<lambda>(r, s3).
              if r \<noteq> 0 then
                andthen (kfree kend mem s3) (\<lambda>s4.
                andthen (uvmdealloc kend pagetable a start s4) (\<lambda>(_, s5). Inr (0, s5)))
              else uvmalloc_loop kend pagetable start (a + PGSIZE) newsz xperm s3))
      else Inr (newsz, s))"
  by pat_completeness auto
termination
  by (relation "measure (\<lambda>(kend, pt, start, a, newsz, xperm, s). 2 ^ 64 - unat a)")
    (use mappages_step_decreases in \<open>auto\<close>)

declare uvmalloc_loop.simps [simp del]

definition uvmalloc :: "u64 \<Rightarrow> u64 \<Rightarrow> u64 \<Rightarrow> u64 \<Rightarrow> u64 \<Rightarrow> 'z kst_scheme \<Rightarrow> (u64 \<times> 'z kst_scheme) result" where
  "uvmalloc kend pagetable oldsz newsz xperm s =
     (if newsz < oldsz then Inr (oldsz, s)
      else uvmalloc_loop kend pagetable (PGROUNDUP oldsz) (PGROUNDUP oldsz) newsz xperm s)"

subsection \<open>freewalk, uvmfree\<close>

text \<open>
  The body of the \<^verbatim>\<open>for\<close> loop over the 512 entries, from entry \<open>i\<close>; \<open>rec\<close> is the recursive
  call on a child table. \<open>None\<close> stands for a recursion deeper than the fuel.
\<close>

function freewalk_entries ::
    "(u64 \<Rightarrow> 'z kst_scheme \<Rightarrow> 'z kst_scheme result option) \<Rightarrow> u64 \<Rightarrow> nat \<Rightarrow> 'z kst_scheme \<Rightarrow> 'z kst_scheme result option" where
  "freewalk_entries rec pagetable i s =
     (if i < 512 then
        let pte = load64 (ram s) (pagetable + 8 * of_nat i) in
        if pte AND PTE_V \<noteq> 0 \<and> pte AND (PTE_R OR PTE_W OR PTE_X) = 0 then
          (case rec (PTE2PA pte) s of
             None \<Rightarrow> None
           | Some (Inl e) \<Rightarrow> Some (Inl e)
           | Some (Inr s1) \<Rightarrow>
               freewalk_entries rec pagetable (Suc i) (s1\<lparr>ram := store64 (ram s1) (pagetable + 8 * of_nat i) 0\<rparr>))
        else if pte AND PTE_V \<noteq> 0 then Some (Inl (Panic ''freewalk: leaf''))
        else freewalk_entries rec pagetable (Suc i) s
      else Some (Inr s))"
  by pat_completeness auto
termination
  by (relation "measure (\<lambda>(rec, pt, i, s). 512 - i)") auto

declare freewalk_entries.simps [simp del]

fun freewalk :: "nat \<Rightarrow> u64 \<Rightarrow> u64 \<Rightarrow> 'z kst_scheme \<Rightarrow> 'z kst_scheme result option" where
  "freewalk 0 kend pagetable s = None"
| "freewalk (Suc fuel) kend pagetable s =
     (case freewalk_entries (freewalk fuel kend) pagetable 0 s of
        None \<Rightarrow> None
      | Some (Inl e) \<Rightarrow> Some (Inl e)
      | Some (Inr s1) \<Rightarrow> Some (kfree kend pagetable s1))"

definition uvmfree :: "nat \<Rightarrow> u64 \<Rightarrow> u64 \<Rightarrow> u64 \<Rightarrow> 'z kst_scheme \<Rightarrow> 'z kst_scheme result option" where
  "uvmfree fuel kend pagetable sz s =
     (case (if sz > 0 then uvmunmap kend pagetable 0 (PGROUNDUP sz div PGSIZE) True s else Inr s) of
        Inl e \<Rightarrow> Some (Inl e)
      | Inr s1 \<Rightarrow> freewalk fuel kend pagetable s1)"

subsection \<open>uvmcopy, uvmclear\<close>

text \<open>The cleanup at label \<^verbatim>\<open>err\<close> of \<open>uvmcopy\<close>.\<close>

definition uvmcopy_err :: "u64 \<Rightarrow> u64 \<Rightarrow> u64 \<Rightarrow> 'z kst_scheme \<Rightarrow> (int \<times> 'z kst_scheme) result" where
  "uvmcopy_err kend new i s =
     andthen (uvmunmap kend new 0 (i div PGSIZE) True s) (\<lambda>s1. Inr (-1, s1))"

function uvmcopy_loop :: "u64 \<Rightarrow> u64 \<Rightarrow> u64 \<Rightarrow> u64 \<Rightarrow> u64 \<Rightarrow> 'z kst_scheme \<Rightarrow> (int \<times> 'z kst_scheme) result" where
  "uvmcopy_loop kend old new i sz s =
     (if i < sz then
        andthen (walk old i False s) (\<lambda>(pte, s1).
          if pte = 0 then Inl (Panic ''uvmcopy: pte should exist'')
          else if load64 (ram s1) pte AND PTE_V = 0 then Inl (Panic ''uvmcopy: page not present'')
          else let pa = PTE2PA (load64 (ram s1) pte);
                   flags = PTE_FLAGS (load64 (ram s1) pte) in
            andthen (kalloc s1) (\<lambda>(mem, s2).
              if mem = 0 then uvmcopy_err kend new i s2
              else let s3 = s2\<lparr>ram := memmove (ram s2) mem pa 4096\<rparr> in
                andthen (mappages new i PGSIZE mem flags s3) (\<lambda>(r, s4).
                  if r \<noteq> 0 then andthen (kfree kend mem s4) (\<lambda>s5. uvmcopy_err kend new i s5)
                  else uvmcopy_loop kend old new (i + PGSIZE) sz s4)))
      else Inr (0, s))"
  by pat_completeness auto
termination
  by (relation "measure (\<lambda>(kend, old, new, i, sz, s). 2 ^ 64 - unat i)")
    (use mappages_step_decreases in auto)

declare uvmcopy_loop.simps [simp del]

definition uvmcopy :: "u64 \<Rightarrow> u64 \<Rightarrow> u64 \<Rightarrow> u64 \<Rightarrow> 'z kst_scheme \<Rightarrow> (int \<times> 'z kst_scheme) result" where
  "uvmcopy kend old new sz s = uvmcopy_loop kend old new 0 sz s"

definition uvmclear :: "u64 \<Rightarrow> u64 \<Rightarrow> 'z kst_scheme \<Rightarrow> 'z kst_scheme result" where
  "uvmclear pagetable va s =
     andthen (walk pagetable va False s) (\<lambda>(pte, s1).
       if pte = 0 then Inl (Panic ''uvmclear'')
       else Inr (s1\<lparr>ram := store64 (ram s1) pte (load64 (ram s1) pte AND NOT PTE_U)\<rparr>))"

subsection \<open>copyout, copyin, copyinstr\<close>

text \<open>The number of bytes up to the end of the page that holds \<open>va\<close>, at most \<open>len\<close>.\<close>

definition page_chunk :: "u64 \<Rightarrow> u64 \<Rightarrow> u64" where
  "page_chunk va len = (let n = PGSIZE - (va - PGROUNDDOWN va) in if n > len then len else n)"

lemma unat_page_offset: "unat (va - PGROUNDDOWN va) = unat va mod 4096"
proof -
  have "unat (va - PGROUNDDOWN va) = unat va - unat (PGROUNDDOWN va)"
    by (rule unat_sub) (rule PGROUNDDOWN_le)
  then show ?thesis by (simp add: unat_PGROUNDDOWN minus_div_mult_eq_mod)
qed

lemma unat_page_chunk: "unat (page_chunk va len) = min (unat len) (4096 - unat va mod 4096)"
proof -
  have o: "unat (va - PGROUNDDOWN va) < 4096" by (simp add: unat_page_offset)
  then have "va - PGROUNDDOWN va \<le> 4096" by (simp add: word_le_nat_alt)
  then have "unat (4096 - (va - PGROUNDDOWN va)) = 4096 - unat va mod 4096"
    by (simp add: unat_sub unat_page_offset)
  then show ?thesis by (simp add: page_chunk_def Let_def word_less_nat_alt)
qed

lemma page_chunk_decreases: "len > 0 \<Longrightarrow> unat (len - page_chunk va len) < unat len"
proof -
  assume "len > 0"
  then have "0 < unat len" by (simp add: word_less_nat_alt)
  moreover have "unat va mod 4096 < 4096" by simp
  ultimately have "0 < unat (page_chunk va len)" "unat (page_chunk va len) \<le> unat len"
    by (simp_all add: unat_page_chunk)
  then show ?thesis by (simp add: unat_sub word_le_nat_alt)
qed

function copyout :: "u64 \<Rightarrow> u64 \<Rightarrow> u64 \<Rightarrow> u64 \<Rightarrow> 'z kst_scheme \<Rightarrow> (int \<times> 'z kst_scheme) result" where
  "copyout pagetable dstva src len s =
     (if len > 0 then
        let va0 = PGROUNDDOWN dstva in
        andthen (walkaddr pagetable va0 s) (\<lambda>(pa0, s1).
          if pa0 = 0 then Inr (-1, s1)
          else let n = page_chunk dstva len;
                   s2 = s1\<lparr>ram := memmove (ram s1) (pa0 + (dstva - va0)) src (ucast n)\<rparr>
               in copyout pagetable (va0 + PGSIZE) (src + n) (len - n) s2)
      else Inr (0, s))"
  by pat_completeness auto
termination
  by (relation "measure (\<lambda>(pt, dstva, src, len, s). unat len)") (auto simp: page_chunk_decreases)

function copyin :: "u64 \<Rightarrow> u64 \<Rightarrow> u64 \<Rightarrow> u64 \<Rightarrow> 'z kst_scheme \<Rightarrow> (int \<times> 'z kst_scheme) result" where
  "copyin pagetable dst srcva len s =
     (if len > 0 then
        let va0 = PGROUNDDOWN srcva in
        andthen (walkaddr pagetable va0 s) (\<lambda>(pa0, s1).
          if pa0 = 0 then Inr (-1, s1)
          else let n = page_chunk srcva len;
                   s2 = s1\<lparr>ram := memmove (ram s1) dst (pa0 + (srcva - va0)) (ucast n)\<rparr>
               in copyin pagetable (dst + n) (va0 + PGSIZE) (len - n) s2)
      else Inr (0, s))"
  by pat_completeness auto
termination
  by (relation "measure (\<lambda>(pt, dst, srcva, len, s). unat len)") (auto simp: page_chunk_decreases)

text \<open>
  The inner loop of \<open>copyinstr\<close>: at most \<open>n\<close> bytes from \<open>p\<close> to \<open>dst\<close>, stopping after a
  zero byte. It returns whether it saw one, the memory and the destination pointer; without a zero
  byte all \<open>n\<close> bytes were copied, so \<open>max\<close> has dropped by \<open>n\<close>.
\<close>

fun copyinstr_bytes :: "mem \<Rightarrow> u64 \<Rightarrow> u64 \<Rightarrow> nat \<Rightarrow> bool \<times> mem \<times> u64" where
  "copyinstr_bytes m p dst 0 = (False, m, dst)"
| "copyinstr_bytes m p dst (Suc n) =
     (if m p = 0 then (True, m(dst := 0), dst)
      else copyinstr_bytes (m(dst := m p)) (p + 1) (dst + 1) n)"

function copyinstr :: "u64 \<Rightarrow> u64 \<Rightarrow> u64 \<Rightarrow> u64 \<Rightarrow> 'z kst_scheme \<Rightarrow> (int \<times> 'z kst_scheme) result" where
  "copyinstr pagetable dst srcva mx s =
     (if mx > 0 then
        let va0 = PGROUNDDOWN srcva in
        andthen (walkaddr pagetable va0 s) (\<lambda>(pa0, s1).
          if pa0 = 0 then Inr (-1, s1)
          else let n = page_chunk srcva mx in
            case copyinstr_bytes (ram s1) (pa0 + (srcva - va0)) dst (unat n) of
              (got_null, m', dst') \<Rightarrow>
                if got_null then Inr (0, s1\<lparr>ram := m'\<rparr>)
                else copyinstr pagetable dst' (va0 + PGSIZE) (mx - n) (s1\<lparr>ram := m'\<rparr>))
      else Inr (-1, s))"
  by pat_completeness auto
termination
  by (relation "measure (\<lambda>(pt, dst, srcva, mx, s). unat mx)") (auto simp: page_chunk_decreases)

declare copyout.simps [simp del] copyin.simps [simp del] copyinstr.simps [simp del]

subsection \<open>Copies from and to kernel objects\<close>

text \<open>
  The kernel also copies from and to objects that the model keeps as values and not in byte memory
  (a local \<^verbatim>\<open>char\<close>, a field of a structure, the data of a buffer). \<open>copyout_bytes\<close> and
  \<open>copyin_bytes\<close> are \<open>copyout\<close> and \<open>copyin\<close> with the kernel side given as a list of bytes.
\<close>

fun store_bytes :: "mem \<Rightarrow> u64 \<Rightarrow> u8 list \<Rightarrow> mem" where
  "store_bytes m a [] = m"
| "store_bytes m a (b # bs) = store_bytes (m(a := b)) (a + 1) bs"

definition page_room :: "u64 \<Rightarrow> nat \<Rightarrow> nat" where
  "page_room va n = min n (4096 - unat (va - PGROUNDDOWN va))"

lemma page_room_pos: "0 < n \<Longrightarrow> 0 < page_room va n"
  by (simp add: page_room_def unat_page_offset)

function copyout_bytes :: "u64 \<Rightarrow> u64 \<Rightarrow> u8 list \<Rightarrow> 'z kst_scheme \<Rightarrow> (int \<times> 'z kst_scheme) result" where
  "copyout_bytes pagetable dstva bs s =
     (if bs \<noteq> [] then
        let va0 = PGROUNDDOWN dstva in
        andthen (walkaddr pagetable va0 s) (\<lambda>(pa0, s1).
          if pa0 = 0 then Inr (-1, s1)
          else let n = page_room dstva (length bs);
                   s2 = s1\<lparr>ram := store_bytes (ram s1) (pa0 + (dstva - va0)) (take n bs)\<rparr>
               in copyout_bytes pagetable (va0 + PGSIZE) (drop n bs) s2)
      else Inr (0, s))"
  by pat_completeness auto
termination
  by (relation "measure (\<lambda>(pt, dstva, bs, s). length bs)") (auto simp: page_room_pos)

text \<open>The bytes that arrived before a failure come back too.\<close>

function copyin_bytes :: "u64 \<Rightarrow> u64 \<Rightarrow> nat \<Rightarrow> 'z kst_scheme \<Rightarrow> (int \<times> u8 list \<times> 'z kst_scheme) result" where
  "copyin_bytes pagetable srcva len s =
     (if len > 0 then
        let va0 = PGROUNDDOWN srcva in
        andthen (walkaddr pagetable va0 s) (\<lambda>(pa0, s1).
          if pa0 = 0 then Inr (-1, [], s1)
          else let n = page_room srcva len;
                   bs = bytes_at (ram s1) (pa0 + (srcva - va0)) n
               in andthen (copyin_bytes pagetable (va0 + PGSIZE) (len - n) s1) (\<lambda>(r, cs, s2).
                    Inr (r, bs @ cs, s2)))
      else Inr (0, [], s))"
  by pat_completeness auto
termination
  by (relation "measure (\<lambda>(pt, srcva, len, s). len)") (auto simp: page_room_pos)

declare copyout_bytes.simps [simp del] copyin_bytes.simps [simp del]

end
