(* ===== verification/Page_Table.thy ===== *)
theory Page_Table
  imports Vm
begin

text \<open>
  What a page table in memory means, and what \<open>walk\<close> of \<^verbatim>\<open>kernel/vm.c\<close> does to it: the entry
  that translates an address, the set of pages a table consists of, that they form a tree, and the
  frame lemmas for writes to other pages. The main results are \<open>store_leaf\<close> (a store to one
  last-level entry changes the translation of one page) and \<open>walk_loop_alloc\<close> (a walk that adds
  missing levels keeps every translation).
\<close>

section \<open>Definitions\<close>

subsection \<open>What a page table means\<close>

text \<open>Entry \<open>i\<close> of a table page, and where it leads.\<close>

definition entry :: "mem \<Rightarrow> u64 \<Rightarrow> nat \<Rightarrow> u64" where
  "entry m pt i = load64 m (pt + 8 * of_nat i)"

definition valid :: "u64 \<Rightarrow> bool" where
  "valid e \<longleftrightarrow> e AND PTE_V \<noteq> 0"

definition idx :: "nat \<Rightarrow> u64 \<Rightarrow> nat" where
  "idx l va = unat (PX l va)"

text \<open>The page that holds the level-0 entry of \<open>va\<close>, when the levels above it are present.\<close>

fun leaf_page :: "mem \<Rightarrow> nat \<Rightarrow> u64 \<Rightarrow> u64 \<Rightarrow> u64 option" where
  "leaf_page m 0 pt va = Some pt"
| "leaf_page m (Suc l) pt va =
     (let e = entry m pt (idx (Suc l) va) in
      if valid e then leaf_page m l (PTE2PA e) va else None)"

text \<open>The entry that translates \<open>va\<close>: zero where the table has none.\<close>

definition pte_at :: "mem \<Rightarrow> nat \<Rightarrow> u64 \<Rightarrow> u64 \<Rightarrow> u64" where
  "pte_at m l pt va = (case leaf_page m l pt va of None \<Rightarrow> 0 | Some p \<Rightarrow> entry m p (idx 0 va))"

text \<open>The pages of a table of \<open>l\<close> levels above the last, and that they form a tree.\<close>

fun tset :: "mem \<Rightarrow> nat \<Rightarrow> u64 \<Rightarrow> u64 set" where
  "tset m 0 pt = {pt}"
| "tset m (Suc l) pt =
     insert pt (\<Union>i \<in> {i. i < 512 \<and> valid (entry m pt i)}. tset m l (PTE2PA (entry m pt i)))"

fun wft :: "mem \<Rightarrow> nat \<Rightarrow> u64 \<Rightarrow> bool" where
  "wft m 0 pt \<longleftrightarrow> True"
| "wft m (Suc l) pt \<longleftrightarrow>
     (\<forall>i < 512. valid (entry m pt i) \<longrightarrow>
        wft m l (PTE2PA (entry m pt i)) \<and> pt \<notin> tset m l (PTE2PA (entry m pt i))) \<and>
     (\<forall>i < 512. \<forall>j < 512. i \<noteq> j \<longrightarrow> valid (entry m pt i) \<longrightarrow> valid (entry m pt j) \<longrightarrow>
        tset m l (PTE2PA (entry m pt i)) \<inter> tset m l (PTE2PA (entry m pt j)) = {})"

text \<open>The memory changes only inside the pages of a set.\<close>

definition changes_in :: "u64 set \<Rightarrow> mem \<Rightarrow> mem \<Rightarrow> bool" where
  "changes_in X m m' \<longleftrightarrow> (\<forall>x. (\<forall>p \<in> X. \<not> in_page p x) \<longrightarrow> m' x = m x)"

section \<open>Lemmas\<close>

subsection \<open>Frame lemmas\<close>

lemma idx_less [simp]: "idx l va < 512"
  by (simp add: idx_def)

lemma slot_eq: "pt + 8 * PX l va = pt + 8 * of_nat (idx l va)"
  by (simp add: idx_def)

lemma slot_in_page:
  assumes "i < 512" "k < 8"
  shows "in_page pt (pt + 8 * of_nat i + of_nat k)"
proof -
  have "8 * i + k < 4096" using assms by simp
  then show ?thesis
    unfolding in_page_def using in_range_offset [of "8 * i + k" pt 4096] by (simp add: add.assoc)
qed

lemma changes_in_mono: "changes_in X m m' \<Longrightarrow> X \<subseteq> Y \<Longrightarrow> changes_in Y m m'"
  by (auto simp: changes_in_def)

lemma changes_in_trans: "changes_in X m m' \<Longrightarrow> changes_in X m' m'' \<Longrightarrow> changes_in X m m''"
  by (auto simp: changes_in_def)

lemma changes_in_Un: "changes_in X m m' \<Longrightarrow> changes_in Y m' m'' \<Longrightarrow> changes_in (X \<union> Y) m m''"
  by (simp add: changes_in_def)

lemma changes_in_page:
  assumes "changes_in X m m'" "\<forall>p \<in> X. page_ok kend p" "page_ok kend q" "q \<notin> X" "in_page q x"
  shows "m' x = m x"
proof -
  have "\<not> in_page p x" if "p \<in> X" for p
    using that assms in_page_unique [of p q x] page_ok_D by blast
  then show ?thesis using assms(1) by (auto simp: changes_in_def)
qed

lemma entry_cong:
  assumes "\<And>x. in_page pt x \<Longrightarrow> m' x = m x" "i < 512"
  shows "entry m' pt i = entry m pt i"
  unfolding entry_def by (rule load64_cong) (use assms slot_in_page in blast)

lemma entry_frame:
  assumes "changes_in X m m'" "\<forall>p \<in> X. page_ok kend p" "page_ok kend pt" "pt \<notin> X" "i < 512"
  shows "entry m' pt i = entry m pt i"
  using changes_in_page [OF assms(1-4)] assms(5) by (rule entry_cong)

lemma tset_root [simp]: "pt \<in> tset m l pt"
  by (cases l) auto

lemma tset_child: "i < 512 \<Longrightarrow> valid (entry m pt i) \<Longrightarrow> tset m l (PTE2PA (entry m pt i)) \<subseteq> tset m (Suc l) pt"
  by auto

text \<open>A table reads only its own pages.\<close>

lemma table_same:
  assumes "\<forall>p \<in> tset m l pt. \<forall>x. in_page p x \<longrightarrow> m' x = m x"
  shows "tset m' l pt = tset m l pt \<and> wft m' l pt = wft m l pt \<and>
     leaf_page m' l pt va = leaf_page m l pt va \<and> pte_at m' l pt va = pte_at m l pt va"
  using assms
proof (induction l arbitrary: pt)
  case 0
  then show ?case using entry_cong [of pt m' m] by (simp add: pte_at_def)
next
  case (Suc l)
  have e: "entry m' pt i = entry m pt i" if "i < 512" for i
    using entry_cong [of pt m' m i] that Suc.prems by simp
  have sub: "tset m' l (PTE2PA (entry m pt i)) = tset m l (PTE2PA (entry m pt i)) \<and>
      wft m' l (PTE2PA (entry m pt i)) = wft m l (PTE2PA (entry m pt i)) \<and>
      leaf_page m' l (PTE2PA (entry m pt i)) va = leaf_page m l (PTE2PA (entry m pt i)) va \<and>
      pte_at m' l (PTE2PA (entry m pt i)) va = pte_at m l (PTE2PA (entry m pt i)) va"
    if "i < 512" "valid (entry m pt i)" for i
    by (rule Suc.IH) (use Suc.prems tset_child [OF that, of l] in blast)
  have "tset m' (Suc l) pt = tset m (Suc l) pt" using e sub by auto
  moreover have "wft m' (Suc l) pt = wft m (Suc l) pt" using e sub by auto
  moreover have "leaf_page m' (Suc l) pt va = leaf_page m (Suc l) pt va \<and> pte_at m' (Suc l) pt va = pte_at m (Suc l) pt va"
    using e [of "idx (Suc l) va"] sub [of "idx (Suc l) va"] by (auto simp: pte_at_def Let_def)
  ultimately show ?case by blast
qed

lemma table_frame:
  assumes "changes_in X m m'" "\<forall>p \<in> X. page_ok kend p" "\<forall>p \<in> tset m l pt. page_ok kend p" "X \<inter> tset m l pt = {}"
  shows "tset m' l pt = tset m l pt \<and> wft m' l pt = wft m l pt \<and>
     leaf_page m' l pt va = leaf_page m l pt va \<and> pte_at m' l pt va = pte_at m l pt va"
proof (rule table_same, intro ballI allI impI)
  fix p x
  assume p: "p \<in> tset m l pt" "in_page p x"
  then have "page_ok kend p" "p \<notin> X" using assms(3,4) by auto
  then show "m' x = m x" using changes_in_page [OF assms(1,2) _ _ p(2)] by blast
qed

lemma in_page_root [simp]: "in_page p p"
  by (simp add: in_page_def in_range_def)

lemma entry_store64:
  assumes "i < 512" "j < 512"
  shows "entry (store64 m (pt + 8 * of_nat i) w) pt j = (if i = j then w else entry m pt j)"
proof (cases "i = j")
  case False
  have "load64 (store64 m (pt + 8 * of_nat i) w) (pt + 8 * of_nat j) = load64 m (pt + 8 * of_nat j)"
  proof (rule load64_cong)
    fix k :: nat
    assume k: "k < 8"
    have "pt + 8 * of_nat j + of_nat k \<noteq> pt + 8 * of_nat i + of_nat k'" if "k' < 8" for k'
    proof
      assume "pt + 8 * of_nat j + of_nat k = pt + 8 * of_nat i + of_nat k'"
      then have "(of_nat (8 * j + k) :: u64) = of_nat (8 * i + k')" by (simp add: add.assoc)
      then have "8 * j + k = 8 * i + k'"
        using assms k that by (subst (asm) of_nat_u64_eq_iff) simp_all
      then show False using mult_add_unique(1) [OF k that] False by simp
    qed
    then have "\<not> in_range (pt + 8 * of_nat i) 8 (pt + 8 * of_nat j + of_nat k)"
      by (subst in_range_iff) auto
    then show "store64 m (pt + 8 * of_nat i) w (pt + 8 * of_nat j + of_nat k) = m (pt + 8 * of_nat j + of_nat k)"
      by (rule store64_other)
  qed
  then show ?thesis using False by (simp add: entry_def)
qed (simp add: entry_def)

lemma store64_changes: "i < 512 \<Longrightarrow> changes_in {pt} m (store64 m (pt + 8 * of_nat i) w)"
  unfolding changes_in_def
proof (intro allI impI)
  fix x
  assume i: "i < 512" and x: "\<forall>p\<in>{pt}. \<not> in_page p x"
  have "\<not> in_range (pt + 8 * of_nat i) 8 x"
  proof
    assume "in_range (pt + 8 * of_nat i) 8 x"
    then obtain k where "k < 8" "x = pt + 8 * of_nat i + of_nat k" by (auto simp: in_range_iff)
    then show False using slot_in_page [OF i] x by simp
  qed
  then show "store64 m (pt + 8 * of_nat i) w x = m x" by (rule store64_other)
qed

subsection \<open>Walking without allocation\<close>

lemma walk_loop_noalloc:
  "walk_loop l pt va False s =
     Inr (case leaf_page (ram s) l pt va of None \<Rightarrow> 0 | Some p \<Rightarrow> p + 8 * of_nat (idx 0 va), s)"
  by (induction l arbitrary: pt) (simp_all add: Let_def entry_def idx_def valid_def)

lemma walk_noalloc:
  "va < MAXVA \<Longrightarrow> walk pt va False s =
     Inr (case leaf_page (ram s) 2 pt va of None \<Rightarrow> 0 | Some p \<Rightarrow> p + 8 * of_nat (idx 0 va), s)"
  by (auto simp: walk_def walk_loop_noalloc)

lemma leaf_page_in_tset: "leaf_page m l pt va = Some p \<Longrightarrow> p \<in> tset m l pt"
proof (induction l arbitrary: pt)
  case (Suc l)
  then show ?case
    using tset_child [of "idx (Suc l) va" m pt l] by (auto simp: Let_def split: if_splits)
qed simp

subsection \<open>Replacing one branch of a table\<close>

text \<open>
  The memory changes in the root page (only in entry \<open>i\<close>) and in pages \<open>X\<close> that no other branch uses;
  the branch at \<open>i\<close> is afterwards a table inside \<open>X\<close>. Then the whole is a table again, and addresses
  that go through other branches translate as before.
\<close>

lemma graft:
  assumes ch: "changes_in (insert pt X) m m'" "\<forall>p \<in> X. page_ok kend p" "pt \<notin> X"
    and old: "wft m (Suc l) pt" "\<forall>p \<in> tset m (Suc l) pt. page_ok kend p" "i < 512"
    and oth: "\<forall>j < 512. j \<noteq> i \<longrightarrow> valid (entry m pt j) \<longrightarrow> X \<inter> tset m l (PTE2PA (entry m pt j)) = {}"
    and ent: "\<forall>j < 512. j \<noteq> i \<longrightarrow> entry m' pt j = entry m pt j"
    and new: "valid (entry m' pt i)" "PTE2PA (entry m' pt i) = c" "wft m' l c" "tset m' l c \<subseteq> X"
  shows "wft m' (Suc l) pt" "tset m' (Suc l) pt \<subseteq> tset m (Suc l) pt \<union> X"
    "pte_at m' (Suc l) pt va = (if idx (Suc l) va = i then pte_at m' l c va else pte_at m (Suc l) pt va)"
    "leaf_page m' (Suc l) pt va = (if idx (Suc l) va = i then leaf_page m' l c va else leaf_page m (Suc l) pt va)"
proof -
  have pok: "page_ok kend pt" using old(2) by simp
  have sub: "tset m' l (PTE2PA (entry m pt j)) = tset m l (PTE2PA (entry m pt j)) \<and>
      wft m' l (PTE2PA (entry m pt j)) = wft m l (PTE2PA (entry m pt j)) \<and>
      leaf_page m' l (PTE2PA (entry m pt j)) va = leaf_page m l (PTE2PA (entry m pt j)) va \<and>
      pte_at m' l (PTE2PA (entry m pt j)) va = pte_at m l (PTE2PA (entry m pt j)) va"
    if "j < 512" "j \<noteq> i" "valid (entry m pt j)" for j
    by (rule table_frame [OF ch(1)])
      (use ch(2) pok old oth that tset_child [OF that(1,3), of l] in auto)
  show "wft m' (Suc l) pt"
    unfolding wft.simps
  proof (intro conjI allI impI)
    fix j assume j: "j < 512" "valid (entry m' pt j)"
    show "wft m' l (PTE2PA (entry m' pt j))" "pt \<notin> tset m' l (PTE2PA (entry m' pt j))"
      using new ch(3) ent sub old(1) j by (cases "j = i"; auto)+
  next
    fix j k assume jk: "j < 512" "k < 512" "j \<noteq> k" "valid (entry m' pt j)" "valid (entry m' pt k)"
    show "tset m' l (PTE2PA (entry m' pt j)) \<inter> tset m' l (PTE2PA (entry m' pt k)) = {}"
    proof (cases "j = i \<or> k = i")
      case True
      then show ?thesis using jk new(2,4) ent sub oth by (cases "j = i"; force)
    next
      case False
      then show ?thesis using jk ent sub old(1) by simp
    qed
  qed
  show "tset m' (Suc l) pt \<subseteq> tset m (Suc l) pt \<union> X"
  proof
    fix p assume "p \<in> tset m' (Suc l) pt"
    then consider "p = pt" | j where "j < 512" "valid (entry m' pt j)" "p \<in> tset m' l (PTE2PA (entry m' pt j))" by auto
    then show "p \<in> tset m (Suc l) pt \<union> X"
    proof cases
      case 2
      then show ?thesis using new ent sub by (cases "j = i") auto
    qed simp
  qed
  show "leaf_page m' (Suc l) pt va = (if idx (Suc l) va = i then leaf_page m' l c va else leaf_page m (Suc l) pt va)"
    "pte_at m' (Suc l) pt va = (if idx (Suc l) va = i then pte_at m' l c va else pte_at m (Suc l) pt va)"
    using new ent sub [of "idx (Suc l) va"] by (auto simp: pte_at_def Let_def)
qed

text \<open>Two addresses use the same last-level entry.\<close>

definition same_slot :: "nat \<Rightarrow> u64 \<Rightarrow> u64 \<Rightarrow> bool" where
  "same_slot l va vb \<longleftrightarrow> (\<forall>k \<le> l. idx k va = idx k vb)"

lemma same_slot_Suc: "same_slot (Suc l) va vb \<longleftrightarrow> same_slot l va vb \<and> idx (Suc l) va = idx (Suc l) vb"
  by (auto simp: same_slot_def le_Suc_eq)

lemma store_leaf:
  assumes "wft m l pt" "\<forall>p \<in> tset m l pt. page_ok kend p" "leaf_page m l pt va = Some p"
    and m': "m' = store64 m (p + 8 * of_nat (idx 0 va)) w"
  shows "wft m' l pt \<and> tset m' l pt \<subseteq> tset m l pt \<and> leaf_page m' l pt vb = leaf_page m l pt vb \<and>
    pte_at m' l pt vb = (if same_slot l va vb then w else pte_at m l pt vb)"
  using assms(1-3)
proof (induction l arbitrary: pt)
  case 0
  then have "p = pt" by simp
  then show ?case by (simp add: m' pte_at_def same_slot_def entry_store64 eq_commute)
next
  case (Suc l)
  let ?i = "idx (Suc l) va"
  let ?c = "PTE2PA (entry m pt ?i)"
  have v: "valid (entry m pt ?i)" and leaf: "leaf_page m l ?c va = Some p"
    using Suc.prems(3) by (auto simp: Let_def split: if_splits)
  have w: "wft m l ?c" "pt \<notin> tset m l ?c" using Suc.prems(1) v by auto
  have sub: "tset m l ?c \<subseteq> tset m (Suc l) pt" by (rule tset_child) (use v in auto)
  then have ok: "\<forall>p \<in> tset m l ?c. page_ok kend p" using Suc.prems(2) by blast
  note IH = Suc.IH [OF w(1) ok leaf]
  have p: "p \<in> tset m l ?c" using leaf by (rule leaf_page_in_tset)
  have ch: "changes_in {p} m m'" unfolding m' by (rule store64_changes) simp
  have e: "entry m' pt j = entry m pt j" if "j < 512" for j
    by (rule entry_frame [OF ch, of kend]) (use p w ok Suc.prems(2) that in auto)
  have oth: "\<forall>j < 512. j \<noteq> ?i \<longrightarrow> valid (entry m pt j) \<longrightarrow> tset m l ?c \<inter> tset m l (PTE2PA (entry m pt j)) = {}"
    using Suc.prems(1) v by simp
  have ch': "changes_in (insert pt (tset m l ?c)) m m'" by (rule changes_in_mono [OF ch]) (use p in auto)
  have "valid (entry m' pt ?i)" "PTE2PA (entry m' pt ?i) = ?c" using e v by simp_all
  moreover have "wft m' l ?c" "tset m' l ?c \<subseteq> tset m l ?c" using IH by auto
  moreover have "\<forall>j < 512. j \<noteq> ?i \<longrightarrow> entry m' pt j = entry m pt j" using e by blast
  ultimately have g: "wft m' (Suc l) pt" "tset m' (Suc l) pt \<subseteq> tset m (Suc l) pt \<union> tset m l ?c"
    "pte_at m' (Suc l) pt vb = (if idx (Suc l) vb = ?i then pte_at m' l ?c vb else pte_at m (Suc l) pt vb)"
    "leaf_page m' (Suc l) pt vb = (if idx (Suc l) vb = ?i then leaf_page m' l ?c vb else leaf_page m (Suc l) pt vb)"
    using graft [OF ch' ok w(2) Suc.prems(1,2) idx_less oth] by blast+
  have "tset m' (Suc l) pt \<subseteq> tset m (Suc l) pt" using g(2) sub by blast
  moreover have "leaf_page m' (Suc l) pt vb = leaf_page m (Suc l) pt vb"
    using IH g(4) v by (auto simp: Let_def)
  moreover have "pte_at m' (Suc l) pt vb = (if same_slot (Suc l) va vb then w else pte_at m (Suc l) pt vb)"
    using IH g(3) v by (auto simp: same_slot_Suc pte_at_def Let_def)
  ultimately show ?case using g(1) by blast
qed

subsection \<open>Walking with allocation\<close>

text \<open>A well-formed table beside a well-formed free list, sharing no page.\<close>

definition ptab :: "u64 \<Rightarrow> 'z kst_scheme \<Rightarrow> nat \<Rightarrow> u64 \<Rightarrow> u64 list \<Rightarrow> bool" where
  "ptab kend s l pt ps \<longleftrightarrow>
     kinv kend s ps \<and> wft (ram s) l pt \<and> (\<forall>p \<in> tset (ram s) l pt. page_ok kend p) \<and>
     tset (ram s) l pt \<inter> set ps = {}"

lemma flist_changes:
  assumes "changes_in X m m'" "\<forall>p \<in> X. page_ok kend p" "\<forall>p \<in> set ps. page_ok kend p" "X \<inter> set ps = {}"
  shows "flist m' r ps = flist m r ps"
proof (rule flist_cong)
  fix p and i :: nat
  assume "p \<in> set ps" "i < 8"
  then show "m' (p + of_nat i) = m (p + of_nat i)"
    using assms by (intro changes_in_page [OF assms(1,2), of p]) (auto simp: in_page_def)
qed

lemma kinv_changes:
  assumes "kinv kend s ps" "changes_in X (ram s) m'" "\<forall>p \<in> X. page_ok kend p" "X \<inter> set ps = {}"
  shows "kinv kend (s\<lparr>ram := m'\<rparr>) ps"
  using assms flist_changes [OF assms(2,3), of ps] by (simp add: kinv_def)

lemma zero_page_table:
  assumes "\<And>i. i < 512 \<Longrightarrow> entry m p i = 0"
  shows "wft m l p \<and> tset m l p = {p} \<and> pte_at m l p va = 0"
proof -
  have "\<not> valid (entry m p i)" if "i < 512" for i using assms that by (simp add: valid_def)
  then show ?thesis using assms [of "idx 0 va"] by (cases l) (auto simp: pte_at_def)
qed

lemma zero_entries:
  assumes "\<And>x. in_page p x \<Longrightarrow> m x = 0" "i < 512"
  shows "entry m p i = 0"
proof -
  have "entry m p i = entry (\<lambda>_. 0) p i" by (rule entry_cong) (use assms in auto)
  also have "load_le (\<lambda>_. 0) a n = 0" for a n by (induction n arbitrary: a) auto
  then have "entry (\<lambda>_. 0) p i = 0" by (simp add: entry_def load64_def)
  finally show ?thesis .
qed

text \<open>A page of the range that is not in use, cleared and linked as the branch \<open>i\<close>.\<close>

lemma new_branch:
  assumes pt: "ptab kend s (Suc l) pt (p # qs)" "i < 512" "\<not> valid (entry (ram s) pt i)"
    and k: "kinv kend s1 qs" "changes_in {p} (ram s) (ram s1)"
    and s3: "s3 = s1\<lparr>ram := store64 (memset (ram s1) p 0 4096) (pt + 8 * of_nat i) (PA2PTE p OR PTE_V)\<rparr>"
  shows "kinv kend s3 qs" "changes_in {pt, p} (ram s) (ram s3)"
    "\<forall>j < 512. entry (ram s3) pt j = (if j = i then PA2PTE p OR PTE_V else entry (ram s) pt j)"
    "wft (ram s3) l p \<and> tset (ram s3) l p = {p} \<and> pte_at (ram s3) l p va = 0"
    "valid (PA2PTE p OR PTE_V)" "PTE2PA (PA2PTE p OR PTE_V) = p"
proof -
  have ok: "page_ok kend pt" "page_ok kend p" "p \<noteq> pt" "p \<notin> set qs" "pt \<notin> set qs"
    using pt(1) by (auto simp: ptab_def kinv_def)
  have al: "p mod 4096 = 0" using ok(2) by (simp add: page_ok_def)
  let ?m2 = "memset (ram s1) p 0 4096"
  have c2: "changes_in {p} (ram s1) ?m2" by (simp add: changes_in_def memset_apply in_page_def)
  have c3: "changes_in {pt} ?m2 (ram s3)" using store64_changes [OF pt(2)] s3 by simp
  have c02: "changes_in {p} (ram s) ?m2" using k(2) c2 by (rule changes_in_trans)
  show c: "changes_in {pt, p} (ram s) (ram s3)"
    using changes_in_Un [OF c02 c3] by (simp add: insert_commute)
  have "changes_in {pt, p} (ram s1) (ram s3)"
    using changes_in_Un [OF c2 c3] by (simp add: insert_commute)
  then show "kinv kend s3 qs"
    using kinv_changes [OF k(1), of "{pt, p}" "ram s3"] ok s3 by simp
  show "\<forall>j < 512. entry (ram s3) pt j = (if j = i then PA2PTE p OR PTE_V else entry (ram s) pt j)"
    using entry_frame [OF c02 _ ok(1)] ok pt(2) s3 by (simp add: entry_store64)
  have "entry (ram s3) p j = 0" if "j < 512" for j
  proof -
    have "entry (ram s3) p j = entry ?m2 p j"
      using entry_frame [OF c3 _ ok(2)] ok that by simp
    moreover have "entry ?m2 p j = 0"
      by (rule zero_entries) (use that in \<open>simp_all add: memset_apply in_page_def\<close>)
    ultimately show ?thesis by simp
  qed
  then show "wft (ram s3) l p \<and> tset (ram s3) l p = {p} \<and> pte_at (ram s3) l p va = 0"
    by (rule zero_page_table)
  show "valid (PA2PTE p OR PTE_V)" using and_flag_PA2PTE [of 0 p 1] by (simp add: valid_def)
  show "PTE2PA (PA2PTE p OR PTE_V) = p" using al by (intro PTE2PA_PA2PTE) simp_all
qed

text \<open>
  What \<open>walk_loop\<close> promises when it may allocate: it returns; it took pages \<open>us\<close> from the free
  list, at most one per level; the table is well formed, translates every address as before, and memory changed only
  in table pages and in \<open>us\<close>. It returns 0 only when the free list ran out, else the address of
  the entry of \<open>va\<close>.
\<close>

definition walk_post :: "u64 \<Rightarrow> nat \<Rightarrow> u64 \<Rightarrow> u64 \<Rightarrow> 'z kst_scheme \<Rightarrow> u64 list \<Rightarrow> u64 \<Rightarrow> 'z kst_scheme \<Rightarrow> u64 list \<Rightarrow> u64 list \<Rightarrow> bool" where
  "walk_post kend l pt va s ps r s' us qs \<longleftrightarrow>
     ps = us @ qs \<and> length us \<le> l \<and> ptab kend s' l pt qs \<and>
     tset (ram s') l pt \<subseteq> tset (ram s) l pt \<union> set us \<and>
     changes_in (tset (ram s) l pt \<union> set us) (ram s) (ram s') \<and>
     (\<forall>vb. pte_at (ram s') l pt vb = pte_at (ram s) l pt vb) \<and>
     (if r = 0 then qs = [] \<and> length us < l else \<exists>p. leaf_page (ram s') l pt va = Some p \<and> r = p + 8 * of_nat (idx 0 va))"

lemma ptab_grown:
  assumes "ptab kend s l pt (us @ qs)" "kinv kend s' qs" "wft (ram s') l pt"
    "tset (ram s') l pt \<subseteq> tset (ram s) l pt \<union> set us"
  shows "ptab kend s' l pt qs"
  using assms unfolding ptab_def kinv_def [of kend s] by auto

lemma ptab_child:
  assumes "ptab kend s (Suc l) pt ps" "i < 512" "valid (entry (ram s) pt i)"
  shows "ptab kend s l (PTE2PA (entry (ram s) pt i)) ps" "pt \<notin> tset (ram s) l (PTE2PA (entry (ram s) pt i))"
    "tset (ram s) l (PTE2PA (entry (ram s) pt i)) \<subseteq> tset (ram s) (Suc l) pt"
proof -
  show sub: "tset (ram s) l (PTE2PA (entry (ram s) pt i)) \<subseteq> tset (ram s) (Suc l) pt"
    using assms(2,3) by (rule tset_child)
  have "wft (ram s) l (PTE2PA (entry (ram s) pt i))" using assms by (simp add: ptab_def)
  then show "ptab kend s l (PTE2PA (entry (ram s) pt i)) ps"
    unfolding ptab_def using assms(1) sub unfolding ptab_def by blast
  show "pt \<notin> tset (ram s) l (PTE2PA (entry (ram s) pt i))" using assms by (simp add: ptab_def)
qed

text \<open>The entry is there: the walk continues in the child table.\<close>

lemma walk_post_follow:
  assumes pt: "ptab kend s (Suc l) pt ps" and v: "valid (entry (ram s) pt (idx (Suc l) va))"
    and IH: "walk_post kend l (PTE2PA (entry (ram s) pt (idx (Suc l) va))) va s ps r s' us qs"
  shows "walk_post kend (Suc l) pt va s ps r s' us qs"
proof -
  let ?i = "idx (Suc l) va" and ?m = "ram s" and ?m' = "ram s'"
  let ?c = "PTE2PA (entry ?m pt ?i)"
  let ?X = "tset ?m l ?c \<union> set us"
  note ch = ptab_child [OF pt idx_less v]
  have us: "ps = us @ qs" "\<forall>p \<in> set us. page_ok kend p" "pt \<notin> set us" "page_ok kend pt"
    using IH pt by (auto simp: walk_post_def ptab_def kinv_def)
  have X: "\<forall>p \<in> ?X. page_ok kend p" "pt \<notin> ?X"
    using ch us by (auto simp: ptab_def)
  have c: "changes_in ?X ?m ?m'" using IH by (simp add: walk_post_def)
  have e: "entry ?m' pt j = entry ?m pt j" if "j < 512" for j
    using entry_frame [OF c X(1) us(4) X(2) that] .
  have oth: "\<forall>j < 512. j \<noteq> ?i \<longrightarrow> valid (entry ?m pt j) \<longrightarrow> ?X \<inter> tset ?m l (PTE2PA (entry ?m pt j)) = {}"
  proof (intro allI impI)
    fix j assume j: "j < 512" "j \<noteq> ?i" "valid (entry ?m pt j)"
    have "tset ?m l ?c \<inter> tset ?m l (PTE2PA (entry ?m pt j)) = {}" using pt v j by (simp add: ptab_def)
    moreover have "set us \<inter> tset ?m (Suc l) pt = {}" using pt us(1) by (auto simp: ptab_def)
    ultimately show "?X \<inter> tset ?m l (PTE2PA (entry ?m pt j)) = {}" using tset_child [OF j(1,3), of l] by blast
  qed
  have c': "changes_in (insert pt ?X) ?m ?m'" by (rule changes_in_mono [OF c]) auto
  have old: "wft ?m (Suc l) pt" "\<forall>p \<in> tset ?m (Suc l) pt. page_ok kend p" using pt by (auto simp: ptab_def)
  have new: "valid (entry ?m' pt ?i)" "PTE2PA (entry ?m' pt ?i) = ?c" "wft ?m' l ?c" "tset ?m' l ?c \<subseteq> ?X"
    using e v IH by (auto simp: walk_post_def ptab_def)
  have ent: "\<forall>j < 512. j \<noteq> ?i \<longrightarrow> entry ?m' pt j = entry ?m pt j" using e by blast
  note g = graft [OF c' X old idx_less oth ent new]
  have sub: "tset ?m' (Suc l) pt \<subseteq> tset ?m (Suc l) pt \<union> set us" using g(2) ch(3) by blast
  have "kinv kend s' qs" using IH by (simp add: walk_post_def ptab_def)
  then have "ptab kend s' (Suc l) pt qs" using ptab_grown [OF pt [unfolded us(1)] _ g(1) sub] by blast
  moreover have "changes_in (tset ?m (Suc l) pt \<union> set us) ?m ?m'" by (rule changes_in_mono [OF c]) (use ch(3) in blast)
  moreover have "pte_at ?m' (Suc l) pt vb = pte_at ?m (Suc l) pt vb" for vb
    using g(3) [of vb] IH v by (auto simp: walk_post_def pte_at_def Let_def)
  moreover have "leaf_page ?m' (Suc l) pt va = leaf_page ?m' l ?c va" using g(4) [of va] by simp
  ultimately show ?thesis using IH sub unfolding walk_post_def by simp
qed

text \<open>The entry is missing: a fresh page is linked and the walk continues there.\<close>

lemma walk_post_extend:
  assumes pt: "ptab kend s (Suc l) pt (p # qs0)" and inv: "\<not> valid (entry (ram s) pt (idx (Suc l) va))"
    and k: "kinv kend s1 qs0" "changes_in {p} (ram s) (ram s1)"
    and s3: "s3 = s1\<lparr>ram := store64 (memset (ram s1) p 0 4096) (pt + 8 * of_nat (idx (Suc l) va)) (PA2PTE p OR PTE_V)\<rparr>"
    and IH: "walk_post kend l p va s3 qs0 r s' us qs"
  shows "walk_post kend (Suc l) pt va s (p # qs0) r s' (p # us) qs"
proof -
  let ?i = "idx (Suc l) va" and ?m = "ram s" and ?m' = "ram s'"
  let ?X = "insert p (set us)"
  note n = new_branch [OF pt idx_less inv k s3]
  have us: "qs0 = us @ qs" using IH by (simp add: walk_post_def)
  have old: "wft ?m (Suc l) pt" "\<forall>p \<in> tset ?m (Suc l) pt. page_ok kend p" "tset ?m (Suc l) pt \<inter> set (p # qs0) = {}"
    using pt unfolding ptab_def by blast+
  have ok: "\<forall>p \<in> ?X. page_ok kend p" using pt us by (simp add: ptab_def kinv_def)
  have pt': "page_ok kend pt" "pt \<notin> ?X" using old(2,3) us by auto
  have c1: "changes_in ?X (ram s3) ?m'" using IH n(4) by (simp add: walk_post_def)
  have c: "changes_in (insert pt ?X) ?m ?m'"
    using changes_in_Un [OF n(2) c1] by (simp add: insert_commute)
  have e: "entry ?m' pt j = (if j = ?i then PA2PTE p OR PTE_V else entry ?m pt j)" if "j < 512" for j
    using entry_frame [OF c1 ok pt' that] n(3) that by simp
  have oth: "\<forall>j < 512. j \<noteq> ?i \<longrightarrow> valid (entry ?m pt j) \<longrightarrow> ?X \<inter> tset ?m l (PTE2PA (entry ?m pt j)) = {}"
    using old(3) us tset_child [of _ ?m pt l] by auto
  have ent: "\<forall>j < 512. j \<noteq> ?i \<longrightarrow> entry ?m' pt j = entry ?m pt j" using e by simp
  have new: "valid (entry ?m' pt ?i)" "PTE2PA (entry ?m' pt ?i) = p" "wft ?m' l p" "tset ?m' l p \<subseteq> ?X"
    using e n(4,5,6) IH by (auto simp: walk_post_def ptab_def)
  note g = graft [OF c ok pt'(2) old(1,2) idx_less oth ent new]
  have kq: "kinv kend s' qs" using IH by (simp add: walk_post_def ptab_def)
  have "ptab kend s (Suc l) pt ((p # us) @ qs)" using pt us by simp
  then have "ptab kend s' (Suc l) pt qs" by (rule ptab_grown [OF _ kq g(1)]) (use g(2) in simp)
  moreover have "changes_in (tset ?m (Suc l) pt \<union> set (p # us)) ?m ?m'" by (rule changes_in_mono [OF c]) auto
  moreover have "pte_at ?m' (Suc l) pt vb = pte_at ?m (Suc l) pt vb" for vb
  proof -
    have "pte_at ?m' l p vb = 0" using IH new_branch(4) [OF pt idx_less inv k s3] by (simp add: walk_post_def)
    then show ?thesis using g(3) [of vb] inv by (auto simp: pte_at_def Let_def)
  qed
  moreover have "leaf_page ?m' (Suc l) pt va = leaf_page ?m' l p va" using g(4) [of va] by simp
  ultimately show ?thesis using IH g(2) us unfolding walk_post_def by simp
qed

lemma walk_loop_alloc:
  assumes "ptab kend s l pt ps"
  shows "\<exists>r s' us qs. walk_loop l pt va True s = Inr (r, s') \<and> walk_post kend l pt va s ps r s' us qs"
  using assms
proof (induction l arbitrary: pt s ps)
  case 0
  have "pt + 8 * of_nat (idx 0 va) \<noteq> 0"
  proof
    assume z: "pt + 8 * of_nat (idx 0 va) = 0"
    have "8 * idx 0 va \<le> 4096" using idx_less [of 0 va] by linarith
    moreover have "pt < PHYSTOP" using 0 by (simp add: ptab_def page_ok_def)
    ultimately have "unat (pt + of_nat (8 * idx 0 va)) = unat pt + 8 * idx 0 va" by (intro page_bound)
    then have "unat pt = 0" using z by simp
    then show False using 0 by (auto simp: ptab_def page_ok_def kinv_def unat_eq_0)
  qed
  then show ?case using 0
    by (intro exI [of _ "pt + 8 * PX 0 va"] exI [of _ s] exI [of _ "[]"] exI [of _ ps])
      (auto simp: walk_post_def slot_eq changes_in_def)
next
  case (Suc l)
  let ?i = "idx (Suc l) va"
  show ?case
  proof (cases "valid (entry (ram s) pt ?i)")
    case True
    from Suc.IH [OF ptab_child(1) [OF Suc.prems idx_less True]] obtain r s' us qs
      where "walk_loop l (PTE2PA (entry (ram s) pt ?i)) va True s = Inr (r, s')"
        "walk_post kend l (PTE2PA (entry (ram s) pt ?i)) va s ps r s' us qs" by blast
    then have "walk_loop (Suc l) pt va True s = Inr (r, s')" "walk_post kend (Suc l) pt va s ps r s' us qs"
      using True walk_post_follow [OF Suc.prems True] by (auto simp: valid_def entry_def idx_def)
    then show ?thesis by blast
  next
    case False
    have kv: "kinv kend s ps" using Suc.prems by (simp add: ptab_def)
    show ?thesis
    proof (cases ps)
      case Nil
      then obtain s' where s': "kalloc s = Inr (0, s')" "kinv kend s' []" "ram s' = ram s"
        using kalloc_spec [OF kv] by auto
      have "walk_loop (Suc l) pt va True s = Inr (0, s')"
        using False s' by (simp add: valid_def entry_def idx_def)
      moreover have "walk_post kend (Suc l) pt va s ps 0 s' [] []"
        using s' Nil Suc.prems unfolding walk_post_def ptab_def changes_in_def by simp
      ultimately show ?thesis by blast
    next
      case (Cons p qs0)
      then obtain s1 where s1: "kalloc s = Inr (p, s1)" "kinv kend s1 qs0" "\<forall>x. ram s1 x = (if in_page p x then 5 else ram s x)"
        using kalloc_spec [OF kv] by auto
      have ch: "changes_in {p} (ram s) (ram s1)" using s1(3) by (simp add: changes_in_def)
      define s3 where "s3 = s1\<lparr>ram := store64 (memset (ram s1) p 0 4096) (pt + 8 * of_nat ?i) (PA2PTE p OR PTE_V)\<rparr>"
      note n = new_branch [OF Suc.prems [unfolded Cons] idx_less False s1(2) ch s3_def]
      have "page_ok kend p" "p \<notin> set qs0" "p \<noteq> 0" using kv Cons by (auto simp: kinv_def)
      then have "ptab kend s3 l p qs0" using n(1,4) by (simp add: ptab_def)
      from Suc.IH [OF this] obtain r s' us qs
        where w: "walk_loop l p va True s3 = Inr (r, s')" "walk_post kend l p va s3 qs0 r s' us qs" by blast
      have "walk_loop (Suc l) pt va True s = Inr (r, s')"
        using False s1(1) w(1) \<open>p \<noteq> 0\<close> by (simp add: valid_def entry_def idx_def s3_def)
      then show ?thesis
        using walk_post_extend [OF Suc.prems [unfolded Cons] False s1(2) ch s3_def w(2)] Cons by blast
    qed
  qed
qed

end
