(* ===== verification/Vm_Correct.thy ===== *)
theory Vm_Correct
  imports Page_Table
begin

text \<open>
  Correctness of the routines of \<^verbatim>\<open>kernel/vm.c\<close> that map and unmap pages and that copy between
  kernel and user memory, in terms of the translation \<open>pte_at\<close> of the page table.
\<close>

section \<open>Lemmas\<close>

subsection \<open>Mapping pages\<close>

lemma PX_PGROUNDDOWN: "PX l (PGROUNDDOWN va) = PX l va"
proof (rule bit_word_eqI)
  fix n
  assume "n < LENGTH(64)"
  show "bit (PX l (PGROUNDDOWN va)) n = bit (PX l va) n"
    by (auto simp: bit_PX PGROUNDDOWN_eq bit_push_bit_iff bit_drop_bit_eq add.assoc dest: bit_imp_le_length)
qed

lemma idx_PGROUNDDOWN [simp]: "idx l (PGROUNDDOWN va) = idx l va"
  by (simp add: idx_def PX_PGROUNDDOWN)

lemma leaf_page_PGROUNDDOWN [simp]: "leaf_page m l pt (PGROUNDDOWN va) = leaf_page m l pt va"
  by (induction l arbitrary: pt) (auto simp: Let_def)

lemma pte_at_PGROUNDDOWN [simp]: "pte_at m l pt (PGROUNDDOWN va) = pte_at m l pt va"
  by (simp add: pte_at_def split: option.split)

lemma same_slot_iff:
  assumes "va < MAXVA" "vb < MAXVA"
  shows "same_slot 2 va vb \<longleftrightarrow> PGROUNDDOWN va = PGROUNDDOWN vb"
proof
  assume s: "same_slot 2 va vb"
  have "PX k va = PX k vb" if "k \<le> 2" for k using s that by (auto simp: same_slot_def idx_def word_unat_eq_iff)
  then show "PGROUNDDOWN va = PGROUNDDOWN vb" using PX_inj [OF assms] by simp
next
  assume e: "PGROUNDDOWN va = PGROUNDDOWN vb"
  have "idx k va = idx k vb" for k using idx_PGROUNDDOWN [of k va] idx_PGROUNDDOWN [of k vb] e by simp
  then show "same_slot 2 va vb" by (simp add: same_slot_def)
qed

lemma PGROUNDDOWN_eq_iff:
  assumes "a mod 4096 = 0"
  shows "PGROUNDDOWN vb = a \<longleftrightarrow> unat a \<le> unat vb \<and> unat vb < unat a + 4096"
proof -
  obtain k where k: "unat a = 4096 * k" using assms by (auto simp: aligned_iff_unat elim!: dvdE)
  have "unat vb div 4096 * 4096 = 4096 * k \<longleftrightarrow> unat vb div 4096 = k" by auto
  also have "\<dots> \<longleftrightarrow> 4096 * k \<le> unat vb \<and> unat vb < 4096 * k + 4096"
    using div_nat_eqI [of 4096 k "unat vb"] by (auto simp: dividend_less_times_div)
  finally show ?thesis by (simp add: word_unat_eq_iff unat_PGROUNDDOWN k)
qed

text \<open>
  A routine that works on the table took the pages \<open>us\<close> from the free list, changed memory only
  in table pages and in \<open>us\<close>, and left a table that translates as \<open>f\<close>.
\<close>

definition table_post :: "u64 \<Rightarrow> u64 \<Rightarrow> 'z kst_scheme \<Rightarrow> u64 list \<Rightarrow> 'z kst_scheme \<Rightarrow> u64 list \<Rightarrow> u64 list \<Rightarrow> (u64 \<Rightarrow> u64) \<Rightarrow> bool" where
  "table_post kend pt s ps s' us qs f \<longleftrightarrow>
     ps = us @ qs \<and> ptab kend s' 2 pt qs \<and>
     tset (ram s') 2 pt \<subseteq> tset (ram s) 2 pt \<union> set us \<and>
     changes_in (tset (ram s) 2 pt \<union> set us) (ram s) (ram s') \<and>
     (\<forall>vb < MAXVA. pte_at (ram s') 2 pt vb = f vb)"

lemma table_post_trans:
  assumes "table_post kend pt s ps s' us qs f" "table_post kend pt s' qs s'' us' qs' g"
  shows "table_post kend pt s ps s'' (us @ us') qs' g"
proof -
  have c: "changes_in (tset (ram s) 2 pt \<union> set us) (ram s) (ram s')"
    "changes_in (tset (ram s') 2 pt \<union> set us') (ram s') (ram s'')"
    "tset (ram s') 2 pt \<subseteq> tset (ram s) 2 pt \<union> set us"
    using assms by (auto simp: table_post_def)
  have "changes_in (tset (ram s) 2 pt \<union> set (us @ us')) (ram s) (ram s'')"
    by (rule changes_in_mono [OF changes_in_Un [OF c(1,2)]]) (use c(3) in auto)
  then show ?thesis using assms unfolding table_post_def by auto
qed

text \<open>One page: the walk, and the store through the pointer it returned.\<close>

lemma walk_alloc_store:
  assumes "ptab kend s 2 pt ps" "va < MAXVA"
  shows "\<exists>r s1 us qs. walk pt va True s = Inr (r, s1) \<and>
    table_post kend pt s ps s1 us qs (pte_at (ram s) 2 pt) \<and> length us \<le> 2 \<and>
    (if r = 0 then qs = [] \<and> length us < 2
     else load64 (ram s1) r = pte_at (ram s) 2 pt va \<and>
       (\<forall>w. table_post kend pt s ps (s1\<lparr>ram := store64 (ram s1) r w\<rparr>) us qs
          (\<lambda>vb. if PGROUNDDOWN va = PGROUNDDOWN vb then w else pte_at (ram s) 2 pt vb)))"
proof -
  from walk_loop_alloc [OF assms(1), of va] obtain r s1 us qs
    where w: "walk_loop 2 pt va True s = Inr (r, s1)" "walk_post kend 2 pt va s ps r s1 us qs" by blast
  have t: "table_post kend pt s ps s1 us qs (pte_at (ram s) 2 pt)"
    using w(2) unfolding walk_post_def table_post_def by blast
  have "load64 (ram s1) r = pte_at (ram s) 2 pt va \<and>
     table_post kend pt s ps (s1\<lparr>ram := store64 (ram s1) r w\<rparr>) us qs
       (\<lambda>vb. if PGROUNDDOWN va = PGROUNDDOWN vb then w else pte_at (ram s) 2 pt vb)" if nz: "r \<noteq> 0" for w
  proof -
    obtain p where p: "leaf_page (ram s1) 2 pt va = Some p" "r = p + 8 * of_nat (idx 0 va)"
      using w(2) nz by (auto simp: walk_post_def)
    have pt1: "ptab kend s1 2 pt qs" using t by (simp add: table_post_def)
    let ?m = "store64 (ram s1) r w"
    have "wft (ram s1) 2 pt" "\<forall>p \<in> tset (ram s1) 2 pt. page_ok kend p" using pt1 by (auto simp: ptab_def)
    note st = store_leaf [OF this p(1) arg_cong [OF p(2), of "\<lambda>r. store64 (ram s1) r w"]]
    have leaf: "p \<in> tset (ram s1) 2 pt" using p(1) by (rule leaf_page_in_tset)
    have ch: "changes_in {p} (ram s1) ?m" unfolding p(2) by (rule store64_changes) simp
    have "kinv kend (s1\<lparr>ram := ?m\<rparr>) qs"
      by (rule kinv_changes [OF _ ch]) (use pt1 leaf in \<open>auto simp: ptab_def\<close>)
    then have "ptab kend (s1\<lparr>ram := ?m\<rparr>) 2 pt qs"
      using pt1 st unfolding ptab_def by auto
    moreover have "changes_in (tset (ram s) 2 pt \<union> set us) (ram s) ?m"
    proof (rule changes_in_trans)
      show "changes_in (tset (ram s) 2 pt \<union> set us) (ram s) (ram s1)" using t by (simp add: table_post_def)
      show "changes_in (tset (ram s) 2 pt \<union> set us) (ram s1) ?m"
        by (rule changes_in_mono [OF ch]) (use leaf t in \<open>auto simp: table_post_def\<close>)
    qed
    moreover have "pte_at ?m 2 pt vb = (if PGROUNDDOWN va = PGROUNDDOWN vb then w else pte_at (ram s) 2 pt vb)"
      if "vb < MAXVA" for vb
      using st [of vb] t same_slot_iff [OF assms(2) that] that by (simp add: table_post_def)
    moreover have "load64 (ram s1) r = pte_at (ram s) 2 pt va"
      using w(2) p unfolding walk_post_def by (metis entry_def option.simps(5) pte_at_def)
    ultimately show ?thesis using t st unfolding table_post_def by auto
  qed
  then show ?thesis using w t assms(2)
    by (intro exI [of _ r] exI [of _ s1] exI [of _ us] exI [of _ qs])
      (auto simp: walk_def walk_post_def)
qed

text \<open>The translation after \<open>k\<close> pages from \<open>a\<close> were mapped to the pages from \<open>pa\<close>.\<close>

definition map_range :: "u64 \<Rightarrow> nat \<Rightarrow> u64 \<Rightarrow> u64 \<Rightarrow> (u64 \<Rightarrow> u64) \<Rightarrow> u64 \<Rightarrow> u64" where
  "map_range a k pa perm f vb =
     (if unat a \<le> unat vb \<and> unat vb < unat a + 4096 * k
      then PA2PTE (pa + 4096 * of_nat ((unat vb - unat a) div 4096)) OR perm OR PTE_V
      else f vb)"

lemma map_range_0 [simp]: "map_range a 0 pa perm f = f"
  by (rule ext) (auto simp: map_range_def)

lemma map_range_Suc:
  assumes "unat (a + 4096) = unat a + 4096"
  shows "map_range (a + 4096) k (pa + 4096) perm (map_range a 1 pa perm f) = map_range a (Suc k) pa perm f"
proof
  fix vb
  show "map_range (a + 4096) k (pa + 4096) perm (map_range a 1 pa perm f) vb = map_range a (Suc k) pa perm f vb"
  proof (cases "unat a + 4096 \<le> unat vb")
    case True
    then have d: "(unat vb - unat a) div 4096 = Suc ((unat vb - (unat a + 4096)) div 4096)"
      using div_step [of 4096 "unat a" "unat vb"] by linarith
    have "pa + 4096 + 4096 * of_nat n = pa + 4096 * of_nat (Suc n)" for n :: nat
      by (simp only: of_nat_Suc distrib_left mult_1_right add.assoc)
    moreover have "(unat a + 4096 \<le> unat vb \<and> unat vb < unat a + 4096 + 4096 * k) =
        (unat a \<le> unat vb \<and> unat vb < unat a + 4096 * Suc k)" using True by auto
    moreover have "\<not> (unat a \<le> unat vb \<and> unat vb < unat a + 4096 * 1)" using True by linarith
    ultimately show ?thesis by (simp only: map_range_def assms d if_False)
  next
    case False
    have "(unat vb - unat a) div 4096 = 0" if "unat a \<le> unat vb" using False that by simp
    moreover have "\<not> (unat a + 4096 \<le> unat vb \<and> unat vb < unat a + 4096 + 4096 * k)" using False by linarith
    moreover have "(unat a \<le> unat vb \<and> unat vb < unat a + 4096 * 1) =
        (unat a \<le> unat vb \<and> unat vb < unat a + 4096 * Suc k)" using False by auto
    ultimately show ?thesis by (simp only: map_range_def assms if_False)
  qed
qed


lemma map_range_cong: "f vb = g vb \<Longrightarrow> map_range a k pa perm f vb = map_range a k pa perm g vb"
  by (simp add: map_range_def)

lemma table_post_cong:
  "table_post kend pt s ps s' us qs f \<Longrightarrow> (\<And>vb. vb < MAXVA \<Longrightarrow> f vb = g vb) \<Longrightarrow> table_post kend pt s ps s' us qs g"
  by (simp add: table_post_def)

lemma map_range_1:
  assumes "a mod 4096 = 0"
  shows "map_range a 1 pa perm f vb = (if PGROUNDDOWN a = PGROUNDDOWN vb then PA2PTE pa OR perm OR PTE_V else f vb)"
proof -
  have "(unat vb - unat a) div 4096 = 0" if "unat a \<le> unat vb" "unat vb < unat a + 4096"
    using that by simp
  moreover have "PGROUNDDOWN a = PGROUNDDOWN vb \<longleftrightarrow> unat a \<le> unat vb \<and> unat vb < unat a + 4096"
    using PGROUNDDOWN_eq_iff [OF assms, of vb] PGROUNDDOWN_id [OF assms] by metis
  ultimately show ?thesis by (auto simp: map_range_def)
qed

lemma mappages_one:
  assumes "ptab kend s 2 pt ps" "a mod 4096 = 0" "a < MAXVA" "\<not> valid (pte_at (ram s) 2 pt a)"
  shows "(\<exists>s1 us. mappages_loop pt a lst pa perm s = Inr (-1, s1) \<and>
      table_post kend pt s ps s1 us [] (pte_at (ram s) 2 pt) \<and> length us < 2) \<or>
    (\<exists>s1 us qs. mappages_loop pt a lst pa perm s =
        (if a = lst then Inr (0, s1) else mappages_loop pt (a + 4096) lst (pa + 4096) perm s1) \<and>
      table_post kend pt s ps s1 us qs (map_range a 1 pa perm (pte_at (ram s) 2 pt)) \<and> length us \<le> 2)"
proof -
  from walk_alloc_store [OF assms(1,3)] obtain r s1 us qs where
    w: "walk pt a True s = Inr (r, s1)" "table_post kend pt s ps s1 us qs (pte_at (ram s) 2 pt)" "length us \<le> 2" and
    r: "if r = 0 then qs = [] \<and> length us < 2 else load64 (ram s1) r = pte_at (ram s) 2 pt a \<and>
       (\<forall>w. table_post kend pt s ps (s1\<lparr>ram := store64 (ram s1) r w\<rparr>) us qs
          (\<lambda>vb. if PGROUNDDOWN a = PGROUNDDOWN vb then w else pte_at (ram s) 2 pt vb))" by blast
  show ?thesis
  proof (cases "r = 0")
    case True
    then have "mappages_loop pt a lst pa perm s = Inr (-1, s1)"
      using w(1) by (subst mappages_loop.simps) simp
    then show ?thesis using w(2) r True by auto
  next
    case False
    let ?s2 = "s1\<lparr>ram := store64 (ram s1) r (PA2PTE pa OR perm OR PTE_V)\<rparr>"
    have "load64 (ram s1) r AND PTE_V = 0" using r False assms(4) by (simp add: valid_def)
    then have "mappages_loop pt a lst pa perm s =
        (if a = lst then Inr (0, ?s2) else mappages_loop pt (a + 4096) lst (pa + 4096) perm ?s2)"
      using w(1) False by (subst mappages_loop.simps) simp
    moreover have "table_post kend pt s ps ?s2 us qs (map_range a 1 pa perm (pte_at (ram s) 2 pt))"
      unfolding map_range_1 [OF assms(2), abs_def] using r False by simp
    ultimately show ?thesis using w(3) by blast
  qed
qed

text \<open>
  The loop over \<open>n + 1\<close> pages none of which is mapped: all of them get their entry, or the free list
  ran out after the first \<open>k\<close>.
\<close>

lemma mappages_loop_correct:
  assumes "ptab kend s 2 pt ps" "a mod 4096 = 0" "unat a + 4096 * n < unat MAXVA"
    "lst = a + of_nat (4096 * n)"
    "\<forall>vb < MAXVA. unat a \<le> unat vb \<and> unat vb < unat a + 4096 * Suc n \<longrightarrow> \<not> valid (pte_at (ram s) 2 pt vb)"
  shows "\<exists>r s' us qs k. mappages_loop pt a lst pa perm s = Inr (r, s') \<and>
    table_post kend pt s ps s' us qs (map_range a k pa perm (pte_at (ram s) 2 pt)) \<and>
    (r = 0 \<and> k = Suc n \<or> r = -1 \<and> k \<le> n \<and> qs = [] \<and> length us < 2 * Suc n)"
  using assms
proof (induction n arbitrary: a pa s ps)
  case 0
  have a: "a < MAXVA" "\<not> valid (pte_at (ram s) 2 pt a)" using 0 by (simp_all add: word_less_nat_alt)
  have l: "a = lst" using 0 by simp
  show ?case
    using mappages_one [OF 0(1,2) a, of lst pa perm] map_range_0 [of a pa perm] l
    by (metis One_nat_def le_refl mult_Suc_right mult_zero_right add_0_right)
next
  case (Suc n)
  have a: "a < MAXVA" "\<not> valid (pte_at (ram s) 2 pt a)"
    using Suc.prems(3,5) by (simp_all add: word_less_nat_alt)
  have u: "unat (a + 4096) = unat a + 4096"
    using Suc.prems(3) unat_add_u64 [of a 4096] by (simp add: MAXVA_unat)
  from mappages_one [OF Suc.prems(1,2) a, of lst pa perm]
  consider s1 us where "mappages_loop pt a lst pa perm s = Inr (-1, s1)" "table_post kend pt s ps s1 us [] (pte_at (ram s) 2 pt)" "length us < 2"
    | s1 us qs where "mappages_loop pt a lst pa perm s =
        (if a = lst then Inr (0, s1) else mappages_loop pt (a + 4096) lst (pa + 4096) perm s1)"
        "table_post kend pt s ps s1 us qs (map_range a 1 pa perm (pte_at (ram s) 2 pt))" "length us \<le> 2" by blast
  then show ?case
  proof cases
    case 1
    then have "length us < 2 * Suc (Suc n)" by simp
    then show ?thesis using 1 map_range_0 [of a pa perm] by (metis le0)
  next
    case 2
    have "a \<noteq> lst"
    proof
      assume "a = lst"
      then have "(of_nat (4096 * Suc n) :: u64) = of_nat 0" using Suc.prems(4) by simp
      then show False using Suc.prems(3) by (subst (asm) of_nat_u64_eq_iff) (auto simp: MAXVA_unat)
    qed
    have pt1: "ptab kend s1 2 pt qs" using 2(2) by (simp add: table_post_def)
    have al: "(a + 4096) mod 4096 = 0" using Suc.prems(2) by (simp add: aligned_iff_unat u)
    have b: "unat (a + 4096) + 4096 * n < unat MAXVA" using Suc.prems(3) u by simp
    have lst: "lst = a + 4096 + of_nat (4096 * n)" using Suc.prems(4) by (simp add: add.assoc)
    have p1: "\<forall>vb < MAXVA. pte_at (ram s1) 2 pt vb = map_range a 1 pa perm (pte_at (ram s) 2 pt) vb"
      using 2(2) by (simp add: table_post_def)
    have un: "\<forall>vb < MAXVA. unat (a + 4096) \<le> unat vb \<and> unat vb < unat (a + 4096) + 4096 * Suc n \<longrightarrow> \<not> valid (pte_at (ram s1) 2 pt vb)"
      using p1 Suc.prems(5) by (simp add: u map_range_def)
    from Suc.IH [OF pt1 al b lst un, of "pa + 4096"] obtain r s' us' qs' k where
      IH: "mappages_loop pt (a + 4096) lst (pa + 4096) perm s1 = Inr (r, s')"
        "table_post kend pt s1 qs s' us' qs' (map_range (a + 4096) k (pa + 4096) perm (pte_at (ram s1) 2 pt))"
        "r = 0 \<and> k = Suc n \<or> r = -1 \<and> k \<le> n \<and> qs' = [] \<and> length us' < 2 * Suc n" by blast
    have "table_post kend pt s1 qs s' us' qs' (map_range a (Suc k) pa perm (pte_at (ram s) 2 pt))"
      unfolding map_range_Suc [OF u, symmetric]
      using p1 by (intro table_post_cong [OF IH(2)] map_range_cong) simp
    from table_post_trans [OF 2(2) this] show ?thesis using 2(1,3) \<open>a \<noteq> lst\<close> IH(1,3)
      by (intro exI [of _ r] exI [of _ s'] exI [of _ "us @ us'"] exI [of _ qs'] exI [of _ "Suc k"]) auto
  qed
qed

lemma one_page_range:
  assumes "a mod 4096 = 0" "a < MAXVA"
  shows "PGROUNDDOWN a = a" "PGROUNDDOWN (a + 4096 - 1) = a"
proof -
  show "PGROUNDDOWN a = a" using assms(1) by (rule PGROUNDDOWN_id)
  have "unat (a + of_nat 4095) = unat a + 4095"
    by (rule unat_add_u64) (use assms(2) in \<open>simp add: word_less_nat_alt MAXVA_unat\<close>)
  then have "PGROUNDDOWN (a + of_nat 4095) = a" using PGROUNDDOWN_eq_iff [OF assms(1)] by simp
  moreover have "a + 4096 - 1 = a + of_nat 4095" by simp
  ultimately show "PGROUNDDOWN (a + 4096 - 1) = a" by (simp only:)
qed

text \<open>One unmapped page, with enough free pages for the levels above it.\<close>

lemma mappages_page:
  assumes pt: "ptab kend s 2 pt ps" and a: "a mod 4096 = 0" "a < MAXVA" "\<not> valid (pte_at (ram s) 2 pt a)"
    and n: "2 \<le> length ps"
  shows "\<exists>s' us qs. mappages pt a PGSIZE pa perm s = Inr (0, s') \<and> length us \<le> 2 \<and>
    table_post kend pt s ps s' us qs (map_range a 1 pa perm (pte_at (ram s) 2 pt))"
proof -
  have eq: "mappages pt a PGSIZE pa perm s = mappages_loop pt a a pa perm s"
    using one_page_range [OF a(1,2)] by (simp add: mappages_def)
  from mappages_one [OF pt a, of a pa perm] show ?thesis
  proof (elim disjE exE conjE)
    fix s1 us
    assume "table_post kend pt s ps s1 us [] (pte_at (ram s) 2 pt)" "length us < 2"
    then show ?thesis using n by (simp add: table_post_def)
  qed (auto simp: eq)
qed

subsection \<open>Looking up a mapped page\<close>

lemma walk_loop_present:
  "leaf_page (ram s) l pt va = Some p \<Longrightarrow> walk_loop l pt va alloc s = Inr (p + 8 * of_nat (idx 0 va), s)"
  by (induction l arbitrary: pt) (auto simp: Let_def entry_def idx_def valid_def split: if_splits)

lemma slot_not_null:
  assumes "page_ok kend p" "0 < kend" "i < 512"
  shows "p + 8 * of_nat i \<noteq> 0"
proof
  assume z: "p + 8 * of_nat i = 0"
  have "p < PHYSTOP" using assms(1) by (simp add: page_ok_def)
  then have "unat (p + of_nat (8 * i)) = unat p + 8 * i" using assms(3) by (intro page_bound) simp_all
  then have "p = 0" using z by (simp add: unat_eq_0)
  then show False using assms(1,2) by (simp add: page_ok_def)
qed

text \<open>Where the entry of \<open>va\<close> is, when the table translates \<open>va\<close>.\<close>

lemma walk_valid:
  assumes "ptab kend s 2 pt ps" "va < MAXVA" "valid (pte_at (ram s) 2 pt va)"
  obtains p where "leaf_page (ram s) 2 pt va = Some p" "p \<in> tset (ram s) 2 pt"
    "walk pt va alloc s = Inr (p + 8 * of_nat (idx 0 va), s)" "p + 8 * of_nat (idx 0 va) \<noteq> 0"
    "load64 (ram s) (p + 8 * of_nat (idx 0 va)) = pte_at (ram s) 2 pt va"
proof -
  obtain p where p: "leaf_page (ram s) 2 pt va = Some p"
    using assms(3) by (cases "leaf_page (ram s) 2 pt va") (auto simp: pte_at_def valid_def)
  then have t: "p \<in> tset (ram s) 2 pt" by (rule leaf_page_in_tset)
  then have "page_ok kend p" "0 < kend" using assms(1) by (auto simp: ptab_def kinv_def)
  then have "p + 8 * of_nat (idx 0 va) \<noteq> 0" by (rule slot_not_null) simp
  moreover have "walk pt va alloc s = Inr (p + 8 * of_nat (idx 0 va), s)"
    using walk_loop_present [OF p] assms(2) by (auto simp: walk_def)
  ultimately show ?thesis using that p t by (simp add: pte_at_def entry_def)
qed

text \<open>The physical page of a user address: 0 where the user may not use the page.\<close>

definition translate :: "mem \<Rightarrow> u64 \<Rightarrow> u64 \<Rightarrow> u64" where
  "translate m pt va =
     (let e = pte_at m 2 pt va in
      if va < MAXVA \<and> valid e \<and> e AND PTE_U \<noteq> 0 then PTE2PA e else 0)"

lemma walkaddr_translate:
  assumes "ptab kend s 2 pt ps"
  shows "walkaddr pt va s = Inr (translate (ram s) pt va, s)"
proof (cases "va < MAXVA \<and> valid (pte_at (ram s) 2 pt va)")
  case True
  then have "va < MAXVA" "valid (pte_at (ram s) 2 pt va)" by auto
  from walk_valid [OF assms this, of False] obtain r where
    "walk pt va False s = Inr (r, s)" "r \<noteq> 0" "load64 (ram s) r = pte_at (ram s) 2 pt va" by metis
  then show ?thesis using True by (auto simp: walkaddr_def translate_def valid_def Let_def)
next
  case False
  show ?thesis
  proof (cases "va < MAXVA")
    case True
    then have "\<not> valid (pte_at (ram s) 2 pt va)" using False by simp
    then show ?thesis using True
      by (auto simp: walkaddr_def translate_def walk_noalloc valid_def pte_at_def entry_def Let_def split: option.splits)
  qed (auto simp: walkaddr_def translate_def)
qed

subsection \<open>Unmapping pages\<close>

definition unmap_range :: "u64 \<Rightarrow> nat \<Rightarrow> (u64 \<Rightarrow> u64) \<Rightarrow> u64 \<Rightarrow> u64" where
  "unmap_range a k f vb = (if unat a \<le> unat vb \<and> unat vb < unat a + 4096 * k then 0 else f vb)"

text \<open>The physical pages behind the \<open>n\<close> pages from \<open>a\<close>.\<close>

definition user_pages :: "mem \<Rightarrow> u64 \<Rightarrow> u64 \<Rightarrow> nat \<Rightarrow> u64 list" where
  "user_pages m pt a n = map (\<lambda>i. PTE2PA (pte_at m 2 pt (a + of_nat (4096 * i)))) [0..<n]"

lemma user_pages_Suc:
  "user_pages m pt a (Suc n) = PTE2PA (pte_at m 2 pt a) # user_pages m pt (a + 4096) n"
proof -
  have "a + of_nat (4096 * Suc i) = a + 4096 + of_nat (4096 * i)" for i by (simp add: add.assoc)
  then show ?thesis
    unfolding user_pages_def upt_conv_Cons [OF zero_less_Suc] map_Suc_upt [symmetric] list.map map_map comp_def
    by (simp add: add.assoc)
qed

text \<open>
  A store of an entry through a pointer that \<open>walk\<close> returned, with the free list and the pages
  outside the table possibly changed in between (\<open>s1\<close>).
\<close>

lemma store_entry:
  assumes s: "ptab kend s 2 pt ps" "va < MAXVA" "leaf_page (ram s) 2 pt va = Some p"
    and s1: "kinv kend s1 qs" "changes_in X (ram s) (ram s1)" "\<forall>p \<in> X. page_ok kend p"
      "X \<inter> tset (ram s) 2 pt = {}" "set qs \<inter> tset (ram s) 2 pt = {}"
    and s2: "s2 = s1\<lparr>ram := store64 (ram s1) (p + 8 * of_nat (idx 0 va)) w\<rparr>"
  shows "ptab kend s2 2 pt qs" "tset (ram s2) 2 pt \<subseteq> tset (ram s) 2 pt"
    "changes_in (tset (ram s) 2 pt \<union> X) (ram s) (ram s2)"
    "\<forall>vb < MAXVA. pte_at (ram s2) 2 pt vb = (if PGROUNDDOWN va = PGROUNDDOWN vb then w else pte_at (ram s) 2 pt vb)"
proof -
  have ok: "\<forall>p \<in> tset (ram s) 2 pt. page_ok kend p" "wft (ram s) 2 pt" using s(1) by (auto simp: ptab_def)
  note fr = table_frame [OF s1(2,3) ok(1) s1(4)]
  have ok1: "\<forall>p \<in> tset (ram s1) 2 pt. page_ok kend p" "wft (ram s1) 2 pt" "leaf_page (ram s1) 2 pt va = Some p"
    using fr ok s(3) by auto
  have m2: "ram s2 = store64 (ram s1) (p + 8 * of_nat (idx 0 va)) w" using s2 by simp
  note st = store_leaf [OF ok1(2,1,3) m2]
  show sub: "tset (ram s2) 2 pt \<subseteq> tset (ram s) 2 pt" using st fr by simp
  have p: "p \<in> tset (ram s) 2 pt" using s(3) by (rule leaf_page_in_tset)
  have ch: "changes_in {p} (ram s1) (ram s2)" unfolding m2 by (rule store64_changes) simp
  show "changes_in (tset (ram s) 2 pt \<union> X) (ram s) (ram s2)"
    by (rule changes_in_mono [OF changes_in_Un [OF s1(2) ch]]) (use p in auto)
  have "kinv kend (s1\<lparr>ram := ram s2\<rparr>) qs"
    by (rule kinv_changes [OF s1(1) ch]) (use p ok s1(5) in auto)
  then have "kinv kend s2 qs" using s2 by simp
  then show "ptab kend s2 2 pt qs" using st sub ok(1) s1(5) unfolding ptab_def by blast
  show "\<forall>vb < MAXVA. pte_at (ram s2) 2 pt vb = (if PGROUNDDOWN va = PGROUNDDOWN vb then w else pte_at (ram s) 2 pt vb)"
    using st fr same_slot_iff [OF s(2)] table_frame [OF s1(2,3) ok(1) s1(4)] by simp
qed

text \<open>A page that may be unmapped: mapped as a leaf and, if it is to be freed, a page of its own.\<close>

definition unmappable :: "u64 \<Rightarrow> 'z kst_scheme \<Rightarrow> u64 \<Rightarrow> u64 list \<Rightarrow> bool \<Rightarrow> u64 \<Rightarrow> bool" where
  "unmappable kend s pt ps do_free va \<longleftrightarrow>
     (let e = pte_at (ram s) 2 pt va in
      valid e \<and> PTE_FLAGS e \<noteq> PTE_V \<and>
      (do_free \<longrightarrow> page_ok kend (PTE2PA e) \<and> PTE2PA e \<notin> set ps \<union> tset (ram s) 2 pt))"

lemma uvmunmap_one:
  assumes "ptab kend s 2 pt ps" "a < MAXVA" "a < stop" "unmappable kend s pt ps do_free a"
  shows "\<exists>s2. uvmunmap_loop kend pt a stop do_free s = uvmunmap_loop kend pt (a + 4096) stop do_free s2 \<and>
    ptab kend s2 2 pt (if do_free then PTE2PA (pte_at (ram s) 2 pt a) # ps else ps) \<and>
    tset (ram s2) 2 pt \<subseteq> tset (ram s) 2 pt \<and>
    changes_in (tset (ram s) 2 pt \<union> (if do_free then {PTE2PA (pte_at (ram s) 2 pt a)} else {})) (ram s) (ram s2) \<and>
    (\<forall>vb < MAXVA. pte_at (ram s2) 2 pt vb = (if PGROUNDDOWN a = PGROUNDDOWN vb then 0 else pte_at (ram s) 2 pt vb))"
proof -
  let ?e = "pte_at (ram s) 2 pt a"
  have e: "valid ?e" "PTE_FLAGS ?e \<noteq> PTE_V" "do_free \<Longrightarrow> page_ok kend (PTE2PA ?e) \<and> PTE2PA ?e \<notin> set ps \<union> tset (ram s) 2 pt"
    using assms(4) by (auto simp: unmappable_def Let_def)
  obtain p where p: "leaf_page (ram s) 2 pt a = Some p" "walk pt a False s = Inr (p + 8 * of_nat (idx 0 a), s)"
    "p + 8 * of_nat (idx 0 a) \<noteq> 0" "load64 (ram s) (p + 8 * of_nat (idx 0 a)) = ?e"
    using walk_valid [OF assms(1,2) e(1)] by metis
  have kv: "kinv kend s ps" "tset (ram s) 2 pt \<inter> set ps = {}" using assms(1) by (auto simp: ptab_def)
  have step: "uvmunmap_loop kend pt a stop do_free s =
      andthen (if do_free then kfree kend (PTE2PA ?e) s else Inr s) (\<lambda>s2.
        uvmunmap_loop kend pt (a + 4096) stop do_free (s2\<lparr>ram := store64 (ram s2) (p + 8 * of_nat (idx 0 a)) 0\<rparr>))"
    using p e(1,2) assms(3) by (subst uvmunmap_loop.simps) (simp add: valid_def)
  show ?thesis
  proof (cases do_free)
    case True
    with e(3) kfree_spec [OF kv(1)] obtain s1 where s1: "kfree kend (PTE2PA ?e) s = Inr s1" "kinv kend s1 (PTE2PA ?e # ps)"
      "\<forall>x. \<not> in_page (PTE2PA ?e) x \<longrightarrow> ram s1 x = ram s x" by blast
    have "changes_in {PTE2PA ?e} (ram s) (ram s1)" using s1(3) by (simp add: changes_in_def)
    moreover have "\<forall>p \<in> {PTE2PA ?e}. page_ok kend p" "{PTE2PA ?e} \<inter> tset (ram s) 2 pt = {}"
      "set (PTE2PA ?e # ps) \<inter> tset (ram s) 2 pt = {}"
      using e(3) [OF True] kv(2) by auto
    ultimately show ?thesis
      using store_entry [OF assms(1,2) p(1) s1(2) _ _ _ _ refl, of "{PTE2PA ?e}" 0] step s1(1) True
      by (intro exI [of _ "s1\<lparr>ram := store64 (ram s1) (p + 8 * of_nat (idx 0 a)) 0\<rparr>"]) simp
  next
    case False
    have "changes_in {} (ram s) (ram s)" by (simp add: changes_in_def)
    then show ?thesis
      using store_entry [OF assms(1,2) p(1) kv(1) _ _ _ _ refl, of "{}" 0] step kv(2) False
      by (intro exI [of _ "s\<lparr>ram := store64 (ram s) (p + 8 * of_nat (idx 0 a)) 0\<rparr>"]) (simp add: Int_commute)
  qed
qed

lemma unmap_range_step:
  assumes "a mod 4096 = 0" "unat (a + 4096) = unat a + 4096"
  shows "unmap_range (a + 4096) k (\<lambda>vb. if PGROUNDDOWN a = PGROUNDDOWN vb then 0 else f vb) = unmap_range a (Suc k) f"
proof
  fix vb
  have "PGROUNDDOWN a = PGROUNDDOWN vb \<longleftrightarrow> unat a \<le> unat vb \<and> unat vb < unat a + 4096"
    using PGROUNDDOWN_eq_iff [OF assms(1), of vb] PGROUNDDOWN_id [OF assms(1)] by metis
  then show "unmap_range (a + 4096) k (\<lambda>vb. if PGROUNDDOWN a = PGROUNDDOWN vb then 0 else f vb) vb = unmap_range a (Suc k) f vb"
    unfolding unmap_range_def assms(2) by auto
qed

lemma later_page:
  assumes "a mod 4096 = 0" "unat a + 4096 * Suc i < unat MAXVA"
  shows "a + 4096 + of_nat (4096 * i) < MAXVA" "PGROUNDDOWN a \<noteq> PGROUNDDOWN (a + 4096 + of_nat (4096 * i))"
proof -
  let ?v = "a + 4096 + of_nat (4096 * i)"
  have "?v = a + of_nat (4096 * Suc i)" by (simp add: add.assoc)
  moreover have "unat (a + of_nat (4096 * Suc i)) = unat a + 4096 * Suc i"
    by (rule unat_add_u64) (use assms(2) in \<open>simp add: MAXVA_unat\<close>)
  ultimately have u: "unat ?v = unat a + 4096 * Suc i" by (simp only:)
  then show "?v < MAXVA" using assms(2) by (simp only: word_less_nat_alt)
  have "\<not> unat ?v < unat a + 4096" unfolding u by simp
  then have "PGROUNDDOWN ?v \<noteq> a" using PGROUNDDOWN_eq_iff [OF assms(1), of ?v] by blast
  then show "PGROUNDDOWN a \<noteq> PGROUNDDOWN ?v" using PGROUNDDOWN_id [OF assms(1)] by metis
qed

text \<open>The loop over \<open>n\<close> pages: each loses its entry, and goes to the free list if it is to be freed.\<close>

lemma uvmunmap_loop_correct:
  assumes "ptab kend s 2 pt ps" "a mod 4096 = 0" "unat a + 4096 * n \<le> unat MAXVA"
    and "\<forall>i < n. unmappable kend s pt ps do_free (a + of_nat (4096 * i))"
    and "do_free \<longrightarrow> distinct (user_pages (ram s) pt a n)"
  shows "\<exists>s'. uvmunmap_loop kend pt a (a + of_nat (4096 * n)) do_free s = Inr s' \<and>
    ptab kend s' 2 pt (if do_free then rev (user_pages (ram s) pt a n) @ ps else ps) \<and>
    tset (ram s') 2 pt \<subseteq> tset (ram s) 2 pt \<and>
    changes_in (tset (ram s) 2 pt \<union> (if do_free then set (user_pages (ram s) pt a n) else {})) (ram s) (ram s') \<and>
    (\<forall>vb < MAXVA. pte_at (ram s') 2 pt vb = unmap_range a n (pte_at (ram s) 2 pt) vb)"
  using assms
proof (induction n arbitrary: a s ps)
  case 0
  then show ?case by (subst uvmunmap_loop.simps) (auto simp: user_pages_def changes_in_def unmap_range_def)
next
  case (Suc n)
  let ?e = "pte_at (ram s) 2 pt a"
  have aM: "a < MAXVA" using Suc.prems(3) by (simp add: MAXVA_unat word_less_nat_alt)
  have u: "unat (a + 4096) = unat a + 4096"
    using Suc.prems(3) unat_add_u64 [of a 4096] by (simp add: MAXVA_unat)
  have stop: "a + of_nat (4096 * Suc n) = a + 4096 + of_nat (4096 * n)" by (simp add: add.assoc)
  have lt: "a < a + of_nat (4096 * Suc n)"
    using Suc.prems(3) unat_add_u64 [of a "4096 * Suc n"] by (simp add: MAXVA_unat word_less_nat_alt)
  have um: "unmappable kend s pt ps do_free a" using Suc.prems(4) by (auto dest: spec [of _ 0])
  from uvmunmap_one [OF Suc.prems(1) aM lt um] obtain s2 where
    s2: "uvmunmap_loop kend pt a (a + of_nat (4096 * Suc n)) do_free s = uvmunmap_loop kend pt (a + 4096) (a + of_nat (4096 * Suc n)) do_free s2"
      "ptab kend s2 2 pt (if do_free then PTE2PA ?e # ps else ps)" "tset (ram s2) 2 pt \<subseteq> tset (ram s) 2 pt"
      "changes_in (tset (ram s) 2 pt \<union> (if do_free then {PTE2PA ?e} else {})) (ram s) (ram s2)"
    and pte: "\<forall>vb < MAXVA. pte_at (ram s2) 2 pt vb = (if PGROUNDDOWN a = PGROUNDDOWN vb then 0 else pte_at (ram s) 2 pt vb)"
    by blast
  have later: "pte_at (ram s2) 2 pt (a + 4096 + of_nat (4096 * i)) = pte_at (ram s) 2 pt (a + 4096 + of_nat (4096 * i))"
    if "i < n" for i
    using pte later_page [OF Suc.prems(2), of i] Suc.prems(3) that by simp
  have up: "user_pages (ram s2) pt (a + 4096) n = user_pages (ram s) pt (a + 4096) n"
    using later by (simp add: user_pages_def)
  have um': "\<forall>i < n. unmappable kend s2 pt (if do_free then PTE2PA ?e # ps else ps) do_free (a + 4096 + of_nat (4096 * i))"
  proof (intro allI impI)
    fix i assume i: "i < n"
    have "unmappable kend s pt ps do_free (a + of_nat (4096 * Suc i))" using Suc.prems(4) i by blast
    then have "unmappable kend s pt ps do_free (a + 4096 + of_nat (4096 * i))" by (simp add: add.assoc)
    moreover have "PTE2PA (pte_at (ram s) 2 pt (a + 4096 + of_nat (4096 * i))) \<in> set (user_pages (ram s) pt (a + 4096) n)"
      using i by (auto simp: user_pages_def)
    ultimately show "unmappable kend s2 pt (if do_free then PTE2PA ?e # ps else ps) do_free (a + 4096 + of_nat (4096 * i))"
      using Suc.prems(5) s2(3) later [OF i] by (auto simp: unmappable_def Let_def user_pages_Suc)
  qed
  have al: "(a + 4096) mod 4096 = 0" using Suc.prems(2) by (simp add: aligned_iff_unat u)
  have b: "unat (a + 4096) + 4096 * n \<le> unat MAXVA" using Suc.prems(3) u by simp
  have d: "do_free \<longrightarrow> distinct (user_pages (ram s2) pt (a + 4096) n)" using Suc.prems(5) by (simp add: up user_pages_Suc)
  from Suc.IH [OF s2(2) al b um' d] obtain s' where
    IH: "uvmunmap_loop kend pt (a + 4096) (a + 4096 + of_nat (4096 * n)) do_free s2 = Inr s'"
      "ptab kend s' 2 pt (if do_free then rev (user_pages (ram s2) pt (a + 4096) n) @ (if do_free then PTE2PA ?e # ps else ps)
         else (if do_free then PTE2PA ?e # ps else ps))"
      "tset (ram s') 2 pt \<subseteq> tset (ram s2) 2 pt"
      "changes_in (tset (ram s2) 2 pt \<union> (if do_free then set (user_pages (ram s2) pt (a + 4096) n) else {})) (ram s2) (ram s')"
      "\<forall>vb < MAXVA. pte_at (ram s') 2 pt vb = unmap_range (a + 4096) n (pte_at (ram s2) 2 pt) vb" by blast
  have "changes_in (tset (ram s) 2 pt \<union> (if do_free then set (user_pages (ram s) pt a (Suc n)) else {})) (ram s) (ram s')"
    by (rule changes_in_mono [OF changes_in_Un [OF s2(4) IH(4)]]) (use s2(3) in \<open>auto simp: up user_pages_Suc\<close>)
  moreover have "\<forall>vb < MAXVA. pte_at (ram s') 2 pt vb = unmap_range a (Suc n) (pte_at (ram s) 2 pt) vb"
    unfolding unmap_range_step [OF Suc.prems(2) u, symmetric] using IH(5) pte by (simp add: unmap_range_def)
  moreover have "uvmunmap_loop kend pt a (a + of_nat (4096 * Suc n)) do_free s = Inr s'"
    using s2(1) IH(1) by (simp only: stop)
  ultimately show ?case
    using s2(3) IH(2,3) by (intro exI [of _ s']) (auto simp: up user_pages_Suc)
qed

section \<open>Properties\<close>

text \<open>
  C3. \<open>mappages\<close> maps exactly the pages it was asked for. On a well-formed table, for a range of
  \<open>n\<close> pages below \<^verbatim>\<open>MAXVA\<close> none of which is mapped, it returns; either with 0 and
  every page of the range translated to the consecutive physical pages with the given permissions
  and every other address translated as before, or with -1 when the free list ran out, and this
  only if fewer than \<open>2 * n\<close> pages were free. It writes only to table pages and to pages
  it took from the free list. A size of 0 and a first page that is already mapped are panics.
\<close>

theorem mappages_correct:
  assumes "ptab kend s 2 pt ps" "va < MAXVA"
  shows "(unat sz = 4096 * Suc n \<and> va mod 4096 = 0 \<and> unat va + 4096 * n < unat MAXVA \<and>
      (\<forall>vb < MAXVA. unat va \<le> unat vb \<and> unat vb < unat va + 4096 * Suc n \<longrightarrow> \<not> valid (pte_at (ram s) 2 pt vb)) \<longrightarrow>
      (\<exists>r s' us qs k. mappages pt va sz pa perm s = Inr (r, s') \<and>
        table_post kend pt s ps s' us qs (map_range va k pa perm (pte_at (ram s) 2 pt)) \<and>
        (r = 0 \<and> k = Suc n \<or> r = -1 \<and> k \<le> n \<and> qs = [] \<and> length ps < 2 * Suc n))) \<and>
    mappages pt va 0 pa perm s = Inl (Panic ''mappages: size'') \<and>
    (sz \<noteq> 0 \<and> valid (pte_at (ram s) 2 pt va) \<longrightarrow> mappages pt va sz pa perm s = Inl (Panic ''mappages: remap''))"
proof (intro conjI impI)
  assume a: "unat sz = 4096 * Suc n \<and> va mod 4096 = 0 \<and> unat va + 4096 * n < unat MAXVA \<and>
      (\<forall>vb < MAXVA. unat va \<le> unat vb \<and> unat vb < unat va + 4096 * Suc n \<longrightarrow> \<not> valid (pte_at (ram s) 2 pt vb))"
  then have al: "va mod 4096 = 0" and b: "unat va + 4096 * n < unat MAXVA" by auto
  have sz: "sz = of_nat (4096 * Suc n)" using a of_nat_unat_u64 [of sz] by simp
  have "va + sz - 1 = va + of_nat (4096 * n) + of_nat 4095" by (simp add: sz)
  moreover have "PGROUNDDOWN (va + of_nat (4096 * n) + of_nat 4095) = va + of_nat (4096 * n)"
  proof -
    have u: "unat (va + of_nat (4096 * n)) = unat va + 4096 * n"
      by (rule unat_add_u64) (use b in \<open>simp add: MAXVA_unat\<close>)
    then have "unat (va + of_nat (4096 * n) + of_nat 4095) = unat va + 4096 * n + 4095"
      using unat_add_u64 [of "va + of_nat (4096 * n)" 4095] b by (simp add: MAXVA_unat)
    moreover have "(va + of_nat (4096 * n)) mod 4096 = 0" using al u by (simp add: aligned_iff_unat)
    ultimately show ?thesis by (simp only: PGROUNDDOWN_eq_iff u) simp
  qed
  ultimately have lst: "PGROUNDDOWN (va + sz - 1) = va + of_nat (4096 * n)" by (simp only:)
  have eq: "mappages pt va sz pa perm s = mappages_loop pt va (va + of_nat (4096 * n)) pa perm s"
    unfolding mappages_def lst PGROUNDDOWN_id [OF al] using a by auto
  have un: "\<forall>vb < MAXVA. unat va \<le> unat vb \<and> unat vb < unat va + 4096 * Suc n \<longrightarrow> \<not> valid (pte_at (ram s) 2 pt vb)"
    using a by blast
  from mappages_loop_correct [OF assms(1) al b refl un, of pa perm] obtain r s' us qs k where
    "mappages_loop pt va (va + of_nat (4096 * n)) pa perm s = Inr (r, s')"
    "table_post kend pt s ps s' us qs (map_range va k pa perm (pte_at (ram s) 2 pt))"
    "r = 0 \<and> k = Suc n \<or> r = -1 \<and> k \<le> n \<and> qs = [] \<and> length us < 2 * Suc n" by blast
  moreover from this(2) have "length ps = length us + length qs" by (simp add: table_post_def)
  ultimately show "\<exists>r s' us qs k. mappages pt va sz pa perm s = Inr (r, s') \<and>
      table_post kend pt s ps s' us qs (map_range va k pa perm (pte_at (ram s) 2 pt)) \<and>
      (r = 0 \<and> k = Suc n \<or> r = -1 \<and> k \<le> n \<and> qs = [] \<and> length ps < 2 * Suc n)"
    unfolding eq by (intro exI [of _ r] exI [of _ s'] exI [of _ us] exI [of _ qs] exI [of _ k]) auto
next
  assume v: "sz \<noteq> 0 \<and> valid (pte_at (ram s) 2 pt va)"
  have m: "PGROUNDDOWN va < MAXVA" using PGROUNDDOWN_le assms(2) by (rule le_less_trans)
  have v': "valid (pte_at (ram s) 2 pt (PGROUNDDOWN va))" using v by simp
  from walk_valid [OF assms(1) m v', of True] obtain r where
    "walk pt (PGROUNDDOWN va) True s = Inr (r, s)" "r \<noteq> 0" "load64 (ram s) r = pte_at (ram s) 2 pt (PGROUNDDOWN va)" by metis
  then show "mappages pt va sz pa perm s = Inl (Panic ''mappages: remap'')"
    using v by (simp add: mappages_def mappages_loop.simps [of pt "PGROUNDDOWN va"] valid_def)
qed (simp add: mappages_def)


section \<open>Witnesses\<close>

text \<open>An empty table at \<^verbatim>\<open>0x80022000\<close> and three free pages.\<close>

lemma empty_table_exists:
  "\<exists>s :: kst. ptab 0x80021d40 s 2 0x80022000 [0x80025000, 0x80024000, 0x80023000] \<and>
     (\<forall>va. pte_at (ram s) 2 0x80022000 va = 0)"
proof -
  let ?e = "0x80021d40 :: u64"
  have pg: "page_ok ?e 0x80022000" "page_ok ?e 0x80023000" "page_ok ?e 0x80024000" "page_ok ?e 0x80025000"
    by (simp_all add: page_ok_def)
  have k0: "kinv ?e boot_kst []" by (rule boot_kinv) simp_all
  obtain s1 :: kst where s1: "kinv ?e s1 [0x80023000]" "\<forall>x. \<not> in_page 0x80023000 x \<longrightarrow> ram s1 x = ram boot_kst x"
    using kfree_spec [OF k0 pg(2)] by auto
  obtain s2 :: kst where s2: "kinv ?e s2 [0x80024000, 0x80023000]" "\<forall>x. \<not> in_page 0x80024000 x \<longrightarrow> ram s2 x = ram s1 x"
    using kfree_spec [OF s1(1) pg(3)] by auto
  obtain s3 :: kst where s3: "kinv ?e s3 [0x80025000, 0x80024000, 0x80023000]" "\<forall>x. \<not> in_page 0x80025000 x \<longrightarrow> ram s3 x = ram s2 x"
    using kfree_spec [OF s2(1) pg(4)] by auto
  have "ram s3 x = 0" if x: "in_page 0x80022000 x" for x
  proof -
    have "\<not> in_page q x" if "page_ok ?e q" "q \<noteq> 0x80022000" for q
      using in_page_unique [of q "0x80022000" x] x that pg(1) page_ok_D by blast
    then have "\<not> in_page 0x80023000 x" "\<not> in_page 0x80024000 x" "\<not> in_page 0x80025000 x" using pg by simp_all
    then show ?thesis using s1(2) s2(2) s3(2) by (simp add: boot_kst_def)
  qed
  then have "entry (ram s3) 0x80022000 i = 0" if "i < 512" for i using zero_entries that by blast
  then have "wft (ram s3) 2 0x80022000 \<and> tset (ram s3) 2 0x80022000 = {0x80022000} \<and> pte_at (ram s3) 2 0x80022000 va = 0" for va
    by (rule zero_page_table)
  then show ?thesis using s3(1) pg(1) by (intro exI [of _ s3]) (auto simp: ptab_def)
qed

theorem mappages_correct_witness:
  "\<exists>(s :: kst) s'. mappages 0x80022000 0x1000 4096 0x80030000 22 s = Inr (0, s') \<and>
     pte_at (ram s') 2 0x80022000 0x1234 = PA2PTE 0x80030000 OR 22 OR PTE_V"
proof -
  obtain s :: kst where s: "ptab 0x80021d40 s 2 0x80022000 [0x80025000, 0x80024000, 0x80023000]"
    "\<forall>va. pte_at (ram s) 2 0x80022000 va = 0" using empty_table_exists by blast
  have "(0x1000 :: u64) < MAXVA" "(0x1234 :: u64) < MAXVA" by (simp_all add: MAXVA_def)
  from mappages_correct [OF s(1) this(1), of 4096 0 "0x80030000" 22] s(2) obtain s' us qs where
    "mappages 0x80022000 0x1000 4096 0x80030000 22 s = Inr (0, s')"
    "table_post 0x80021d40 0x80022000 s [0x80025000, 0x80024000, 0x80023000] s' us qs
       (map_range 0x1000 1 0x80030000 22 (pte_at (ram s) 2 0x80022000))"
    by (auto simp: valid_def MAXVA_unat)
  moreover from this(2) have "pte_at (ram s') 2 0x80022000 0x1234 =
      map_range 0x1000 1 0x80030000 22 (pte_at (ram s) 2 0x80022000) 0x1234"
    using \<open>0x1234 < MAXVA\<close> unfolding table_post_def by blast
  ultimately show ?thesis by (intro exI [of _ s] exI [of _ s']) (simp add: map_range_def)
qed


end
