(* ===== verification/Vm_Grow.thy ===== *)
theory Vm_Grow
  imports Vm_Correct
begin

text \<open>
  Growing and shrinking a process: \<open>uvmalloc\<close> and \<open>uvmdealloc\<close> of \<^verbatim>\<open>kernel/vm.c\<close>. Growing
  gives every new page a page of its own from the free list, or gives all of them back.
\<close>

section \<open>Lemmas\<close>

subsection \<open>Shrinking\<close>

lemma PGROUNDUP_mult:
  "unat sz \<le> unat MAXVA \<Longrightarrow> unat (PGROUNDUP sz) = 4096 * ((unat sz + 4095) div 4096)"
  by (simp add: unat_PGROUNDUP MAXVA_unat)

lemma int32_of_small:
  assumes "unat w < 2 ^ 31"
  shows "int32_of w = w"
proof (rule bit_word_eqI)
  fix n
  assume n: "n < LENGTH(64)"
  have hi: "\<not> bit w m" if "31 \<le> m" for m
  proof -
    have "take_bit 31 (unat w) = unat w" using assms by (simp add: take_bit_eq_mod)
    then have "bit w m \<Longrightarrow> m < 31" by (metis bit_take_bit_iff bit_unsigned_iff possible_bit_nat)
    then show ?thesis using that by auto
  qed
  show "bit (int32_of w) n = bit w n"
    using n hi [of n] hi [of 31] by (auto simp: int32_of_def bit_simps min_def)
qed

text \<open>The number of pages between two sizes.\<close>

definition pages_between :: "u64 \<Rightarrow> u64 \<Rightarrow> nat" where
  "pages_between lo hi = (unat hi + 4095) div 4096 - (unat lo + 4095) div 4096"

lemma uvmdealloc_unmaps:
  assumes "newsz \<le> oldsz" "unat oldsz \<le> unat MAXVA"
  shows "uvmdealloc kend pt oldsz newsz s =
    andthen (uvmunmap_loop kend pt (PGROUNDUP newsz) (PGROUNDUP newsz + of_nat (4096 * pages_between newsz oldsz)) True s)
      (\<lambda>s1. Inr (newsz, s1))"
proof -
  let ?x = "(unat newsz + 4095) div 4096" and ?y = "(unat oldsz + 4095) div 4096"
  let ?n = "pages_between newsz oldsz"
  have le: "unat newsz \<le> unat oldsz" using assms(1) by (simp add: word_le_nat_alt)
  then have xy: "?x \<le> ?y" by (intro div_le_mono) simp
  have y: "?y \<le> 67108864" using assms(2) div_le_mono [of "unat oldsz + 4095" "274877906944 + 4095" 4096] by (simp add: MAXVA_unat)
  have u: "unat (PGROUNDUP newsz) = 4096 * ?x" "unat (PGROUNDUP oldsz) = 4096 * ?y"
    using le assms(2) by (simp_all add: PGROUNDUP_mult)
  show ?thesis
  proof (cases "PGROUNDUP newsz < PGROUNDUP oldsz")
    case True
    have "PGROUNDUP newsz \<le> PGROUNDUP oldsz" using True by simp
    then have "unat (PGROUNDUP oldsz - PGROUNDUP newsz) = 4096 * ?n"
      by (simp add: unat_sub u pages_between_def diff_mult_distrib2)
    then have d: "unat ((PGROUNDUP oldsz - PGROUNDUP newsz) div 4096) = ?n" by (simp add: unat_div)
    have "?n < 2 ^ 31" using y by (simp add: pages_between_def)
    then have np: "int32_of ((PGROUNDUP oldsz - PGROUNDUP newsz) div 4096) = of_nat ?n"
    proof -
      have "int32_of ((PGROUNDUP oldsz - PGROUNDUP newsz) div 4096) = (PGROUNDUP oldsz - PGROUNDUP newsz) div 4096"
        by (rule int32_of_small) (use \<open>?n < 2 ^ 31\<close> d in simp)
      also have "\<dots> = of_nat ?n" unfolding d [symmetric] by simp
      finally show ?thesis .
    qed
    have "PGROUNDUP newsz mod 4096 = 0" by (simp add: aligned_iff_unat u)
    moreover have "\<not> newsz \<ge> oldsz" using True by (metis assms(1) order_antisym order_less_irrefl)
    ultimately show ?thesis using True np
      by (simp add: uvmdealloc_def uvmunmap_def mult.commute)
  next
    case False
    then have "?n = 0" using u by (simp add: word_less_nat_alt pages_between_def)
    then have "uvmunmap_loop kend pt (PGROUNDUP newsz) (PGROUNDUP newsz + of_nat (4096 * ?n)) True s = Inr s"
      by (subst uvmunmap_loop.simps) simp
    then show ?thesis using False assms(1) by (auto simp: uvmdealloc_def)
  qed
qed

subsection \<open>Growing\<close>

text \<open>The translation after the pages \<open>ms\<close> were mapped one after the other from \<open>start\<close>.\<close>

definition grow_map :: "u64 \<Rightarrow> u64 list \<Rightarrow> u64 \<Rightarrow> (u64 \<Rightarrow> u64) \<Rightarrow> u64 \<Rightarrow> u64" where
  "grow_map start ms perm f vb =
     (if unat start \<le> unat vb \<and> unat vb < unat start + 4096 * length ms
      then PA2PTE (ms ! ((unat vb - unat start) div 4096)) OR perm OR PTE_V
      else f vb)"

lemma grow_map_Nil [simp]: "grow_map start [] perm f = f"
  by (rule ext) (auto simp: grow_map_def)

lemma grow_map_snoc:
  assumes "unat a = unat start + 4096 * length ms"
  shows "map_range a 1 mem perm (grow_map start ms perm f) = grow_map start (ms @ [mem]) perm f"
proof
  fix vb
  show "map_range a 1 mem perm (grow_map start ms perm f) vb = grow_map start (ms @ [mem]) perm f vb"
  proof (cases "unat a \<le> unat vb \<and> unat vb < unat a + 4096")
    case True
    then obtain d where d: "unat vb = unat a + d" "d < 4096" by (metis le_iff_add nat_add_left_cancel_less)
    have "(unat vb - unat start) div 4096 = length ms" using d assms by simp
    moreover have "(unat vb - unat a) div 4096 = 0" using d by simp
    ultimately show ?thesis using True assms by (simp add: map_range_def grow_map_def)
  next
    case False
    have "unat vb < unat start + 4096 * length ms \<longrightarrow> unat start \<le> unat vb \<longrightarrow> (unat vb - unat start) div 4096 < length ms"
      by (simp add: less_mult_imp_div_less mult.commute)
    then show ?thesis using False assms by (auto simp: map_range_def grow_map_def nth_append)
  qed
qed

text \<open>
  The state of the loop of \<open>uvmalloc\<close> that started in \<open>s0\<close> with the free pages \<open>ps0\<close>: the
  pages \<open>ms\<close> are mapped from \<open>start\<close> on, zeroed, and in use for nothing else.
\<close>

definition grown :: "u64 \<Rightarrow> u64 \<Rightarrow> u64 \<Rightarrow> u64 \<Rightarrow> 'z kst_scheme \<Rightarrow> u64 list \<Rightarrow> 'z kst_scheme \<Rightarrow> u64 list \<Rightarrow> u64 list \<Rightarrow> bool" where
  "grown kend pt start perm s0 ps0 s ms qs \<longleftrightarrow>
     ptab kend s 2 pt qs \<and> distinct ms \<and> set ms \<inter> (set qs \<union> tset (ram s) 2 pt) = {} \<and>
     set ms \<union> set qs \<subseteq> set ps0 \<and> (\<forall>p \<in> set ps0. page_ok kend p) \<and>
     tset (ram s) 2 pt \<subseteq> tset (ram s0) 2 pt \<union> set ps0 \<and>
     changes_in (tset (ram s0) 2 pt \<union> set ps0) (ram s0) (ram s) \<and>
     (\<forall>p \<in> set ms. \<forall>x. in_page p x \<longrightarrow> ram s x = 0) \<and>
     (\<forall>vb < MAXVA. pte_at (ram s) 2 pt vb = grow_map start ms perm (pte_at (ram s0) 2 pt) vb)"

lemma grow_flags:
  assumes "xperm AND NOT 0x3FF = 0" "p mod 4096 = 0"
  shows "valid (PA2PTE p OR (PTE_R OR PTE_U OR xperm) OR PTE_V)"
    "PTE2PA (PA2PTE p OR (PTE_R OR PTE_U OR xperm) OR PTE_V) = p"
    "PTE_FLAGS (PA2PTE p OR (PTE_R OR PTE_U OR xperm) OR PTE_V) \<noteq> PTE_V"
proof -
  let ?f = "(PTE_R OR PTE_U OR xperm) OR PTE_V"
  have s: "?f AND NOT 0x3FF = 0"
  proof -
    have "?f AND NOT 0x3FF = ((PTE_R AND NOT 0x3FF) OR (PTE_U AND NOT 0x3FF) OR (xperm AND NOT 0x3FF)) OR (PTE_V AND NOT 0x3FF)"
      by (simp only: bit.conj_disj_distrib2)
    also have "\<dots> = 0" unfolding assms(1) by simp
    finally show ?thesis .
  qed
  show "PTE2PA (PA2PTE p OR (PTE_R OR PTE_U OR xperm) OR PTE_V) = p"
    using assms(2) s by (rule PTE2PA_PA2PTE)
  have "bit ?f 0" "bit ?f 1" by (simp_all add: bit_or_iff)
  moreover have "PTE_FLAGS (PA2PTE p OR ?f) = ?f" using s by (rule PTE_FLAGS_PA2PTE)
  moreover have "\<not> bit PTE_V 1" by simp
  ultimately show "PTE_FLAGS (PA2PTE p OR (PTE_R OR PTE_U OR xperm) OR PTE_V) \<noteq> PTE_V" by metis
  have "(PA2PTE p OR ?f) AND 2 ^ 0 = ?f AND 2 ^ 0" by (rule and_flag_PA2PTE) simp
  moreover have "?f AND 1 \<noteq> 0"
  proof
    assume z: "?f AND 1 = 0"
    have "bit (?f AND 1) 0" using \<open>bit ?f 0\<close> unfolding bit_and_iff by simp
    then show False unfolding z by simp
  qed
  ultimately show "valid (PA2PTE p OR (PTE_R OR PTE_U OR xperm) OR PTE_V)"
    unfolding valid_def by simp
qed

lemma aligned_step_below:
  assumes "a mod 4096 = 0" "b mod 4096 = 0" "a < b"
  shows "unat a + 4096 \<le> unat (b :: u64)"
proof -
  obtain x y where "unat a = 4096 * x" "unat b = 4096 * y" using assms(1,2) by (auto simp: aligned_iff_unat elim!: dvdE)
  moreover have "unat a < unat b" using assms(3) by (simp add: word_less_nat_alt)
  ultimately show ?thesis by simp
qed

lemma aligned_sizes:
  assumes "start mod 4096 = 0" "unat hi = unat start + 4096 * n" "unat hi \<le> unat MAXVA"
  shows "PGROUNDUP start = start" "pages_between start hi = n"
proof -
  obtain x where x: "unat start = 4096 * x" using assms(1) by (auto simp: aligned_iff_unat elim!: dvdE)
  have d: "(4096 * y + 4095) div 4096 = y" for y :: nat by simp
  have "unat (PGROUNDUP start) = unat start"
    using assms(2,3) PGROUNDUP_mult [of start] by (simp add: x d)
  then show "PGROUNDUP start = start" by (simp only: word_unat_eq_iff)
  have h: "unat hi = 4096 * (x + n)" using assms(2) x by simp
  show "pages_between start hi = n" unfolding pages_between_def h x d by simp
qed

text \<open>Giving the pages back, as \<open>uvmalloc\<close> does when it fails.\<close>

lemma grown_entry:
  assumes "grown kend pt start perm s0 ps0 s ms qs" "i < length ms" "unat start + 4096 * length ms \<le> unat MAXVA"
  shows "pte_at (ram s) 2 pt (start + of_nat (4096 * i)) = PA2PTE (ms ! i) OR perm OR PTE_V"
    "page_ok kend (ms ! i)"
proof -
  have "ms ! i \<in> set ms" using assms(2) by simp
  then show "page_ok kend (ms ! i)" using assms(1) unfolding grown_def by blast
  let ?v = "start + of_nat (4096 * i)"
  have "unat ?v = unat start + 4096 * i"
    by (rule unat_add_u64) (use assms(2,3) in \<open>simp add: MAXVA_unat\<close>)
  moreover have "unat start + 4096 * i < unat MAXVA" using assms(2,3) by linarith
  ultimately have "?v < MAXVA" "unat start \<le> unat ?v" "unat ?v < unat start + 4096 * length ms" "(unat ?v - unat start) div 4096 = i"
    using assms(2) by (simp_all only: word_less_nat_alt)
  then show "pte_at (ram s) 2 pt ?v = PA2PTE (ms ! i) OR perm OR PTE_V"
    using assms(1) by (simp add: grown_def grow_map_def)
qed

lemma grown_shrink:
  assumes g: "grown kend pt start (PTE_R OR PTE_U OR xperm) s0 ps0 s ms qs"
    and st: "start mod 4096 = 0" "unat start + 4096 * length ms \<le> unat MAXVA" "xperm AND NOT 0x3FF = 0"
  shows "\<exists>s'. uvmdealloc kend pt (start + of_nat (4096 * length ms)) start s = Inr (start, s') \<and>
    ptab kend s' 2 pt (rev ms @ qs) \<and> changes_in (tset (ram s0) 2 pt \<union> set ps0) (ram s0) (ram s') \<and>
    (\<forall>vb < MAXVA. pte_at (ram s') 2 pt vb = unmap_range start (length ms) (pte_at (ram s0) 2 pt) vb)"
proof -
  let ?n = "length ms" and ?old = "start + of_nat (4096 * length ms)"
  have uo: "unat ?old = unat start + 4096 * ?n"
    by (rule unat_add_u64) (use st(2) in \<open>simp add: MAXVA_unat\<close>)
  have ok: "page_ok kend (ms ! i)" "ms ! i mod 4096 = 0" if "i < ?n" for i
    using grown_entry(2) [OF g that st(2)] by (auto simp: page_ok_def)
  note ent = grown_entry(1) [OF g _ st(2)]
  have up: "user_pages (ram s) pt start ?n = ms"
    by (rule nth_equalityI) (simp_all add: user_pages_def ent [simplified] grow_flags(2) [OF st(3)] ok(2))
  have um: "\<forall>i < ?n. unmappable kend s pt qs True (start + of_nat (4096 * i))"
  proof (intro allI impI)
    fix i assume i: "i < ?n"
    then have "ms ! i \<notin> set qs \<union> tset (ram s) 2 pt" using g nth_mem [OF i] unfolding grown_def by blast
    then show "unmappable kend s pt qs True (start + of_nat (4096 * i))"
      unfolding unmappable_def ent [OF i] Let_def
      using grow_flags [OF st(3) ok(2) [OF i]] ok(1) [OF i] by simp
  qed
  have pt: "ptab kend s 2 pt qs" "distinct ms" using g by (simp_all add: grown_def)
  from uvmunmap_loop_correct [OF pt(1) st(1,2) um] obtain s' where
    s': "uvmunmap_loop kend pt start ?old True s = Inr s'" "ptab kend s' 2 pt (rev ms @ qs)"
      "changes_in (tset (ram s) 2 pt \<union> set ms) (ram s) (ram s')"
      "\<forall>vb < MAXVA. pte_at (ram s') 2 pt vb = unmap_range start ?n (pte_at (ram s) 2 pt) vb"
    using pt(2) by (auto simp: up)
  have "PGROUNDUP start = start" "pages_between start ?old = ?n"
    using aligned_sizes [OF st(1), of ?old ?n] uo st(2) by simp_all
  then have "uvmdealloc kend pt ?old start s = Inr (start, s')"
    using uvmdealloc_unmaps [of start ?old kend pt s] s'(1) uo st(2) by (simp add: word_le_nat_alt)
  moreover have "changes_in (tset (ram s0) 2 pt \<union> set ps0) (ram s0) (ram s')"
    using g unfolding grown_def
    by (intro changes_in_mono [OF changes_in_Un [OF _ s'(3)]]) auto
  moreover have "\<forall>vb < MAXVA. pte_at (ram s') 2 pt vb = unmap_range start ?n (pte_at (ram s0) 2 pt) vb"
    using s'(4) g by (simp add: grown_def unmap_range_def grow_map_def)
  ultimately show ?thesis using s'(2) by blast
qed

lemma ptab_frame:
  assumes "ptab kend s 2 pt ps" "kinv kend s' qs" "changes_in X (ram s) (ram s')"
    "\<forall>p \<in> X. page_ok kend p" "(X \<union> set qs) \<inter> tset (ram s) 2 pt = {}"
  shows "ptab kend s' 2 pt qs" "tset (ram s') 2 pt = tset (ram s) 2 pt" "pte_at (ram s') 2 pt vb = pte_at (ram s) 2 pt vb"
proof -
  have "\<forall>p \<in> tset (ram s) 2 pt. page_ok kend p" "X \<inter> tset (ram s) 2 pt = {}" using assms(1,5) by (auto simp: ptab_def)
  note fr = table_frame [OF assms(3,4) this]
  show "tset (ram s') 2 pt = tset (ram s) 2 pt" "pte_at (ram s') 2 pt vb = pte_at (ram s) 2 pt vb" using fr by blast+
  show "ptab kend s' 2 pt qs" using fr assms(1,2,5) unfolding ptab_def by blast
qed

lemma grown_next:
  assumes "grown kend pt start perm s0 ps0 s ms qs" "ptab kend s' 2 pt qs'"
    and "set ms' \<union> set qs' \<subseteq> set ms \<union> set qs" "distinct ms'" "set ms' \<inter> (set qs' \<union> tset (ram s') 2 pt) = {}"
    and "tset (ram s') 2 pt \<subseteq> tset (ram s) 2 pt \<union> set qs"
    and "changes_in (tset (ram s) 2 pt \<union> set qs) (ram s) (ram s')"
    and "\<forall>p \<in> set ms'. \<forall>x. in_page p x \<longrightarrow> ram s' x = 0"
    and "\<forall>vb < MAXVA. pte_at (ram s') 2 pt vb = grow_map start ms' perm (pte_at (ram s0) 2 pt) vb"
  shows "grown kend pt start perm s0 ps0 s' ms' qs'"
proof -
  have "changes_in (tset (ram s0) 2 pt \<union> set ps0) (ram s0) (ram s')"
    using assms(1) unfolding grown_def
    by (intro changes_in_mono [OF changes_in_Un [OF _ assms(7)]]) auto
  then show ?thesis using assms unfolding grown_def by blast
qed

text \<open>One iteration of the loop.\<close>

lemma grow_alloc:
  assumes g: "grown kend pt start perm s0 ps0 s ms (mem # qs)"
    and a: "a mod 4096 = 0" "a < MAXVA" "\<not> valid (pte_at (ram s) 2 pt a)" "unat a = unat start + 4096 * length ms"
  shows "\<exists>s1 r s3. kalloc s = Inr (mem, s1) \<and> mem \<noteq> 0 \<and>
    mappages pt a PGSIZE mem perm (s1\<lparr>ram := memset (ram s1) mem 0 4096\<rparr>) = Inr (r, s3) \<and>
    (if r = 0 then \<exists>qs'. grown kend pt start perm s0 ps0 s3 (ms @ [mem]) qs'
     else \<exists>s4. kfree kend mem s3 = Inr s4 \<and> grown kend pt start perm s0 ps0 s4 ms [mem])"
proof -
  have pt: "ptab kend s 2 pt (mem # qs)" using g by (simp add: grown_def)
  then have kv: "kinv kend s (mem # qs)" "tset (ram s) 2 pt \<inter> set (mem # qs) = {}" "page_ok kend mem"
    and dq: "mem \<notin> set qs" "distinct qs" "mem \<noteq> 0" "\<forall>p \<in> set qs. page_ok kend p"
    by (auto simp: ptab_def kinv_def)
  obtain s1 where s1: "kalloc s = Inr (mem, s1)" "kinv kend s1 qs" "\<forall>x. ram s1 x = (if in_page mem x then 5 else ram s x)"
    using kalloc_spec [OF kv(1)] by auto
  let ?s2 = "s1\<lparr>ram := memset (ram s1) mem 0 4096\<rparr>"
  have c2: "changes_in {mem} (ram s) (ram ?s2)" "changes_in {mem} (ram s1) (ram ?s2)"
    using s1(3) by (simp_all add: changes_in_def memset_apply in_page_def)
  have "kinv kend ?s2 qs" using kinv_changes [OF s1(2) c2(2)] kv(3) dq(1) by simp
  note p2 = ptab_frame [OF pt this c2(1)]
  have pt2: "ptab kend ?s2 2 pt qs" "tset (ram ?s2) 2 pt = tset (ram s) 2 pt" "\<And>vb. pte_at (ram ?s2) 2 pt vb = pte_at (ram s) 2 pt vb"
    using p2 kv(2,3) by auto
  have "\<forall>vb < MAXVA. unat a \<le> unat vb \<and> unat vb < unat a + 4096 * Suc 0 \<longrightarrow> \<not> valid (pte_at (ram ?s2) 2 pt vb)"
  proof (intro allI impI)
    fix vb :: u64
    assume "unat a \<le> unat vb \<and> unat vb < unat a + 4096 * Suc 0"
    then have "PGROUNDDOWN vb = a" using PGROUNDDOWN_eq_iff [OF a(1)] by simp
    then show "\<not> valid (pte_at (ram ?s2) 2 pt vb)" using a(3) pte_at_PGROUNDDOWN [of _ 2 pt vb] pt2(3) by metis
  qed
  then have "\<exists>r s' us qs' k. mappages_loop pt a a mem perm ?s2 = Inr (r, s') \<and>
    table_post kend pt ?s2 qs s' us qs' (map_range a k mem perm (pte_at (ram ?s2) 2 pt)) \<and>
    (r = 0 \<and> k = Suc 0 \<or> r = -1 \<and> k \<le> 0 \<and> qs' = [] \<and> length us < 2 * Suc 0)"
    by (intro mappages_loop_correct [OF pt2(1) a(1)]) (use a(2) in \<open>simp_all add: word_less_nat_alt\<close>)
  then obtain r s3 us qs' k where m: "mappages_loop pt a a mem perm ?s2 = Inr (r, s3)"
    and tp: "table_post kend pt ?s2 qs s3 us qs' (map_range a k mem perm (pte_at (ram ?s2) 2 pt))"
    and r: "r = 0 \<and> k = Suc 0 \<or> r = -1 \<and> k \<le> 0 \<and> qs' = [] \<and> length us < 2 * Suc 0" by blast
  have t3: "qs = us @ qs'" "ptab kend s3 2 pt qs'" "tset (ram s3) 2 pt \<subseteq> tset (ram s) 2 pt \<union> set us"
    "changes_in (tset (ram s) 2 pt \<union> set us) (ram ?s2) (ram s3)"
    "\<forall>vb < MAXVA. pte_at (ram s3) 2 pt vb = map_range a k mem perm (pte_at (ram s) 2 pt) vb"
    using tp unfolding table_post_def pt2(2) ext [OF pt2(3)] by blast+
  have ok: "\<forall>p \<in> tset (ram s) 2 pt \<union> set us. page_ok kend p" using pt t3(1) by (auto simp: ptab_def kinv_def)
  have ms: "distinct ms" "set ms \<inter> (set (mem # qs) \<union> tset (ram s) 2 pt) = {}" "\<forall>p \<in> set ms. page_ok kend p"
    "\<forall>p \<in> set ms. \<forall>x. in_page p x \<longrightarrow> ram s x = 0"
    using g unfolding grown_def by blast+
  have zero: "\<forall>p \<in> insert mem (set ms). \<forall>x. in_page p x \<longrightarrow> ram s3 x = 0"
  proof (intro ballI allI impI)
    fix p x
    assume p: "p \<in> insert mem (set ms)" and x: "in_page p x"
    have pk: "page_ok kend p" "p \<notin> tset (ram s) 2 pt \<union> set us" using p ms kv dq t3(1) by auto
    have "ram ?s2 x = 0"
    proof (cases "p = mem")
      case False
      have "ram ?s2 x = ram s x"
        by (rule changes_in_page [OF c2(1) _ pk(1) _ x]) (use kv(3) False in auto)
      then show ?thesis using p False ms(4) x by auto
    qed (use x in \<open>simp add: memset_apply in_page_def\<close>)
    moreover have "ram s3 x = ram ?s2 x" by (rule changes_in_page [OF t3(4) ok pk x])
    ultimately show "ram s3 x = 0" by simp
  qed
  have c3: "changes_in (tset (ram s) 2 pt \<union> set (mem # qs)) (ram s) (ram s3)"
    by (rule changes_in_mono [OF changes_in_Un [OF c2(1) t3(4)]]) (use t3(1) in auto)
  have pte_s: "\<forall>vb < MAXVA. pte_at (ram s) 2 pt vb = grow_map start ms perm (pte_at (ram s0) 2 pt) vb"
    using g by (simp add: grown_def)
  have mp: "mappages pt a PGSIZE mem perm ?s2 = Inr (r, s3)"
    using m one_page_range [OF a(1,2)] by (simp add: mappages_def)
  show ?thesis
  proof (cases "r = 0")
    case True
    then have "k = 1" using r by simp
    have "grown kend pt start perm s0 ps0 s3 (ms @ [mem]) qs'"
    proof (rule grown_next [OF g t3(2)])
      show "\<forall>vb < MAXVA. pte_at (ram s3) 2 pt vb = grow_map start (ms @ [mem]) perm (pte_at (ram s0) 2 pt) vb"
        unfolding grow_map_snoc [OF a(4), symmetric]
        using t3(5) pte_s \<open>k = 1\<close> by (auto intro: map_range_cong)
    qed (use t3 ms kv dq zero c3 in auto)
    then show ?thesis using s1(1) dq(3) mp True by auto
  next
    case False
    then have k0: "k = 0" "qs' = []" using r by simp_all
    have kv3: "kinv kend s3 []" using t3(2) k0 by (simp add: ptab_def)
    obtain s4 where s4: "kfree kend mem s3 = Inr s4" "kinv kend s4 [mem]" "\<forall>x. \<not> in_page mem x \<longrightarrow> ram s4 x = ram s3 x"
      using kfree_spec [OF kv3 kv(3)] by auto
    have c4: "changes_in {mem} (ram s3) (ram s4)" using s4(3) by (simp add: changes_in_def)
    have mt: "mem \<notin> tset (ram s3) 2 pt" using t3(1,3) kv(2) dq(1) by auto
    note p4 = ptab_frame [OF t3(2) s4(2) c4]
    have pt4: "ptab kend s4 2 pt [mem]" "tset (ram s4) 2 pt = tset (ram s3) 2 pt" "\<And>vb. pte_at (ram s4) 2 pt vb = pte_at (ram s3) 2 pt vb"
      using p4 kv(3) mt by auto
    have "grown kend pt start perm s0 ps0 s4 ms [mem]"
    proof (rule grown_next [OF g pt4(1)])
      show "changes_in (tset (ram s) 2 pt \<union> set (mem # qs)) (ram s) (ram s4)"
        by (rule changes_in_mono [OF changes_in_Un [OF c3 c4]]) auto
      show "\<forall>p \<in> set ms. \<forall>x. in_page p x \<longrightarrow> ram s4 x = 0"
      proof (intro ballI allI impI)
        fix p x assume p: "p \<in> set ms" "in_page p x"
        have "ram s4 x = ram s3 x" by (rule changes_in_page [OF c4, of kend p]) (use p ms kv(3) in auto)
        then show "ram s4 x = 0" using zero p by simp
      qed
      show "\<forall>vb < MAXVA. pte_at (ram s4) 2 pt vb = grow_map start ms perm (pte_at (ram s0) 2 pt) vb"
        using t3(5) pte_s pt4(3) k0 by simp
    qed (use t3 ms pt4(2) k0 in auto)
    then show ?thesis using s1(1) dq(3) mp False s4(1) by auto
  qed
qed

lemma less_iff_page:
  assumes "unat start = 4096 * x" "unat a = 4096 * (x + k)"
  shows "(a :: u64) < newsz \<longleftrightarrow> k < pages_between start newsz"
proof -
  have "4096 * y < z \<longleftrightarrow> y < (z + 4095) div 4096" for y z :: nat
    using less_eq_div_iff_mult_less_eq [of 4096 "Suc y" "z + 4095"] by (simp add: Suc_le_eq [symmetric] mult.commute)
  moreover have "(4096 * x + 4095) div 4096 = x" by simp
  ultimately show ?thesis unfolding pages_between_def word_less_nat_alt assms by auto
qed

lemma uvmalloc_loop_correct:
  assumes "grown kend pt start (PTE_R OR PTE_U OR xperm) s0 ps0 s ms qs" "xperm AND NOT 0x3FF = 0"
    and "start mod 4096 = 0" "unat newsz \<le> unat MAXVA" "unat start + 4096 * length ms \<le> unat MAXVA"
    and "length ms \<le> pages_between start newsz"
    and "\<forall>vb. start \<le> vb \<and> vb < newsz \<longrightarrow> \<not> valid (pte_at (ram s0) 2 pt vb)"
  shows "\<exists>r s'. uvmalloc_loop kend pt start (start + of_nat (4096 * length ms)) newsz xperm s = Inr (r, s') \<and>
    ((\<exists>ms' qs'. r = newsz \<and> length ms' = pages_between start newsz \<and>
        grown kend pt start (PTE_R OR PTE_U OR xperm) s0 ps0 s' ms' qs') \<or>
     (\<exists>n qs'. r = 0 \<and> n \<le> pages_between start newsz \<and> ptab kend s' 2 pt qs' \<and>
        changes_in (tset (ram s0) 2 pt \<union> set ps0) (ram s0) (ram s') \<and>
        (\<forall>vb < MAXVA. pte_at (ram s') 2 pt vb = unmap_range start n (pte_at (ram s0) 2 pt) vb)))"
  using assms
proof (induction "pages_between start newsz - length ms" arbitrary: s ms qs)
  case hyp: 0
  let ?a = "start + of_nat (4096 * length ms)"
  obtain x where x: "unat start = 4096 * x" using hyp.prems(3) by (auto simp: aligned_iff_unat elim!: dvdE)
  have "unat ?a = 4096 * (x + length ms)"
    unfolding distrib_left x [symmetric] by (rule unat_add_u64) (use hyp.prems(5) in \<open>simp add: MAXVA_unat\<close>)
  then have "\<not> ?a < newsz" using less_iff_page [OF x] hyp.hyps hyp.prems(6) by simp
  then show ?case using hyp.prems(1,6) hyp.hyps by (subst uvmalloc_loop.simps) auto
next
  case hyp: (Suc d)
  let ?a = "start + of_nat (4096 * length ms)"
  obtain x where x: "unat start = 4096 * x" using hyp.prems(3) by (auto simp: aligned_iff_unat elim!: dvdE)
  have ua: "unat ?a = unat start + 4096 * length ms"
    by (rule unat_add_u64) (use hyp.prems(5) in \<open>simp add: MAXVA_unat\<close>)
  then have lt: "?a < newsz" using less_iff_page [OF x, of ?a "length ms"] hyp.hyps(2) x by simp
  have al: "?a mod 4096 = 0" using ua x by (simp add: aligned_iff_unat)
  have aM: "?a < MAXVA" using lt hyp.prems(4) by (simp add: word_less_nat_alt)
  have nxt: "unat start + 4096 * Suc (length ms) \<le> unat MAXVA"
    using aligned_step_below [OF al _ aM] ua by (simp add: aligned_iff_unat MAXVA_unat)
  have fresh: "\<not> valid (pte_at (ram s) 2 pt ?a)"
  proof -
    have "pte_at (ram s) 2 pt ?a = pte_at (ram s0) 2 pt ?a"
      using hyp.prems(1) aM ua by (simp add: grown_def grow_map_def)
    moreover have "start \<le> ?a" using ua by (simp add: word_le_nat_alt)
    ultimately show ?thesis using hyp.prems(7) lt by metis
  qed
  have fail: ?case if g: "grown kend pt start (PTE_R OR PTE_U OR xperm) s0 ps0 t ms qs'"
    and e: "uvmalloc_loop kend pt start ?a newsz xperm s = andthen (uvmdealloc kend pt ?a start t) (\<lambda>(_, s2). Inr (0, s2))" for t qs'
  proof -
    from grown_shrink [OF g hyp.prems(3,5,2)] obtain s' where
      "uvmdealloc kend pt ?a start t = Inr (start, s')" "ptab kend s' 2 pt (rev ms @ qs')"
      "changes_in (tset (ram s0) 2 pt \<union> set ps0) (ram s0) (ram s')"
      "\<forall>vb < MAXVA. pte_at (ram s') 2 pt vb = unmap_range start (length ms) (pte_at (ram s0) 2 pt) vb" by blast
    moreover from this(1) e have "uvmalloc_loop kend pt start ?a newsz xperm s = Inr (0, s')" by simp
    ultimately show ?thesis using hyp.prems(6) by blast
  qed
  show ?case
  proof (cases qs)
    case Nil
    have pt: "ptab kend s 2 pt []" using hyp.prems(1) Nil by (simp add: grown_def)
    then have "kinv kend s []" by (simp add: ptab_def)
    from kalloc_spec [OF this] obtain s1 where s1: "kalloc s = Inr (0, s1)" "kinv kend s1 []" "ram s1 = ram s" by auto
    then have "grown kend pt start (PTE_R OR PTE_U OR xperm) s0 ps0 s1 ms []"
      using hyp.prems(1) Nil unfolding grown_def ptab_def by simp
    then show ?thesis
      by (rule fail) (use s1(1) lt in \<open>subst uvmalloc_loop.simps, simp\<close>)
  next
    case (Cons mem qs')
    from grow_alloc [OF hyp.prems(1) [unfolded Cons] al aM fresh ua] obtain s1 r s3 where
      k: "kalloc s = Inr (mem, s1)" "mem \<noteq> 0"
        "mappages pt ?a PGSIZE mem (PTE_R OR PTE_U OR xperm) (s1\<lparr>ram := memset (ram s1) mem 0 4096\<rparr>) = Inr (r, s3)"
      and r: "if r = 0 then \<exists>qs'. grown kend pt start (PTE_R OR PTE_U OR xperm) s0 ps0 s3 (ms @ [mem]) qs'
        else \<exists>s4. kfree kend mem s3 = Inr s4 \<and> grown kend pt start (PTE_R OR PTE_U OR xperm) s0 ps0 s4 ms [mem]" by blast
    show ?thesis
    proof (cases "r = 0")
      case True
      then obtain qs'' where g: "grown kend pt start (PTE_R OR PTE_U OR xperm) s0 ps0 s3 (ms @ [mem]) qs''" using r by auto
      have next_a: "?a + 4096 = start + of_nat (4096 * length (ms @ [mem]))" by simp
      have "uvmalloc_loop kend pt start ?a newsz xperm s = uvmalloc_loop kend pt start (?a + 4096) newsz xperm s3"
        using lt k True by (subst uvmalloc_loop.simps) simp
      then show ?thesis
        unfolding next_a using hyp.hyps(1) [OF _ g hyp.prems(2,3,4)] hyp.hyps(2) hyp.prems(7) nxt by simp
    next
      case False
      then obtain s4 where s4: "kfree kend mem s3 = Inr s4" "grown kend pt start (PTE_R OR PTE_U OR xperm) s0 ps0 s4 ms [mem]"
        using r by auto
      show ?thesis
        by (rule fail [OF s4(2)]) (use s4(1) k lt False in \<open>subst uvmalloc_loop.simps, simp\<close>)
    qed
  qed
qed

section \<open>Properties\<close>



section \<open>Witnesses\<close>



end
