(* ===== verification/Vm_Copy.thy ===== *)
theory Vm_Copy
  imports Vm_Correct
begin

text \<open>
  Copying between kernel and user memory: \<open>copyout\<close> and \<open>copyin\<close> of \<^verbatim>\<open>kernel/vm.c\<close> move exactly
  the bytes that the page table maps, page by page, and report a page the user may not use.
\<close>

section \<open>Lemmas\<close>

text \<open>The physical address of a user byte.\<close>

definition uaddr :: "mem \<Rightarrow> u64 \<Rightarrow> u64 \<Rightarrow> u64" where
  "uaddr m pt va = translate m pt va + (va - PGROUNDDOWN va)"

lemma MAXVA_page: "PGROUNDDOWN va < MAXVA \<longleftrightarrow> va < MAXVA"
proof -
  have "unat va div 4096 * 4096 < 4096 * 67108864 \<longleftrightarrow> unat va < 4096 * 67108864"
  proof
    assume "unat va div 4096 * 4096 < 4096 * 67108864"
    then have "unat va div 4096 < 67108864" by linarith
    then show "unat va < 4096 * 67108864" using div_less_iff_less_mult [of 4096 "unat va" 67108864] by simp
  next
    assume "unat va < 4096 * 67108864"
    then show "unat va div 4096 * 4096 < 4096 * 67108864" by (rule le_less_trans [rotated]) simp
  qed
  then show ?thesis by (simp add: word_less_nat_alt unat_PGROUNDDOWN MAXVA_unat)
qed

lemma translate_PGROUNDDOWN: "translate m pt (PGROUNDDOWN va) = translate m pt va"
  unfolding translate_def MAXVA_page pte_at_PGROUNDDOWN ..

lemma ptab_same:
  assumes "ptab kend s 2 pt ps" "\<forall>p \<in> tset (ram s) 2 pt \<union> set ps. \<forall>x. in_page p x \<longrightarrow> m' x = ram s x"
  shows "ptab kend (s\<lparr>ram := m'\<rparr>) 2 pt ps" "translate m' pt va = translate (ram s) pt va"
    "tset m' 2 pt = tset (ram s) 2 pt"
proof -
  have "\<forall>p \<in> tset (ram s) 2 pt. \<forall>x. in_page p x \<longrightarrow> m' x = ram s x" using assms(2) by blast
  note fr = table_same [OF this]
  have "flist m' (freelist s) ps = flist (ram s) (freelist s) ps"
  proof (rule flist_cong)
    fix p and i :: nat
    assume "p \<in> set ps" "i < 8"
    moreover from this have "in_page p (p + of_nat i)" by (simp add: in_page_def)
    ultimately show "m' (p + of_nat i) = ram s (p + of_nat i)" using assms(2) by blast
  qed
  then show "ptab kend (s\<lparr>ram := m'\<rparr>) 2 pt ps"
    using assms fr by (simp add: ptab_def kinv_def)
  show "translate m' pt va = translate (ram s) pt va" using fr by (simp add: translate_def)
  show "tset m' 2 pt = tset (ram s) 2 pt" using fr by blast
qed

text \<open>One chunk lies inside one page.\<close>

lemma chunk_page:
  assumes "j < unat (page_chunk va len)" "unat va + unat len < 2 ^ 64"
  shows "unat (va + of_nat j) = unat va + j" "PGROUNDDOWN (va + of_nat j) = PGROUNDDOWN va"
    "va + of_nat j - PGROUNDDOWN va = (va - PGROUNDDOWN va) + of_nat j"
proof -
  have j: "j < unat len" "j < 4096 - unat va mod 4096" using assms(1) by (simp_all add: unat_page_chunk)
  show u: "unat (va + of_nat j) = unat va + j" by (rule unat_add_u64) (use j assms(2) in simp)
  have "unat va = unat va div 4096 * 4096 + unat va mod 4096" by simp
  then have "unat va + j < unat va div 4096 * 4096 + 4096" using j(2) by linarith
  moreover have "PGROUNDDOWN va mod 4096 = 0" by (rule PGROUNDDOWN_aligned)
  ultimately show "PGROUNDDOWN (va + of_nat j) = PGROUNDDOWN va"
    using u by (subst PGROUNDDOWN_eq_iff) (simp_all add: unat_PGROUNDDOWN)
  show "va + of_nat j - PGROUNDDOWN va = (va - PGROUNDDOWN va) + of_nat j" by simp
qed

lemma chunk_next:
  assumes "page_chunk va len \<noteq> len" "unat va + unat len < 2 ^ 64"
  shows "PGROUNDDOWN va + 4096 = va + page_chunk va len"
    "unat (page_chunk va len) = 4096 - unat va mod 4096"
proof -
  have "unat (page_chunk va len) \<noteq> unat len" using assms(1) by (simp add: word_unat_eq_iff)
  then show n: "unat (page_chunk va len) = 4096 - unat va mod 4096" by (simp add: unat_page_chunk)
  then have "page_chunk va len = of_nat (4096 - unat va mod 4096)" by (metis of_nat_unat_u64)
  moreover have "va - PGROUNDDOWN va = of_nat (unat va mod 4096)" by (metis unat_page_offset of_nat_unat_u64)
  ultimately have "va - PGROUNDDOWN va + page_chunk va len = of_nat (unat va mod 4096 + (4096 - unat va mod 4096))" by simp
  also have "unat va mod 4096 + (4096 - unat va mod 4096) = 4096" by simp
  finally show "PGROUNDDOWN va + 4096 = va + page_chunk va len" by (simp add: algebra_simps)
qed

lemma unat_ucast_chunk: "unat (ucast (page_chunk va len) :: u32) = unat (page_chunk va len)"
proof -
  have "unat (page_chunk va len) \<le> 4096" by (simp add: unat_page_chunk min.coboundedI2)
  then show ?thesis by (simp add: unsigned_ucast_eq take_bit_nat_eq_self)
qed

lemma copyin_step:
  assumes "ptab kend s 2 pt ps" "len > 0"
  shows "copyin pt dst srcva len s =
    (if translate (ram s) pt srcva = 0 then Inr (-1, s)
     else copyin pt (dst + page_chunk srcva len) (PGROUNDDOWN srcva + 4096) (len - page_chunk srcva len)
       (s\<lparr>ram := memmove (ram s) dst (uaddr (ram s) pt srcva) (ucast (page_chunk srcva len))\<rparr>))"
  using assms
  by (subst copyin.simps) (simp add: walkaddr_translate translate_PGROUNDDOWN uaddr_def Let_def)

text \<open>What \<open>copyin\<close> needs: the destination is kernel memory that no page involved shares.\<close>

definition copy_ok :: "u64 \<Rightarrow> 'z kst_scheme \<Rightarrow> u64 \<Rightarrow> u64 list \<Rightarrow> u64 \<Rightarrow> u64 \<Rightarrow> nat \<Rightarrow> bool" where
  "copy_ok kend s pt ps kaddr va n \<longleftrightarrow>
     ptab kend s 2 pt ps \<and> unat kaddr + n < 2 ^ 64 \<and> unat va + n < 2 ^ 64 \<and>
     (\<forall>j < n. translate (ram s) pt (va + of_nat j) \<noteq> 0 \<longrightarrow> page_ok kend (translate (ram s) pt (va + of_nat j))) \<and>
     (\<forall>i < n. \<forall>p \<in> tset (ram s) 2 pt \<union> set ps \<union> (\<lambda>j. translate (ram s) pt (va + of_nat j)) ` {..<n}.
        p \<noteq> 0 \<longrightarrow> \<not> in_page p (kaddr + of_nat i))"

lemma uaddr_in_page: "in_page (translate m pt va) (uaddr m pt va)"
  by (simp add: in_page_def in_range_def uaddr_def unat_page_offset)

lemma copyin_chunk:
  assumes ok: "copy_ok kend s pt ps dst srcva (unat len)" and n: "len > 0" "translate (ram s) pt srcva \<noteq> 0"
  defines "c \<equiv> page_chunk srcva len"
  defines "m' \<equiv> memmove (ram s) dst (uaddr (ram s) pt srcva) (ucast c)"
  shows "\<forall>x. m' x = (if in_range dst (unat c) x then ram s (uaddr (ram s) pt (srcva + (x - dst))) else ram s x)"
    "ptab kend (s\<lparr>ram := m'\<rparr>) 2 pt ps" "\<forall>va. translate m' pt va = translate (ram s) pt va"
    "tset m' 2 pt = tset (ram s) 2 pt"
proof -
  have c: "unat c \<le> unat len" "0 < unat c" using n(1) unat_page_chunk [of srcva len]
    by (auto simp: c_def word_less_nat_alt)
  have w: "unat srcva + unat len < 2 ^ 64" "unat dst + unat len < 2 ^ 64" using ok by (simp_all add: copy_ok_def)
  have pg: "translate (ram s) pt (srcva + of_nat j) = translate (ram s) pt srcva"
    "uaddr (ram s) pt (srcva + of_nat j) = uaddr (ram s) pt srcva + of_nat j" if "j < unat c" for j
  proof -
    note cp = chunk_page [OF that [unfolded c_def] w(1)]
    show t: "translate (ram s) pt (srcva + of_nat j) = translate (ram s) pt srcva"
      using translate_PGROUNDDOWN cp(2) by metis
    show "uaddr (ram s) pt (srcva + of_nat j) = uaddr (ram s) pt srcva + of_nat j"
      unfolding uaddr_def t cp(2,3) by simp
  qed
  have "page_ok kend (translate (ram s) pt srcva)" using ok n(2) c by (auto simp: copy_ok_def dest: spec [of _ 0])
  then have "unat (translate (ram s) pt srcva) < 2281701376" by (simp add: page_ok_def word_less_nat_alt)
  then have "unat (uaddr (ram s) pt srcva) < 2281701376 + 4096"
    unfolding uaddr_def using unat_page_offset [of srcva] by (simp add: unat_word_ariths)
  moreover have c4: "unat c \<le> 4096" by (simp add: c_def unat_page_chunk)
  ultimately have "unat (uaddr (ram s) pt srcva) + unat (ucast c :: u32) < 2 ^ 64" "unat dst + unat (ucast c :: u32) \<le> 2 ^ 64"
    using unat_ucast_chunk [of srcva len] w(2) c(1) by (simp_all add: c_def)
  note mv = memmove_apply [OF this, of "ram s", folded m'_def, unfolded unat_ucast_chunk [of srcva len, folded c_def]]
  show x: "\<forall>x. m' x = (if in_range dst (unat c) x then ram s (uaddr (ram s) pt (srcva + (x - dst))) else ram s x)"
  proof
    fix x
    have "uaddr (ram s) pt (srcva + (x - dst)) = uaddr (ram s) pt srcva + (x - dst)" if "in_range dst (unat c) x"
      using pg(2) [of "unat (x - dst)"] that by (simp add: in_range_def)
    then show "m' x = (if in_range dst (unat c) x then ram s (uaddr (ram s) pt (srcva + (x - dst))) else ram s x)"
      using mv by simp
  qed
  have same: "\<forall>p \<in> tset (ram s) 2 pt \<union> set ps. \<forall>x. in_page p x \<longrightarrow> m' x = ram s x"
  proof (intro ballI allI impI)
    fix p x
    assume p: "p \<in> tset (ram s) 2 pt \<union> set ps" "in_page p x"
    have "p \<noteq> 0" using ok p(1) by (auto simp: copy_ok_def ptab_def kinv_def page_ok_def)
    then have "x \<noteq> dst + of_nat i" if "i < unat len" for i using ok p that unfolding copy_ok_def by blast
    then have "\<not> in_range dst (unat c) x" using c(1) c4 by (subst in_range_iff) auto
    then show "m' x = ram s x" using x by simp
  qed
  have pt: "ptab kend s 2 pt ps" using ok by (simp add: copy_ok_def)
  show "ptab kend (s\<lparr>ram := m'\<rparr>) 2 pt ps" "\<forall>va. translate m' pt va = translate (ram s) pt va" "tset m' 2 pt = tset (ram s) 2 pt"
    using ptab_same [OF pt same] by blast+
qed

lemma copy_ok_next:
  assumes ok: "copy_ok kend s pt ps kaddr va n" and c: "c \<le> n"
    and s': "ptab kend s' 2 pt ps" "\<forall>va. translate (ram s') pt va = translate (ram s) pt va" "tset (ram s') 2 pt = tset (ram s) 2 pt"
  shows "copy_ok kend s' pt ps (kaddr + of_nat c) (va + of_nat c) (n - c)"
proof -
  have w: "unat kaddr + n < 2 ^ 64" "unat va + n < 2 ^ 64" using ok by (simp_all add: copy_ok_def)
  have u: "unat (kaddr + of_nat c) = unat kaddr + c" "unat (va + of_nat c) = unat va + c"
    by (rule unat_add_u64, use w c in simp)+
  have sh: "kaddr + of_nat c + of_nat i = kaddr + of_nat (c + i)" "va + of_nat c + of_nat i = va + of_nat (c + i)" for i
    by (simp_all add: add.assoc)
  have "(\<lambda>j. translate (ram s) pt (va + of_nat (c + j))) ` {..<n - c} \<subseteq> (\<lambda>j. translate (ram s) pt (va + of_nat j)) ` {..<n}"
  proof (rule image_subsetI)
    fix j assume "j \<in> {..<n - c}"
    then have "c + j \<in> {..<n}" by auto
    then show "translate (ram s) pt (va + of_nat (c + j)) \<in> (\<lambda>j. translate (ram s) pt (va + of_nat j)) ` {..<n}" by (rule imageI)
  qed
  then have "\<forall>i < n - c. \<forall>p \<in> tset (ram s) 2 pt \<union> set ps \<union> (\<lambda>j. translate (ram s) pt (va + of_nat (c + j))) ` {..<n - c}.
      p \<noteq> 0 \<longrightarrow> \<not> in_page p (kaddr + of_nat (c + i))"
  proof (intro allI impI ballI)
    fix i p
    assume i: "i < n - c" and p: "p \<noteq> 0"
      "p \<in> tset (ram s) 2 pt \<union> set ps \<union> (\<lambda>j. translate (ram s) pt (va + of_nat (c + j))) ` {..<n - c}"
    then have "p \<in> tset (ram s) 2 pt \<union> set ps \<union> (\<lambda>j. translate (ram s) pt (va + of_nat j)) ` {..<n}"
      using \<open>_ \<subseteq> _\<close> by blast
    moreover have "c + i < n" using i by simp
    ultimately show "\<not> in_page p (kaddr + of_nat (c + i))" using ok p(1) unfolding copy_ok_def by blast
  qed
  moreover have "\<forall>j < n - c. translate (ram s) pt (va + of_nat (c + j)) \<noteq> 0 \<longrightarrow> page_ok kend (translate (ram s) pt (va + of_nat (c + j)))"
  proof (intro allI impI)
    fix j assume j: "j < n - c" "translate (ram s) pt (va + of_nat (c + j)) \<noteq> 0"
    then have "c + j < n" by simp
    then show "page_ok kend (translate (ram s) pt (va + of_nat (c + j)))" using ok j(2) unfolding copy_ok_def by blast
  qed
  ultimately show ?thesis unfolding copy_ok_def sh u s'(3) using s' w c by (simp del: of_nat_add)
qed

text \<open>
  What \<open>copyin\<close> leaves: only the destination changed, and either every page was accessible and
  all bytes arrived, or the result is -1.
\<close>

definition copied_in :: "u64 \<Rightarrow> u64 \<Rightarrow> u64 list \<Rightarrow> u64 \<Rightarrow> u64 \<Rightarrow> nat \<Rightarrow> 'z kst_scheme \<Rightarrow> int \<Rightarrow> 'z kst_scheme \<Rightarrow> bool" where
  "copied_in kend pt ps dst srcva n s r s' \<longleftrightarrow>
     ptab kend s' 2 pt ps \<and>
     (\<forall>x. \<not> in_range dst n x \<longrightarrow> ram s' x = ram s x) \<and>
     (if \<forall>j < n. translate (ram s) pt (srcva + of_nat j) \<noteq> 0
      then r = 0 \<and> (\<forall>j < n. ram s' (dst + of_nat j) = ram s (uaddr (ram s) pt (srcva + of_nat j)))
      else r = -1)"

lemma copied_in_append:
  assumes ok: "copy_ok kend s pt ps dst srcva n" and c: "0 < c" "c \<le> n"
    and s1: "\<forall>x. ram s1 x = (if in_range dst c x then ram s (uaddr (ram s) pt (srcva + (x - dst))) else ram s x)"
      "\<forall>va. translate (ram s1) pt va = translate (ram s) pt va"
      "\<forall>j < c. translate (ram s) pt (srcva + of_nat j) \<noteq> 0"
    and s': "copied_in kend pt ps (dst + of_nat c) (srcva + of_nat c) (n - c) s1 r s'"
  shows "copied_in kend pt ps dst srcva n s r s'"
proof -
  have n: "n < 2 ^ 64" using ok by (simp add: copy_ok_def)
  have sh: "a + of_nat c + of_nat i = (a :: u64) + of_nat (c + i)" for a i by (simp add: add.assoc)
  have ua: "uaddr (ram s1) pt va = uaddr (ram s) pt va" for va using s1(2) by (simp add: uaddr_def)
  have split: "(\<forall>j < n. P j) \<longleftrightarrow> (\<forall>j < c. P j) \<and> (\<forall>j < n - c. P (c + j))" for P
  proof -
    have "P j" if "\<forall>j < c. P j" "\<forall>j < n - c. P (c + j)" "j < n" for j
    proof (cases "j < c")
      case False
      then have "j - c < n - c" "c + (j - c) = j" using that(3) by auto
      then show ?thesis using that(2) by metis
    qed (use that in blast)
    then show ?thesis using c(2) by auto
  qed
  have fr: "ram s' x = ram s1 x" if "\<not> in_range (dst + of_nat c) (n - c) x" for x
    using s' that by (simp add: copied_in_def)
  have lo: "\<not> in_range (dst + of_nat c) (n - c) (dst + of_nat j)" if "j < c" for j
  proof
    assume "in_range (dst + of_nat c) (n - c) (dst + of_nat j)"
    then obtain i where "i < n - c" "dst + of_nat j = dst + of_nat (c + i)"
      using n by (auto simp: in_range_iff sh)
    moreover from this(1) have "c + i < n" by simp
    ultimately have "j = c + i" using ptr_add_eq_iff [of j "c + i" dst] that c n by (simp del: of_nat_add)
    then show False using that by simp
  qed
  have same: "\<forall>x. \<not> in_range dst n x \<longrightarrow> ram s' x = ram s x"
  proof (intro allI impI)
    fix x assume x: "\<not> in_range dst n x"
    have "\<not> in_range (dst + of_nat c) (n - c) x"
    proof
      assume "in_range (dst + of_nat c) (n - c) x"
      then obtain i where "i < n - c" "x = dst + of_nat (c + i)" using n by (auto simp: in_range_iff sh)
      then show False using x n by (simp del: of_nat_add)
    qed
    moreover have "\<not> in_range dst c x" using x c(2) by (auto simp: in_range_def)
    ultimately show "ram s' x = ram s x" using fr s1(1) by simp
  qed
  have src: "ram s1 (uaddr (ram s) pt (srcva + of_nat j)) = ram s (uaddr (ram s) pt (srcva + of_nat j))"
    if "j < n" "translate (ram s) pt (srcva + of_nat j) \<noteq> 0" for j
  proof -
    have "\<not> in_range dst c (uaddr (ram s) pt (srcva + of_nat j))"
    proof
      assume "in_range dst c (uaddr (ram s) pt (srcva + of_nat j))"
      then obtain i where i: "i < c" "uaddr (ram s) pt (srcva + of_nat j) = dst + of_nat i" using n c by (auto simp: in_range_iff)
      have "i < n" using i(1) c(2) by simp
      moreover have "translate (ram s) pt (srcva + of_nat j) \<in> (\<lambda>j. translate (ram s) pt (srcva + of_nat j)) ` {..<n}"
        using that(1) by blast
      ultimately have "\<not> in_page (translate (ram s) pt (srcva + of_nat j)) (dst + of_nat i)"
        using ok that(2) unfolding copy_ok_def by blast
      then show False using uaddr_in_page [of "ram s" pt "srcva + of_nat j"] i(2) by simp
    qed
    then show ?thesis using s1(1) by simp
  qed
  have first: "ram s' (dst + of_nat j) = ram s (uaddr (ram s) pt (srcva + of_nat j))" if "j < c" for j
    using fr [OF lo [OF that]] s1(1) that n c by simp
  show ?thesis
    using s' same first src s1(2,3) unfolding copied_in_def sh ua split [of "\<lambda>j. translate (ram s) pt (srcva + of_nat j) \<noteq> 0"]
      split [of "\<lambda>j. ram s' (dst + of_nat j) = ram s (uaddr (ram s) pt (srcva + of_nat j))"]
    by (simp del: of_nat_add)
qed

lemma copyin_loop:
  assumes "copy_ok kend s pt ps dst srcva (unat len)"
  shows "\<exists>r s'. copyin pt dst srcva len s = Inr (r, s') \<and> copied_in kend pt ps dst srcva (unat len) s r s'"
  using assms
proof (induction "unat len" arbitrary: dst srcva len s rule: less_induct)
  case less
  have pt: "ptab kend s 2 pt ps" using less.prems by (simp add: copy_ok_def)
  show ?case
  proof (cases "len > 0")
    case False
    then have "len = 0" by (simp add: word_less_nat_alt unat_eq_0)
    then show ?thesis using pt by (subst copyin.simps) (simp add: copied_in_def)
  next
    case len: True
    then have l0: "0 < unat len" by (simp add: word_less_nat_alt)
    show ?thesis
    proof (cases "translate (ram s) pt srcva = 0")
      case True
      moreover from this l0 have "\<not> (\<forall>j < unat len. translate (ram s) pt (srcva + of_nat j) \<noteq> 0)"
        by (auto intro!: exI [of _ 0])
      ultimately show ?thesis using copyin_step [OF pt len] pt by (auto simp: copied_in_def)
    next
      case tr: False
      let ?c = "page_chunk srcva len" and ?n = "unat (page_chunk srcva len)"
      let ?s1 = "s\<lparr>ram := memmove (ram s) dst (uaddr (ram s) pt srcva) (ucast ?c)\<rparr>"
      note ch = copyin_chunk [OF less.prems len tr]
      have cn: "?c = of_nat ?n" "?n \<le> unat len" "0 < ?n"
        using l0 by (simp_all add: of_nat_unat_u64 del: of_nat_unat) (simp_all add: unat_page_chunk)
      have ul: "unat (len - ?c) = unat len - ?n" using cn(2) by (simp add: unat_sub word_le_nat_alt)
      have "unat (len - ?c) < unat len" unfolding ul using cn l0 by simp
      moreover have "copy_ok kend ?s1 pt ps (dst + ?c) (srcva + ?c) (unat (len - ?c))"
        unfolding ul using copy_ok_next [OF less.prems cn(2), of ?s1] ch cn(1) by simp
      ultimately have IH: "\<exists>r s'. copyin pt (dst + ?c) (srcva + ?c) (len - ?c) ?s1 = Inr (r, s') \<and> copied_in kend pt ps (dst + ?c) (srcva + ?c) (unat (len - ?c)) ?s1 r s'"
        by (rule less.hyps)
      then obtain r s' where r: "copyin pt (dst + ?c) (srcva + ?c) (len - ?c) ?s1 = Inr (r, s')"
        "copied_in kend pt ps (dst + of_nat ?n) (srcva + of_nat ?n) (unat len - ?n) ?s1 r s'"
        unfolding ul cn(1) [symmetric] by blast
      have "copyin pt (dst + ?c) (PGROUNDDOWN srcva + 4096) (len - ?c) ?s1 = Inr (r, s')"
      proof (cases "?c = len")
        case True
        then show ?thesis using r(1) by (simp add: copyin.simps)
      next
        case False
        have "unat srcva + unat len < 2 ^ 64" using less.prems by (simp add: copy_ok_def)
        then show ?thesis using r(1) chunk_next(1) [OF False] by simp
      qed
      then have "copyin pt dst srcva len s = Inr (r, s')" using copyin_step [OF pt len] tr by simp
      moreover have "\<forall>j < ?n. translate (ram s) pt (srcva + of_nat j) \<noteq> 0"
        using tr chunk_page(2) [of _ srcva len] less.prems translate_PGROUNDDOWN by (metis copy_ok_def)
      then have "copied_in kend pt ps dst srcva (unat len) s r s'"
        using ch by (intro copied_in_append [OF less.prems cn(3,2) _ _ _ r(2)]) simp_all
      ultimately show ?thesis by blast
    qed
  qed
qed

section \<open>Properties\<close>


section \<open>Witnesses\<close>


end
