(* ===== verification/Critical.thy ===== *)
theory Critical
  imports Kalloc
begin

text \<open>
  Critical sections. Every component of the kernel brackets its work with \<open>acquire\<close> and
  \<open>release\<close> of a lock that lies in its own part of the kernel state; \<open>critical\<close> is this
  bracket, given how to read and write the lock. The state of a component extends the record
  \<open>kst\<close> of the page allocator, so that one state runs through all components.
\<close>

definition critical ::
    "('z kst_scheme \<Rightarrow> spinlock) \<Rightarrow> (spinlock \<Rightarrow> 'z kst_scheme \<Rightarrow> 'z kst_scheme) \<Rightarrow>
     ('z kst_scheme \<Rightarrow> ('a \<times> 'z kst_scheme) result) \<Rightarrow> 'z kst_scheme \<Rightarrow> ('a \<times> 'z kst_scheme) result" where
  "critical get put body s =
     andthen (acquire (get s) (kcpu s)) (\<lambda>(lk, c).
     andthen (body (put lk (s\<lparr>kcpu := c\<rparr>))) (\<lambda>(r, t).
     andthen (release (get t) (kcpu t)) (\<lambda>(lk, c).
     Inr (r, put lk (t\<lparr>kcpu := c\<rparr>)))))"

text \<open>The lock as it is inside and after the section.\<close>

definition held :: "spinlock \<Rightarrow> cpu \<Rightarrow> spinlock" where
  "held lk c = lk\<lparr>locked := True, lcpu := Some (hart c)\<rparr>"

definition freed :: "spinlock \<Rightarrow> spinlock" where
  "freed lk = lk\<lparr>locked := False, lcpu := None\<rparr>"

lemma held_freed_simps [simp]:
  "locked (held lk c)" "\<not> locked (freed lk)" "freed (held lk c) = freed lk" "freed (freed lk) = freed lk"
  "lname (held lk c) = lname lk" "lname (freed lk) = lname lk"
  by (simp_all add: held_def freed_def)

text \<open>
  On a free lock the section runs its body, and afterwards the lock is free and the CPU as it was,
  provided the body leaves the lock and the CPU as it found them.
\<close>

lemma critical_free:
  assumes "\<not> locked (get s)" "cpu_ok (kcpu s)"
    and "body (put (held (get s) (kcpu s)) (s\<lparr>kcpu := push_off (kcpu s)\<rparr>)) = Inr (r, t)"
    and "get t = held (get s) (kcpu s)" "kcpu t = push_off (kcpu s)"
  shows "critical get put body s = Inr (r, put (freed (get s)) (t\<lparr>kcpu := after_section (kcpu s)\<rparr>))"
  using assms by (simp add: critical_def acquire_free release_acquired held_def freed_def)

lemma critical_fault:
  assumes "\<not> locked (get s)"
    and "body (put (held (get s) (kcpu s)) (s\<lparr>kcpu := push_off (kcpu s)\<rparr>)) = Inl e"
  shows "critical get put body s = Inl e"
  using assms by (simp add: critical_def acquire_free held_def)

lemma critical_Inr_D:
  assumes "critical get put body s = Inr (r, u)"
  obtains t lk c where "\<not> locked (get s)"
    "body (put (held (get s) (kcpu s)) (s\<lparr>kcpu := push_off (kcpu s)\<rparr>)) = Inr (r, t)"
    "release (get t) (kcpu t) = Inr (lk, c)" "u = put lk (t\<lparr>kcpu := c\<rparr>)"
  using assms by (auto simp: critical_def acquire_Inr_iff held_def result_simps)

end
