(* ===== verification/Vm_Frame.thy ===== *)
theory Vm_Frame
  imports Vm
begin

text \<open>
  The memory routines change only the page allocator's part of the kernel state: whatever a
  component adds to the state record (the field \<open>more\<close>) is the same afterwards.
\<close>

named_theorems more_frame "the memory routines leave the state of the other components alone"

lemma kalloc_more [more_frame]: "kalloc s = Inr (r, s') \<Longrightarrow> kst.more s' = kst.more s"
  by (auto simp: kalloc_def result_simps Let_def split: if_splits)

lemma kfree_more [more_frame]: "kfree kend p s = Inr s' \<Longrightarrow> kst.more s' = kst.more s"
  by (auto simp: kfree_def result_simps Let_def split: if_splits)

lemma walk_loop_more: "walk_loop l pt va alloc s = Inr (r, s') \<Longrightarrow> kst.more s' = kst.more s"
proof (induction l arbitrary: pt s)
  case (Suc l)
  then show ?case by (auto simp: Let_def result_simps split: if_splits dest!: Suc.IH kalloc_more)
qed simp

lemma walk_more [more_frame]: "walk pt va alloc s = Inr (r, s') \<Longrightarrow> kst.more s' = kst.more s"
  by (auto simp: walk_def split: if_splits dest: walk_loop_more)

lemma mappages_loop_more: "mappages_loop pt a lst pa perm s = Inr (r, s') \<Longrightarrow> kst.more s' = kst.more s"
proof (induction pt a lst pa perm s arbitrary: r s' rule: mappages_loop.induct)
  case (1 pt a lst pa perm s)
  note e = "1.prems" [unfolded mappages_loop.simps [of pt a lst pa perm s]]
  from e obtain pte s1 where w: "walk pt a True s = Inr (pte, s1)" by (auto simp: result_simps)
  show ?case using e "1.IH" [OF w] walk_more [OF w] by (auto simp: w Let_def split: if_splits)
qed

lemma mappages_more [more_frame]: "mappages pt a sz pa perm s = Inr (r, s') \<Longrightarrow> kst.more s' = kst.more s"
  by (auto simp: mappages_def split: if_splits dest: mappages_loop_more)

lemma uvmunmap_loop_more: "uvmunmap_loop kend pt a stop f s = Inr s' \<Longrightarrow> kst.more s' = kst.more s"
proof (induction kend pt a stop f s arbitrary: s' rule: uvmunmap_loop.induct)
  case (1 kend pt a stop f s)
  note e = "1.prems" [unfolded uvmunmap_loop.simps [of kend pt a stop f s]]
  show ?case
  proof (cases "a < stop")
    case True
    with e obtain pte s1 where w: "walk pt a False s = Inr (pte, s1)" by (auto simp: result_simps)
    from e True obtain s2 where s2: "(if f then kfree kend (PTE2PA (load64 (ram s1) pte)) s1 else Inr s1) = Inr s2"
      and n: "pte \<noteq> 0" "\<not> load64 (ram s1) pte AND PTE_V = 0" "\<not> PTE_FLAGS (load64 (ram s1) pte) = PTE_V"
      and r: "uvmunmap_loop kend pt (a + PGSIZE) stop f (s2\<lparr>ram := store64 (ram s2) pte 0\<rparr>) = Inr s'"
      unfolding w by (auto simp: result_simps split: if_splits)
    have "kst.more s' = kst.more (s2\<lparr>ram := store64 (ram s2) pte 0\<rparr>)"
      by (rule "1.IH" [OF True w refl n s2 r])
    moreover have "kst.more s2 = kst.more s1" using s2 by (auto split: if_splits dest: kfree_more)
    ultimately show ?thesis using walk_more [OF w] by simp
  qed (use e in simp)
qed

lemma uvmunmap_more [more_frame]: "uvmunmap kend pt va n f s = Inr s' \<Longrightarrow> kst.more s' = kst.more s"
  by (auto simp: uvmunmap_def split: if_splits dest: uvmunmap_loop_more)

lemma uvmcreate_more [more_frame]: "uvmcreate s = Inr (r, s') \<Longrightarrow> kst.more s' = kst.more s"
  by (auto simp: uvmcreate_def result_simps split: if_splits dest: kalloc_more)

lemma freewalk_entries_more:
  assumes "\<And>p s s'. rec p s = Some (Inr s') \<Longrightarrow> kst.more s' = kst.more s"
  shows "freewalk_entries rec pt i s = Some (Inr s') \<Longrightarrow> kst.more s' = kst.more s"
  using assms
proof (induction "512 - i" arbitrary: i s rule: less_induct)
  case less
  show ?case
  proof (cases "i < 512")
    case True
    then have lt: "512 - Suc i < 512 - i" by simp
    let ?e = "load64 (ram s) (pt + 8 * of_nat i)"
    note e = less.prems(1) [unfolded freewalk_entries.simps [of rec pt i s]]
    from e True consider "freewalk_entries rec pt (Suc i) s = Some (Inr s')"
      | s1 where "rec (PTE2PA ?e) s = Some (Inr s1)"
          "freewalk_entries rec pt (Suc i) (s1\<lparr>ram := store64 (ram s1) (pt + 8 * of_nat i) 0\<rparr>) = Some (Inr s')"
      by (auto simp: Let_def split: if_splits option.splits sum.splits)
    then show ?thesis
    proof cases
      case 1
      show ?thesis by (rule less.hyps [OF lt 1 assms])
    next
      case 2
      show ?thesis using less.hyps [OF lt 2(2) assms] assms [OF 2(1)] by simp
    qed
  qed (use less.prems(1) in \<open>simp add: freewalk_entries.simps\<close>)
qed

lemma freewalk_more: "freewalk fuel kend pt s = Some (Inr s') \<Longrightarrow> kst.more s' = kst.more s"
proof (induction fuel arbitrary: pt s s')
  case (Suc fuel)
  then show ?case
    by (auto split: option.splits sum.splits dest!: kfree_more freewalk_entries_more [rotated])
qed simp

lemma uvmfree_more [more_frame]: "uvmfree fuel kend pt sz s = Some (Inr s') \<Longrightarrow> kst.more s' = kst.more s"
  by (auto simp: uvmfree_def split: sum.splits if_splits dest!: freewalk_more uvmunmap_more)

end
