(* ===== verification/Proc.thy ===== *)
theory Proc
  imports Critical Vm_Frame
begin

text \<open>
  Processes: the process table of \<^verbatim>\<open>kernel/proc.c\<close> and \<^verbatim>\<open>kernel/proc.h\<close>, the routines that
  find, create and free its entries, and sleep and wakeup. (\<open>fork\<close> and \<open>exit\<close>, which also work
  on open files, follow in a later theory.)

  A process is its index in \<^verbatim>\<open>proc[]\<close>. The state extends that of the page allocator; \<open>curproc\<close>
  is \<^verbatim>\<open>mycpu()->proc\<close> of the CPU that runs the code. A context switch splits a routine in two: \<open>sched\<close>
  holds the checks before it, and \<open>sleep\<close> and \<open>yield\<close> consist of the part before the switch and
  the part that runs when the process is scheduled again.
\<close>

section \<open>Definitions\<close>

subsection \<open>State\<close>

datatype procstate = UNUSED | USED | SLEEPING | RUNNABLE | RUNNING | ZOMBIE

text \<open>Saved registers of a kernel thread; \<open>callee\<close> holds \<^verbatim>\<open>s0\<close> to \<^verbatim>\<open>s11\<close>.\<close>

record kcontext =
  ra :: u64
  sp :: u64
  callee :: "u64 list"

record proc =
  plock :: spinlock
  pstate :: procstate
  pchan :: chan
  pkilled :: int
  xstate :: int
  pid :: int
  parent :: "nat option"
  kstack :: u64
  psz :: u64
  pagetable :: u64
  trapframe :: u64
  pcontext :: kcontext
  ofile :: "nat option list"
  cwd :: "nat option"
  pname :: "u8 list"

record pst = kst +
  procs :: "proc list"
  curproc :: "nat option"
  initproc :: "nat option"
  nextpid :: int
  pid_lock :: spinlock
  wait_lock :: spinlock

text \<open>Addresses that the linker chooses.\<close>

record symbols =
  sym_end :: u64
  sym_etext :: u64
  sym_trampoline :: u64
  sym_forkret :: u64

definition upd_proc :: "nat \<Rightarrow> (proc \<Rightarrow> proc) \<Rightarrow> 'z pst_scheme \<Rightarrow> 'z pst_scheme" where
  "upd_proc i f s = s\<lparr>procs := (procs s)[i := f (procs s ! i)]\<rparr>"

text \<open>\<^verbatim>\<open>acquire(&p->lock); ... release(&p->lock);\<close>\<close>

definition proc_lock :: "nat \<Rightarrow> 'z pst_scheme \<Rightarrow> spinlock" where
  "proc_lock i s = plock (procs s ! i)"

definition set_proc_lock :: "nat \<Rightarrow> spinlock \<Rightarrow> 'z pst_scheme \<Rightarrow> 'z pst_scheme" where
  "set_proc_lock i lk s = upd_proc i (\<lambda>p. p\<lparr>plock := lk\<rparr>) s"

definition acquire_proc :: "nat \<Rightarrow> 'z pst_scheme \<Rightarrow> 'z pst_scheme result" where
  "acquire_proc i s = andthen (acquire (proc_lock i s) (kcpu s)) (\<lambda>(lk, c). Inr (set_proc_lock i lk (s\<lparr>kcpu := c\<rparr>)))"

definition release_proc :: "nat \<Rightarrow> 'z pst_scheme \<Rightarrow> 'z pst_scheme result" where
  "release_proc i s = andthen (release (proc_lock i s) (kcpu s)) (\<lambda>(lk, c). Inr (set_proc_lock i lk (s\<lparr>kcpu := c\<rparr>)))"

subsection \<open>procinit, myproc, allocpid\<close>

definition init_proc :: "nat \<Rightarrow> proc \<Rightarrow> proc" where
  "init_proc i p = p\<lparr>plock := initlock ''proc'', pstate := UNUSED, kstack := KSTACK i\<rparr>"

definition procinit :: "'z pst_scheme \<Rightarrow> 'z pst_scheme" where
  "procinit s = s\<lparr>pid_lock := initlock ''nextpid'', wait_lock := initlock ''wait_lock'',
     procs := map (\<lambda>i. init_proc i (procs s ! i)) [0..<NPROC]\<rparr>"

definition myproc :: "'z pst_scheme \<Rightarrow> (nat option \<times> 'z pst_scheme) result" where
  "myproc s = andthen (pop_off (push_off (kcpu s))) (\<lambda>c. Inr (curproc s, s\<lparr>kcpu := c\<rparr>))"

text \<open>
  The current process where the code follows the pointer: with no current process that is a load
  from address 0, which the kernel's page table does not map, and \<^verbatim>\<open>kerneltrap\<close> panics.
\<close>

definition current :: "'z pst_scheme \<Rightarrow> (nat \<times> 'z pst_scheme) result" where
  "current s = andthen (myproc s) (\<lambda>(p, s).
     case p of None \<Rightarrow> Inl (Panic ''kerneltrap'') | Some p \<Rightarrow> Inr (p, s))"

definition allocpid :: "'z pst_scheme \<Rightarrow> (int \<times> 'z pst_scheme) result" where
  "allocpid = critical pid_lock (\<lambda>lk s. s\<lparr>pid_lock := lk\<rparr>)
     (\<lambda>s. Inr (nextpid s, s\<lparr>nextpid := nextpid s + 1\<rparr>))"

subsection \<open>Page tables of processes\<close>

text \<open>\<open>uvmfree\<close> with the three levels a page table has.\<close>

definition uvmfree3 :: "u64 \<Rightarrow> u64 \<Rightarrow> u64 \<Rightarrow> 'z kst_scheme \<Rightarrow> 'z kst_scheme result" where
  "uvmfree3 kend pt sz s = (case uvmfree 3 kend pt sz s of None \<Rightarrow> Inl OutOfFuel | Some r \<Rightarrow> r)"

definition proc_pagetable :: "symbols \<Rightarrow> nat \<Rightarrow> 'z pst_scheme \<Rightarrow> (u64 \<times> 'z pst_scheme) result" where
  "proc_pagetable y p s =
     andthen (uvmcreate s) (\<lambda>(pt, s).
     if pt = 0 then Inr (0, s)
     else andthen (mappages pt TRAMPOLINE PGSIZE (sym_trampoline y) (PTE_R OR PTE_X) s) (\<lambda>(r, s).
       if r < 0 then andthen (uvmfree3 (sym_end y) pt 0 s) (\<lambda>s. Inr (0, s))
       else andthen (mappages pt TRAPFRAME PGSIZE (trapframe (procs s ! p)) (PTE_R OR PTE_W) s) (\<lambda>(r, s).
         if r < 0 then
           andthen (uvmunmap (sym_end y) pt TRAMPOLINE 1 False s) (\<lambda>s.
           andthen (uvmfree3 (sym_end y) pt 0 s) (\<lambda>s. Inr (0, s)))
         else Inr (pt, s))))"

definition proc_freepagetable :: "symbols \<Rightarrow> u64 \<Rightarrow> u64 \<Rightarrow> 'z kst_scheme \<Rightarrow> 'z kst_scheme result" where
  "proc_freepagetable y pt sz s =
     andthen (uvmunmap (sym_end y) pt TRAMPOLINE 1 False s) (\<lambda>s.
     andthen (uvmunmap (sym_end y) pt TRAPFRAME 1 False s) (\<lambda>s.
     uvmfree3 (sym_end y) pt sz s))"

subsection \<open>allocproc, freeproc, growproc\<close>

text \<open>\<^verbatim>\<open>p->name[0] = 0\<close>\<close>

definition freed_proc :: "proc \<Rightarrow> proc" where
  "freed_proc p = p\<lparr>trapframe := 0, pagetable := 0, psz := 0, pid := 0, parent := None, pname := (pname p)[0 := 0],
     pchan := NoChan, pkilled := 0, xstate := 0, pstate := UNUSED\<rparr>"

definition freeproc :: "symbols \<Rightarrow> nat \<Rightarrow> 'z pst_scheme \<Rightarrow> 'z pst_scheme result" where
  "freeproc y i s =
     andthen (if trapframe (procs s ! i) \<noteq> 0 then kfree (sym_end y) (trapframe (procs s ! i)) s else Inr s) (\<lambda>s.
     let s = upd_proc i (\<lambda>p. p\<lparr>trapframe := 0\<rparr>) s in
     andthen (if pagetable (procs s ! i) \<noteq> 0
              then proc_freepagetable y (pagetable (procs s ! i)) (psz (procs s ! i)) s else Inr s) (\<lambda>s.
     Inr (upd_proc i freed_proc s)))"

text \<open>The scan for an \<open>UNUSED\<close> entry; it ends with the lock of the entry it found held.\<close>

function allocproc_scan :: "nat \<Rightarrow> 'z pst_scheme \<Rightarrow> (nat option \<times> 'z pst_scheme) result" where
  "allocproc_scan i s =
     (if i < NPROC then
        andthen (acquire_proc i s) (\<lambda>s.
          if pstate (procs s ! i) = UNUSED then Inr (Some i, s)
          else andthen (release_proc i s) (\<lambda>s. allocproc_scan (Suc i) s))
      else Inr (None, s))"
  by pat_completeness auto
termination
  by (relation "measure (\<lambda>(i, s). NPROC - i)") auto

declare allocproc_scan.simps [simp del]

text \<open>The two failure exits after \<^verbatim>\<open>found\<close>.\<close>

definition allocproc_undo :: "symbols \<Rightarrow> nat \<Rightarrow> 'z pst_scheme \<Rightarrow> (nat option \<times> 'z pst_scheme) result" where
  "allocproc_undo y i s = andthen (freeproc y i s) (\<lambda>s. andthen (release_proc i s) (\<lambda>s. Inr (None, s)))"

definition allocproc :: "symbols \<Rightarrow> 'z pst_scheme \<Rightarrow> (nat option \<times> 'z pst_scheme) result" where
  "allocproc y s =
     andthen (allocproc_scan 0 s) (\<lambda>(r, s).
     case r of None \<Rightarrow> Inr (None, s)
     | Some i \<Rightarrow>
       andthen (allocpid s) (\<lambda>(n, s).
       let s = upd_proc i (\<lambda>p. p\<lparr>pid := n, pstate := USED\<rparr>) s in
       andthen (kalloc s) (\<lambda>(tf, s).
       let s = upd_proc i (\<lambda>p. p\<lparr>trapframe := tf\<rparr>) s in
       if tf = 0 then allocproc_undo y i s
       else andthen (proc_pagetable y i s) (\<lambda>(pt, s).
         let s = upd_proc i (\<lambda>p. p\<lparr>pagetable := pt\<rparr>) s in
         if pt = 0 then allocproc_undo y i s
         else Inr (Some i, upd_proc i (\<lambda>p. p\<lparr>pcontext :=
                \<lparr>ra = sym_forkret y, sp = kstack p + PGSIZE, callee = replicate 12 0\<rparr>\<rparr>) s)))))"

definition growproc :: "symbols \<Rightarrow> int \<Rightarrow> 'z pst_scheme \<Rightarrow> (int \<times> 'z pst_scheme) result" where
  "growproc y n s =
     andthen (current s) (\<lambda>(p, s).
     let sz = psz (procs s ! p) in
     if n > 0 then
       andthen (uvmalloc (sym_end y) (pagetable (procs s ! p)) sz (sz + of_int n) PTE_W s) (\<lambda>(sz, s).
       if sz = 0 then Inr (-1, s) else Inr (0, upd_proc p (\<lambda>q. q\<lparr>psz := sz\<rparr>) s))
     else if n < 0 then
       andthen (uvmdealloc (sym_end y) (pagetable (procs s ! p)) sz (sz + of_int n) s) (\<lambda>(sz, s).
       Inr (0, upd_proc p (\<lambda>q. q\<lparr>psz := sz\<rparr>) s))
     else Inr (0, upd_proc p (\<lambda>q. q\<lparr>psz := sz\<rparr>) s))"

subsection \<open>Sleeping and waking\<close>

definition killed :: "nat \<Rightarrow> 'z pst_scheme \<Rightarrow> (int \<times> 'z pst_scheme) result" where
  "killed i = critical (proc_lock i) (set_proc_lock i) (\<lambda>s. Inr (pkilled (procs s ! i), s))"

definition setkilled :: "nat \<Rightarrow> 'z pst_scheme \<Rightarrow> (unit \<times> 'z pst_scheme) result" where
  "setkilled i = critical (proc_lock i) (set_proc_lock i) (\<lambda>s. Inr ((), upd_proc i (\<lambda>p. p\<lparr>pkilled := 1\<rparr>) s))"

definition wakeup_one :: "chan \<Rightarrow> proc \<Rightarrow> proc" where
  "wakeup_one ch p = (if pstate p = SLEEPING \<and> pchan p = ch then p\<lparr>pstate := RUNNABLE\<rparr> else p)"

function wakeup_loop :: "chan \<Rightarrow> nat \<Rightarrow> 'z pst_scheme \<Rightarrow> 'z pst_scheme result" where
  "wakeup_loop ch i s =
     (if i < NPROC then
        andthen (myproc s) (\<lambda>(me, s).
        andthen (if me \<noteq> Some i
                 then critical (proc_lock i) (set_proc_lock i) (\<lambda>s. Inr ((), upd_proc i (wakeup_one ch) s)) s
                 else Inr ((), s)) (\<lambda>(_, s).
        wakeup_loop ch (Suc i) s))
      else Inr s)"
  by pat_completeness auto
termination
  by (relation "measure (\<lambda>(ch, i, s). NPROC - i)") auto

declare wakeup_loop.simps [simp del]

definition wakeup :: "chan \<Rightarrow> 'z pst_scheme \<Rightarrow> 'z pst_scheme result" where
  "wakeup ch s = wakeup_loop ch 0 s"

definition kill_one :: "proc \<Rightarrow> proc" where
  "kill_one p = p\<lparr>pkilled := 1, pstate := (if pstate p = SLEEPING then RUNNABLE else pstate p)\<rparr>"

function kill_loop :: "int \<Rightarrow> nat \<Rightarrow> 'z pst_scheme \<Rightarrow> (int \<times> 'z pst_scheme) result" where
  "kill_loop n i s =
     (if i < NPROC then
        andthen (critical (proc_lock i) (set_proc_lock i) (\<lambda>s.
            if pid (procs s ! i) = n then Inr (True, upd_proc i kill_one s) else Inr (False, s)) s) (\<lambda>(found, s).
        if found then Inr (0, s) else kill_loop n (Suc i) s)
      else Inr (-1, s))"
  by pat_completeness auto
termination
  by (relation "measure (\<lambda>(n, i, s). NPROC - i)") auto

declare kill_loop.simps [simp del]

definition kill :: "int \<Rightarrow> 'z pst_scheme \<Rightarrow> (int \<times> 'z pst_scheme) result" where
  "kill n s = kill_loop n 0 s"

subsection \<open>The context switch\<close>

text \<open>The checks of \<open>sched\<close>; what follows them is \<^verbatim>\<open>swtch\<close>.\<close>

definition sched :: "'z pst_scheme \<Rightarrow> 'z pst_scheme result" where
  "sched s =
     andthen (current s) (\<lambda>(p, s).
     if \<not> holding (proc_lock p s) (kcpu s) then Inl (Panic ''sched p->lock'')
     else if noff (kcpu s) \<noteq> 1 then Inl (Panic ''sched locks'')
     else if pstate (procs s ! p) = RUNNING then Inl (Panic ''sched running'')
     else if intr_get (kcpu s) then Inl (Panic ''sched interruptible'')
     else Inr s)"

text \<open>
  \<^verbatim>\<open>scheduler\<close>, for the entry \<open>i\<close>: up to the switch to the process (with its lock held), or past
  an entry that is not runnable; and what it does when the process has switched back.
\<close>

definition scheduler_pick :: "nat \<Rightarrow> 'z pst_scheme \<Rightarrow> (bool \<times> 'z pst_scheme) result" where
  "scheduler_pick i s =
     andthen (acquire_proc i s) (\<lambda>s.
     if pstate (procs s ! i) = RUNNABLE
     then Inr (True, (upd_proc i (\<lambda>p. p\<lparr>pstate := RUNNING\<rparr>) s)\<lparr>curproc := Some i\<rparr>)
     else andthen (release_proc i s) (\<lambda>s. Inr (False, s)))"

definition scheduler_back :: "nat \<Rightarrow> 'z pst_scheme \<Rightarrow> 'z pst_scheme result" where
  "scheduler_back i s = release_proc i (s\<lparr>curproc := None\<rparr>)"

definition yield_enter :: "'z pst_scheme \<Rightarrow> 'z pst_scheme result" where
  "yield_enter s =
     andthen (current s) (\<lambda>(p, s).
     andthen (acquire_proc p s) (\<lambda>s.
     sched (upd_proc p (\<lambda>q. q\<lparr>pstate := RUNNABLE\<rparr>) s)))"

definition yield_resume :: "nat \<Rightarrow> 'z pst_scheme \<Rightarrow> 'z pst_scheme result" where
  "yield_resume p s = release_proc p s"

text \<open>\<^verbatim>\<open>sleep(chan, lk)\<close>, the lock given by how to read and write it.\<close>

definition sleep_enter ::
    "chan \<Rightarrow> ('z pst_scheme \<Rightarrow> spinlock) \<Rightarrow> (spinlock \<Rightarrow> 'z pst_scheme \<Rightarrow> 'z pst_scheme) \<Rightarrow>
     'z pst_scheme \<Rightarrow> 'z pst_scheme result" where
  "sleep_enter ch get put s =
     andthen (current s) (\<lambda>(p, s).
     andthen (acquire_proc p s) (\<lambda>s.
     andthen (release (get s) (kcpu s)) (\<lambda>(lk, c).
     let s = put lk (s\<lparr>kcpu := c\<rparr>) in
     sched (upd_proc p (\<lambda>q. q\<lparr>pchan := ch, pstate := SLEEPING\<rparr>) s))))"

definition sleep_resume ::
    "nat \<Rightarrow> ('z pst_scheme \<Rightarrow> spinlock) \<Rightarrow> (spinlock \<Rightarrow> 'z pst_scheme \<Rightarrow> 'z pst_scheme) \<Rightarrow>
     'z pst_scheme \<Rightarrow> 'z pst_scheme result" where
  "sleep_resume p get put s =
     andthen (release_proc p (upd_proc p (\<lambda>q. q\<lparr>pchan := NoChan\<rparr>) s)) (\<lambda>s.
     andthen (acquire (get s) (kcpu s)) (\<lambda>(lk, c).
     Inr (put lk (s\<lparr>kcpu := c\<rparr>))))"

subsection \<open>Children\<close>

definition reparent_one :: "nat option \<Rightarrow> nat \<Rightarrow> proc \<Rightarrow> proc" where
  "reparent_one ini p q = (if parent q = Some p then q\<lparr>parent := ini\<rparr> else q)"

function reparent_loop :: "nat \<Rightarrow> nat \<Rightarrow> 'z pst_scheme \<Rightarrow> 'z pst_scheme result" where
  "reparent_loop p i s =
     (if i < NPROC then
        andthen (if parent (procs s ! i) = Some p
                 then let s = upd_proc i (\<lambda>q. q\<lparr>parent := initproc s\<rparr>) s in
                      wakeup (case initproc s of None \<Rightarrow> NoChan | Some q \<Rightarrow> ProcChan q) s
                 else Inr s) (\<lambda>s.
        reparent_loop p (Suc i) s)
      else Inr s)"
  by pat_completeness auto
termination
  by (relation "measure (\<lambda>(p, i, s). NPROC - i)") auto

declare reparent_loop.simps [simp del]

definition reparent :: "nat \<Rightarrow> 'z pst_scheme \<Rightarrow> 'z pst_scheme result" where
  "reparent p s = reparent_loop p 0 s"

definition acquire_wait :: "'z pst_scheme \<Rightarrow> 'z pst_scheme result" where
  "acquire_wait s = andthen (acquire (wait_lock s) (kcpu s)) (\<lambda>(lk, c). Inr (s\<lparr>wait_lock := lk, kcpu := c\<rparr>))"

definition release_wait :: "'z pst_scheme \<Rightarrow> 'z pst_scheme result" where
  "release_wait s = andthen (release (wait_lock s) (kcpu s)) (\<lambda>(lk, c). Inr (s\<lparr>wait_lock := lk, kcpu := c\<rparr>))"

text \<open>
  The end of \<open>exit\<close>, from \<^verbatim>\<open>acquire(&wait_lock)\<close> to the context switch, from which it
  does not come back.
\<close>

definition exit_zombie :: "nat \<Rightarrow> int \<Rightarrow> 'z pst_scheme \<Rightarrow> 'z pst_scheme result" where
  "exit_zombie p status s =
     andthen (acquire_wait s) (\<lambda>s.
     andthen (reparent p s) (\<lambda>s.
     andthen (wakeup (case parent (procs s ! p) of None \<Rightarrow> NoChan | Some q \<Rightarrow> ProcChan q) s) (\<lambda>s.
     andthen (acquire_proc p s) (\<lambda>s.
     let s = upd_proc p (\<lambda>q. q\<lparr>xstate := status, pstate := ZOMBIE\<rparr>) s in
     andthen (release_wait s) (\<lambda>s.
     sched s)))))"

text \<open>
  One scan of \<open>wait\<close> over the table: it returned \<open>Some r\<close> (the pid of a child it freed, or -1
  for a bad address), or only whether there are children.
\<close>

function wait_scan :: "symbols \<Rightarrow> nat \<Rightarrow> u64 \<Rightarrow> nat \<Rightarrow> bool \<Rightarrow> 'z pst_scheme \<Rightarrow> (int option \<times> bool \<times> 'z pst_scheme) result" where
  "wait_scan y p addr i havekids s =
     (if i < NPROC then
        if parent (procs s ! i) = Some p then
          andthen (acquire_proc i s) (\<lambda>s.
            if pstate (procs s ! i) = ZOMBIE then
              let n = pid (procs s ! i) in
              andthen (if addr \<noteq> 0
                       then copyout_bytes (pagetable (procs s ! p)) addr
                              (le_bytes 4 (unat (of_int (xstate (procs s ! i)) :: u32))) s
                       else Inr (0, s)) (\<lambda>(r, s).
              if r < 0 then
                andthen (release_proc i s) (\<lambda>s.
                andthen (release_wait s) (\<lambda>s. Inr (Some (-1), True, s)))
              else
                andthen (freeproc y i s) (\<lambda>s.
                andthen (release_proc i s) (\<lambda>s.
                andthen (release_wait s) (\<lambda>s. Inr (Some n, True, s)))))
            else andthen (release_proc i s) (\<lambda>s. wait_scan y p addr (Suc i) True s))
        else wait_scan y p addr (Suc i) havekids s
      else Inr (None, havekids, s))"
  by pat_completeness auto
termination
  by (relation "measure (\<lambda>(y, p, addr, i, h, s). NPROC - i)") auto

declare wait_scan.simps [simp del]

text \<open>With children but no zombie among them the caller sleeps on its own \<^verbatim>\<open>struct proc\<close>.\<close>

definition kwait :: "symbols \<Rightarrow> u64 \<Rightarrow> 'z pst_scheme \<Rightarrow> (int \<times> 'z pst_scheme) result" where
  "kwait y addr s =
     andthen (current s) (\<lambda>(p, s).
     andthen (acquire_wait s) (\<lambda>s.
     andthen (wait_scan y p addr 0 False s) (\<lambda>(r, havekids, s).
     case r of Some n \<Rightarrow> Inr (n, s)
     | None \<Rightarrow>
       andthen (if havekids then killed p s else Inr (0, s)) (\<lambda>(k, s).
       if \<not> havekids \<or> k \<noteq> 0 then andthen (release_wait s) (\<lambda>s. Inr (-1, s))
       else Inl (Sleep (ProcChan p))))))"

subsection \<open>Copies to and from the current process or the kernel\<close>

definition either_copyout :: "bool \<Rightarrow> u64 \<Rightarrow> u8 list \<Rightarrow> 'z pst_scheme \<Rightarrow> (int \<times> 'z pst_scheme) result" where
  "either_copyout user_dst dst src s =
     andthen (current s) (\<lambda>(p, s).
     if user_dst then copyout_bytes (pagetable (procs s ! p)) dst src s
     else Inr (0, s\<lparr>ram := store_bytes (ram s) dst src\<rparr>))"

definition either_copyin :: "bool \<Rightarrow> u64 \<Rightarrow> nat \<Rightarrow> 'z pst_scheme \<Rightarrow> (int \<times> u8 list \<times> 'z pst_scheme) result" where
  "either_copyin user_src src len s =
     andthen (current s) (\<lambda>(p, s).
     if user_src then copyin_bytes (pagetable (procs s ! p)) src len s
     else Inr (0, bytes_at (ram s) src len, s))"

section \<open>Lemmas\<close>

lemmas proc_lock_defs = proc_lock_def set_proc_lock_def acquire_proc_def release_proc_def upd_proc_def

text \<open>The table as it is between system calls: no entry is locked.\<close>

definition clean :: "spinlock \<Rightarrow> bool" where
  "clean lk \<longleftrightarrow> \<not> locked lk \<and> lcpu lk = None"

definition pinv :: "'z pst_scheme \<Rightarrow> bool" where
  "pinv s \<longleftrightarrow> length (procs s) = NPROC \<and> (\<forall>p \<in> set (procs s). clean (plock p)) \<and> cpu_ok (kcpu s)"

lemma clean_simps [simp]: "clean (freed lk)" "clean (initlock n)" "clean lk \<Longrightarrow> freed lk = lk" "clean lk \<Longrightarrow> \<not> locked lk"
  by (simp_all add: clean_def freed_def initlock_def)

lemma pinv_nth: "pinv s \<Longrightarrow> i < NPROC \<Longrightarrow> clean (plock (procs s ! i))"
  by (simp add: pinv_def)

lemma pinv_upd:
  "pinv s \<Longrightarrow> i < NPROC \<Longrightarrow> clean (plock p) \<Longrightarrow> pinv (s\<lparr>procs := (procs s)[i := p], kcpu := after_section (kcpu s)\<rparr>)"
  by (auto simp: pinv_def dest!: subsetD [OF set_update_subset_insert])

lemma myproc_eq: "cpu_ok (kcpu s) \<Longrightarrow> myproc s = Inr (curproc s, s\<lparr>kcpu := after_section (kcpu s)\<rparr>)"
  by (simp add: myproc_def pop_off_push_off after_section_def)

lemma current_eq:
  "cpu_ok (kcpu s) \<Longrightarrow> curproc s = Some p \<Longrightarrow> current s = Inr (p, s\<lparr>kcpu := after_section (kcpu s)\<rparr>)"
  by (simp add: current_def myproc_eq)

text \<open>A critical section on one entry that changes only that entry and does not look at its lock.\<close>

lemma critical_proc:
  assumes "pinv s" "i < NPROC" "\<And>p. plock (f p) = plock p"
    and "\<And>p lk. g (p\<lparr>plock := lk\<rparr>) = g p" "\<And>p lk. f (p\<lparr>plock := lk\<rparr>) = (f p)\<lparr>plock := lk\<rparr>"
  shows "critical (proc_lock i) (set_proc_lock i) (\<lambda>t. Inr (g (procs t ! i), upd_proc i f t)) s =
    Inr (g (procs s ! i), s\<lparr>procs := (procs s)[i := f (procs s ! i)], kcpu := after_section (kcpu s)\<rparr>)"
proof -
  have i: "i < length (procs s)" "clean (proc_lock i s)" "cpu_ok (kcpu s)" using assms(1,2) by (auto simp: pinv_def proc_lock_def)
  let ?t = "s\<lparr>procs := (procs s)[i := (f (procs s ! i))\<lparr>plock := held (plock (procs s ! i)) (kcpu s)\<rparr>],
       kcpu := push_off (kcpu s)\<rparr>"
  have b: "(\<lambda>t. Inr (g (procs t ! i), upd_proc i f t))
      (set_proc_lock i (held (proc_lock i s) (kcpu s)) (s\<lparr>kcpu := push_off (kcpu s)\<rparr>)) =
    Inr (g (procs s ! i), ?t)"
    using i by (simp add: proc_lock_defs assms)
  have "(f (procs s ! i))\<lparr>plock := plock (f (procs s ! i))\<rparr> = f (procs s ! i)" by simp
  then have eq: "(f (procs s ! i))\<lparr>plock := plock (procs s ! i)\<rparr> = f (procs s ! i)" unfolding assms(3) .
  have "critical (proc_lock i) (set_proc_lock i) (\<lambda>t. Inr (g (procs t ! i), upd_proc i f t)) s =
      Inr (g (procs s ! i), set_proc_lock i (freed (proc_lock i s)) (?t\<lparr>kcpu := after_section (kcpu s)\<rparr>))"
    by (rule critical_free) (use i b in \<open>simp_all add: proc_lock_def\<close>)
  also have "set_proc_lock i (freed (proc_lock i s)) (?t\<lparr>kcpu := after_section (kcpu s)\<rparr>) =
      s\<lparr>procs := (procs s)[i := f (procs s ! i)], kcpu := after_section (kcpu s)\<rparr>"
    using i by (simp add: proc_lock_defs eq)
  finally show ?thesis .
qed

subsection \<open>wakeup and kill\<close>

definition wake_from :: "chan \<Rightarrow> nat option \<Rightarrow> nat \<Rightarrow> proc list \<Rightarrow> proc list" where
  "wake_from ch me i ps = map (\<lambda>j. if i \<le> j \<and> me \<noteq> Some j then wakeup_one ch (ps ! j) else ps ! j) [0..<length ps]"

lemma plock_wakeup_one [simp]: "plock (wakeup_one ch p) = plock p"
  by (simp add: wakeup_one_def)

lemma wake_from_facts [simp]:
  "length (wake_from ch me i ps) = length ps"
  "j < length ps \<Longrightarrow> wake_from ch me i ps ! j = (if i \<le> j \<and> me \<noteq> Some j then wakeup_one ch (ps ! j) else ps ! j)"
  by (simp_all add: wake_from_def)

lemma wake_from_step:
  assumes "i < length ps"
  shows "wake_from ch me (Suc i) (ps[i := (if me \<noteq> Some i then wakeup_one ch (ps ! i) else ps ! i)]) = wake_from ch me i ps"
  using assms by (intro nth_equalityI) (auto simp: nth_list_update)

lemma wakeup_loop_eq:
  assumes "pinv s" "i \<le> NPROC"
  shows "wakeup_loop ch i s =
    Inr (if i = NPROC then s else s\<lparr>procs := wake_from ch (curproc s) i (procs s), kcpu := after_section (kcpu s)\<rparr>)"
  using assms
proof (induction "NPROC - i" arbitrary: i s)
  case 0
  then show ?case by (subst wakeup_loop.simps) simp
next
  case (Suc d)
  let ?p = "if curproc s \<noteq> Some i then wakeup_one ch (procs s ! i) else procs s ! i"
  let ?s = "s\<lparr>procs := (procs s)[i := ?p], kcpu := after_section (kcpu s)\<rparr>"
  have i: "i < NPROC" using Suc.hyps(2) by simp
  have ok: "cpu_ok (kcpu s)" "length (procs s) = NPROC" using Suc.prems(1) by (simp_all add: pinv_def)
  have pc: "pinv (s\<lparr>kcpu := after_section (kcpu s)\<rparr>)" using Suc.prems(1) by (simp add: pinv_def)
  have "critical (proc_lock i) (set_proc_lock i) (\<lambda>s. Inr ((), upd_proc i (wakeup_one ch) s)) (s\<lparr>kcpu := after_section (kcpu s)\<rparr>) =
      Inr ((), s\<lparr>procs := (procs s)[i := wakeup_one ch (procs s ! i)], kcpu := after_section (kcpu s)\<rparr>)"
    using critical_proc [OF pc i, of "wakeup_one ch" "\<lambda>_. ()"] by (simp add: wakeup_one_def)
  then have "wakeup_loop ch i s = wakeup_loop ch (Suc i) ?s"
    using i ok by (subst wakeup_loop.simps) (simp add: myproc_eq)
  also have "pinv ?s" using Suc.prems(1) i by (intro pinv_upd) (simp_all add: pinv_nth)
  then have "wakeup_loop ch (Suc i) ?s = Inr (if Suc i = NPROC then ?s
      else ?s\<lparr>procs := wake_from ch (curproc ?s) (Suc i) (procs ?s), kcpu := after_section (kcpu ?s)\<rparr>)"
    using Suc.hyps i by (intro Suc.hyps(1)) simp_all
  also have "\<dots> = Inr (s\<lparr>procs := wake_from ch (curproc s) i (procs s), kcpu := after_section (kcpu s)\<rparr>)"
  proof -
    have w: "wake_from ch (curproc s) (Suc i) ((procs s)[i := ?p]) = wake_from ch (curproc s) i (procs s)"
      using i ok(2) by (intro wake_from_step) simp
    moreover have "wake_from ch (curproc s) (Suc i) ((procs s)[i := ?p]) = (procs s)[i := ?p]" if "Suc i = NPROC"
      using that ok(2) by (intro nth_equalityI) (auto simp: nth_list_update)
    ultimately show ?thesis by auto
  qed
  finally show ?case using i by simp
qed

lemma wakeup_eq:
  "pinv s \<Longrightarrow> wakeup ch s = Inr (s\<lparr>procs := wake_from ch (curproc s) 0 (procs s), kcpu := after_section (kcpu s)\<rparr>)"
  by (simp add: wakeup_def wakeup_loop_eq)

lemma pinv_wakeup:
  "pinv s \<Longrightarrow> pinv (s\<lparr>procs := wake_from ch me i (procs s), kcpu := after_section (kcpu s)\<rparr>)"
  by (auto simp: pinv_def wake_from_def)

lemma kill_section:
  assumes "pinv s" "i < NPROC"
  shows "critical (proc_lock i) (set_proc_lock i) (\<lambda>s.
      if pid (procs s ! i) = n then Inr (True, upd_proc i kill_one s) else Inr (False, s)) s =
    Inr (pid (procs s ! i) = n,
      s\<lparr>procs := (procs s)[i := (if pid (procs s ! i) = n then kill_one (procs s ! i) else procs s ! i)],
        kcpu := after_section (kcpu s)\<rparr>)"
proof -
  let ?f = "\<lambda>p. if pid p = n then kill_one p else p"
  have eq: "(\<lambda>s :: 'a pst_scheme. if pid (procs s ! i) = n then Inr (True, upd_proc i kill_one s) else Inr (False, s)) =
      (\<lambda>s. Inr (pid (procs s ! i) = n, upd_proc i ?f s))"
    by (rule ext) (simp add: upd_proc_def)
  show ?thesis unfolding eq
    by (rule critical_proc [OF assms, where f = ?f and g = "\<lambda>p. pid p = n"]) (simp_all add: kill_one_def)
qed

lemma kill_loop_eq:
  assumes "pinv s" "i \<le> NPROC"
  shows "kill_loop n i s = Inr (case find_index (\<lambda>p. pid p = n) (drop i (procs s)) of
      None \<Rightarrow> (-1, s\<lparr>kcpu := (if i = NPROC then kcpu s else after_section (kcpu s))\<rparr>)
    | Some k \<Rightarrow> (0, s\<lparr>procs := (procs s)[i + k := kill_one (procs s ! (i + k))], kcpu := after_section (kcpu s)\<rparr>))"
  using assms
proof (induction "NPROC - i" arbitrary: i s)
  case 0
  then have "i = NPROC" "drop i (procs s) = []" by (simp_all add: pinv_def)
  then show ?case by (subst kill_loop.simps) simp
next
  case (Suc d)
  have i: "i < NPROC" using Suc.hyps(2) by simp
  have len: "length (procs s) = NPROC" using Suc.prems(1) by (simp add: pinv_def)
  have d: "drop i (procs s) = procs s ! i # drop (Suc i) (procs s)" using i len by (simp add: Cons_nth_drop_Suc)
  show ?case
  proof (cases "pid (procs s ! i) = n")
    case True
    then show ?thesis using i d by (subst kill_loop.simps) (simp add: kill_section [OF Suc.prems(1) i])
  next
    case False
    let ?s = "s\<lparr>kcpu := after_section (kcpu s)\<rparr>"
    have "kill_loop n i s = kill_loop n (Suc i) ?s"
      using i False by (subst kill_loop.simps) (simp add: kill_section [OF Suc.prems(1) i])
    also have "pinv ?s" using Suc.prems(1) by (simp add: pinv_def)
    then have "kill_loop n (Suc i) ?s = Inr (case find_index (\<lambda>p. pid p = n) (drop (Suc i) (procs ?s)) of
      None \<Rightarrow> (-1, ?s\<lparr>kcpu := (if Suc i = NPROC then kcpu ?s else after_section (kcpu ?s))\<rparr>)
    | Some k \<Rightarrow> (0, ?s\<lparr>procs := (procs ?s)[Suc i + k := kill_one (procs ?s ! (Suc i + k))], kcpu := after_section (kcpu ?s)\<rparr>))"
      using Suc.hyps i by (intro Suc.hyps(1)) simp_all
    also have "\<dots> = Inr (case find_index (\<lambda>p. pid p = n) (drop i (procs s)) of
      None \<Rightarrow> (-1, s\<lparr>kcpu := (if i = NPROC then kcpu s else after_section (kcpu s))\<rparr>)
    | Some k \<Rightarrow> (0, s\<lparr>procs := (procs s)[i + k := kill_one (procs s ! (i + k))], kcpu := after_section (kcpu s)\<rparr>))"
      using i d False by (auto split: option.splits)
    finally show ?thesis .
  qed
qed

lemma kill_eq:
  assumes "pinv s"
  shows "kill n s = Inr (case find_index (\<lambda>p. pid p = n) (procs s) of
      None \<Rightarrow> (-1, s\<lparr>kcpu := after_section (kcpu s)\<rparr>)
    | Some k \<Rightarrow> (0, s\<lparr>procs := (procs s)[k := kill_one (procs s ! k)], kcpu := after_section (kcpu s)\<rparr>))"
  using kill_loop_eq [OF assms, of 0 n] by (simp add: kill_def split: option.split)

subsection \<open>Going to sleep\<close>

lemma holding_held: "holding (held lk c) (push_off c)" "holding (held lk c) d \<longleftrightarrow> hart d = hart c"
  by (auto simp: holding_def held_def)

lemma acquire_proc_eq:
  "clean (plock (procs s ! i)) \<Longrightarrow>
   acquire_proc i s = Inr (s\<lparr>procs := (procs s)[i := (procs s ! i)\<lparr>plock := held (plock (procs s ! i)) (kcpu s)\<rparr>],
     kcpu := push_off (kcpu s)\<rparr>)"
  by (simp add: acquire_proc_def acquire_free proc_lock_defs held_def)

lemma release_outer:
  assumes "holding lk c" "noff c = 1" "\<not> sie c"
  shows "release lk (push_off c) = Inr (freed lk, (push_off c)\<lparr>noff := 1\<rparr>)"
proof -
  have "holding lk (push_off c)" using assms(1) by (simp add: holding_def)
  moreover have "pop_off (push_off c) = Inr ((push_off c)\<lparr>noff := 1\<rparr>)"
    using assms by (simp add: irq_defs Let_def)
  ultimately show ?thesis by (simp add: release_def freed_def)
qed

text \<open>The lock given to \<open>sleep\<close> is a part of the state of its own.\<close>

definition lock_lens :: "('z pst_scheme \<Rightarrow> spinlock) \<Rightarrow> (spinlock \<Rightarrow> 'z pst_scheme \<Rightarrow> 'z pst_scheme) \<Rightarrow> bool" where
  "lock_lens get put \<longleftrightarrow>
     (\<forall>lk s. get (put lk s) = lk \<and> kcpu (put lk s) = kcpu s \<and> procs (put lk s) = procs s \<and> curproc (put lk s) = curproc s) \<and>
     (\<forall>c s. get (s\<lparr>kcpu := c\<rparr>) = get s) \<and> (\<forall>x s. get (s\<lparr>procs := x\<rparr>) = get s) \<and>
     (\<forall>lk c s. put lk (s\<lparr>kcpu := c\<rparr>) = (put lk s)\<lparr>kcpu := c\<rparr>) \<and>
     (\<forall>lk x s. put lk (s\<lparr>procs := x\<rparr>) = (put lk s)\<lparr>procs := x\<rparr>)"

lemma wait_lock_lens: "lock_lens wait_lock (\<lambda>lk s. s\<lparr>wait_lock := lk\<rparr>)"
  by (simp add: lock_lens_def)

lemma sched_holding:
  assumes "curproc s = Some p" "cpu_ok (kcpu s)"
  shows "sched s = (if \<not> holding (plock (procs s ! p)) (kcpu s) then Inl (Panic ''sched p->lock'')
     else if noff (kcpu s) \<noteq> 1 then Inl (Panic ''sched locks'')
     else if pstate (procs s ! p) = RUNNING then Inl (Panic ''sched running'')
     else if sie (kcpu s) then Inl (Panic ''sched interruptible'')
     else Inr (s\<lparr>kcpu := after_section (kcpu s)\<rparr>))"
proof -
  have "holding lk (after_section c) = holding lk c" for lk c by (simp add: holding_def)
  then show ?thesis using assms by (simp add: sched_def current_eq proc_lock_def intr_get_def)
qed

lemma sleep_enter_eq:
  assumes lens: "lock_lens get put" and p: "curproc s = Some p" "p < length (procs s)" "clean (plock (procs s ! p))"
    and lk: "holding (get s) (kcpu s)" "\<not> sie (kcpu s)" "noff (kcpu s) = 1"
  shows "\<exists>s'. sleep_enter ch get put s = Inr s' \<and> get s' = freed (get s) \<and> curproc s' = Some p \<and>
    noff (kcpu s') = 1 \<and> s' = (put (freed (get s)) s)\<lparr>procs := procs s', kcpu := kcpu s'\<rparr> \<and>
    procs s' = (procs s)[p := (procs s ! p)\<lparr>plock := held (plock (procs s ! p)) (kcpu s), pchan := ch, pstate := SLEEPING\<rparr>]"
proof -
  have ok: "cpu_ok (kcpu s)" using lk by (simp add: cpu_ok_def)
  have as: "after_section (kcpu s) = kcpu s" using lk(3) by (simp add: after_section_def)
  let ?s1 = "s\<lparr>procs := (procs s)[p := (procs s ! p)\<lparr>plock := held (plock (procs s ! p)) (kcpu s)\<rparr>], kcpu := push_off (kcpu s)\<rparr>"
  have acq: "acquire_proc p (s\<lparr>kcpu := after_section (kcpu s)\<rparr>) = Inr ?s1"
    using p(3) as by (simp add: acquire_proc_eq)
  have g: "get ?s1 = get s" using lens by (simp add: lock_lens_def)
  let ?c = "(push_off (kcpu s))\<lparr>noff := 1\<rparr>"
  let ?s2 = "put (freed (get s)) (?s1\<lparr>kcpu := ?c\<rparr>)"
  have rel: "release (get ?s1) (kcpu ?s1) = Inr (freed (get s), ?c)" using g release_outer [OF lk(1,3,2)] by simp
  define t where "t = upd_proc p (\<lambda>q. q\<lparr>pchan := ch, pstate := SLEEPING\<rparr>) ?s2"
  have s2: "procs ?s2 = procs ?s1" "kcpu ?s2 = ?c" "curproc ?s2 = Some p" "get ?s2 = freed (get s)"
    using lens p(1) by (simp_all add: lock_lens_def)
  have t: "procs t = (procs s)[p := (procs s ! p)\<lparr>plock := held (plock (procs s ! p)) (kcpu s), pchan := ch, pstate := SLEEPING\<rparr>]"
    "kcpu t = ?c" "curproc t = Some p" "get t = freed (get s)"
    using s2 p(2) lens by (simp_all add: t_def upd_proc_def lock_lens_def)
  have "cpu_ok (kcpu t)" "holding (plock (procs t ! p)) (kcpu t)" using p(2) by (simp_all add: t cpu_ok_def holding_held)
  then have "sched t = Inr (t\<lparr>kcpu := after_section (kcpu t)\<rparr>)"
    using sched_holding [OF t(3)] p(2) by (simp add: t)
  then have "sleep_enter ch get put s = Inr (t\<lparr>kcpu := after_section (kcpu t)\<rparr>)"
    using acq rel by (simp add: sleep_enter_def current_eq [OF ok p(1)] t_def)
  moreover have "t = (put (freed (get s)) s)\<lparr>procs := procs t, kcpu := kcpu t\<rparr>"
    using lens by (simp add: t_def upd_proc_def lock_lens_def)
  ultimately show ?thesis using t lens by (simp add: lock_lens_def)
qed

lemma killed_eq: "pinv s \<Longrightarrow> i < NPROC \<Longrightarrow> killed i s = Inr (pkilled (procs s ! i), s\<lparr>kcpu := after_section (kcpu s)\<rparr>)"
  using critical_proc [of s i "\<lambda>p. p" pkilled] by (simp add: killed_def upd_proc_def)

section \<open>Properties\<close>

text \<open>
  \<open>wakeup\<close> wakes exactly the sleepers on the channel: on a table with no entry locked it returns,
  every process other than the caller that sleeps on the channel is runnable, and nothing else
  about any process changes. No entry is left locked.
\<close>

theorem wakeup_correct:
  assumes "pinv s"
  shows "\<exists>s'. wakeup ch s = Inr s' \<and> pinv s' \<and> length (procs s') = length (procs s) \<and>
    (\<forall>i < NPROC. procs s' ! i =
       (if curproc s \<noteq> Some i \<and> pstate (procs s ! i) = SLEEPING \<and> pchan (procs s ! i) = ch
        then (procs s ! i)\<lparr>pstate := RUNNABLE\<rparr> else procs s ! i)) \<and>
    s'\<lparr>procs := procs s, kcpu := kcpu s\<rparr> = s"
proof -
  have "length (procs s) = NPROC" using assms by (simp add: pinv_def)
  then show ?thesis
    using wakeup_eq [OF assms, of ch] pinv_wakeup [OF assms] by (simp add: wakeup_one_def)
qed

text \<open>
  \<open>kill\<close> finds the process by its id: when some entry has the id, exactly the first such
  entry is marked killed, and made runnable if it sleeps, and the result is 0; when none has it, the result is -1 and no entry
  changes.
\<close>

theorem kill_correct:
  assumes "pinv s"
  shows "(\<forall>p \<in> set (procs s). pid p \<noteq> n) \<and> (\<exists>s'. kill n s = Inr (-1, s') \<and> procs s' = procs s) \<or>
    (\<exists>i s'. i < NPROC \<and> pid (procs s ! i) = n \<and> (\<forall>j < i. pid (procs s ! j) \<noteq> n) \<and> kill n s = Inr (0, s') \<and>
       pkilled (procs s' ! i) = 1 \<and> pstate (procs s' ! i) \<noteq> SLEEPING \<and>
       (pstate (procs s ! i) \<noteq> SLEEPING \<longrightarrow> pstate (procs s' ! i) = pstate (procs s ! i)) \<and>
       (\<forall>j. j \<noteq> i \<longrightarrow> procs s' ! j = procs s ! j))"
proof (cases "find_index (\<lambda>p. pid p = n) (procs s)")
  case None
  then have "kill n s = Inr (-1, s\<lparr>kcpu := after_section (kcpu s)\<rparr>)" using kill_eq [OF assms, of n] by simp
  then show ?thesis using None by (simp add: find_index_None)
next
  case (Some i)
  have "length (procs s) = NPROC" using assms by (simp add: pinv_def)
  then show ?thesis using Some kill_eq [OF assms, of n] find_index_SomeD [OF Some]
    by (intro disjI2 exI [of _ i]) (auto simp: kill_one_def)
qed

text \<open>
  Going to sleep is atomic with respect to wakeup. With the lock \<open>lk\<close> held and no other, \<open>sleep\<close>
  reaches the context switch with no panic: \<open>lk\<close> is free, the process is \<open>SLEEPING\<close> on the channel, and the lock of
  its entry is held, so that no \<open>wakeup\<close> can look at it before the switch is done.
\<close>

theorem sleep_releases_lock:
  assumes "lock_lens get put" "curproc s = Some p" "p < length (procs s)" "clean (plock (procs s ! p))"
    and "holding (get s) (kcpu s)" "\<not> sie (kcpu s)" "noff (kcpu s) = 1"
  shows "\<exists>s'. sleep_enter ch get put s = Inr s' \<and> \<not> locked (get s') \<and>
    pstate (procs s' ! p) = SLEEPING \<and> pchan (procs s' ! p) = ch \<and> locked (plock (procs s' ! p)) \<and>
    (\<forall>j. j \<noteq> p \<longrightarrow> procs s' ! j = procs s ! j)"
  using sleep_enter_eq [OF assms, of ch] assms(3) by (auto simp: held_def freed_def)

section \<open>Witnesses\<close>

text \<open>A table of unused entries, with one process asleep in \<^verbatim>\<open>wait\<close> and the current process beside it.\<close>

definition blank_proc :: proc where
  "blank_proc = \<lparr>plock = initlock ''proc'', pstate = UNUSED, pchan = NoChan, pkilled = 0, xstate = 0, pid = 0,
     parent = None, kstack = 0, psz = 0, pagetable = 0, trapframe = 0,
     pcontext = \<lparr>ra = 0, sp = 0, callee = replicate 12 0\<rparr>, ofile = replicate NOFILE None, cwd = None,
     pname = replicate 16 0\<rparr>"

definition demo_procs :: "proc list" where
  "demo_procs = (replicate NPROC blank_proc)
     [0 := blank_proc\<lparr>pstate := SLEEPING, pchan := ProcChan 0, pid := 1\<rparr>,
      1 := blank_proc\<lparr>pstate := RUNNING, pid := 2, parent := Some 0\<rparr>]"

definition demo_pst :: pst where
  "demo_pst = kst.extend boot_kst \<lparr>procs = demo_procs, curproc = Some 1, initproc = Some 0, nextpid = 3,
     pid_lock = initlock ''nextpid'', wait_lock = initlock ''wait_lock''\<rparr>"

lemma demo_pst_facts [simp]:
  "procs demo_pst = demo_procs" "curproc demo_pst = Some 1" "kcpu demo_pst = boot_cpu" "wait_lock demo_pst = initlock ''wait_lock''"
  by (simp_all add: demo_pst_def kst.defs boot_kst_def)

lemma demo_procs_facts [simp]:
  "length demo_procs = NPROC" "\<forall>p \<in> set demo_procs. clean (plock p)"
  "demo_procs ! 0 = blank_proc\<lparr>pstate := SLEEPING, pchan := ProcChan 0, pid := 1\<rparr>"
  "demo_procs ! Suc 0 = blank_proc\<lparr>pstate := RUNNING, pid := 2, parent := Some 0\<rparr>"
  by (auto simp: demo_procs_def blank_proc_def nth_list_update dest!: subsetD [OF set_update_subset_insert])

lemma demo_pinv: "pinv demo_pst"
  by (simp add: pinv_def boot_cpu_def cpu_ok_def)

theorem wakeup_correct_witness:
  "\<exists>s'. wakeup (ProcChan 0) demo_pst = Inr s' \<and> pstate (procs s' ! 0) = RUNNABLE \<and> pstate (procs s' ! 1) = RUNNING"
  using wakeup_correct [OF demo_pinv, of "ProcChan 0"] by (auto simp: blank_proc_def)

theorem kill_correct_witness:
  "\<exists>s'. kill 1 demo_pst = Inr (0, s') \<and> pstate (procs s' ! 0) \<noteq> SLEEPING"
proof -
  have "demo_procs ! 0 \<in> set demo_procs" by (rule nth_mem) simp
  then have "\<exists>p \<in> set demo_procs. pid p = 1" by (rule bexI [rotated]) (simp add: blank_proc_def)
  then obtain i s' where i: "i < NPROC" "pid (demo_procs ! i) = 1" "\<forall>j < i. pid (demo_procs ! j) \<noteq> 1" "kill 1 demo_pst = Inr (0, s')"
    "pstate (procs s' ! i) \<noteq> SLEEPING"
    using kill_correct [OF demo_pinv, of 1] by auto
  have "i = 0" using i(3) by (cases i) (auto simp: blank_proc_def)
  then show ?thesis using i by auto
qed

theorem sleep_releases_lock_witness:
  "\<exists>s'. sleep_enter (ProcChan 1) wait_lock (\<lambda>lk s. s\<lparr>wait_lock := lk\<rparr>)
      (demo_pst\<lparr>wait_lock := held (initlock ''wait_lock'') boot_cpu, kcpu := push_off boot_cpu\<rparr>) = Inr s' \<and>
    \<not> locked (wait_lock s') \<and> pstate (procs s' ! 1) = SLEEPING"
  using sleep_releases_lock [OF wait_lock_lens, of
      "demo_pst\<lparr>wait_lock := held (initlock ''wait_lock'') boot_cpu, kcpu := push_off boot_cpu\<rparr>" 1 "ProcChan 1"]
  by (auto simp: holding_held blank_proc_def boot_cpu_def)

end
