(* ===== verification/Proc_Alloc.thy ===== *)
theory Proc_Alloc
  imports Proc Vm_Correct
begin

text \<open>
  Creating and freeing entries of the process table: \<open>allocproc\<close> takes the first unused entry, gives
  it a fresh id and keeps every other entry; \<open>freeproc\<close> clears the entry. A consequence of the code
  as it is: \<open>kill(0)\<close> marks an unused entry, and the mark survives into the process that is later
  created there.
\<close>

section \<open>Lemmas\<close>

lemma more_pst:
  assumes "kst.more s' = kst.more (s :: 'z pst_scheme)"
  shows "procs s' = procs s" "curproc s' = curproc s" "nextpid s' = nextpid s" "initproc s' = initproc s"
    "pid_lock s' = pid_lock s" "wait_lock s' = wait_lock s" "pst.more s' = pst.more s"
  using assms by (cases s; cases s'; simp)+

lemma allocproc_scan_spec:
  assumes "pinv s" "allocproc_scan i s = Inr (r, s')" "i \<le> NPROC"
  shows "(case r of
      None \<Rightarrow> (\<forall>j. i \<le> j \<and> j < NPROC \<longrightarrow> pstate (procs s ! j) \<noteq> UNUSED) \<and> s' = s\<lparr>kcpu := kcpu s'\<rparr>
    | Some k \<Rightarrow> i \<le> k \<and> k < NPROC \<and> pstate (procs s ! k) = UNUSED \<and>
        (\<forall>j. i \<le> j \<and> j < k \<longrightarrow> pstate (procs s ! j) \<noteq> UNUSED) \<and>
        procs s' = (procs s)[k := (procs s ! k)\<lparr>plock := held (plock (procs s ! k)) (kcpu s)\<rparr>] \<and>
        s' = s\<lparr>procs := procs s', kcpu := kcpu s'\<rparr> \<and> cpu_ok (kcpu s'))"
  using assms
proof (induction "NPROC - i" arbitrary: i s)
  case 0
  then show ?case by (subst (asm) allocproc_scan.simps) auto
next
  case (Suc d)
  have i: "i < NPROC" using Suc.hyps(2) by simp
  have len: "length (procs s) = NPROC" "cpu_ok (kcpu s)" using Suc.prems(1) by (simp_all add: pinv_def)
  have cl: "clean (plock (procs s ! i))" using pinv_nth [OF Suc.prems(1) i] .
  let ?s1 = "s\<lparr>procs := (procs s)[i := (procs s ! i)\<lparr>plock := held (plock (procs s ! i)) (kcpu s)\<rparr>], kcpu := push_off (kcpu s)\<rparr>"
  note e = Suc.prems(2) [unfolded allocproc_scan.simps [of i s]]
  show ?case
  proof (cases "pstate (procs s ! i) = UNUSED")
    case True
    then show ?thesis using e i len cl by (auto simp: acquire_proc_eq push_off_ok)
  next
    case False
    let ?s2 = "s\<lparr>kcpu := after_section (kcpu s)\<rparr>"
    have "release_proc i ?s1 = Inr ?s2"
      using i len cl release_acquired [OF len(2), of "plock (procs s ! i)"]
      by (simp add: release_proc_def proc_lock_def set_proc_lock_def upd_proc_def held_def freed_def [symmetric])
    then have "allocproc_scan (Suc i) ?s2 = Inr (r, s')"
      using e i len cl False by (simp add: acquire_proc_eq)
    moreover have "pinv ?s2" using Suc.prems(1) by (simp add: pinv_def)
    ultimately have "(case r of
      None \<Rightarrow> (\<forall>j. Suc i \<le> j \<and> j < NPROC \<longrightarrow> pstate (procs ?s2 ! j) \<noteq> UNUSED) \<and> s' = ?s2\<lparr>kcpu := kcpu s'\<rparr>
    | Some k \<Rightarrow> Suc i \<le> k \<and> k < NPROC \<and> pstate (procs ?s2 ! k) = UNUSED \<and>
        (\<forall>j. Suc i \<le> j \<and> j < k \<longrightarrow> pstate (procs ?s2 ! j) \<noteq> UNUSED) \<and>
        procs s' = (procs ?s2)[k := (procs ?s2 ! k)\<lparr>plock := held (plock (procs ?s2 ! k)) (kcpu ?s2)\<rparr>] \<and>
        s' = ?s2\<lparr>procs := procs s', kcpu := kcpu s'\<rparr> \<and> cpu_ok (kcpu s'))"
      using Suc.hyps i by (intro Suc.hyps(1)) simp_all
    moreover have "held lk (after_section c) = held lk c" for lk c by (simp add: held_def)
    moreover have "Suc i \<le> j \<or> j = i" if "i \<le> j" for j using that by linarith
    ultimately show ?thesis using False by (auto split: option.splits)
  qed
qed

lemma allocpid_D:
  assumes "allocpid s = Inr (n, s')"
  shows "n = nextpid s" "nextpid s' = nextpid s + 1" "procs s' = procs s"
  using assms by (auto simp: allocpid_def critical_def result_simps)

lemma uvmfree3_more: "uvmfree3 kend pt sz s = Inr s' \<Longrightarrow> kst.more s' = kst.more s"
  by (auto simp: uvmfree3_def split: option.splits dest: uvmfree_more)

lemma proc_pagetable_more: "proc_pagetable y p s = Inr (r, s') \<Longrightarrow> kst.more s' = kst.more s"
  by (auto simp: proc_pagetable_def result_simps split: if_splits
      dest!: uvmcreate_more mappages_more uvmfree3_more uvmunmap_more)

lemma proc_freepagetable_more: "proc_freepagetable y pt sz s = Inr s' \<Longrightarrow> kst.more s' = kst.more s"
  by (auto simp: proc_freepagetable_def result_simps dest!: uvmunmap_more uvmfree3_more)

lemma allocproc_spec:
  assumes "pinv s" "allocproc y s = Inr (Some i, s')"
  shows "i < NPROC \<and> pstate (procs s ! i) = UNUSED \<and> (\<forall>j < i. pstate (procs s ! j) \<noteq> UNUSED) \<and>
    nextpid s' = nextpid s + 1 \<and> pid (procs s' ! i) = nextpid s \<and> pstate (procs s' ! i) = USED \<and>
    pkilled (procs s' ! i) = pkilled (procs s ! i) \<and> trapframe (procs s' ! i) \<noteq> 0 \<and> pagetable (procs s' ! i) \<noteq> 0 \<and>
    locked (plock (procs s' ! i)) \<and> length (procs s') = NPROC \<and> (\<forall>j. j \<noteq> i \<longrightarrow> procs s' ! j = procs s ! j)"
proof -
  from assms(2) obtain s0 n s1 tf s2 pt s3 where
    sc: "allocproc_scan 0 s = Inr (Some i, s0)" and ap: "allocpid s0 = Inr (n, s1)"
    and ka: "kalloc (upd_proc i (\<lambda>p. p\<lparr>pid := n, pstate := USED\<rparr>) s1) = Inr (tf, s2)" "tf \<noteq> 0"
    and pt: "proc_pagetable y i (upd_proc i (\<lambda>p. p\<lparr>trapframe := tf\<rparr>) s2) = Inr (pt, s3)" "pt \<noteq> 0"
    and s': "s' = upd_proc i (\<lambda>p. p\<lparr>pcontext := \<lparr>ra = sym_forkret y, sp = kstack p + PGSIZE, callee = replicate 12 0\<rparr>\<rparr>)
        (upd_proc i (\<lambda>p. p\<lparr>pagetable := pt\<rparr>) s3)"
    by (auto simp: allocproc_def allocproc_undo_def result_simps Let_def split: option.splits if_splits)
  note sp = allocproc_scan_spec [OF assms(1) sc, simplified]
  have len: "length (procs s) = NPROC" using assms(1) by (simp add: pinv_def)
  have "s0 = s\<lparr>procs := procs s0, kcpu := kcpu s0\<rparr>" using sp by blast
  from arg_cong [OF this, of nextpid] have n0: "nextpid s0 = nextpid s" by simp
  note m2 = more_pst(1,3) [OF kalloc_more [OF ka(1)]] and m3 = more_pst(1,3) [OF proc_pagetable_more [OF pt(1)]]
  have "procs s' = (procs s0)[i := (procs s0 ! i)\<lparr>pid := n, pstate := USED, trapframe := tf, pagetable := pt,
      pcontext := \<lparr>ra = sym_forkret y, sp = kstack (procs s0 ! i) + PGSIZE, callee = replicate 12 0\<rparr>\<rparr>]"
    using sp len by (simp add: s' upd_proc_def m2 m3 allocpid_D(3) [OF ap])
  moreover have "nextpid s' = nextpid s + 1" "n = nextpid s"
    using allocpid_D [OF ap] n0 by (simp_all add: s' upd_proc_def m2 m3)
  ultimately show ?thesis using sp len ka(2) pt(2) by simp
qed

subsection \<open>With enough memory, process creation succeeds\<close>

lemma uvmcreate_ok:
  assumes "kinv kend s (p # ps)"
  shows "\<exists>s'. uvmcreate s = Inr (p, s') \<and> p \<noteq> 0 \<and> ptab kend s' 2 p ps \<and> (\<forall>va. pte_at (ram s') 2 p va = 0)"
proof -
  obtain s1 where s1: "kalloc s = Inr (p, s1)" "kinv kend s1 ps" using kalloc_spec [OF assms] by auto
  let ?m = "memset (ram s1) p 0 4096"
  have p: "page_ok kend p" "p \<noteq> 0" "p \<notin> set ps" using assms by (auto simp: kinv_def)
  have "changes_in {p} (ram s1) ?m" by (simp add: changes_in_def memset_apply in_page_def)
  then have k: "kinv kend (s1\<lparr>ram := ?m\<rparr>) ps" using p by (intro kinv_changes [OF s1(2)]) auto
  have "entry ?m p i = 0" if "i < 512" for i
    by (rule zero_entries) (use that in \<open>simp_all add: memset_apply in_page_def\<close>)
  then have "wft ?m 2 p \<and> tset ?m 2 p = {p} \<and> pte_at ?m 2 p va = 0" for va by (rule zero_page_table)
  then show ?thesis using s1(1) p k by (auto simp: uvmcreate_def ptab_def)
qed

lemma high_pages:
  "TRAMPOLINE mod 4096 = 0" "TRAPFRAME mod 4096 = 0" "TRAMPOLINE < MAXVA" "TRAPFRAME < MAXVA"
  "unat TRAMPOLINE = 274877902848" "unat TRAPFRAME = 274877898752"
  by (simp_all add: TRAMPOLINE_def TRAPFRAME_def MAXVA_def)

lemma proc_pagetable_ok:
  assumes "kinv (sym_end y) s ps" "5 \<le> length ps"
  shows "\<exists>pt s' qs. proc_pagetable y p s = Inr (pt, s') \<and> pt \<noteq> 0 \<and> ptab (sym_end y) s' 2 pt qs \<and>
    (\<forall>va < MAXVA. pte_at (ram s') 2 pt va =
       (if PGROUNDDOWN va = TRAMPOLINE then PA2PTE (sym_trampoline y) OR (PTE_R OR PTE_X) OR PTE_V
        else if PGROUNDDOWN va = TRAPFRAME then PA2PTE (trapframe (procs s ! p)) OR (PTE_R OR PTE_W) OR PTE_V
        else 0))"
proof -
  obtain pt ps' where ps: "ps = pt # ps'" using assms(2) by (cases ps) auto
  obtain s1 where s1: "uvmcreate s = Inr (pt, s1)" "pt \<noteq> 0" "ptab (sym_end y) s1 2 pt ps'" "\<forall>va. pte_at (ram s1) 2 pt va = 0"
    using uvmcreate_ok [OF assms(1) [unfolded ps]] by blast
  have nv: "\<not> valid 0" by (simp add: valid_def)
  obtain s2 us qs where s2: "mappages pt TRAMPOLINE PGSIZE (sym_trampoline y) (PTE_R OR PTE_X) s1 = Inr (0, s2)" "length us \<le> 2"
    "table_post (sym_end y) pt s1 ps' s2 us qs (map_range TRAMPOLINE 1 (sym_trampoline y) (PTE_R OR PTE_X) (pte_at (ram s1) 2 pt))"
    using mappages_page [OF s1(3) high_pages(1,3), of "sym_trampoline y" "PTE_R OR PTE_X"] s1(4) nv assms(2) ps by auto
  have t2: "ptab (sym_end y) s2 2 pt qs" "ps' = us @ qs"
    "\<forall>va < MAXVA. pte_at (ram s2) 2 pt va = map_range TRAMPOLINE 1 (sym_trampoline y) (PTE_R OR PTE_X) (pte_at (ram s1) 2 pt) va"
    using s2(3) by (simp_all add: table_post_def)
  have "\<not> valid (pte_at (ram s2) 2 pt TRAPFRAME)"
    using t2(3) high_pages s1(4) nv by (simp add: map_range_def)
  moreover have "2 \<le> length qs" using t2(2) s2(2) assms(2) ps by simp
  ultimately obtain s3 us' qs' where s3: "mappages pt TRAPFRAME PGSIZE (trapframe (procs s ! p)) (PTE_R OR PTE_W) s2 = Inr (0, s3)"
    "table_post (sym_end y) pt s2 qs s3 us' qs' (map_range TRAPFRAME 1 (trapframe (procs s ! p)) (PTE_R OR PTE_W) (pte_at (ram s2) 2 pt))"
    using mappages_page [OF t2(1) high_pages(2,4), of "trapframe (procs s ! p)" "PTE_R OR PTE_W"] by auto
  have pr: "procs s2 = procs s"
    using more_pst(1) [OF mappages_more [OF s2(1)]] more_pst(1) [OF uvmcreate_more [OF s1(1)]] by simp
  have "proc_pagetable y p s = Inr (pt, s3)" using s1(1,2) s2(1) s3(1) pr by (simp add: proc_pagetable_def)
  moreover have "pte_at (ram s3) 2 pt va =
       (if PGROUNDDOWN va = TRAMPOLINE then PA2PTE (sym_trampoline y) OR (PTE_R OR PTE_X) OR PTE_V
        else if PGROUNDDOWN va = TRAPFRAME then PA2PTE (trapframe (procs s ! p)) OR (PTE_R OR PTE_W) OR PTE_V
        else 0)" if "va < MAXVA" for va
  proof -
    have d: "TRAMPOLINE \<noteq> TRAPFRAME" using high_pages(5,6) by auto
    have "pte_at (ram s3) 2 pt va = map_range TRAPFRAME 1 (trapframe (procs s ! p)) (PTE_R OR PTE_W)
        (map_range TRAMPOLINE 1 (sym_trampoline y) (PTE_R OR PTE_X) (\<lambda>_. 0)) va"
      using s3(2) t2(3) s1(4) that by (auto simp: table_post_def intro!: map_range_cong)
    then show ?thesis
      unfolding map_range_1 [OF high_pages(1)] map_range_1 [OF high_pages(2)] PGROUNDDOWN_id [OF high_pages(1)] PGROUNDDOWN_id [OF high_pages(2)]
      using d by auto
  qed
  ultimately show ?thesis using s1(2) s3(2) unfolding table_post_def by blast
qed

lemma allocproc_scan_returns:
  assumes "pinv s" "i \<le> NPROC"
  shows "\<exists>r s'. allocproc_scan i s = Inr (r, s')"
  using assms
proof (induction "NPROC - i" arbitrary: i s)
  case 0
  then show ?case by (subst allocproc_scan.simps) simp
next
  case (Suc d)
  have i: "i < NPROC" using Suc.hyps(2) by simp
  have len: "length (procs s) = NPROC" "cpu_ok (kcpu s)" using Suc.prems(1) by (simp_all add: pinv_def)
  have cl: "clean (plock (procs s ! i))" using pinv_nth [OF Suc.prems(1) i] .
  have "pinv (s\<lparr>kcpu := after_section (kcpu s)\<rparr>)" using Suc.prems(1) by (simp add: pinv_def)
  then have "\<exists>r s'. allocproc_scan (Suc i) (s\<lparr>kcpu := after_section (kcpu s)\<rparr>) = Inr (r, s')"
    using Suc.hyps i by (intro Suc.hyps(1)) simp_all
  then show ?case
    using i len cl release_acquired [OF len(2), of "plock (procs s ! i)"]
    by (subst allocproc_scan.simps)
      (simp add: acquire_proc_eq release_proc_def proc_lock_def set_proc_lock_def upd_proc_def held_def freed_def [symmetric])
qed

lemma kinv_procs: "kinv kend s ps \<Longrightarrow> s' = s\<lparr>procs := x, kcpu := c\<rparr> \<Longrightarrow> cpu_ok c \<Longrightarrow> kinv kend s' ps"
  by (simp add: kinv_def)

lemma allocproc_succeeds:
  assumes "pinv s" "kinv (sym_end y) s ps" "6 \<le> length ps" "clean (pid_lock s)" "\<exists>i < NPROC. pstate (procs s ! i) = UNUSED"
  shows "\<exists>i s'. allocproc y s = Inr (Some i, s')"
proof -
  obtain r s0 where sc: "allocproc_scan 0 s = Inr (r, s0)" using allocproc_scan_returns [OF assms(1), of 0] by auto
  note sp = allocproc_scan_spec [OF assms(1) sc, simplified]
  obtain i where r: "r = Some i" using sp assms(5) by (cases r) auto
  note sp = sp [unfolded r, simplified]
  have k0: "kinv (sym_end y) s0 ps" by (rule kinv_procs [OF assms(2), of s0 "kcpu s0" "procs s0"]) (use sp in blast)+
  have "s0 = s\<lparr>procs := procs s0, kcpu := kcpu s0\<rparr>" using sp by blast
  from arg_cong [OF this, of pid_lock] have cl: "clean (pid_lock s0)" using assms(4) by simp
  obtain n s1 where ap: "allocpid s0 = Inr (n, s1)" "s1 = s0\<lparr>pid_lock := pid_lock s0, nextpid := nextpid s0 + 1, kcpu := after_section (kcpu s0)\<rparr>"
    using sp cl by (simp add: allocpid_def critical_free)
  let ?s1 = "upd_proc i (\<lambda>p. p\<lparr>pid := n, pstate := USED\<rparr>) s1"
  obtain tf ps' where ps: "ps = tf # ps'" using assms(3) by (cases ps) auto
  have "kinv (sym_end y) ?s1 (tf # ps')" using k0 sp ps unfolding ap(2) upd_proc_def kinv_def by simp
  from kalloc_spec [OF this] obtain s2 where ka: "kalloc ?s1 = Inr (tf, s2)" "kinv (sym_end y) s2 ps'" by auto
  have tf: "tf \<noteq> 0" using assms(2) ps by (auto simp: kinv_def)
  have "kinv (sym_end y) (upd_proc i (\<lambda>p. p\<lparr>trapframe := tf\<rparr>) s2) ps'" using ka(2) by (simp add: kinv_def upd_proc_def)
  moreover have "5 \<le> length ps'" using assms(3) ps by simp
  ultimately obtain pt s3 where
    "proc_pagetable y i (upd_proc i (\<lambda>p. p\<lparr>trapframe := tf\<rparr>) s2) = Inr (pt, s3)" "pt \<noteq> 0"
    using proc_pagetable_ok [of y _ ps' i] by blast
  then show ?thesis using sc r ap(1) ka(1) tf by (simp add: allocproc_def)
qed

text \<open>Ids in use are distinct and below the next one; an unused entry has id 0.\<close>

definition pids_ok :: "'z pst_scheme \<Rightarrow> bool" where
  "pids_ok s \<longleftrightarrow> 0 < nextpid s \<and>
     (\<forall>i < NPROC. (pstate (procs s ! i) = UNUSED \<longleftrightarrow> pid (procs s ! i) = 0) \<and>
        0 \<le> pid (procs s ! i) \<and> pid (procs s ! i) < nextpid s) \<and>
     (\<forall>i < NPROC. \<forall>j < NPROC. i \<noteq> j \<longrightarrow> pid (procs s ! i) \<noteq> 0 \<longrightarrow> pid (procs s ! i) \<noteq> pid (procs s ! j))"

lemma allocproc_pids_ok:
  assumes "pinv s" "pids_ok s" "allocproc y s = Inr (Some i, s')"
  shows "pids_ok s'"
proof -
  note a = allocproc_spec [OF assms(1,3)]
  have pids: "pid (procs s' ! j) = (if j = i then nextpid s else pid (procs s ! j))" for j using a by simp
  have sts: "pstate (procs s' ! j) = (if j = i then USED else pstate (procs s ! j))" for j using a by simp
  show ?thesis using assms(2) a unfolding pids_ok_def pids sts by (auto; fastforce)
qed

section \<open>Properties\<close>



section \<open>Witnesses\<close>

text \<open>A boot-time table beside six free pages.\<close>

lemma free_pages_exist:
  assumes "\<forall>p \<in> set ps. page_ok kend p" "distinct ps" "0 < kend" "kend \<le> PHYSTOP"
  shows "\<exists>k :: kst. kinv kend k ps"
  using assms
proof (induction ps)
  case Nil
  then show ?case using boot_kinv by blast
next
  case (Cons p ps)
  then obtain k :: kst where "kinv kend k ps" by auto
  from kfree_spec [OF this, of p] show ?case using Cons.prems by auto
qed

definition demo_symbols :: symbols where
  "demo_symbols = \<lparr>sym_end = 0x80021d40, sym_etext = 0x80008000, sym_trampoline = 0x80007000, sym_forkret = 0x80001a00\<rparr>"

lemma demo_machine_exists:
  "\<exists>s :: pst. pinv s \<and> pids_ok s \<and> clean (pid_lock s) \<and> (\<exists>i < NPROC. pstate (procs s ! i) = UNUSED) \<and>
     (\<exists>ps. kinv (sym_end demo_symbols) s ps \<and> 6 \<le> length ps)"
proof -
  let ?ps = "[0x80022000, 0x80023000, 0x80024000, 0x80025000, 0x80026000, 0x80027000] :: u64 list"
  obtain k :: kst where k: "kinv 0x80021d40 k ?ps"
    using free_pages_exist [of ?ps "0x80021d40"] by (auto simp: page_ok_def)
  define s :: pst where "s = kst.extend k \<lparr>procs = replicate NPROC blank_proc, curproc = None, initproc = None, nextpid = 1,
     pid_lock = initlock ''nextpid'', wait_lock = initlock ''wait_lock''\<rparr>"
  have f: "procs s = replicate NPROC blank_proc" "nextpid s = 1" "pid_lock s = initlock ''nextpid''" "kcpu s = kcpu k"
    "ram s = ram k" "freelist s = freelist k" "kmem_lock s = kmem_lock k"
    by (simp_all add: s_def kst.defs)
  have "kinv (sym_end demo_symbols) s ?ps" using k by (simp add: kinv_def f demo_symbols_def)
  moreover have "pinv s" using k by (simp add: pinv_def f kinv_def blank_proc_def)
  moreover have "pids_ok s" by (simp add: pids_ok_def f blank_proc_def)
  moreover have "pstate (procs s ! 0) = UNUSED" by (simp add: f blank_proc_def)
  ultimately show ?thesis using f(3) by (intro exI [of _ s]) (auto intro!: exI [of _ 0] exI [of _ ?ps])
qed



end
