(* ===== verification/Sleep_Wakeup.thy ===== *)
theory Sleep_Wakeup
  imports Interfaces Proc
begin

text \<open>
  Sleep and wakeup as they interleave on two CPUs, \<^verbatim>\<open>sleep\<close> and \<^verbatim>\<open>wakeup\<close> of
  \<^verbatim>\<open>kernel/proc.c\<close>. One process, the waiter, runs
  \<^verbatim>\<open>acquire(lk); while(!cond) sleep(chan, lk); ... release(lk);\<close> as the pipe, the log, \<^verbatim>\<open>wait\<close> and
  the sleep locks do; another CPU, the waker, runs \<^verbatim>\<open>acquire(lk); cond = 1; wakeup(chan); release(lk);\<close>.
  Each step is one lock operation or one access under a lock. The point of \<^verbatim>\<open>sleep\<close> taking
  \<^verbatim>\<open>p->lock\<close> before it gives up \<^verbatim>\<open>lk\<close> is that the waker cannot slip in between.

  Shown here: once the waker is done, the waiter is not asleep; the wakeup is never lost.
\<close>

section \<open>Definitions\<close>

text \<open>
  The waiter: before \<^verbatim>\<open>acquire(lk)\<close>; with \<^verbatim>\<open>lk\<close> about to test the condition; in \<^verbatim>\<open>sleep\<close> about to
  take \<^verbatim>\<open>p->lock\<close>, to release \<^verbatim>\<open>lk\<close>, to set chan and state, to switch away; off the CPU; running
  again with \<^verbatim>\<open>p->lock\<close>; past the loop.
\<close>

datatype waiter_pc = WStart | WTest | WLockSelf | WRelease | WMark | WSwitch | WOff | WResume | WDone

text \<open>
  The waker: before \<^verbatim>\<open>acquire(lk)\<close>; about to set the condition; in \<^verbatim>\<open>wakeup\<close> about to take the
  waiter's \<^verbatim>\<open>p->lock\<close>, to look at it, to release it; about to release \<^verbatim>\<open>lk\<close>; done.
\<close>

datatype waker_pc = KStart | KSet | KLock | KLook | KUnlock | KRelease | KDone

record sw_state =
  waiter :: waiter_pc
  kpc :: waker_pc
  cond :: bool
  wstate :: procstate
  wchan :: bool

text \<open>Who holds which lock follows from where the two are; \<open>wchan\<close> says whether \<^verbatim>\<open>p->chan\<close> is the channel.\<close>

definition lk_free :: "sw_state \<Rightarrow> bool" where
  "lk_free s \<longleftrightarrow> waiter s \<notin> {WTest, WLockSelf, WRelease, WDone} \<and> kpc s \<notin> {KSet, KLock, KLook, KUnlock, KRelease}"

definition plock_free :: "sw_state \<Rightarrow> bool" where
  "plock_free s \<longleftrightarrow> waiter s \<notin> {WRelease, WMark, WSwitch, WResume} \<and> kpc s \<notin> {KLook, KUnlock}"

inductive sw_step :: "sw_state \<Rightarrow> sw_state \<Rightarrow> bool" where
  w_acquire: "waiter s = WStart \<Longrightarrow> lk_free s \<Longrightarrow> sw_step s (s\<lparr>waiter := WTest\<rparr>)"
| w_pass: "waiter s = WTest \<Longrightarrow> cond s \<Longrightarrow> sw_step s (s\<lparr>waiter := WDone\<rparr>)"
| w_sleep: "waiter s = WTest \<Longrightarrow> \<not> cond s \<Longrightarrow> sw_step s (s\<lparr>waiter := WLockSelf\<rparr>)"
| w_lock_self: "waiter s = WLockSelf \<Longrightarrow> plock_free s \<Longrightarrow> sw_step s (s\<lparr>waiter := WRelease\<rparr>)"
| w_release: "waiter s = WRelease \<Longrightarrow> sw_step s (s\<lparr>waiter := WMark\<rparr>)"
| w_mark: "waiter s = WMark \<Longrightarrow> sw_step s (s\<lparr>wchan := True, wstate := SLEEPING, waiter := WSwitch\<rparr>)"
| w_switch: "waiter s = WSwitch \<Longrightarrow> sw_step s (s\<lparr>waiter := WOff\<rparr>)"
| w_schedule: "waiter s = WOff \<Longrightarrow> wstate s = RUNNABLE \<Longrightarrow> plock_free s \<Longrightarrow>
    sw_step s (s\<lparr>wstate := RUNNING, waiter := WResume\<rparr>)"
| w_resume: "waiter s = WResume \<Longrightarrow> sw_step s (s\<lparr>wchan := False, waiter := WStart\<rparr>)"
| k_acquire: "kpc s = KStart \<Longrightarrow> lk_free s \<Longrightarrow> sw_step s (s\<lparr>kpc := KSet\<rparr>)"
| k_set: "kpc s = KSet \<Longrightarrow> sw_step s (s\<lparr>cond := True, kpc := KLock\<rparr>)"
| k_lock: "kpc s = KLock \<Longrightarrow> plock_free s \<Longrightarrow> sw_step s (s\<lparr>kpc := KLook\<rparr>)"
| k_look: "kpc s = KLook \<Longrightarrow>
    sw_step s (s\<lparr>wstate := (if wstate s = SLEEPING \<and> wchan s then RUNNABLE else wstate s), kpc := KUnlock\<rparr>)"
| k_unlock: "kpc s = KUnlock \<Longrightarrow> sw_step s (s\<lparr>kpc := KRelease\<rparr>)"
| k_release: "kpc s = KRelease \<Longrightarrow> sw_step s (s\<lparr>kpc := KDone\<rparr>)"

definition sw_init :: "sw_state \<Rightarrow> bool" where
  "sw_init s \<longleftrightarrow> s = \<lparr>waiter = WStart, kpc = KStart, cond = False, wstate = RUNNING, wchan = False\<rparr>"

inductive_cases sw_stepE: "sw_step s t"

section \<open>Lemmas\<close>

text \<open>
  At most one of the two holds each lock; the condition is set exactly from \<open>KLock\<close> on; the waiter is on its
  way to sleep only while the condition is false or the waker has yet to look; an entry marked \<open>SLEEPING\<close> carries the channel.
\<close>

definition sw_inv :: "sw_state \<Rightarrow> bool" where
  "sw_inv s \<longleftrightarrow>
     \<not> (waiter s \<in> {WTest, WLockSelf, WRelease, WDone} \<and> kpc s \<in> {KSet, KLock, KLook, KUnlock, KRelease}) \<and>
     \<not> (waiter s \<in> {WRelease, WMark, WSwitch, WResume} \<and> kpc s \<in> {KLook, KUnlock}) \<and>
     (cond s \<longleftrightarrow> kpc s \<notin> {KStart, KSet}) \<and>
     (wstate s = SLEEPING \<longrightarrow> waiter s \<in> {WSwitch, WOff} \<and> wchan s) \<and>
     (waiter s = WSwitch \<longrightarrow> wstate s = SLEEPING) \<and>
     (waiter s = WOff \<longrightarrow> wstate s = SLEEPING \<or> wstate s = RUNNABLE) \<and>
     (waiter s \<in> {WLockSelf, WRelease, WMark, WSwitch} \<or> wstate s = SLEEPING \<longrightarrow> kpc s \<in> {KStart, KSet, KLock, KLook})"

lemma sw_inv_step: "sw_step s t \<Longrightarrow> sw_inv s \<Longrightarrow> sw_inv t"
  by (erule sw_stepE; simp add: sw_inv_def lk_free_def plock_free_def; cases "waiter s"; cases "kpc s"; simp; blast)

interpretation sleeping: invariant_system sw_init sw_step sw_inv
  by unfold_locales (simp_all add: sw_init_def sw_inv_def [of "\<lparr>waiter = _, kpc = _, cond = _, wstate = _, wchan = _\<rparr>"] sw_inv_step)

section \<open>Properties\<close>

text \<open>
  C23. No wakeup is lost: in every reachable state of a waiter and a waker, once the waker has
  finished \<open>wakeup\<close> and released the lock, the waiter is neither asleep nor about to go to sleep; and while the waiter
  is asleep with the condition already set, the waker has not yet looked at it.
\<close>

theorem no_lost_wakeup:
  assumes "reachable sw_init sw_step s"
  shows "(kpc s = KDone \<longrightarrow> wstate s \<noteq> SLEEPING \<and> waiter s \<notin> {WLockSelf, WRelease, WMark, WSwitch}) \<and>
    (wstate s = SLEEPING \<and> cond s \<longrightarrow> kpc s = KLock \<or> kpc s = KLook)"
  using sleeping.reachable_inv [OF assms] by (cases "waiter s"; cases "kpc s"; simp add: sw_inv_def)

section \<open>Witnesses\<close>

text \<open>The waiter goes to sleep first, then the waker runs through.\<close>

theorem no_lost_wakeup_witness:
  "\<exists>s. reachable sw_init sw_step s \<and> kpc s = KDone \<and> waiter s = WOff \<and> wstate s \<noteq> SLEEPING"
proof -
  let ?st = "\<lambda>w k c t h. \<lparr>waiter = w, kpc = k, cond = c, wstate = t, wchan = h\<rparr>"
  have i: "reachable sw_init sw_step (?st WStart KStart False RUNNING False)"
    by (rule reachable_init) (simp add: sw_init_def)
  note free = lk_free_def plock_free_def
  have r1: "reachable sw_init sw_step (?st WTest KStart False RUNNING False)"
    using reachable_step [OF i w_acquire] by (simp add: free)
  have r2: "reachable sw_init sw_step (?st WLockSelf KStart False RUNNING False)"
    using reachable_step [OF r1 w_sleep] by simp
  have r3: "reachable sw_init sw_step (?st WRelease KStart False RUNNING False)"
    using reachable_step [OF r2 w_lock_self] by (simp add: free)
  have r4: "reachable sw_init sw_step (?st WMark KStart False RUNNING False)"
    using reachable_step [OF r3 w_release] by simp
  have r5: "reachable sw_init sw_step (?st WSwitch KStart False SLEEPING True)"
    using reachable_step [OF r4 w_mark] by simp
  have r6: "reachable sw_init sw_step (?st WOff KStart False SLEEPING True)"
    using reachable_step [OF r5 w_switch] by simp
  have r7: "reachable sw_init sw_step (?st WOff KSet False SLEEPING True)"
    using reachable_step [OF r6 k_acquire] by (simp add: free)
  have r8: "reachable sw_init sw_step (?st WOff KLock True SLEEPING True)"
    using reachable_step [OF r7 k_set] by simp
  have r9: "reachable sw_init sw_step (?st WOff KLook True SLEEPING True)"
    using reachable_step [OF r8 k_lock] by (simp add: free)
  have r10: "reachable sw_init sw_step (?st WOff KUnlock True RUNNABLE True)"
    using reachable_step [OF r9 k_look] by simp
  have r11: "reachable sw_init sw_step (?st WOff KRelease True RUNNABLE True)"
    using reachable_step [OF r10 k_unlock] by simp
  have r12: "reachable sw_init sw_step (?st WOff KDone True RUNNABLE True)"
    using reachable_step [OF r11 k_release] by simp
  show ?thesis using no_lost_wakeup [OF r12] r12 by (intro exI [of _ "?st WOff KDone True RUNNABLE True"]) simp
qed

end
