(* ===== verification/Pipe.thy ===== *)
theory Pipe
  imports Interfaces Proc Page_Table
begin

text \<open>
  Pipes, \<^verbatim>\<open>kernel/pipe.c\<close>: a ring buffer of \<^verbatim>\<open>PIPESIZE\<close> bytes whose read and write counters are
  32-bit and wrap around. A pipe lives in a page of its own; the state maps the address of the page to the
  pipe. \<open>pipewrite\<close> and \<open>piperead\<close> run until they return or reach the context switch inside
  \<^verbatim>\<open>sleep\<close>: \<open>Asleep i\<close> is a call that sleeps with its loop counter at \<open>i\<close>; \<open>pipewrite_resume\<close> and
  \<open>piperead_resume\<close> go on from there when the process is scheduled again.

  Shown here: the ring buffer is a bounded FIFO queue, also when the counters wrap; a write appends the user's bytes in order,
  and sleeps exactly when the pipe is full; a read delivers the oldest bytes.
\<close>

section \<open>Definitions\<close>

abbreviation (input) PIPESIZE :: nat where "PIPESIZE \<equiv> 512"

record pipe =
  pipe_lock :: spinlock
  pipe_data :: "u8 list"
  nread :: u32
  nwrite :: u32
  readopen :: bool
  writeopen :: bool

record pipest = pst +
  pipes :: "u64 \<Rightarrow> pipe"

datatype outcome = Returned int | Asleep nat

definition upd_pipe :: "u64 \<Rightarrow> (pipe \<Rightarrow> pipe) \<Rightarrow> 'z pipest_scheme \<Rightarrow> 'z pipest_scheme" where
  "upd_pipe pi f s = s\<lparr>pipes := (pipes s)(pi := f (pipes s pi))\<rparr>"

definition get_pipe_lock :: "u64 \<Rightarrow> 'z pipest_scheme \<Rightarrow> spinlock" where
  "get_pipe_lock pi s = pipe_lock (pipes s pi)"

definition set_pipe_lock :: "u64 \<Rightarrow> spinlock \<Rightarrow> 'z pipest_scheme \<Rightarrow> 'z pipest_scheme" where
  "set_pipe_lock pi lk s = upd_pipe pi (\<lambda>p. p\<lparr>pipe_lock := lk\<rparr>) s"

subsection \<open>The ring buffer\<close>

definition pipe_full :: "pipe \<Rightarrow> bool" where
  "pipe_full p \<longleftrightarrow> nwrite p = nread p + 512"

definition pipe_empty :: "pipe \<Rightarrow> bool" where
  "pipe_empty p \<longleftrightarrow> nread p = nwrite p"

text \<open>\<^verbatim>\<open>pi->data[pi->nwrite++ % PIPESIZE] = ch\<close> and \<^verbatim>\<open>ch = pi->data[pi->nread++ % PIPESIZE]\<close>\<close>

definition pipe_put :: "u8 \<Rightarrow> pipe \<Rightarrow> pipe" where
  "pipe_put ch p = p\<lparr>pipe_data := (pipe_data p)[unat (nwrite p mod 512) := ch], nwrite := nwrite p + 1\<rparr>"

definition pipe_get :: "pipe \<Rightarrow> u8 \<times> pipe" where
  "pipe_get p = (pipe_data p ! unat (nread p mod 512), p\<lparr>nread := nread p + 1\<rparr>)"

subsection \<open>pipewrite, piperead, pipeclose\<close>

definition acquire_pipe :: "u64 \<Rightarrow> 'z pipest_scheme \<Rightarrow> 'z pipest_scheme result" where
  "acquire_pipe pi s = andthen (acquire (get_pipe_lock pi s) (kcpu s)) (\<lambda>(lk, c). Inr (set_pipe_lock pi lk (s\<lparr>kcpu := c\<rparr>)))"

definition release_pipe :: "u64 \<Rightarrow> 'z pipest_scheme \<Rightarrow> 'z pipest_scheme result" where
  "release_pipe pi s = andthen (release (get_pipe_lock pi s) (kcpu s)) (\<lambda>(lk, c). Inr (set_pipe_lock pi lk (s\<lparr>kcpu := c\<rparr>)))"

text \<open>The end of both routines: \<^verbatim>\<open>release(&pi->lock); return v;\<close>\<close>

definition pipe_return :: "u64 \<Rightarrow> int \<Rightarrow> 'z pipest_scheme \<Rightarrow> (outcome \<times> 'z pipest_scheme) result" where
  "pipe_return pi v s = andthen (release_pipe pi s) (\<lambda>s. Inr (Returned v, s))"

definition pipe_sleep :: "u64 \<Rightarrow> chan \<Rightarrow> nat \<Rightarrow> 'z pipest_scheme \<Rightarrow> (outcome \<times> 'z pipest_scheme) result" where
  "pipe_sleep pi ch i s = andthen (sleep_enter ch (get_pipe_lock pi) (set_pipe_lock pi) s) (\<lambda>s. Inr (Asleep i, s))"

text \<open>The loop of \<open>pipewrite\<close> from counter \<open>i\<close>, with the lock held.\<close>

function pipewrite_loop :: "u64 \<Rightarrow> nat \<Rightarrow> u64 \<Rightarrow> int \<Rightarrow> nat \<Rightarrow> 'z pipest_scheme \<Rightarrow> (outcome \<times> 'z pipest_scheme) result" where
  "pipewrite_loop pi pr addr n i s =
     (if int i < n then
        andthen (if readopen (pipes s pi) then killed pr s else Inr (0, s)) (\<lambda>(k, s).
        if \<not> readopen (pipes s pi) \<or> k \<noteq> 0 then pipe_return pi (-1) s
        else if pipe_full (pipes s pi) then
          andthen (wakeup (PipeReadChan pi) s) (\<lambda>s. pipe_sleep pi (PipeWriteChan pi) i s)
        else
          andthen (copyin_bytes (pagetable (procs s ! pr)) (addr + of_nat i) 1 s) (\<lambda>(r, bs, s).
          if r = -1 then andthen (wakeup (PipeReadChan pi) s) (\<lambda>s. pipe_return pi (int i) s)
          else pipewrite_loop pi pr addr n (Suc i) (upd_pipe pi (pipe_put (hd bs)) s)))
      else andthen (wakeup (PipeReadChan pi) s) (\<lambda>s. pipe_return pi (int i) s))"
  by pat_completeness auto
termination
  by (relation "measure (\<lambda>(pi, pr, addr, n, i, s). nat (n - int i))") auto

declare pipewrite_loop.simps [simp del]

definition pipewrite :: "u64 \<Rightarrow> u64 \<Rightarrow> int \<Rightarrow> 'z pipest_scheme \<Rightarrow> (outcome \<times> 'z pipest_scheme) result" where
  "pipewrite pi addr n s =
     andthen (current s) (\<lambda>(pr, s).
     andthen (acquire_pipe pi s) (\<lambda>s.
     pipewrite_loop pi pr addr n 0 s))"

definition pipewrite_resume :: "u64 \<Rightarrow> nat \<Rightarrow> u64 \<Rightarrow> int \<Rightarrow> nat \<Rightarrow> 'z pipest_scheme \<Rightarrow> (outcome \<times> 'z pipest_scheme) result" where
  "pipewrite_resume pi pr addr n i s =
     andthen (sleep_resume pr (get_pipe_lock pi) (set_pipe_lock pi) s) (\<lambda>s.
     pipewrite_loop pi pr addr n i s)"

function piperead_copy :: "u64 \<Rightarrow> nat \<Rightarrow> u64 \<Rightarrow> int \<Rightarrow> nat \<Rightarrow> 'z pipest_scheme \<Rightarrow> (nat \<times> 'z pipest_scheme) result" where
  "piperead_copy pi pr addr n i s =
     (if int i < n then
        if pipe_empty (pipes s pi) then Inr (i, s)
        else let (ch, p) = pipe_get (pipes s pi);
                 s = upd_pipe pi (\<lambda>_. p) s in
          andthen (copyout_bytes (pagetable (procs s ! pr)) (addr + of_nat i) [ch] s) (\<lambda>(r, s).
          if r = -1 then Inr (i, s)
          else piperead_copy pi pr addr n (Suc i) s)
      else Inr (i, s))"
  by pat_completeness auto
termination
  by (relation "measure (\<lambda>(pi, pr, addr, n, i, s). nat (n - int i))") auto

declare piperead_copy.simps [simp del]

definition piperead_locked :: "u64 \<Rightarrow> nat \<Rightarrow> u64 \<Rightarrow> int \<Rightarrow> 'z pipest_scheme \<Rightarrow> (outcome \<times> 'z pipest_scheme) result" where
  "piperead_locked pi pr addr n s =
     (if pipe_empty (pipes s pi) \<and> writeopen (pipes s pi) then
        andthen (killed pr s) (\<lambda>(k, s).
        if k \<noteq> 0 then pipe_return pi (-1) s else pipe_sleep pi (PipeReadChan pi) 0 s)
      else
        andthen (piperead_copy pi pr addr n 0 s) (\<lambda>(i, s).
        andthen (wakeup (PipeWriteChan pi) s) (\<lambda>s. pipe_return pi (int i) s)))"

definition piperead :: "u64 \<Rightarrow> u64 \<Rightarrow> int \<Rightarrow> 'z pipest_scheme \<Rightarrow> (outcome \<times> 'z pipest_scheme) result" where
  "piperead pi addr n s =
     andthen (current s) (\<lambda>(pr, s).
     andthen (acquire_pipe pi s) (\<lambda>s.
     piperead_locked pi pr addr n s))"

definition piperead_resume :: "u64 \<Rightarrow> nat \<Rightarrow> u64 \<Rightarrow> int \<Rightarrow> 'z pipest_scheme \<Rightarrow> (outcome \<times> 'z pipest_scheme) result" where
  "piperead_resume pi pr addr n s =
     andthen (sleep_resume pr (get_pipe_lock pi) (set_pipe_lock pi) s) (\<lambda>s.
     piperead_locked pi pr addr n s)"

definition pipeclose :: "u64 \<Rightarrow> u64 \<Rightarrow> bool \<Rightarrow> 'z pipest_scheme \<Rightarrow> 'z pipest_scheme result" where
  "pipeclose kend pi writable s =
     andthen (critical (get_pipe_lock pi) (set_pipe_lock pi) (\<lambda>s.
       andthen (if writable
                then wakeup (PipeReadChan pi) (upd_pipe pi (\<lambda>p. p\<lparr>writeopen := False\<rparr>) s)
                else wakeup (PipeWriteChan pi) (upd_pipe pi (\<lambda>p. p\<lparr>readopen := False\<rparr>) s)) (\<lambda>s.
       Inr (\<not> readopen (pipes s pi) \<and> \<not> writeopen (pipes s pi), s))) s) (\<lambda>(dead, s).
     if dead then kfree kend pi s else Inr s)"

section \<open>Lemmas\<close>

subsection \<open>The ring buffer is a queue\<close>

definition pipe_ok :: "pipe \<Rightarrow> bool" where
  "pipe_ok p \<longleftrightarrow> length (pipe_data p) = PIPESIZE \<and> unat (nwrite p - nread p) \<le> PIPESIZE"

definition pipe_contents :: "pipe \<Rightarrow> u8 list" where
  "pipe_contents p = map (\<lambda>k. pipe_data p ! unat ((nread p + of_nat k) mod 512)) [0..<unat (nwrite p - nread p)]"

lemma length_pipe_contents [simp]: "length (pipe_contents p) = unat (nwrite p - nread p)"
  by (simp add: pipe_contents_def)

lemma unat_u32_add: "unat (a + of_nat k :: u32) mod 512 = (unat a + k) mod 512"
proof -
  have "unat (a + of_nat k) = (unat a + k) mod 2 ^ 32" by (simp add: unat_word_ariths unat_of_nat mod_add_right_eq)
  then show ?thesis by (simp add: mod_mod_cancel)
qed

lemma ring_index: "unat ((a + of_nat k :: u32) mod 512) = (unat a + k) mod 512"
  by (simp add: unat_mod unat_u32_add)

lemma ring_distinct:
  assumes "j < 512" "k < 512" "(r + j) mod 512 = (r + k) mod (512 :: nat)"
  shows "j = k"
proof -
  have "(int r + int j) mod 512 = (int r + int k) mod 512"
    using assms(3) by (metis of_nat_add of_nat_mod of_nat_numeral)
  then have "int j mod 512 = int k mod 512" by (simp add: mod_eq_dvd_iff)
  then show ?thesis using assms(1,2) by simp
qed

lemma nwrite_index:
  assumes "unat (nwrite p - nread p) = n"
  shows "unat (nwrite p mod 512) = (unat (nread p) + n) mod 512"
proof -
  have "nwrite p = nread p + of_nat n" using assms by (simp flip: assms)
  then show ?thesis using ring_index by metis
qed

lemma unat_succ_diff: "unat (b - a :: u32) < 512 \<Longrightarrow> unat (b + 1 - a) = Suc (unat (b - a))"
proof -
  assume "unat (b - a) < 512"
  moreover have "b + 1 - a = (b - a) + 1" by (rule add_diff_eq [symmetric, THEN trans]) simp
  moreover have "unat (x + 1) = Suc (unat x)" if "unat x < 512" for x :: u32
    using that by (simp add: unat_word_ariths)
  ultimately show ?thesis by metis
qed

lemma pipe_put_contents:
  assumes "pipe_ok p" "\<not> pipe_full p"
  shows "pipe_ok (pipe_put ch p)" "pipe_contents (pipe_put ch p) = pipe_contents p @ [ch]"
proof -
  let ?n = "unat (nwrite p - nread p)"
  have "?n \<noteq> 512"
  proof
    assume "?n = 512"
    then have "nwrite p - nread p = 512" by (simp add: word_unat_eq_iff)
    then show False using assms(2) by (simp add: pipe_full_def algebra_simps)
  qed
  then have n: "?n < 512" using assms(1) by (simp add: pipe_ok_def)
  note w = nwrite_index [OF refl, of p]
  show "pipe_ok (pipe_put ch p)" using assms(1) n by (simp add: pipe_ok_def pipe_put_def unat_succ_diff)
  have len: "length (pipe_data p) = 512" using assms(1) by (simp add: pipe_ok_def)
  show "pipe_contents (pipe_put ch p) = pipe_contents p @ [ch]"
  proof (rule nth_equalityI)
    fix k assume "k < length (pipe_contents (pipe_put ch p))"
    then have k: "k \<le> ?n" using n by (simp add: pipe_put_def unat_succ_diff)
    have "pipe_contents (pipe_put ch p) ! k = (pipe_data p)[unat (nwrite p mod 512) := ch] ! ((unat (nread p) + k) mod 512)"
      using k n by (auto simp: pipe_contents_def pipe_put_def unat_succ_diff ring_index nth_append le_less)
    also have "\<dots> = (pipe_contents p @ [ch]) ! k"
    proof (cases "k = ?n")
      case True
      then show ?thesis using w len by (simp add: nth_append)
    next
      case False
      then have "k < ?n" using k by simp
      moreover have "(unat (nread p) + ?n) mod 512 \<noteq> (unat (nread p) + k) mod 512"
        using ring_distinct [of ?n k] n k False by auto
      ultimately show ?thesis using w by (simp add: nth_append pipe_contents_def ring_index)
    qed
    finally show "pipe_contents (pipe_put ch p) ! k = (pipe_contents p @ [ch]) ! k" .
  qed (use n in \<open>simp add: pipe_put_def unat_succ_diff\<close>)
qed

lemma pipe_get_contents:
  assumes "pipe_ok p" "\<not> pipe_empty p" "pipe_get p = (ch, q)"
  shows "pipe_ok q" "pipe_contents p = ch # pipe_contents q"
proof -
  let ?n = "unat (nwrite p - nread p)"
  have q: "q = p\<lparr>nread := nread p + 1\<rparr>" "ch = pipe_data p ! unat (nread p mod 512)" using assms(3) by (auto simp: pipe_get_def)
  have "?n \<noteq> 0" using assms(2) by (auto simp: pipe_empty_def unat_eq_0)
  moreover have "nwrite q - nread q = (nwrite p - nread p) - 1" using q by simp
  moreover have "unat (x - 1) = unat x - 1" if "unat x \<noteq> 0" for x :: u32
    using that by (simp add: unat_minus_one unat_eq_0)
  ultimately have n: "unat (nwrite q - nread q) = ?n - 1" by metis
  have "?n - 1 \<le> PIPESIZE" using assms(1) unfolding pipe_ok_def by linarith
  then show "pipe_ok q" using assms(1) q(1) unfolding pipe_ok_def n by simp
  show "pipe_contents p = ch # pipe_contents q"
  proof (rule nth_equalityI)
    fix k assume k: "k < length (pipe_contents p)"
    show "pipe_contents p ! k = (ch # pipe_contents q) ! k"
    proof (cases k)
      case 0
      then show ?thesis using k q ring_index [of "nread p" 0] by (simp add: pipe_contents_def)
    next
      case (Suc j)
      have "nread p + 1 + of_nat j = nread p + of_nat (Suc j)" by simp
      then show ?thesis using k n q Suc by (simp add: pipe_contents_def add.assoc)
    qed
  qed (use n \<open>?n \<noteq> 0\<close> in simp)
qed

interpretation ring: bounded_fifo pipe_put pipe_get pipe_full pipe_empty pipe_contents PIPESIZE pipe_ok
proof unfold_locales
  fix p assume p: "pipe_ok p"
  have "pipe_full p \<longleftrightarrow> nwrite p - nread p = 512" by (auto simp: pipe_full_def algebra_simps)
  also have "\<dots> \<longleftrightarrow> unat (nwrite p - nread p) = 512" by (simp add: word_unat_eq_iff)
  finally show "pipe_full p \<longleftrightarrow> length (pipe_contents p) = PIPESIZE" by simp
  show "pipe_empty p \<longleftrightarrow> pipe_contents p = []"
    by (auto simp: pipe_empty_def pipe_contents_def unat_eq_0)
  show "length (pipe_contents p) \<le> PIPESIZE" using p by (simp add: pipe_ok_def)
qed (use pipe_put_contents pipe_get_contents in blast)+

subsection \<open>Running with the lock of the pipe held\<close>

definition pipe_held :: "u64 \<Rightarrow> 'z pipest_scheme \<Rightarrow> bool" where
  "pipe_held pi s \<longleftrightarrow> pinv s \<and> noff (kcpu s) = 1 \<and> holding (get_pipe_lock pi s) (kcpu s) \<and> pipe_ok (pipes s pi)"

lemma pipe_lens: "lock_lens (get_pipe_lock pi) (set_pipe_lock pi)"
  by (simp add: lock_lens_def get_pipe_lock_def set_pipe_lock_def upd_pipe_def)

lemma after_section_held: "noff c = 1 \<Longrightarrow> after_section c = c"
  by (simp add: after_section_def)

lemma pipe_ok_lock [simp]: "pipe_ok (p\<lparr>pipe_lock := lk\<rparr>) = pipe_ok p" "pipe_contents (p\<lparr>pipe_lock := lk\<rparr>) = pipe_contents p"
  by (simp_all add: pipe_ok_def pipe_contents_def)

lemma pipe_put_lock [simp]: "pipe_lock (pipe_put ch p) = pipe_lock p" "readopen (pipe_put ch p) = readopen p"
  by (simp_all add: pipe_put_def)

lemma upd_pipe_simps [simp]:
  "pipes (upd_pipe pi f s) = (pipes s)(pi := f (pipes s pi))" "procs (upd_pipe pi f s) = procs s" "kcpu (upd_pipe pi f s) = kcpu s"
  "ram (upd_pipe pi f s) = ram s" "curproc (upd_pipe pi f s) = curproc s"
  by (simp_all add: upd_pipe_def)

lemma killed_held: "pipe_held pi s \<Longrightarrow> pr < NPROC \<Longrightarrow> killed pr s = Inr (pkilled (procs s ! pr), s)"
  by (simp add: pipe_held_def killed_eq after_section_held)

lemma wakeup_held:
  "pipe_held pi s \<Longrightarrow> wakeup ch s = Inr (s\<lparr>procs := wake_from ch (curproc s) 0 (procs s)\<rparr>)"
  by (simp add: pipe_held_def wakeup_eq after_section_held)

lemma pipe_held_wake: "pipe_held pi s \<Longrightarrow> pipe_held pi (s\<lparr>procs := wake_from ch me 0 (procs s)\<rparr>)"
  using pinv_wakeup [of s ch me 0] by (simp add: pipe_held_def get_pipe_lock_def after_section_held)

lemma release_last:
  "holding lk c \<Longrightarrow> noff c = 1 \<Longrightarrow> \<not> sie c \<Longrightarrow> \<exists>d. release lk c = Inr (freed lk, d) \<and> noff d = 0"
  by (auto simp: release_def freed_def irq_defs Let_def)

lemma pipe_return_eq:
  assumes "pipe_held pi s"
  shows "\<exists>c. noff c = 0 \<and> pipe_return pi v s = Inr (Returned v, (set_pipe_lock pi (freed (get_pipe_lock pi s)) s)\<lparr>kcpu := c\<rparr>)"
proof -
  have "\<not> sie (kcpu s)" using assms by (simp add: pipe_held_def pinv_def cpu_ok_def)
  then obtain d where "release (get_pipe_lock pi s) (kcpu s) = Inr (freed (get_pipe_lock pi s), d)" "noff d = 0"
    using assms release_last by (auto simp: pipe_held_def)
  then show ?thesis by (auto simp: pipe_return_def release_pipe_def set_pipe_lock_def upd_pipe_def)
qed

lemma pipe_sleep_eq:
  assumes "pipe_held pi s" "curproc s = Some pr" "pr < NPROC"
  shows "\<exists>c. pipe_sleep pi ch i s = Inr (Asleep i, (set_pipe_lock pi (freed (get_pipe_lock pi s)) s)\<lparr>kcpu := c,
     procs := (procs s)[pr := (procs s ! pr)\<lparr>plock := held (plock (procs s ! pr)) (kcpu s), pchan := ch, pstate := SLEEPING\<rparr>]\<rparr>)"
proof -
  have "pinv s" "length (procs s) = NPROC" "\<not> sie (kcpu s)" using assms(1) by (auto simp: pipe_held_def pinv_def cpu_ok_def)
  then obtain s' where s': "sleep_enter ch (get_pipe_lock pi) (set_pipe_lock pi) s = Inr s'"
    "s' = (set_pipe_lock pi (freed (get_pipe_lock pi s)) s)\<lparr>procs := procs s', kcpu := kcpu s'\<rparr>"
    "procs s' = (procs s)[pr := (procs s ! pr)\<lparr>plock := held (plock (procs s ! pr)) (kcpu s), pchan := ch, pstate := SLEEPING\<rparr>]"
    using sleep_enter_eq [OF pipe_lens, of s pr pi ch] assms pinv_nth [of s pr] by (auto simp: pipe_held_def)
  have "s' = (set_pipe_lock pi (freed (get_pipe_lock pi s)) s)\<lparr>kcpu := kcpu s',
     procs := (procs s)[pr := (procs s ! pr)\<lparr>plock := held (plock (procs s ! pr)) (kcpu s), pchan := ch, pstate := SLEEPING\<rparr>]\<rparr>"
    by (subst s'(2), subst s'(3)) simp
  then show ?thesis using s'(1) unfolding pipe_sleep_def by (intro exI [of _ "kcpu s'"]) simp
qed

text \<open>The page that \<open>walkaddr\<close> finds, and the byte at a user's address if it is mapped for the user.\<close>

definition user_page :: "mem \<Rightarrow> u64 \<Rightarrow> u64 \<Rightarrow> u64" where
  "user_page m pt va =
     (if va < MAXVA then
        case leaf_page m 2 pt va of None \<Rightarrow> 0
        | Some p \<Rightarrow> let a = p + 8 * of_nat (idx 0 va); e = load64 m a in
            if a = 0 \<or> e AND PTE_V = 0 \<or> e AND PTE_U = 0 then 0 else PTE2PA e
      else 0)"

lemma walkaddr_eq: "walkaddr pt va s = Inr (user_page (ram s) pt va, s)"
  by (auto simp: walkaddr_def user_page_def walk_noalloc Let_def split: option.split)

definition user_byte :: "mem \<Rightarrow> u64 \<Rightarrow> u64 \<Rightarrow> u8 option" where
  "user_byte m pt va =
     (let pa = user_page m pt (PGROUNDDOWN va) in if pa = 0 then None else Some (m (pa + (va - PGROUNDDOWN va))))"

lemma copyin_one:
  "copyin_bytes pt va 1 s = Inr (case user_byte (ram s) pt va of None \<Rightarrow> (-1, [], s) | Some b \<Rightarrow> (0, [b], s))"
proof -
  have "page_room va 1 = 1" using page_room_pos [of 1 va] by (simp add: page_room_def)
  moreover have "copyin_bytes pt (PGROUNDDOWN va + PGSIZE) 0 s = Inr (0, [], s)" by (subst copyin_bytes.simps) simp
  ultimately show ?thesis
    by (subst copyin_bytes.simps) (simp add: walkaddr_eq user_byte_def Let_def)
qed

subsection \<open>Writing\<close>

text \<open>
  What a write that has put \<open>m\<close> of its \<open>n\<close> bytes may end with: asleep on a full pipe, or
  -1 for a closed read end or a killed writer, or the count, short only at a byte that is not mapped.
\<close>

definition write_outcome :: "(nat \<Rightarrow> u8 option) \<Rightarrow> bool \<Rightarrow> int \<Rightarrow> nat \<Rightarrow> pipe \<Rightarrow> outcome \<Rightarrow> bool" where
  "write_outcome ub dead n m p r =
     (case r of
        Asleep j \<Rightarrow> j = m \<and> int m < n \<and> \<not> dead \<and> length (pipe_contents p) = PIPESIZE
      | Returned v \<Rightarrow> v = -1 \<and> int m < n \<and> dead \<or> v = int m \<and> (n \<le> int m \<or> ub m = None))"

definition no_sleeper :: "chan \<Rightarrow> nat \<Rightarrow> 'z pst_scheme \<Rightarrow> bool" where
  "no_sleeper ch me s \<longleftrightarrow> (\<forall>j < NPROC. j \<noteq> me \<longrightarrow> \<not> (pstate (procs s ! j) = SLEEPING \<and> pchan (procs s ! j) = ch))"

definition wrote :: "u64 \<Rightarrow> nat \<Rightarrow> u64 \<Rightarrow> int \<Rightarrow> nat \<Rightarrow> 'z pipest_scheme \<Rightarrow> outcome \<Rightarrow> 'z pipest_scheme \<Rightarrow> u8 list \<Rightarrow> bool" where
  "wrote pi pr addr n i s r s' bs \<longleftrightarrow>
     (let ub = \<lambda>k. user_byte (ram s) (pagetable (procs s ! pr)) (addr + of_nat k) in
      pipe_ok (pipes s' pi) \<and> \<not> locked (pipe_lock (pipes s' pi)) \<and> (\<forall>q. q \<noteq> pi \<longrightarrow> pipes s' q = pipes s q) \<and> ram s' = ram s \<and>
      pipe_contents (pipes s' pi) = pipe_contents (pipes s pi) @ bs \<and> map Some bs = map ub [i..<i + length bs] \<and>
      write_outcome ub (\<not> readopen (pipes s pi) \<or> pkilled (procs s ! pr) \<noteq> 0) n (i + length bs) (pipes s' pi) r \<and>
      (r \<noteq> Returned (-1) \<longrightarrow> no_sleeper (PipeReadChan pi) pr s') \<and>
      (\<forall>j. r = Asleep j \<longrightarrow> pstate (procs s' ! pr) = SLEEPING \<and> pchan (procs s' ! pr) = PipeWriteChan pi))"

lemma no_sleeper_wake:
  "length (procs s) = NPROC \<Longrightarrow> curproc s = Some pr \<Longrightarrow> no_sleeper ch pr (s\<lparr>procs := wake_from ch (curproc s) 0 (procs s)\<rparr>)"
  by (auto simp: no_sleeper_def wakeup_one_def)

lemma no_sleeper_upd: "no_sleeper ch pr s \<Longrightarrow> length (procs s) = NPROC \<Longrightarrow> no_sleeper ch pr (s\<lparr>procs := (procs s)[pr := p]\<rparr>)"
  by (auto simp: no_sleeper_def)

lemma wake_return:
  assumes "pipe_held pi s" "curproc s = Some pr"
  shows "\<exists>s'. andthen (wakeup (PipeReadChan pi) s) (\<lambda>s. pipe_return pi v s) = Inr (Returned v, s') \<and>
    pipes s' = (pipes s)(pi := (pipes s pi)\<lparr>pipe_lock := freed (get_pipe_lock pi s)\<rparr>) \<and> ram s' = ram s \<and>
    no_sleeper (PipeReadChan pi) pr s'"
proof -
  let ?t = "s\<lparr>procs := wake_from (PipeReadChan pi) (curproc s) 0 (procs s)\<rparr>"
  obtain c where c: "pipe_return pi v ?t = Inr (Returned v, (set_pipe_lock pi (freed (get_pipe_lock pi ?t)) ?t)\<lparr>kcpu := c\<rparr>)"
    using pipe_return_eq [OF pipe_held_wake [OF assms(1)], of v] by blast
  have "no_sleeper (PipeReadChan pi) pr ?t" by (rule no_sleeper_wake) (use assms in \<open>simp_all add: pipe_held_def pinv_def\<close>)
  then show ?thesis using c assms by (simp add: wakeup_held set_pipe_lock_def get_pipe_lock_def no_sleeper_def)
qed

lemma wake_sleep:
  assumes "pipe_held pi s" "curproc s = Some pr" "pr < NPROC"
  shows "\<exists>s'. andthen (wakeup (PipeReadChan pi) s) (\<lambda>s. pipe_sleep pi (PipeWriteChan pi) i s) = Inr (Asleep i, s') \<and>
    pipes s' = (pipes s)(pi := (pipes s pi)\<lparr>pipe_lock := freed (get_pipe_lock pi s)\<rparr>) \<and> ram s' = ram s \<and>
    no_sleeper (PipeReadChan pi) pr s' \<and> pstate (procs s' ! pr) = SLEEPING \<and> pchan (procs s' ! pr) = PipeWriteChan pi"
proof -
  let ?t = "s\<lparr>procs := wake_from (PipeReadChan pi) (curproc s) 0 (procs s)\<rparr>"
  have len: "length (procs s) = NPROC" using assms(1) by (simp add: pipe_held_def pinv_def)
  obtain c where c: "pipe_sleep pi (PipeWriteChan pi) i ?t = Inr (Asleep i, (set_pipe_lock pi (freed (get_pipe_lock pi ?t)) ?t)\<lparr>kcpu := c,
     procs := (procs ?t)[pr := (procs ?t ! pr)\<lparr>plock := held (plock (procs ?t ! pr)) (kcpu ?t), pchan := PipeWriteChan pi, pstate := SLEEPING\<rparr>]\<rparr>)"
    using pipe_sleep_eq [OF pipe_held_wake [OF assms(1), of "PipeReadChan pi" "curproc s"], of pr "PipeWriteChan pi" i] assms
    by auto
  have ns: "no_sleeper (PipeReadChan pi) pr ?t" by (rule no_sleeper_wake) (use assms len in simp_all)
  show ?thesis using c assms len ns by (auto simp: wakeup_held set_pipe_lock_def get_pipe_lock_def no_sleeper_def)
qed

lemma write_done:
  assumes "pipe_held pi s" "curproc s = Some pr" "pr < NPROC"
    and "n \<le> int i \<or> user_byte (ram s) (pagetable (procs s ! pr)) (addr + of_nat i) = None"
  shows "\<exists>s'. andthen (wakeup (PipeReadChan pi) s) (\<lambda>s. pipe_return pi (int i) s) = Inr (Returned (int i), s') \<and>
    wrote pi pr addr n i s (Returned (int i)) s' []"
proof -
  obtain s' where s': "andthen (wakeup (PipeReadChan pi) s) (\<lambda>s. pipe_return pi (int i) s) = Inr (Returned (int i), s')"
    "pipes s' = (pipes s)(pi := (pipes s pi)\<lparr>pipe_lock := freed (get_pipe_lock pi s)\<rparr>)" "ram s' = ram s"
    "no_sleeper (PipeReadChan pi) pr s'"
    using wake_return [OF assms(1,2)] by blast
  moreover have "wrote pi pr addr n i s (Returned (int i)) s' []"
    using s' assms by (simp add: wrote_def write_outcome_def pipe_held_def)
  ultimately show ?thesis by blast
qed

lemma wrote_put:
  assumes "pipe_held pi s" "\<not> pipe_full (pipes s pi)" "readopen (pipes s pi)"
    and "user_byte (ram s) (pagetable (procs s ! pr)) (addr + of_nat i) = Some b"
    and "wrote pi pr addr n (Suc i) (upd_pipe pi (pipe_put b) s) r s' bs"
  shows "wrote pi pr addr n i s r s' (b # bs)"
proof -
  have "pipe_contents (pipe_put b (pipes s pi)) = pipe_contents (pipes s pi) @ [b]"
    using pipe_put_contents [of "pipes s pi" b] assms(1,2) by (simp add: pipe_held_def)
  moreover have "[i..<i + length (b # bs)] = i # [Suc i..<Suc i + length bs]" by (simp add: upt_rec)
  ultimately show ?thesis using assms(3-5) by (simp add: wrote_def Let_def)
qed

lemma pipe_held_put:
  "pipe_held pi s \<Longrightarrow> \<not> pipe_full (pipes s pi) \<Longrightarrow> pipe_held pi (upd_pipe pi (pipe_put b) s)"
  using pipe_put_contents [of "pipes s pi" b] by (simp add: pipe_held_def get_pipe_lock_def pinv_def)

lemma pipewrite_loop_spec:
  assumes "pipe_held pi s" "curproc s = Some pr" "pr < NPROC"
  shows "\<exists>r s' bs. pipewrite_loop pi pr addr n i s = Inr (r, s') \<and> wrote pi pr addr n i s r s' bs"
  using assms
proof (induction "nat (n - int i)" arbitrary: i s)
  case 0
  then have n: "n \<le> int i" by simp
  then have "pipewrite_loop pi pr addr n i s = andthen (wakeup (PipeReadChan pi) s) (\<lambda>s. pipe_return pi (int i) s)"
    by (subst pipewrite_loop.simps) simp
  then show ?case using write_done [OF 0(2-4), of n i addr] n by (metis (no_types, lifting))
next
  case (Suc d)
  have n: "int i < n" using Suc.hyps(2) by simp
  let ?dead = "\<not> readopen (pipes s pi) \<or> pkilled (procs s ! pr) \<noteq> 0"
  let ?b = "user_byte (ram s) (pagetable (procs s ! pr)) (addr + of_nat i)"
  have step: "pipewrite_loop pi pr addr n i s =
     (if ?dead then pipe_return pi (-1) s
      else if pipe_full (pipes s pi) then andthen (wakeup (PipeReadChan pi) s) (\<lambda>s. pipe_sleep pi (PipeWriteChan pi) i s)
      else case ?b of None \<Rightarrow> andthen (wakeup (PipeReadChan pi) s) (\<lambda>s. pipe_return pi (int i) s)
        | Some b \<Rightarrow> pipewrite_loop pi pr addr n (Suc i) (upd_pipe pi (pipe_put b) s))"
    using n Suc.prems by (subst pipewrite_loop.simps) (simp add: killed_held copyin_one [simplified] split: option.split)
  consider (dead) ?dead | (full) "\<not> ?dead" "pipe_full (pipes s pi)"
    | (unmapped) "\<not> ?dead" "\<not> pipe_full (pipes s pi)" "?b = None"
    | (byte) b where "\<not> ?dead" "\<not> pipe_full (pipes s pi)" "?b = Some b" by (cases ?b) auto
  then show ?case
  proof cases
    case dead
    obtain c where c: "pipe_return pi (-1) s = Inr (Returned (-1), (set_pipe_lock pi (freed (get_pipe_lock pi s)) s)\<lparr>kcpu := c\<rparr>)"
      using pipe_return_eq [OF Suc.prems(1)] by blast
    have "wrote pi pr addr n i s (Returned (-1)) ((set_pipe_lock pi (freed (get_pipe_lock pi s)) s)\<lparr>kcpu := c\<rparr>) []"
      using n dead Suc.prems(1) by (simp add: wrote_def write_outcome_def pipe_held_def set_pipe_lock_def)
    then show ?thesis using step dead c by auto
  next
    case full
    obtain s' where s': "andthen (wakeup (PipeReadChan pi) s) (\<lambda>s. pipe_sleep pi (PipeWriteChan pi) i s) = Inr (Asleep i, s')"
      "pipes s' = (pipes s)(pi := (pipes s pi)\<lparr>pipe_lock := freed (get_pipe_lock pi s)\<rparr>)" "ram s' = ram s"
      "no_sleeper (PipeReadChan pi) pr s'" "pstate (procs s' ! pr) = SLEEPING" "pchan (procs s' ! pr) = PipeWriteChan pi"
      using wake_sleep [OF Suc.prems] by blast
    have ok: "pipe_ok (pipes s pi)" using Suc.prems(1) by (simp add: pipe_held_def)
    then have "length (pipe_contents (pipes s pi)) = PIPESIZE" using full(2) by (rule ring.full_iff [THEN iffD1])
    then have "wrote pi pr addr n i s (Asleep i) s' []"
      using s' n full ok by (simp add: wrote_def write_outcome_def)
    then show ?thesis using step full s'(1) by auto
  next
    case unmapped
    then show ?thesis using step write_done [OF Suc.prems, of n i addr] by (simp, blast)
  next
    case byte
    let ?s = "upd_pipe pi (pipe_put b) s"
    have "\<exists>r s' bs. pipewrite_loop pi pr addr n (Suc i) ?s = Inr (r, s') \<and> wrote pi pr addr n (Suc i) ?s r s' bs"
      by (rule Suc.hyps(1)) (use Suc.hyps(2) Suc.prems byte in \<open>auto intro: pipe_held_put\<close>)
    then obtain r s' bs where "pipewrite_loop pi pr addr n (Suc i) ?s = Inr (r, s')" "wrote pi pr addr n (Suc i) ?s r s' bs" by blast
    moreover from this(2) have "wrote pi pr addr n i s r s' (b # bs)" using wrote_put [OF Suc.prems(1)] byte by blast
    ultimately show ?thesis using step byte by auto
  qed
qed

subsection \<open>Reading\<close>

text \<open>
  The user's memory after bytes have been stored one by one from \<open>addr\<close> on, up to the first
  address that is not mapped, and how many were stored.
\<close>

fun deliver :: "mem \<Rightarrow> u64 \<Rightarrow> u64 \<Rightarrow> u8 list \<Rightarrow> nat \<times> mem" where
  "deliver m pt addr [] = (0, m)"
| "deliver m pt addr (b # bs) =
     (let pa = user_page m pt (PGROUNDDOWN addr) in
      if pa = 0 then (0, m)
      else map_prod Suc id (deliver (m(pa + (addr - PGROUNDDOWN addr) := b)) pt (addr + 1) bs))"

lemma copyout_one:
  "copyout_bytes pt va [b] s =
     Inr (let pa = user_page (ram s) pt (PGROUNDDOWN va) in
          if pa = 0 then (-1, s) else (0, s\<lparr>ram := (ram s)(pa + (va - PGROUNDDOWN va) := b)\<rparr>))"
proof -
  have "page_room va 1 = 1" using page_room_pos [of 1 va] by (simp add: page_room_def)
  moreover have "copyout_bytes pt (PGROUNDDOWN va + PGSIZE) [] t = Inr (0, t)" for t :: "'a kst_scheme"
    by (subst copyout_bytes.simps) simp
  ultimately show ?thesis by (subst copyout_bytes.simps) (simp add: walkaddr_eq Let_def)
qed

text \<open>The bytes that leave the pipe: all that were stored, and the one whose store failed.\<close>

definition consumed :: "nat \<Rightarrow> nat \<Rightarrow> nat" where
  "consumed k len = (if k < len then Suc k else k)"

definition readable :: "u64 \<Rightarrow> int \<Rightarrow> 'z pipest_scheme \<Rightarrow> nat \<Rightarrow> u8 list" where
  "readable pi n s i = take (nat (n - int i)) (pipe_contents (pipes s pi))"

lemma piperead_copy_spec:
  assumes "pipe_ok (pipes s pi)"
  shows "\<exists>p. pipe_ok p \<and> pipe_lock p = pipe_lock (pipes s pi) \<and>
    pipe_contents p = drop (consumed (fst (deliver (ram s) (pagetable (procs s ! pr)) (addr + of_nat i) (readable pi n s i))) (length (readable pi n s i)))
      (pipe_contents (pipes s pi)) \<and>
    piperead_copy pi pr addr n i s =
      Inr (i + fst (deliver (ram s) (pagetable (procs s ! pr)) (addr + of_nat i) (readable pi n s i)),
        (upd_pipe pi (\<lambda>_. p) s)\<lparr>ram := snd (deliver (ram s) (pagetable (procs s ! pr)) (addr + of_nat i) (readable pi n s i))\<rparr>)"
  using assms
proof (induction "nat (n - int i)" arbitrary: i s)
  case 0
  then have "readable pi n s i = []" "\<not> int i < n" by (simp_all add: readable_def)
  then show ?case using 0 by (intro exI [of _ "pipes s pi"]) (subst piperead_copy.simps, simp add: consumed_def upd_pipe_def)
next
  case (Suc d)
  have n: "int i < n" using Suc.hyps(2) by simp
  show ?case
  proof (cases "pipe_empty (pipes s pi)")
    case True
    then have "readable pi n s i = []" using ring.empty_iff Suc.prems by (simp add: readable_def)
    then show ?thesis using Suc.prems n True
      by (intro exI [of _ "pipes s pi"]) (subst piperead_copy.simps, simp add: consumed_def upd_pipe_def)
  next
    case False
    obtain ch p where g: "pipe_get (pipes s pi) = (ch, p)" by fastforce
    have p: "pipe_ok p" "pipe_contents (pipes s pi) = ch # pipe_contents p" using pipe_get_contents [OF Suc.prems False g] by auto
    have lk: "pipe_lock p = pipe_lock (pipes s pi)" using g by (auto simp: pipe_get_def)
    let ?a = "addr + of_nat i" and ?pt = "pagetable (procs s ! pr)"
    let ?pa = "user_page (ram s) ?pt (PGROUNDDOWN ?a)"
    define s1 where "s1 = (upd_pipe pi (\<lambda>_. p) s)\<lparr>ram := (ram s)(?pa + (?a - PGROUNDDOWN ?a) := ch)\<rparr>"
    have "nat (n - int i) = Suc d" using Suc.hyps(2) by simp
    then have xs: "readable pi n s i = ch # take d (pipe_contents p)" using p(2) by (simp add: readable_def)
    have d: "d = nat (n - int (Suc i))" using Suc.hyps(2) by simp
    have s1: "readable pi n s1 (Suc i) = take d (pipe_contents p)" "ram s1 = (ram s)(?pa + (?a - PGROUNDDOWN ?a) := ch)"
      "pagetable (procs s1 ! pr) = ?pt" "pipes s1 pi = p" "pipe_ok (pipes s1 pi)"
      using p(1) by (simp_all add: s1_def readable_def d upd_pipe_def)
    have step: "piperead_copy pi pr addr n i s =
        (if ?pa = 0 then Inr (i, upd_pipe pi (\<lambda>_. p) s) else piperead_copy pi pr addr n (Suc i) s1)"
      using n False g by (subst piperead_copy.simps) (simp add: copyout_one s1_def Let_def)
    show ?thesis
    proof (cases "?pa = 0")
      case True
      then show ?thesis using step p lk xs by (intro exI [of _ p]) (simp add: consumed_def upd_pipe_def)
    next
      case pa: False
      have a: "addr + of_nat (Suc i) = ?a + 1" by simp
      define D where "D = deliver (ram s1) ?pt (?a + 1) (take d (pipe_contents p))"
      have "\<exists>q. pipe_ok q \<and> pipe_lock q = pipe_lock p \<and>
        pipe_contents q = drop (consumed (fst D) (length (take d (pipe_contents p)))) (pipe_contents p) \<and>
        piperead_copy pi pr addr n (Suc i) s1 = Inr (Suc i + fst D, (upd_pipe pi (\<lambda>_. q) s1)\<lparr>ram := snd D\<rparr>)"
        using Suc.hyps(1) [OF d s1(5)] unfolding s1(1,3,4) a D_def by blast
      then obtain q where q: "pipe_ok q" "pipe_lock q = pipe_lock p"
        "pipe_contents q = drop (consumed (fst D) (length (take d (pipe_contents p)))) (pipe_contents p)"
        "piperead_copy pi pr addr n (Suc i) s1 = Inr (Suc i + fst D, (upd_pipe pi (\<lambda>_. q) s1)\<lparr>ram := snd D\<rparr>)" by blast
      have D: "deliver (ram s) ?pt ?a (readable pi n s i) = (Suc (fst D), snd D)"
        using pa by (simp add: xs D_def s1(2) Let_def map_prod_def split: prod.split)
      show ?thesis unfolding D using q step pa xs p lk
        by (intro exI [of _ q]) (simp add: consumed_def s1_def upd_pipe_def)
    qed
  qed
qed

subsection \<open>Entering\<close>

lemma acquire_pipe_held:
  assumes "pinv s" "noff (kcpu s) = 0" "\<not> locked (pipe_lock (pipes s pi))" "pipe_ok (pipes s pi)"
  shows "\<exists>s1. acquire_pipe pi s = Inr s1 \<and> pipe_held pi s1 \<and> procs s1 = procs s \<and> curproc s1 = curproc s \<and> ram s1 = ram s \<and>
    pipes s1 = (pipes s)(pi := (pipes s pi)\<lparr>pipe_lock := held (pipe_lock (pipes s pi)) (kcpu s)\<rparr>)"
proof -
  let ?s1 = "set_pipe_lock pi (held (pipe_lock (pipes s pi)) (kcpu s)) (s\<lparr>kcpu := push_off (kcpu s)\<rparr>)"
  have "acquire_pipe pi s = Inr ?s1"
    using assms(3) by (simp add: acquire_pipe_def acquire_free get_pipe_lock_def held_def)
  moreover have "pipe_held pi ?s1" using assms
    by (simp add: pipe_held_def pinv_def push_off_ok set_pipe_lock_def get_pipe_lock_def holding_held)
  ultimately show ?thesis by (auto simp: set_pipe_lock_def)
qed

lemma wrote_lock:
  assumes "wrote pi pr addr n i t r s' bs" "procs t = procs s" "ram t = ram s"
    and "pipes t = (pipes s)(pi := (pipes s pi)\<lparr>pipe_lock := lk\<rparr>)"
  shows "wrote pi pr addr n i s r s' bs"
  using assms by (simp add: wrote_def Let_def)

text \<open>Taking \<open>n\<close> bytes out of the ring.\<close>

fun pipe_take :: "nat \<Rightarrow> pipe \<Rightarrow> u8 list" where
  "pipe_take 0 p = []"
| "pipe_take (Suc n) p = (case pipe_get p of (b, q) \<Rightarrow> b # pipe_take n q)"

lemma pipe_take_ring: "pipe_take n p = fst (ring.get_n n p)"
  by (induction n arbitrary: p) (auto split: prod.split)

lemma fold_put_ring: "fold pipe_put bs p = ring.put_all bs p"
  by (induction bs arbitrary: p) auto

section \<open>Properties\<close>

text \<open>
  C24. \<open>pipewrite\<close>, called with no lock held and the pipe's lock free, returns or reaches the context switch of \<open>sleep\<close>, with the
  lock of the pipe given up. The bytes \<open>bs\<close> it put into the pipe are appended in order behind what was there and are
  the user's bytes from \<open>addr\<close> on. It sleeps exactly with the pipe full (its process is then \<open>SLEEPING\<close> on \<^verbatim>\<open>nwrite\<close>);
  it returns -1 only when the read end is closed or the process was killed; otherwise it returns the
  number of bytes, fewer than asked only if the next byte is not mapped; and unless it returned -1 no reader is left asleep.
  Other pipes and memory do not change.
\<close>

theorem pipewrite_correct:
  assumes "pinv s" "noff (kcpu s) = 0" "curproc s = Some pr" "pr < NPROC"
    and "\<not> locked (pipe_lock (pipes s pi))" "pipe_ok (pipes s pi)"
  shows "\<exists>r s' bs. pipewrite pi addr n s = Inr (r, s') \<and> pipe_ok (pipes s' pi) \<and> \<not> locked (pipe_lock (pipes s' pi)) \<and>
    pipe_contents (pipes s' pi) = pipe_contents (pipes s pi) @ bs \<and>
    (\<forall>k < length bs. user_byte (ram s) (pagetable (procs s ! pr)) (addr + of_nat k) = Some (bs ! k)) \<and>
    (case r of
       Asleep j \<Rightarrow> j = length bs \<and> int j < n \<and> length (pipe_contents (pipes s' pi)) = PIPESIZE \<and>
         pstate (procs s' ! pr) = SLEEPING \<and> pchan (procs s' ! pr) = PipeWriteChan pi
     | Returned v \<Rightarrow> v = -1 \<and> (\<not> readopen (pipes s pi) \<or> pkilled (procs s ! pr) \<noteq> 0) \<or>
         v = int (length bs) \<and> (n \<le> v \<or> user_byte (ram s) (pagetable (procs s ! pr)) (addr + of_nat (length bs)) = None)) \<and>
    (r \<noteq> Returned (-1) \<longrightarrow> (\<forall>j < NPROC. j \<noteq> pr \<longrightarrow>
       \<not> (pstate (procs s' ! j) = SLEEPING \<and> pchan (procs s' ! j) = PipeReadChan pi))) \<and>
    (\<forall>q. q \<noteq> pi \<longrightarrow> pipes s' q = pipes s q) \<and> ram s' = ram s"
proof -
  let ?s = "s\<lparr>kcpu := after_section (kcpu s)\<rparr>"
  have cur: "current s = Inr (pr, ?s)" using assms by (simp add: current_eq pinv_def)
  obtain s1 where s1: "acquire_pipe pi ?s = Inr s1" "pipe_held pi s1" "procs s1 = procs ?s" "curproc s1 = curproc ?s" "ram s1 = ram ?s"
    "pipes s1 = (pipes ?s)(pi := (pipes ?s pi)\<lparr>pipe_lock := held (pipe_lock (pipes ?s pi)) (kcpu ?s)\<rparr>)"
    using acquire_pipe_held [of ?s pi] assms by (auto simp: pinv_def)
  obtain r s' bs where w: "pipewrite_loop pi pr addr n 0 s1 = Inr (r, s')" "wrote pi pr addr n 0 s1 r s' bs"
    using pipewrite_loop_spec [OF s1(2), of pr addr n 0] s1(4) assms(3,4) by auto
  have "wrote pi pr addr n 0 ?s r s' bs" by (rule wrote_lock [OF w(2) s1(3,5,6)])
  then have W: "wrote pi pr addr n 0 s r s' bs" by (simp add: wrote_def)
  then have ub: "map Some bs = map (\<lambda>k. user_byte (ram s) (pagetable (procs s ! pr)) (addr + of_nat k)) [0..<length bs]"
    by (simp add: wrote_def Let_def)
  have "user_byte (ram s) (pagetable (procs s ! pr)) (addr + of_nat k) = Some (bs ! k)" if "k < length bs" for k
    using arg_cong [OF ub, of "\<lambda>xs. xs ! k"] that by simp
  moreover have "pipewrite pi addr n s = Inr (r, s')" using cur s1(1) w(1) by (simp add: pipewrite_def)
  ultimately show ?thesis using W
    by (intro exI [of _ r] exI [of _ s'] exI [of _ bs]) (auto simp: wrote_def Let_def write_outcome_def no_sleeper_def simp del: length_pipe_contents split: outcome.splits)
qed

text \<open>
  C25. \<open>piperead\<close> of a pipe that holds bytes, or whose write end is closed, returns with the lock given up: it stores the
  oldest bytes of the pipe, at most \<open>n\<close>, in order at the user's addresses from \<open>addr\<close> on and returns how many it stored;
  they leave the pipe (with the byte whose address was not mapped, if it met one), and no writer is left asleep.
\<close>

theorem piperead_correct:
  assumes "pinv s" "noff (kcpu s) = 0" "curproc s = Some pr" "pr < NPROC"
    and "\<not> locked (pipe_lock (pipes s pi))" "pipe_ok (pipes s pi)"
    and "pipe_contents (pipes s pi) \<noteq> [] \<or> \<not> writeopen (pipes s pi)"
  shows "\<exists>s' k. piperead pi addr n s = Inr (Returned (int k), s') \<and> pipe_ok (pipes s' pi) \<and> \<not> locked (pipe_lock (pipes s' pi)) \<and>
    (let xs = take (nat n) (pipe_contents (pipes s pi)) in
     (k, ram s') = deliver (ram s) (pagetable (procs s ! pr)) addr xs \<and>
     pipe_contents (pipes s' pi) = drop (if k < length xs then Suc k else k) (pipe_contents (pipes s pi))) \<and>
    (\<forall>j < NPROC. j \<noteq> pr \<longrightarrow> \<not> (pstate (procs s' ! j) = SLEEPING \<and> pchan (procs s' ! j) = PipeWriteChan pi)) \<and>
    (\<forall>q. q \<noteq> pi \<longrightarrow> pipes s' q = pipes s q)"
proof -
  let ?s = "s\<lparr>kcpu := after_section (kcpu s)\<rparr>"
  have cur: "current s = Inr (pr, ?s)" using assms by (simp add: current_eq pinv_def)
  obtain s1 where s1: "acquire_pipe pi ?s = Inr s1" "pipe_held pi s1" "procs s1 = procs ?s" "curproc s1 = curproc ?s" "ram s1 = ram ?s"
    "pipes s1 = (pipes ?s)(pi := (pipes ?s pi)\<lparr>pipe_lock := held (pipe_lock (pipes ?s pi)) (kcpu ?s)\<rparr>)"
    using acquire_pipe_held [of ?s pi] assms by (auto simp: pinv_def)
  let ?D = "deliver (ram s) (pagetable (procs s ! pr)) addr (take (nat n) (pipe_contents (pipes s pi)))"
  have xs: "readable pi n s1 0 = take (nat n) (pipe_contents (pipes s pi))" by (simp add: readable_def s1(6))
  have ok1: "pipe_ok (pipes s1 pi)" using s1(2) by (simp add: pipe_held_def)
  obtain p where p: "pipe_ok p" "pipe_lock p = pipe_lock (pipes s1 pi)"
    "pipe_contents p = drop (consumed (fst ?D) (length (take (nat n) (pipe_contents (pipes s pi))))) (pipe_contents (pipes s pi))"
    "piperead_copy pi pr addr n 0 s1 = Inr (fst ?D, (upd_pipe pi (\<lambda>_. p) s1)\<lparr>ram := snd ?D\<rparr>)"
    using piperead_copy_spec [OF ok1, of pr addr 0 n] s1(3,5,6) xs by auto
  define t where "t = (upd_pipe pi (\<lambda>_. p) s1)\<lparr>ram := snd ?D\<rparr>"
  have t: "pipe_held pi t" "curproc t = Some pr" "ram t = snd ?D" "pipes t = (pipes s)(pi := p)" "length (procs t) = NPROC"
    using s1 p assms(3) by (simp_all add: t_def pipe_held_def get_pipe_lock_def pinv_def)
  let ?u = "t\<lparr>procs := wake_from (PipeWriteChan pi) (curproc t) 0 (procs t)\<rparr>"
  obtain c where c: "pipe_return pi (int (fst ?D)) ?u =
      Inr (Returned (int (fst ?D)), (set_pipe_lock pi (freed (get_pipe_lock pi ?u)) ?u)\<lparr>kcpu := c\<rparr>)"
    using pipe_return_eq [OF pipe_held_wake [OF t(1)]] by blast
  have ns: "no_sleeper (PipeWriteChan pi) pr ?u" by (rule no_sleeper_wake [OF t(5,2)])
  have "\<not> (pipe_empty (pipes s1 pi) \<and> writeopen (pipes s1 pi))"
    using ring.empty_iff [OF ok1] assms(7) by (auto simp: s1(6))
  then have lc: "piperead_locked pi pr addr n s1 = andthen (piperead_copy pi pr addr n 0 s1) (\<lambda>(i, s).
      andthen (wakeup (PipeWriteChan pi) s) (\<lambda>s. pipe_return pi (int i) s))"
    unfolding piperead_locked_def by (rule if_not_P)
  have "piperead pi addr n s = Inr (Returned (int (fst ?D)), (set_pipe_lock pi (freed (get_pipe_lock pi ?u)) ?u)\<lparr>kcpu := c\<rparr>)"
    using cur s1(1) c wakeup_held [OF t(1)] by (simp add: piperead_def lc p(4) flip: t_def)
  then show ?thesis using p(1,3) t ns
    by (intro exI [of _ "(set_pipe_lock pi (freed (get_pipe_lock pi ?u)) ?u)\<lparr>kcpu := c\<rparr>"] exI [of _ "fst ?D"])
      (simp add: set_pipe_lock_def Let_def consumed_def no_sleeper_def)
qed

text \<open>
  Bytes put into the ring come out in the order they went in, wherever the 32-bit counters stand (the indices and the
  counters may wrap on the way): up to \<open>PIPESIZE\<close> bytes put into an empty pipe are what taking as many gives.
\<close>

theorem pipe_ring_roundtrip:
  assumes "pipe_ok p" "nread p = nwrite p" "length bs \<le> PIPESIZE"
  shows "pipe_take (length bs) (fold pipe_put bs p) = bs"
  using ring.put_get_roundtrip(1) [OF assms(1) _ assms(3)] assms(2)
  by (simp add: pipe_take_ring fold_put_ring pipe_empty_def)

section \<open>Witnesses\<close>

definition demo_pipe :: pipe where
  "demo_pipe = \<lparr>pipe_lock = initlock ''pipe'', pipe_data = replicate PIPESIZE 0, nread = - 2, nwrite = - 2,
     readopen = True, writeopen = True\<rparr>"

definition demo_pipest :: "u64 \<Rightarrow> pipe \<Rightarrow> pipest" where
  "demo_pipest pi p = pst.extend demo_pst \<lparr>pipes = (\<lambda>_. demo_pipe)(pi := p)\<rparr>"

lemma demo_pipe_ok: "pipe_ok demo_pipe" "pipe_contents demo_pipe = []" "\<not> locked (pipe_lock demo_pipe)" "nread demo_pipe = nwrite demo_pipe"
  by (simp_all add: demo_pipe_def pipe_ok_def pipe_contents_def initlock_def)

lemma demo_pipest_facts [simp]:
  "procs (demo_pipest pi p) = demo_procs" "curproc (demo_pipest pi p) = Some 1" "kcpu (demo_pipest pi p) = boot_cpu"
  "pipes (demo_pipest pi p) pi = p" "pinv (demo_pipest pi p)"
  using demo_pinv by (simp_all add: demo_pipest_def demo_pst_def pst.defs kst.defs boot_kst_def pinv_def)

theorem pipe_ring_roundtrip_witness: "pipe_take 5 (fold pipe_put [1, 2, 3, 4, 5] demo_pipe) = [1, 2, 3, 4, 5]"
  using pipe_ring_roundtrip [of demo_pipe "[1, 2, 3, 4, 5]"] demo_pipe_ok by (simp add: numeral_eq_Suc)

theorem pipewrite_correct_witness: "\<exists>r s'. pipewrite 4096 0 3 (demo_pipest 4096 demo_pipe) = Inr (r, s')"
  using pipewrite_correct [of "demo_pipest 4096 demo_pipe" 1 4096 0 3] demo_pipe_ok by (auto simp: boot_cpu_def)

theorem piperead_correct_witness:
  "\<exists>s' k. piperead 4096 0 3 (demo_pipest 4096 (pipe_put 7 demo_pipe)) = Inr (Returned (int k), s')"
proof -
  have "\<not> pipe_full demo_pipe" by (simp add: demo_pipe_def pipe_full_def)
  note p = pipe_put_contents [OF demo_pipe_ok(1) this, of 7]
  show ?thesis
    using piperead_correct [of "demo_pipest 4096 (pipe_put 7 demo_pipe)" 1 4096 0 3] demo_pipe_ok p
    by (auto simp: boot_cpu_def Let_def)
qed

end
