(* ===== verification/Kmonad.thy ===== *)
theory Kmonad
  imports Xv6_Prelude
begin

text \<open>
  Kernel routines as state transformers. A routine of the file system and of the layers above it is a function
  \<open>('s, 'a) kroutine\<close> from the kernel state to the value it returns and the new state, or to the reason why it did not return; it
  is put together with \<open>bind\<close>, in the order of the statements of the C code.

  \<open>triple P m Q\<close> says that the routine \<open>m\<close>, started in a state with \<open>P\<close>, does return, and that the value and the new state
  satisfy \<open>Q\<close>; the rules below are those of a weakest-precondition calculus.
\<close>

section \<open>Routines\<close>

type_synonym ('s, 'a) kroutine = "'s \<Rightarrow> ('a \<times> 's) result"

definition ret :: "'a \<Rightarrow> ('s, 'a) kroutine" where
  "ret x s = Inr (x, s)"

definition bind :: "('s, 'a) kroutine \<Rightarrow> ('a \<Rightarrow> ('s, 'b) kroutine) \<Rightarrow> ('s, 'b) kroutine" where
  "bind m f s = andthen (m s) (\<lambda>(x, t). f x t)"

definition fail :: "fault \<Rightarrow> ('s, 'a) kroutine" where
  "fail e s = Inl e"

abbreviation panic :: "string \<Rightarrow> ('s, 'a) kroutine" where
  "panic msg \<equiv> fail (Panic msg)"

definition gets :: "('s \<Rightarrow> 'a) \<Rightarrow> ('s, 'a) kroutine" where
  "gets f s = Inr (f s, s)"

definition modify :: "('s \<Rightarrow> 's) \<Rightarrow> ('s, unit) kroutine" where
  "modify f s = Inr ((), f s)"

text \<open>A routine that returns no value.\<close>

definition run :: "('s \<Rightarrow> 's result) \<Rightarrow> ('s, unit) kroutine" where
  "run f s = andthen (f s) (\<lambda>t. Inr ((), t))"

text \<open>\<^verbatim>\<open>if(c) { ... }\<close> and a check that panics.\<close>

definition whenever :: "bool \<Rightarrow> ('s, unit) kroutine \<Rightarrow> ('s, unit) kroutine" where
  "whenever c m = (if c then m else ret ())"

text \<open>A loop over given values.\<close>

primrec for_each :: "'a list \<Rightarrow> ('a \<Rightarrow> ('s, unit) kroutine) \<Rightarrow> ('s, unit) kroutine" where
  "for_each [] f = ret ()"
| "for_each (x # xs) f = bind (f x) (\<lambda>_. for_each xs f)"

text \<open>A loop that stops at the first value for which its body returns \<open>Some\<close>.\<close>

primrec search :: "'a list \<Rightarrow> ('a \<Rightarrow> ('s, 'b option) kroutine) \<Rightarrow> ('s, 'b option) kroutine" where
  "search [] f = ret None"
| "search (x # xs) f = bind (f x) (\<lambda>r. case r of None \<Rightarrow> search xs f | Some y \<Rightarrow> ret (Some y))"

named_theorems run_simps "how a routine runs"

lemma routine_simps [run_simps]:
  "ret x s = Inr (x, s)" "gets f s = Inr (f s, s)" "modify g s = Inr ((), g s)" "fail e s = Inl e"
  "bind m h s = andthen (m s) (\<lambda>(x, t). h x t)"
  "whenever c n s = (if c then n s else Inr ((), s))"
  by (simp_all add: ret_def gets_def modify_def fail_def bind_def whenever_def)

lemma bind_cong [fundef_cong]:
  assumes "m s = m' s'" "s = s'" "\<And>x t. m' s' = Inr (x, t) \<Longrightarrow> f x t = f' x t"
  shows "bind m f s = bind m' f' s'"
  using assms by (auto simp: bind_def intro: andthen_cong)

lemma bind_assoc: "bind (bind m f) g = bind m (\<lambda>x. bind (f x) g)"
proof
  fix s
  show "bind (bind m f) g s = bind m (\<lambda>x. bind (f x) g) s"
    by (cases "m s") (auto simp: bind_def)
qed

lemma bind_ret [simp]: "bind (ret x) f = f x" "bind m ret = m"
proof -
  show "bind (ret x) f = f x" by (rule ext) (simp add: bind_def ret_def)
  show "bind m ret = m"
  proof
    fix s show "bind m ret s = m s" by (cases "m s") (auto simp: bind_def ret_def)
  qed
qed

section \<open>Total correctness\<close>

definition triple :: "('s \<Rightarrow> bool) \<Rightarrow> ('s, 'a) kroutine \<Rightarrow> ('a \<Rightarrow> 's \<Rightarrow> bool) \<Rightarrow> bool" where
  "triple P m Q \<longleftrightarrow> (\<forall>s. P s \<longrightarrow> (\<exists>x t. m s = Inr (x, t) \<and> Q x t))"

named_theorems wp "rules of the weakest-precondition calculus"

lemma tripleI: "(\<And>s. P s \<Longrightarrow> \<exists>x t. m s = Inr (x, t) \<and> Q x t) \<Longrightarrow> triple P m Q"
  by (simp add: triple_def)

lemma tripleD:
  assumes "triple P m Q" "P s"
  obtains x t where "m s = Inr (x, t)" "Q x t"
  using assms unfolding triple_def by blast

lemma triple_conseq:
  assumes "triple P' m Q'" "\<And>s. P s \<Longrightarrow> P' s" "\<And>x t. Q' x t \<Longrightarrow> Q x t"
  shows "triple P m Q"
  using assms unfolding triple_def by blast

lemma triple_bind:
  assumes "triple P m R" "\<And>x. triple (R x) (f x) Q"
  shows "triple P (bind m f) Q"
proof (rule tripleI)
  fix s assume "P s"
  with assms(1) obtain x t where "m s = Inr (x, t)" "R x t" by (rule tripleD)
  then show "\<exists>x t. bind m f s = Inr (x, t) \<and> Q x t" using assms(2) [of x] by (auto simp: bind_def triple_def)
qed

lemma triple_ret [wp]: "triple (Q x) (ret x) Q"
  and triple_gets [wp]: "triple (\<lambda>s. Q (f s) s) (gets f) Q"
  and triple_modify [wp]: "triple (\<lambda>s. Q' () (g s)) (modify g) Q'"
  by (simp_all add: triple_def run_simps)

lemma triple_if:
  assumes "c \<Longrightarrow> triple P m Q" "\<not> c \<Longrightarrow> triple P n Q"
  shows "triple P (if c then m else n) Q"
  using assms by simp

lemma triple_whenever:
  assumes "c \<Longrightarrow> triple P m Q" "\<And>s. \<not> c \<Longrightarrow> P s \<Longrightarrow> Q () s"
  shows "triple P (whenever c m) Q"
  using assms by (cases c) (auto simp: whenever_def triple_def run_simps)

text \<open>A loop keeps an invariant that may mention what is done and what is left.\<close>

lemma triple_for_each:
  assumes "\<And>ys x zs. xs = ys @ x # zs \<Longrightarrow> triple (I ys) (f x) (\<lambda>_. I (ys @ [x]))"
  shows "triple (I []) (for_each xs f) (\<lambda>_. I xs)"
proof -
  have "triple (I ys) (for_each zs f) (\<lambda>_. I xs)" if "xs = ys @ zs" for ys zs
    using that
  proof (induction zs arbitrary: ys)
    case Nil
    then show ?case by (simp add: triple_def run_simps)
  next
    case (Cons z zs)
    show ?case unfolding for_each.simps
      by (rule triple_bind [OF assms [OF Cons.prems]]) (rule Cons.IH, simp add: Cons.prems)
  qed
  from this [of "[]" xs] show ?thesis by simp
qed



end
