(* ===== verification/Sleeplock.thy ===== *)
theory Sleeplock
  imports Interfaces Proc Kmonad
begin

text \<open>
  Sleep locks, \<^verbatim>\<open>kernel/sleeplock.c\<close>: locks that a process may hold for long, across disk operations. A sleep
  lock lies in a buffer or in an inode; a routine gets it by how to read and write it, and the channel its waiters
  sleep on. A process that finds the lock taken goes to sleep: the routine stops with \<open>Sleep\<close>.
\<close>

section \<open>Definitions\<close>

record sleeplock =
  slocked :: bool
  slk :: spinlock
  sname :: string
  spid :: int

definition initsleeplock :: "string \<Rightarrow> sleeplock" where
  "initsleeplock n = \<lparr>slocked = False, slk = initlock ''sleep lock'', sname = n, spid = 0\<rparr>"

type_synonym ('z, 'l) getter = "'z pst_scheme \<Rightarrow> 'l"
type_synonym ('z, 'l) setter = "'l \<Rightarrow> 'z pst_scheme \<Rightarrow> 'z pst_scheme"

text \<open>\<^verbatim>\<open>acquire(&lk->lk); ... release(&lk->lk);\<close>\<close>

definition with_slk :: "('z, sleeplock) getter \<Rightarrow> ('z, sleeplock) setter \<Rightarrow> ('z pst_scheme, 'a) kroutine \<Rightarrow> ('z pst_scheme, 'a) kroutine" where
  "with_slk get put = critical (\<lambda>s. slk (get s)) (\<lambda>lk s. put ((get s)\<lparr>slk := lk\<rparr>) s)"

definition acquiresleep :: "chan \<Rightarrow> ('z, sleeplock) getter \<Rightarrow> ('z, sleeplock) setter \<Rightarrow> ('z pst_scheme, unit) kroutine" where
  "acquiresleep ch get put =
     with_slk get put
       (bind (gets (\<lambda>s. slocked (get s))) (\<lambda>l.
        if l then fail (Sleep ch)
        else bind current (\<lambda>p.
          modify (\<lambda>s. put ((get s)\<lparr>slocked := True, spid := pid (procs s ! p)\<rparr>) s))))"

definition releasesleep :: "chan \<Rightarrow> ('z, sleeplock) getter \<Rightarrow> ('z, sleeplock) setter \<Rightarrow> ('z pst_scheme, unit) kroutine" where
  "releasesleep ch get put =
     with_slk get put
       (bind (modify (\<lambda>s. put ((get s)\<lparr>slocked := False, spid := 0\<rparr>) s)) (\<lambda>_.
        run (wakeup ch)))"

definition holdingsleep :: "('z, sleeplock) getter \<Rightarrow> ('z, sleeplock) setter \<Rightarrow> ('z pst_scheme, bool) kroutine" where
  "holdingsleep get put =
     with_slk get put
       (bind (gets (\<lambda>s. slocked (get s))) (\<lambda>l.
        if l then bind current (\<lambda>p. gets (\<lambda>s. spid (get s) = pid (procs s ! p))) else ret False))"

section \<open>Lemmas\<close>

text \<open>
  The sleep lock is a part of the state of its own, next to the process table and the CPU.
\<close>

definition slock_lens :: "('z, sleeplock) getter \<Rightarrow> ('z, sleeplock) setter \<Rightarrow> ('z pst_scheme \<Rightarrow> bool) \<Rightarrow> bool" where
  "slock_lens get put dm \<longleftrightarrow>
     (\<forall>x s. dm s \<longrightarrow> get (put x s) = x) \<and> (\<forall>x y s. put y (put x s) = put y s) \<and>
     (\<forall>x s. dm (put x s) = dm s) \<and> (\<forall>x s. dm (s\<lparr>kcpu := x\<rparr>) = dm s) \<and> (\<forall>x s. dm (s\<lparr>procs := x\<rparr>) = dm s) \<and>
     (\<forall>x s. kcpu (put x s) = kcpu s \<and> procs (put x s) = procs s \<and> curproc (put x s) = curproc s) \<and>
     (\<forall>c s. get (s\<lparr>kcpu := c\<rparr>) = get s) \<and> (\<forall>x s. get (s\<lparr>procs := x\<rparr>) = get s) \<and>
     (\<forall>x c s. put x (s\<lparr>kcpu := c\<rparr>) = (put x s)\<lparr>kcpu := c\<rparr>) \<and>
     (\<forall>x y s. put x (s\<lparr>procs := y\<rparr>) = (put x s)\<lparr>procs := y\<rparr>)"

text \<open>Between system calls the spin lock inside a sleep lock is free.\<close>

definition slock_ok :: "sleeplock \<Rightarrow> bool" where
  "slock_ok l \<longleftrightarrow> clean (slk l)"

lemma with_slk_free:
  assumes lens: "slock_lens get put dm" and s: "dm s" "slock_ok (get s)" "cpu_ok (kcpu s)"
    and body: "m (put ((get s)\<lparr>slk := held (slk (get s)) (kcpu s)\<rparr>) (s\<lparr>kcpu := push_off (kcpu s)\<rparr>)) = Inr (r, t)"
    and t: "slk (get t) = held (slk (get s)) (kcpu s)" "kcpu t = push_off (kcpu s)"
  shows "with_slk get put m s = Inr (r, (put ((get t)\<lparr>slk := slk (get s)\<rparr>) t)\<lparr>kcpu := after_section (kcpu s)\<rparr>)"
proof -
  have c: "clean (slk (get s))" using s(2) by (simp add: slock_ok_def)
  have L: "get (s\<lparr>kcpu := x\<rparr>) = get s" "get (t\<lparr>kcpu := x\<rparr>) = get t" for x using lens by (simp_all add: slock_lens_def)
  have "with_slk get put m s = Inr (r, put ((get (t\<lparr>kcpu := after_section (kcpu s)\<rparr>))\<lparr>slk := freed (slk (get s))\<rparr>) (t\<lparr>kcpu := after_section (kcpu s)\<rparr>))"
    unfolding with_slk_def by (rule critical_free) (use c s body t L in simp_all)
  then show ?thesis using c L lens by (simp add: slock_lens_def)
qed

lemma after_section_push_off [simp]: "cpu_ok c \<Longrightarrow> after_section (push_off c) = push_off c"
  by (simp add: after_section_def cpu_ok_def)

lemma acquiresleep_eq:
  assumes lens: "slock_lens get put dm" and s: "dm s" "slock_ok (get s)" "cpu_ok (kcpu s)" "curproc s = Some p" "\<not> slocked (get s)"
  shows "acquiresleep ch get put s =
    Inr ((), (put ((get s)\<lparr>slocked := True, spid := pid (procs s ! p)\<rparr>) s)\<lparr>kcpu := after_section (kcpu s)\<rparr>)"
proof -
  let ?h = "(get s)\<lparr>slk := held (slk (get s)) (kcpu s)\<rparr>"
  let ?s1 = "put ?h (s\<lparr>kcpu := push_off (kcpu s)\<rparr>)"
  let ?t = "put (?h\<lparr>slocked := True, spid := pid (procs s ! p)\<rparr>) (s\<lparr>kcpu := push_off (kcpu s)\<rparr>)"
  have L: "get ?s1 = ?h" "get ?t = ?h\<lparr>slocked := True, spid := pid (procs s ! p)\<rparr>" "kcpu ?s1 = push_off (kcpu s)" "kcpu ?t = push_off (kcpu s)" "curproc ?s1 = Some p" "procs ?s1 = procs s"
    using lens s by (simp_all add: slock_lens_def)
  have "current ?s1 = Inr (p, ?s1\<lparr>kcpu := push_off (kcpu s)\<rparr>)"
    using s L by (subst current_eq [of _ p]) (simp_all add: push_off_ok)
  moreover have "?s1\<lparr>kcpu := push_off (kcpu s)\<rparr> = ?s1" using lens by (simp add: slock_lens_def)
  ultimately have b: "(bind (gets (\<lambda>s. slocked (get s))) (\<lambda>l. if l then fail (Sleep ch)
        else bind current (\<lambda>p. modify (\<lambda>s. put ((get s)\<lparr>slocked := True, spid := pid (procs s ! p)\<rparr>) s)))) ?s1 = Inr ((), ?t)"
    using s L lens by (simp add: run_simps slock_lens_def)
  have "acquiresleep ch get put s = Inr ((), (put ((get ?t)\<lparr>slk := slk (get s)\<rparr>) ?t)\<lparr>kcpu := after_section (kcpu s)\<rparr>)"
    unfolding acquiresleep_def by (rule with_slk_free [OF lens s(1-3), where t = ?t]) (rule b, simp_all add: L)
  also have "put ((get ?t)\<lparr>slk := slk (get s)\<rparr>) ?t = (put ((get s)\<lparr>slocked := True, spid := pid (procs s ! p)\<rparr>) s)\<lparr>kcpu := push_off (kcpu s)\<rparr>"
    using lens L(2) by (simp add: slock_lens_def)
  finally show ?thesis by simp
qed

lemma acquiresleep_sleeps:
  assumes "slock_lens get put dm" "dm s" "slock_ok (get s)" "slocked (get s)"
  shows "acquiresleep ch get put s = Inl (Sleep ch)"
proof -
  have c: "clean (slk (get s))" using assms(3) by (simp add: slock_ok_def)
  show ?thesis unfolding acquiresleep_def with_slk_def
    by (rule critical_fault) (use c assms in \<open>simp_all add: run_simps slock_lens_def\<close>)
qed

lemma releasesleep_eq:
  assumes lens: "slock_lens get put dm" and s: "dm s" "slock_ok (get s)" "pinv s"
  shows "releasesleep ch get put s = Inr ((), (put ((get s)\<lparr>slocked := False, spid := 0\<rparr>) s)
    \<lparr>procs := wake_from ch (curproc s) 0 (procs s), kcpu := after_section (kcpu s)\<rparr>)"
proof -
  have ok: "cpu_ok (kcpu s)" using s(3) by (simp add: pinv_def)
  let ?h = "(get s)\<lparr>slk := held (slk (get s)) (kcpu s)\<rparr>"
  let ?s1 = "put ?h (s\<lparr>kcpu := push_off (kcpu s)\<rparr>)"
  let ?s2 = "put (?h\<lparr>slocked := False, spid := 0\<rparr>) (s\<lparr>kcpu := push_off (kcpu s)\<rparr>)"
  let ?t = "?s2\<lparr>procs := wake_from ch (curproc s) 0 (procs s)\<rparr>"
  have L: "get ?s1 = ?h" "get ?t = ?h\<lparr>slocked := False, spid := 0\<rparr>" "kcpu ?t = push_off (kcpu s)" "kcpu ?s2 = push_off (kcpu s)" "curproc ?s2 = curproc s" "procs ?s2 = procs s"
    using lens s by (simp_all add: slock_lens_def)
  have pv: "pinv ?s2" using s(3) L by (simp add: pinv_def push_off_ok)
  have "wakeup ch ?s2 = Inr ?t" unfolding wakeup_eq [OF pv] using L ok lens by (simp add: slock_lens_def)
  then have b: "(bind (modify (\<lambda>s. put ((get s)\<lparr>slocked := False, spid := 0\<rparr>) s)) (\<lambda>_. run (wakeup ch))) ?s1 = Inr ((), ?t)"
    using s L lens by (simp add: run_simps run_def slock_lens_def)
  have "releasesleep ch get put s = Inr ((), (put ((get ?t)\<lparr>slk := slk (get s)\<rparr>) ?t)\<lparr>kcpu := after_section (kcpu s)\<rparr>)"
    unfolding releasesleep_def by (rule with_slk_free [OF lens s(1-2) ok, where t = ?t]) (rule b, simp_all only: L, simp_all)
  also have "put ((get ?t)\<lparr>slk := slk (get s)\<rparr>) ?t = (put ((get s)\<lparr>slocked := False, spid := 0\<rparr>) s)
      \<lparr>kcpu := push_off (kcpu s), procs := wake_from ch (curproc s) 0 (procs s)\<rparr>"
    unfolding L(2) using lens by (simp add: slock_lens_def)
  finally show ?thesis by simp
qed

lemma holdingsleep_eq:
  assumes lens: "slock_lens get put dm" and s: "dm s" "slock_ok (get s)" "cpu_ok (kcpu s)" "curproc s = Some p"
  shows "holdingsleep get put s =
    Inr (slocked (get s) \<and> spid (get s) = pid (procs s ! p), (put (get s) s)\<lparr>kcpu := after_section (kcpu s)\<rparr>)"
proof -
  let ?h = "(get s)\<lparr>slk := held (slk (get s)) (kcpu s)\<rparr>"
  let ?s1 = "put ?h (s\<lparr>kcpu := push_off (kcpu s)\<rparr>)"
  have L: "get ?s1 = ?h" "kcpu ?s1 = push_off (kcpu s)" "curproc ?s1 = Some p" "procs ?s1 = procs s"
    using lens s by (simp_all add: slock_lens_def)
  have "current ?s1 = Inr (p, ?s1\<lparr>kcpu := push_off (kcpu s)\<rparr>)"
    using s L by (subst current_eq [of _ p]) (simp_all add: push_off_ok)
  moreover have "?s1\<lparr>kcpu := push_off (kcpu s)\<rparr> = ?s1" using lens by (simp add: slock_lens_def)
  ultimately have b: "(bind (gets (\<lambda>s. slocked (get s))) (\<lambda>l.
        if l then bind current (\<lambda>p. gets (\<lambda>s. spid (get s) = pid (procs s ! p))) else ret False)) ?s1 =
      Inr (slocked (get s) \<and> spid (get s) = pid (procs s ! p), ?s1)"
    using s L by (simp add: run_simps)
  have "holdingsleep get put s = Inr (slocked (get s) \<and> spid (get s) = pid (procs s ! p),
      (put ((get ?s1)\<lparr>slk := slk (get s)\<rparr>) ?s1)\<lparr>kcpu := after_section (kcpu s)\<rparr>)"
    unfolding holdingsleep_def by (rule with_slk_free [OF lens s(1-3), where t = ?s1]) (rule b, simp_all add: L)
  also have "put ((get ?s1)\<lparr>slk := slk (get s)\<rparr>) ?s1 = (put (get s) s)\<lparr>kcpu := push_off (kcpu s)\<rparr>"
    using lens L(1) by (simp add: slock_lens_def)
  finally show ?thesis by simp
qed

end
