(* ===== verification/Bio.thy ===== *)
theory Bio
  imports Sleeplock Pipe
begin

text \<open>
  The buffer cache, \<^verbatim>\<open>kernel/bio.c\<close>. A buffer is its index in \<^verbatim>\<open>bcache.buf\<close>; the list head \<^verbatim>\<open>bcache.head\<close> is the
  index \<open>NBUF\<close>, and \<^verbatim>\<open>prev\<close> and \<^verbatim>\<open>next\<close> are indices. The disk maps block numbers to blocks; \<open>writes\<close> records the
  blocks written to it, in order, from which the states after a crash are known. \<open>disk_rw\<close> is what the driver does for
  \<^verbatim>\<open>virtio_disk_rw\<close> once the device has completed the request: one block moves between the buffer and the disk.

  Shown here: the doubly linked list implements a list of all buffers, most recently used first;
  \<open>brelse\<close> moves a buffer that nobody uses to its front and \<open>bget\<close> recycles the last unused one; no block is
  ever cached twice, and \<open>bread\<close> returns the contents of the block.
\<close>

section \<open>Definitions\<close>

type_synonym block = "u8 list"

record buf =
  bvalid :: bool
  bdisk :: bool
  bdev :: u32
  blockno :: u32
  blk :: sleeplock
  refcnt :: u32
  bprev :: nat
  bnext :: nat
  bdata :: block

record bst = pipest +
  bcache_lock :: spinlock
  bufs :: "buf list"
  disk :: "u32 \<Rightarrow> block"
  writes :: "(u32 \<times> block) list"

definition upd_buf :: "nat \<Rightarrow> (buf \<Rightarrow> buf) \<Rightarrow> 'z bst_scheme \<Rightarrow> 'z bst_scheme" where
  "upd_buf b f s = s\<lparr>bufs := (bufs s)[b := f (bufs s ! b)]\<rparr>"

definition get_blk :: "nat \<Rightarrow> 'z bst_scheme \<Rightarrow> sleeplock" where
  "get_blk b s = blk (bufs s ! b)"

definition put_blk :: "nat \<Rightarrow> sleeplock \<Rightarrow> 'z bst_scheme \<Rightarrow> 'z bst_scheme" where
  "put_blk b l s = upd_buf b (\<lambda>x. x\<lparr>blk := l\<rparr>) s"

abbreviation with_bcache :: "('z bst_scheme, 'a) kroutine \<Rightarrow> ('z bst_scheme, 'a) kroutine" where
  "with_bcache \<equiv> critical bcache_lock (\<lambda>lk s. s\<lparr>bcache_lock := lk\<rparr>)"

subsection \<open>The list of buffers\<close>

text \<open>\<^verbatim>\<open>x->next = v\<close> and \<^verbatim>\<open>x->prev = v\<close>\<close>

definition set_next :: "nat \<Rightarrow> nat \<Rightarrow> buf list \<Rightarrow> buf list" where
  "set_next x v bs = bs[x := (bs ! x)\<lparr>bnext := v\<rparr>]"

definition set_prev :: "nat \<Rightarrow> nat \<Rightarrow> buf list \<Rightarrow> buf list" where
  "set_prev x v bs = bs[x := (bs ! x)\<lparr>bprev := v\<rparr>]"

text \<open>
  \<^verbatim>\<open>b->next = bcache.head.next; b->prev = &bcache.head; bcache.head.next->prev = b; bcache.head.next = b;\<close>
\<close>

definition push_front :: "nat \<Rightarrow> buf list \<Rightarrow> buf list" where
  "push_front b bs =
     (let bs = set_next b (bnext (bs ! NBUF)) bs;
          bs = set_prev b NBUF bs;
          bs = set_prev (bnext (bs ! NBUF)) b bs
      in set_next NBUF b bs)"

text \<open>\<^verbatim>\<open>b->next->prev = b->prev; b->prev->next = b->next;\<close>\<close>

definition unlink :: "nat \<Rightarrow> buf list \<Rightarrow> buf list" where
  "unlink b bs =
     (let bs = set_prev (bnext (bs ! b)) (bprev (bs ! b)) bs
      in set_next (bprev (bs ! b)) (bnext (bs ! b)) bs)"

definition binit_one :: "nat \<Rightarrow> buf list \<Rightarrow> buf list" where
  "binit_one b bs =
     (let bs = set_next b (bnext (bs ! NBUF)) bs;
          bs = set_prev b NBUF bs;
          bs = bs[b := (bs ! b)\<lparr>blk := initsleeplock ''buffer''\<rparr>];
          bs = set_prev (bnext (bs ! NBUF)) b bs
      in set_next NBUF b bs)"

definition binit :: "'z bst_scheme \<Rightarrow> 'z bst_scheme" where
  "binit s =
     (let bs = set_next NBUF NBUF (set_prev NBUF NBUF (bufs s))
      in s\<lparr>bcache_lock := initlock ''bcache'', bufs := fold binit_one [0..<NBUF] bs\<rparr>)"

text \<open>
  Both scans of \<open>bget\<close> follow one of the links from the head until the buffer fits or the head comes
  again. The fuel bounds the number of buffers looked at; a list through the \<open>NBUF\<close> buffers needs \<open>NBUF + 1\<close>.
\<close>

fun bscan :: "(buf \<Rightarrow> nat) \<Rightarrow> (buf \<Rightarrow> bool) \<Rightarrow> nat \<Rightarrow> buf list \<Rightarrow> nat \<Rightarrow> nat option result" where
  "bscan nx P 0 bs b = Inl OutOfFuel"
| "bscan nx P (Suc k) bs b =
     (if b = NBUF then Inr None
      else if P (bs ! b) then Inr (Some b)
      else bscan nx P k bs (nx (bs ! b)))"

subsection \<open>bget, bread, bwrite, brelse, bpin, bunpin\<close>

definition bget_entry :: "u32 \<Rightarrow> u32 \<Rightarrow> ('z bst_scheme, nat) kroutine" where
  "bget_entry dev bn s =
     andthen (bscan bnext (\<lambda>b. bdev b = dev \<and> blockno b = bn) (Suc NBUF) (bufs s) (bnext (bufs s ! NBUF))) (\<lambda>r.
     case r of
       Some b \<Rightarrow> Inr (b, upd_buf b (\<lambda>x. x\<lparr>refcnt := refcnt x + 1\<rparr>) s)
     | None \<Rightarrow>
         andthen (bscan bprev (\<lambda>b. refcnt b = 0) (Suc NBUF) (bufs s) (bprev (bufs s ! NBUF))) (\<lambda>r.
         case r of
           Some b \<Rightarrow> Inr (b, upd_buf b (\<lambda>x. x\<lparr>bdev := dev, blockno := bn, bvalid := False, refcnt := 1\<rparr>) s)
         | None \<Rightarrow> Inl (Panic ''bget: no buffers'')))"

definition bget :: "u32 \<Rightarrow> u32 \<Rightarrow> ('z bst_scheme, nat) kroutine" where
  "bget dev bn =
     bind (with_bcache (bget_entry dev bn)) (\<lambda>b.
     bind (acquiresleep (BufChan b) (get_blk b) (put_blk b)) (\<lambda>_.
     ret b))"

definition disk_rw :: "nat \<Rightarrow> bool \<Rightarrow> ('z bst_scheme, unit) kroutine" where
  "disk_rw b write =
     modify (\<lambda>s. let n = blockno (bufs s ! b); d = bdata (bufs s ! b) in
       if write then s\<lparr>disk := (disk s)(n := d), writes := writes s @ [(n, d)]\<rparr>
       else upd_buf b (\<lambda>x. x\<lparr>bdata := disk s n\<rparr>) s)"

definition bread :: "u32 \<Rightarrow> u32 \<Rightarrow> ('z bst_scheme, nat) kroutine" where
  "bread dev bn =
     bind (bget dev bn) (\<lambda>b.
     bind (gets (\<lambda>s. bvalid (bufs s ! b))) (\<lambda>v.
     bind (whenever (\<not> v) (bind (disk_rw b False) (\<lambda>_. modify (upd_buf b (\<lambda>x. x\<lparr>bvalid := True\<rparr>))))) (\<lambda>_.
     ret b)))"

definition bwrite :: "nat \<Rightarrow> ('z bst_scheme, unit) kroutine" where
  "bwrite b =
     bind (holdingsleep (get_blk b) (put_blk b)) (\<lambda>h.
     if \<not> h then panic ''bwrite'' else disk_rw b True)"

definition brelse_entry :: "nat \<Rightarrow> buf list \<Rightarrow> buf list" where
  "brelse_entry b bs =
     (let bs = bs[b := (bs ! b)\<lparr>refcnt := refcnt (bs ! b) - 1\<rparr>]
      in if refcnt (bs ! b) = 0 then push_front b (unlink b bs) else bs)"

definition brelse :: "nat \<Rightarrow> ('z bst_scheme, unit) kroutine" where
  "brelse b =
     bind (holdingsleep (get_blk b) (put_blk b)) (\<lambda>h.
     if \<not> h then panic ''brelse''
     else bind (releasesleep (BufChan b) (get_blk b) (put_blk b)) (\<lambda>_.
       with_bcache (modify (\<lambda>s. s\<lparr>bufs := brelse_entry b (bufs s)\<rparr>))))"

definition bpin :: "nat \<Rightarrow> ('z bst_scheme, unit) kroutine" where
  "bpin b = with_bcache (modify (upd_buf b (\<lambda>x. x\<lparr>refcnt := refcnt x + 1\<rparr>)))"

definition bunpin :: "nat \<Rightarrow> ('z bst_scheme, unit) kroutine" where
  "bunpin b = with_bcache (modify (upd_buf b (\<lambda>x. x\<lparr>refcnt := refcnt x - 1\<rparr>)))"

section \<open>Lemmas\<close>

subsection \<open>The doubly linked list\<close>

text \<open>Following \<open>g\<close> from \<open>a\<close> goes through \<open>xs\<close> and arrives at \<open>z\<close>.\<close>

fun chain :: "(nat \<Rightarrow> nat) \<Rightarrow> nat \<Rightarrow> nat list \<Rightarrow> nat \<Rightarrow> bool" where
  "chain g a [] z \<longleftrightarrow> g a = z"
| "chain g a (x # xs) z \<longleftrightarrow> g a = x \<and> chain g x xs z"

lemma chain_append: "chain g a (xs @ y # ys) z \<longleftrightarrow> chain g a xs y \<and> chain g y ys z"
  by (induction xs arbitrary: a) auto

lemma chain_cong: "(\<And>x. x \<in> insert a (set xs) \<Longrightarrow> g x = h x) \<Longrightarrow> chain g a xs z \<longleftrightarrow> chain h a xs z"
  by (induction xs arbitrary: a) auto

lemma chain_start:
  assumes "h b = g a" "\<And>x. x \<in> set xs \<Longrightarrow> h x = g x" "chain g a xs z"
  shows "chain h b xs z"
proof (cases xs)
  case (Cons x ws)
  have "chain h x ws z = chain g x ws z" by (rule chain_cong) (use assms(2) Cons in auto)
  then show ?thesis using assms Cons by simp
qed (use assms in simp)

lemma chain_first: "chain g a xs z \<Longrightarrow> g a = (case xs of [] \<Rightarrow> z | x # _ \<Rightarrow> x)"
  by (cases xs) auto

lemma nth_update_cases: "xs[i := v] ! j = (if i = j \<and> i < length xs then v else xs ! j)"
  by (cases "i < length xs") (auto simp: list_update_beyond)

definition nexts :: "buf list \<Rightarrow> nat \<Rightarrow> nat" where "nexts bs x = bnext (bs ! x)"
definition prevs :: "buf list \<Rightarrow> nat \<Rightarrow> nat" where "prevs bs x = bprev (bs ! x)"

definition dll :: "buf list \<Rightarrow> nat list \<Rightarrow> bool" where
  "dll bs xs \<longleftrightarrow> length bs = Suc NBUF \<and> distinct xs \<and> set xs \<subseteq> {..<NBUF} \<and>
     chain (nexts bs) NBUF xs NBUF \<and> chain (prevs bs) NBUF (rev xs) NBUF"

lemma set_links:
  "x < length bs \<Longrightarrow> nexts (set_next x v bs) = (nexts bs)(x := v)" "nexts (set_prev x v bs) = nexts bs"
  "x < length bs \<Longrightarrow> prevs (set_prev x v bs) = (prevs bs)(x := v)" "prevs (set_next x v bs) = prevs bs"
  "length (set_next x v bs) = length bs" "length (set_prev x v bs) = length bs"
  by (auto simp: nexts_def prevs_def set_next_def set_prev_def nth_update_cases fun_eq_iff)

lemma dll_first: "dll bs xs \<Longrightarrow> nexts bs NBUF = (case xs of [] \<Rightarrow> NBUF | x # _ \<Rightarrow> x)"
  unfolding dll_def using chain_first by blast

lemma push_front_links:
  assumes "length bs = Suc NBUF" "b < NBUF" "nexts bs NBUF \<le> NBUF"
  shows "nexts (push_front b bs) = (nexts bs)(b := nexts bs NBUF, NBUF := b)"
    "prevs (push_front b bs) = (prevs bs)(b := NBUF, nexts bs NBUF := b)"
    "length (push_front b bs) = length bs"
proof -
  define bs1 where "bs1 = set_prev b NBUF (set_next b (nexts bs NBUF) bs)"
  have bs1: "length bs1 = Suc NBUF" "nexts bs1 = (nexts bs)(b := nexts bs NBUF)" "prevs bs1 = (prevs bs)(b := NBUF)"
    using assms by (simp_all add: bs1_def set_links)
  have n: "nexts bs1 NBUF = nexts bs NBUF" using bs1(2) assms(2) by simp
  have "push_front b bs = set_next NBUF b (set_prev (nexts bs1 NBUF) b bs1)"
    by (simp add: push_front_def bs1_def nexts_def Let_def)
  then show "nexts (push_front b bs) = (nexts bs)(b := nexts bs NBUF, NBUF := b)"
    "prevs (push_front b bs) = (prevs bs)(b := NBUF, nexts bs NBUF := b)" "length (push_front b bs) = length bs"
    using assms bs1 n by (simp_all add: set_links)
qed

lemma push_front_dll:
  assumes "dll bs xs" "b < NBUF" "b \<notin> set xs"
  shows "dll (push_front b bs) (b # xs)"
proof -
  have d: "length bs = Suc NBUF" "distinct xs" "set xs \<subseteq> {..<NBUF}" "chain (nexts bs) NBUF xs NBUF" "chain (prevs bs) NBUF (rev xs) NBUF"
    using assms(1) by (simp_all add: dll_def)
  have f: "nexts bs NBUF = (case xs of [] \<Rightarrow> NBUF | x # _ \<Rightarrow> x)" by (rule dll_first [OF assms(1)])
  then have "nexts bs NBUF \<le> NBUF" using d(3) by (auto split: list.split)
  note L = push_front_links [OF d(1) assms(2) this]
  have "chain (nexts (push_front b bs)) b xs NBUF"
    by (rule chain_start [OF _ _ d(4)]) (use L(1) assms d(3) in auto)
  moreover have "chain (prevs (push_front b bs)) NBUF (rev xs @ [b]) NBUF"
  proof (cases xs)
    case Nil
    then show ?thesis using L(2) f assms(2) by simp
  next
    case (Cons x ws)
    have x: "x < NBUF" "x \<noteq> b" using d(3) assms(3) Cons by auto
    have "chain (prevs bs) NBUF (rev ws) x" using d(5) Cons by (simp add: chain_append)
    then have "chain (prevs (push_front b bs)) NBUF (rev ws) x"
      by (subst chain_cong [of _ _ _ "prevs bs"]) (use L(2) f Cons d x assms(2,3) in auto)
    then show ?thesis using L(2) f Cons x by (simp add: chain_append)
  qed
  ultimately show ?thesis using L d assms by (simp add: dll_def)
qed

lemma unlink_dll:
  assumes "dll bs (ys @ b # zs)"
  shows "dll (unlink b bs) (ys @ zs)"
proof -
  have d: "length bs = Suc NBUF" "distinct (ys @ b # zs)" "set (ys @ b # zs) \<subseteq> {..<NBUF}"
    "chain (nexts bs) NBUF ys b" "chain (nexts bs) b zs NBUF" "chain (prevs bs) NBUF (rev zs) b" "chain (prevs bs) b (rev ys) NBUF"
    using assms by (simp_all add: dll_def chain_append)
  define n p where "n = nexts bs b" and "p = prevs bs b"
  have n: "n = (case zs of [] \<Rightarrow> NBUF | x # _ \<Rightarrow> x)" using chain_first [OF d(5)] by (simp add: n_def)
  have p: "p = (case rev ys of [] \<Rightarrow> NBUF | x # _ \<Rightarrow> x)" using chain_first [OF d(7)] by (simp add: p_def)
  have bn: "b < NBUF" "b \<noteq> n" "n \<le> NBUF" using n d(2,3) by (auto split: list.splits)
  have "p \<in> insert NBUF (set ys)" using p by (cases ys rule: rev_cases) auto
  then have bp: "b \<noteq> p" "p \<le> NBUF" "p \<notin> set zs" using d(2,3) by auto
  have "n \<in> insert NBUF (set zs)" using n by (auto split: list.splits)
  then have nys: "n \<notin> set ys" using d(2,3) by auto
  have "prevs (set_prev n p bs) b = p" using bn d(1) by (simp add: set_links p_def)
  moreover have "nexts (set_prev n p bs) b = n" by (simp add: set_links n_def)
  ultimately have u: "unlink b bs = set_next p n (set_prev n p bs)"
    by (simp add: unlink_def Let_def nexts_def prevs_def n_def p_def)
  then have L: "nexts (unlink b bs) = (nexts bs)(p := n)" "prevs (unlink b bs) = (prevs bs)(n := p)" "length (unlink b bs) = Suc NBUF"
    using bn bp d(1) by (simp_all add: set_links)
  have "chain (nexts (unlink b bs)) NBUF (ys @ zs) NBUF"
  proof (cases ys rule: rev_cases)
    case Nil
    have "chain (nexts (unlink b bs)) NBUF zs NBUF"
      by (rule chain_start [OF _ _ d(5)]) (use L(1) p Nil d(3) in \<open>auto simp: n_def\<close>)
    then show ?thesis using Nil by simp
  next
    case (snoc vs v)
    have pv: "p = v" using p snoc by simp
    have "chain (nexts bs) NBUF vs v" using d(4) snoc by (simp add: chain_append)
    then have "chain (nexts (unlink b bs)) NBUF vs v"
      by (subst chain_cong [of _ _ _ "nexts bs"]) (use L(1) pv snoc d in auto)
    moreover have "chain (nexts (unlink b bs)) v zs NBUF"
      by (rule chain_start [OF _ _ d(5)]) (use L(1) pv bp in \<open>auto simp: n_def\<close>)
    ultimately show ?thesis using snoc by (simp add: chain_append)
  qed
  moreover have "chain (prevs (unlink b bs)) NBUF (rev zs @ rev ys) NBUF"
  proof (cases zs)
    case Nil
    have "chain (prevs (unlink b bs)) NBUF (rev ys) NBUF"
      by (rule chain_start [OF _ _ d(7)]) (use L(2) n Nil nys in \<open>auto simp: p_def\<close>)
    then show ?thesis using Nil by simp
  next
    case (Cons w ws)
    have nw: "n = w" using n Cons by simp
    have "chain (prevs bs) NBUF (rev ws) w" using d(6) Cons by (simp add: chain_append)
    then have "chain (prevs (unlink b bs)) NBUF (rev ws) w"
      by (subst chain_cong [of _ _ _ "prevs bs"]) (use L(2) nw Cons d in auto)
    moreover have "chain (prevs (unlink b bs)) w (rev ys) NBUF"
      by (rule chain_start [OF _ _ d(7)]) (use L(2) nw nys in \<open>auto simp: p_def\<close>)
    ultimately show ?thesis using Cons by (simp add: chain_append)
  qed
  ultimately show ?thesis using L(3) d(2,3) by (simp add: dll_def)
qed

lemma bscan_chain:
  assumes "chain (\<lambda>x. nx (bs ! x)) a xs NBUF" "NBUF \<notin> set xs" "length xs < k" "b = nx (bs ! a)"
  shows "bscan nx P k bs b = Inr (find (\<lambda>x. P (bs ! x)) xs)"
  using assms
proof (induction xs arbitrary: a b k)
  case Nil
  then show ?case by (cases k) auto
next
  case (Cons x xs)
  then obtain j where k: "k = Suc j" by (cases k) auto
  show ?case using Cons.IH [of x j "nx (bs ! x)"] Cons.prems k by auto
qed

text \<open>All buffers, most recently used first.\<close>

definition lru :: "buf list \<Rightarrow> nat list \<Rightarrow> bool" where
  "lru bs xs \<longleftrightarrow> dll bs xs \<and> set xs = {..<NBUF}"

lemma length_lru: "lru bs xs \<Longrightarrow> length xs = NBUF"
  using distinct_card [of xs] by (auto simp: lru_def dll_def)

lemma bscan_lru:
  assumes "lru bs xs"
  shows "bscan bnext P (Suc NBUF) bs (bnext (bs ! NBUF)) = Inr (find (\<lambda>x. P (bs ! x)) xs)"
    and "bscan bprev P (Suc NBUF) bs (bprev (bs ! NBUF)) = Inr (find (\<lambda>x. P (bs ! x)) (rev xs))"
proof -
  have d: "chain (nexts bs) NBUF xs NBUF" "chain (prevs bs) NBUF (rev xs) NBUF" "NBUF \<notin> set xs" "length xs = NBUF"
    using assms length_lru [OF assms] by (auto simp: lru_def dll_def)
  have "chain (\<lambda>x. bnext (bs ! x)) NBUF xs NBUF" "chain (\<lambda>x. bprev (bs ! x)) NBUF (rev xs) NBUF"
    using d by (simp_all add: nexts_def [abs_def] prevs_def [abs_def])
  from bscan_chain [OF this(1)] bscan_chain [OF this(2)] show
    "bscan bnext P (Suc NBUF) bs (bnext (bs ! NBUF)) = Inr (find (\<lambda>x. P (bs ! x)) xs)"
    "bscan bprev P (Suc NBUF) bs (bprev (bs ! NBUF)) = Inr (find (\<lambda>x. P (bs ! x)) (rev xs))"
    using d(3,4) by simp_all
qed

text \<open>Changes to a buffer that leave its links alone.\<close>

lemma lru_upd:
  assumes "lru bs xs" "\<And>x. bnext (f x) = bnext x" "\<And>x. bprev (f x) = bprev x"
  shows "lru (bs[b := f (bs ! b)]) xs"
proof -
  have "nexts (bs[b := f (bs ! b)]) = nexts bs" "prevs (bs[b := f (bs ! b)]) = prevs bs"
    using assms(2,3) by (auto simp: nexts_def prevs_def nth_update_cases fun_eq_iff)
  then show ?thesis using assms(1) by (simp add: lru_def dll_def)
qed

subsection \<open>Finding and recycling buffers\<close>

lemma find_Some_D: "find P xs = Some x \<Longrightarrow> x \<in> set xs \<and> P x"
  by (auto simp: find_Some_iff)

lemma find_None_D: "find P xs = None \<Longrightarrow> x \<in> set xs \<Longrightarrow> \<not> P x"
  by (auto simp: find_None_iff)

text \<open>No two buffers hold the same block (buffers that were never used have device 0).\<close>

definition cached_once :: "buf list \<Rightarrow> bool" where
  "cached_once bs \<longleftrightarrow> (\<forall>a < NBUF. \<forall>b < NBUF. a \<noteq> b \<longrightarrow> bdev (bs ! a) \<noteq> 0 \<longrightarrow>
     \<not> (bdev (bs ! a) = bdev (bs ! b) \<and> blockno (bs ! a) = blockno (bs ! b)))"

definition holds_block :: "u32 \<Rightarrow> u32 \<Rightarrow> buf \<Rightarrow> bool" where
  "holds_block dev n x \<longleftrightarrow> bdev x = dev \<and> blockno x = n"

lemma bget_entry_eq:
  assumes "lru (bufs s) xs"
  shows "bget_entry dev n s =
    (case find (\<lambda>b. holds_block dev n (bufs s ! b)) xs of
       Some b \<Rightarrow> Inr (b, upd_buf b (\<lambda>x. x\<lparr>refcnt := refcnt x + 1\<rparr>) s)
     | None \<Rightarrow>
        (case find (\<lambda>b. refcnt (bufs s ! b) = 0) (rev xs) of
           Some b \<Rightarrow> Inr (b, upd_buf b (\<lambda>x. x\<lparr>bdev := dev, blockno := n, bvalid := False, refcnt := 1\<rparr>) s)
         | None \<Rightarrow> Inl (Panic ''bget: no buffers'')))"
  unfolding bget_entry_def bscan_lru [OF assms] by (simp add: holds_block_def split: option.split)

lemma upd_buf_simps [simp]:
  "bufs (upd_buf b f s) = (bufs s)[b := f (bufs s ! b)]" "procs (upd_buf b f s) = procs s" "kcpu (upd_buf b f s) = kcpu s"
  "curproc (upd_buf b f s) = curproc s" "disk (upd_buf b f s) = disk s" "writes (upd_buf b f s) = writes s"
  "bcache_lock (upd_buf b f s) = bcache_lock s"
  by (simp_all add: upd_buf_def)

lemma bget_entry_keeps:
  assumes "lru (bufs s) xs" "cached_once (bufs s)" "dev \<noteq> 0" "bget_entry dev n s = Inr (b, s')"
  shows "lru (bufs s') xs" "cached_once (bufs s')" "b < NBUF" "holds_block dev n (bufs s' ! b)"
    "\<And>c. c \<noteq> b \<Longrightarrow> bufs s' ! c = bufs s ! c"
    "s' = s\<lparr>bufs := bufs s'\<rparr>" "blk (bufs s' ! b) = blk (bufs s ! b)" "bdata (bufs s' ! b) = bdata (bufs s ! b)"
    "bvalid (bufs s' ! b) = (bvalid (bufs s ! b) \<and> holds_block dev n (bufs s ! b))"
    "\<not> holds_block dev n (bufs s ! b) \<Longrightarrow> (\<forall>c < NBUF. \<not> holds_block dev n (bufs s ! c)) \<and> refcnt (bufs s ! b) = 0"
proof -
  have len: "length (bufs s) = Suc NBUF" and xs: "set xs = {..<NBUF}" using assms(1) by (auto simp: lru_def dll_def)
  define f where "f = (if find (\<lambda>b. holds_block dev n (bufs s ! b)) xs = None
    then (\<lambda>x. x\<lparr>bdev := dev, blockno := n, bvalid := False, refcnt := 1 :: u32\<rparr>) else (\<lambda>x :: buf. x\<lparr>refcnt := refcnt x + 1\<rparr>))"
  have r: "s' = upd_buf b f s" "b < NBUF"
    and f: "f = (\<lambda>x. x\<lparr>refcnt := refcnt x + 1\<rparr>) \<and> holds_block dev n (bufs s ! b) \<or>
      f = (\<lambda>x. x\<lparr>bdev := dev, blockno := n, bvalid := False, refcnt := 1\<rparr>) \<and> (\<forall>c < NBUF. \<not> holds_block dev n (bufs s ! c)) \<and> refcnt (bufs s ! b) = 0"
    using assms(4) xs unfolding bget_entry_eq [OF assms(1)] f_def
    by (auto split: option.splits dest!: find_Some_D simp: find_None_iff)
  have nx: "bnext (f x) = bnext x" "bprev (f x) = bprev x" "blk (f x) = blk x" "bdata (f x) = bdata x" for x using f by auto
  show "b < NBUF" by (rule r(2))
  show "lru (bufs s') xs" unfolding r(1) using lru_upd [OF assms(1), of f b] nx by simp
  show "\<And>c. c \<noteq> b \<Longrightarrow> bufs s' ! c = bufs s ! c" unfolding r(1) by simp
  have eq: "bufs s' ! b = f (bufs s ! b)" using r len by simp
  show "holds_block dev n (bufs s' ! b)" "blk (bufs s' ! b) = blk (bufs s ! b)" "bdata (bufs s' ! b) = bdata (bufs s ! b)"
    "bvalid (bufs s' ! b) = (bvalid (bufs s ! b) \<and> holds_block dev n (bufs s ! b))"
    unfolding eq using f r(2) by (auto simp: holds_block_def)
  show "s' = s\<lparr>bufs := bufs s'\<rparr>" unfolding r(1) by (simp add: upd_buf_def)
  show "\<not> holds_block dev n (bufs s ! b) \<Longrightarrow> (\<forall>c < NBUF. \<not> holds_block dev n (bufs s ! c)) \<and> refcnt (bufs s ! b) = 0"
    using f r(2) by blast
  have u: "bdev (bufs s ! c) \<noteq> dev \<or> blockno (bufs s ! c) \<noteq> n" if "c < NBUF" "c \<noteq> b" for c
  proof (cases "holds_block dev n (bufs s ! b)")
    case True
    have "\<not> (bdev (bufs s ! b) = bdev (bufs s ! c) \<and> blockno (bufs s ! b) = blockno (bufs s ! c))"
      using assms(2,3) r(2) that True unfolding cached_once_def holds_block_def by blast
    then show ?thesis using True by (auto simp: holds_block_def)
  next
    case False
    then show ?thesis using f that(1) by (auto simp: holds_block_def)
  qed
  show "cached_once (bufs s')" unfolding cached_once_def
  proof (intro allI impI)
    fix a c assume a: "a < NBUF" "c < NBUF" "a \<noteq> c" "bdev (bufs s' ! a) \<noteq> 0"
    have bd: "bdev (bufs s' ! b) = dev" "blockno (bufs s' ! b) = n" using \<open>holds_block dev n (bufs s' ! b)\<close> by (simp_all add: holds_block_def)
    have oth: "c' \<noteq> b \<Longrightarrow> bufs s' ! c' = bufs s ! c'" for c' unfolding r(1) by simp
    consider "a = b" "c \<noteq> b" | "a \<noteq> b" "c = b" | "a \<noteq> b" "c \<noteq> b" using a(3) by blast
    then show "\<not> (bdev (bufs s' ! a) = bdev (bufs s' ! c) \<and> blockno (bufs s' ! a) = blockno (bufs s' ! c))"
    proof cases
      case 1 then show ?thesis using u [OF a(2)] bd oth by auto
    next
      case 2 then show ?thesis using u [OF a(1)] bd oth by auto
    next
      case 3 then show ?thesis using assms(2) a oth unfolding cached_once_def by auto
    qed
  qed
qed

end
