(* ===== verification/Virtio.thy ===== *)
theory Virtio
  imports Bio
begin

text \<open>
  The disk driver, \<^verbatim>\<open>kernel/virtio_disk.c\<close>. The descriptors, rings and request headers that driver and device share are lists
  of \<open>NUM\<close> entries; an address in a descriptor is the kernel object it points to. The device's part is
  what it writes: the used ring, its index, and the status bytes (\<open>used_ring\<close>, \<open>used_count\<close>, \<open>info_status\<close>); the
  writes to its registers are recorded in \<open>mmio\<close>. The addresses of the three pages of the queue matter only to the device.

  \<open>virtio_disk_rw\<close> is split where it waits: \<open>virtio_disk_submit\<close> up to the wait, \<open>virtio_disk_finish\<close> after it.
\<close>

section \<open>Definitions\<close>

abbreviation (input) NUM :: nat where "NUM \<equiv> 8"

datatype dptr = NullPtr | OpsPtr nat | DataPtr nat | StatusPtr nat

record virtq_desc =
  vd_addr :: dptr
  vd_len :: u32
  vd_flags :: u16
  vd_next :: u16

abbreviation (input) VRING_DESC_F_NEXT :: u16 where "VRING_DESC_F_NEXT \<equiv> 1"
abbreviation (input) VRING_DESC_F_WRITE :: u16 where "VRING_DESC_F_WRITE \<equiv> 2"

record virtio_blk_req =
  req_type :: u32
  req_reserved :: u32
  req_sector :: u64

record vdst = bst +
  descs :: "virtq_desc list"
  avail_ring :: "u16 list"
  avail_idx :: u16
  used_ring :: "u32 list"
  used_count :: u16
  desc_free :: "bool list"
  used_idx :: u16
  info_b :: "nat option list"
  info_status :: "u8 list"
  ops :: "virtio_blk_req list"
  vdisk_lock :: spinlock
  mmio :: "(nat \<times> u32) list"

definition mmio_write :: "nat \<Rightarrow> u32 \<Rightarrow> ('z vdst_scheme, unit) kroutine" where
  "mmio_write r v = modify (\<lambda>s. s\<lparr>mmio := mmio s @ [(r, v)]\<rparr>)"

subsection \<open>Initialisation\<close>

text \<open>\<open>reg\<close> gives what the device's registers read as.\<close>

definition negotiate :: "u32 \<Rightarrow> u32" where
  "negotiate f = f AND NOT (push_bit 5 1) AND NOT (push_bit 7 1) AND NOT (push_bit 11 1) AND NOT (push_bit 12 1)
     AND NOT (push_bit 27 1) AND NOT (push_bit 29 1) AND NOT (push_bit 28 1)"

definition queue_page :: "('z vdst_scheme, u64) kroutine" where
  "queue_page = kalloc"

definition zero_page :: "u64 \<Rightarrow> ('z vdst_scheme, unit) kroutine" where
  "zero_page a = modify (\<lambda>s. s\<lparr>ram := memset (ram s) a 0 4096\<rparr>)"

definition blank_desc :: virtq_desc where
  "blank_desc = \<lparr>vd_addr = NullPtr, vd_len = 0, vd_flags = 0, vd_next = 0\<rparr>"

definition write_addr :: "nat \<Rightarrow> u64 \<Rightarrow> ('z vdst_scheme, unit) kroutine" where
  "write_addr r a = bind (mmio_write r (ucast a)) (\<lambda>_. mmio_write (r + 4) (ucast (drop_bit 32 a)))"

definition virtio_disk_init :: "(nat \<Rightarrow> u32) \<Rightarrow> ('z vdst_scheme, unit) kroutine" where
  "virtio_disk_init reg =
     bind (modify (\<lambda>s. s\<lparr>vdisk_lock := initlock ''virtio_disk''\<rparr>)) (\<lambda>_.
     if reg 0x000 \<noteq> 0x74726976 \<or> reg 0x004 \<noteq> 2 \<or> reg 0x008 \<noteq> 2 \<or> reg 0x00c \<noteq> 0x554d4551
     then panic ''could not find virtio disk''
     else
       bind (mmio_write 0x070 0) (\<lambda>_.
       bind (mmio_write 0x070 1) (\<lambda>_.
       bind (mmio_write 0x070 (1 OR 2)) (\<lambda>_.
       bind (mmio_write 0x020 (negotiate (reg 0x010))) (\<lambda>_.
       bind (mmio_write 0x070 (1 OR 2 OR 8)) (\<lambda>_.
       if reg 0x070 AND 8 = 0 then panic ''virtio disk FEATURES_OK unset''
       else
         bind (mmio_write 0x030 0) (\<lambda>_.
         if reg 0x044 \<noteq> 0 then panic ''virtio disk should not be ready''
         else if reg 0x034 = 0 then panic ''virtio disk has no queue 0''
         else if reg 0x034 < 8 then panic ''virtio disk max queue too short''
         else
           bind queue_page (\<lambda>d.
           bind queue_page (\<lambda>a.
           bind queue_page (\<lambda>u.
           if d = 0 \<or> a = 0 \<or> u = 0 then panic ''virtio disk kalloc''
           else
             bind (zero_page d) (\<lambda>_.
             bind (zero_page a) (\<lambda>_.
             bind (zero_page u) (\<lambda>_.
             bind (modify (\<lambda>s. s\<lparr>descs := replicate NUM blank_desc, avail_ring := replicate NUM 0, avail_idx := 0,
                     used_ring := replicate NUM 0, used_count := 0\<rparr>)) (\<lambda>_.
             bind (mmio_write 0x038 8) (\<lambda>_.
             bind (write_addr 0x080 d) (\<lambda>_.
             bind (write_addr 0x090 a) (\<lambda>_.
             bind (write_addr 0x0a0 u) (\<lambda>_.
             bind (mmio_write 0x044 1) (\<lambda>_.
             bind (modify (\<lambda>s. s\<lparr>desc_free := replicate NUM True\<rparr>)) (\<lambda>_.
             mmio_write 0x070 (reg 0x070 OR 4)))))))))))))))))))))"

subsection \<open>Descriptors\<close>

definition alloc_desc :: "('z vdst_scheme, nat option) kroutine" where
  "alloc_desc s =
     (case find_index (\<lambda>f. f) (desc_free s) of
        None \<Rightarrow> Inr (None, s)
      | Some i \<Rightarrow> Inr (Some i, s\<lparr>desc_free := (desc_free s)[i := False]\<rparr>))"

definition free_desc :: "nat \<Rightarrow> ('z vdst_scheme, unit) kroutine" where
  "free_desc i =
     (if i \<ge> NUM then panic ''free_desc 1''
      else bind (gets (\<lambda>s. desc_free s ! i)) (\<lambda>f.
        if f then panic ''free_desc 2''
        else bind (modify (\<lambda>s. s\<lparr>descs := (descs s)[i := blank_desc], desc_free := (desc_free s)[i := True]\<rparr>)) (\<lambda>_.
          run (wakeup DescChan))))"

text \<open>
  A chain that comes back to a descriptor it has freed panics in \<open>free_desc\<close>, so \<open>NUM + 1\<close> turns are always
  enough.
\<close>

fun free_chain :: "nat \<Rightarrow> nat \<Rightarrow> ('z vdst_scheme, unit) kroutine" where
  "free_chain 0 i = fail OutOfFuel"
| "free_chain (Suc k) i =
     (if i \<ge> NUM then fail Undefined
      else bind (gets (\<lambda>s. descs s ! i)) (\<lambda>d.
        bind (free_desc i) (\<lambda>_.
        if vd_flags d AND VRING_DESC_F_NEXT \<noteq> 0 then free_chain k (unat (vd_next d)) else ret ())))"

definition alloc3_desc :: "('z vdst_scheme, (nat \<times> nat \<times> nat) option) kroutine" where
  "alloc3_desc =
     bind alloc_desc (\<lambda>r0.
     case r0 of None \<Rightarrow> ret None
     | Some i0 \<Rightarrow>
     bind alloc_desc (\<lambda>r1.
     case r1 of None \<Rightarrow> bind (free_desc i0) (\<lambda>_. ret None)
     | Some i1 \<Rightarrow>
     bind alloc_desc (\<lambda>r2.
     case r2 of None \<Rightarrow> bind (free_desc i0) (\<lambda>_. bind (free_desc i1) (\<lambda>_. ret None))
     | Some i2 \<Rightarrow> ret (Some (i0, i1, i2)))))"

subsection \<open>Requests\<close>

definition acquire_vdisk :: "('z vdst_scheme, unit) kroutine" where
  "acquire_vdisk = run (\<lambda>s. andthen (acquire (vdisk_lock s) (kcpu s)) (\<lambda>(lk, c). Inr (s\<lparr>vdisk_lock := lk, kcpu := c\<rparr>)))"

definition release_vdisk :: "('z vdst_scheme, unit) kroutine" where
  "release_vdisk = run (\<lambda>s. andthen (release (vdisk_lock s) (kcpu s)) (\<lambda>(lk, c). Inr (s\<lparr>vdisk_lock := lk, kcpu := c\<rparr>)))"

text \<open>The three descriptors of a request: its header, the data of the buffer, and the status byte.\<close>

definition format_request :: "nat \<Rightarrow> bool \<Rightarrow> nat \<times> nat \<times> nat \<Rightarrow> 'z vdst_scheme \<Rightarrow> 'z vdst_scheme" where
  "format_request b write tri s =
     (case tri of (i0, i1, i2) \<Rightarrow>
      let sector = ucast (blockno (bufs s ! b) * 2);
          req = \<lparr>req_type = (if write then 1 else 0), req_reserved = 0, req_sector = sector\<rparr>;
          d0 = \<lparr>vd_addr = OpsPtr i0, vd_len = 16, vd_flags = VRING_DESC_F_NEXT, vd_next = of_nat i1\<rparr>;
          d1 = \<lparr>vd_addr = DataPtr b, vd_len = of_nat BSIZE,
                vd_flags = (if write then 0 else VRING_DESC_F_WRITE) OR VRING_DESC_F_NEXT, vd_next = of_nat i2\<rparr>;
          d2 = \<lparr>vd_addr = StatusPtr i0, vd_len = 1, vd_flags = VRING_DESC_F_WRITE, vd_next = 0\<rparr>
      in s\<lparr>ops := (ops s)[i0 := req], descs := (descs s)[i0 := d0, i1 := d1, i2 := d2],
           info_status := (info_status s)[i0 := 0xff]\<rparr>)"

definition publish_request :: "nat \<Rightarrow> nat \<Rightarrow> 'z vdst_scheme \<Rightarrow> 'z vdst_scheme" where
  "publish_request b i0 s =
     (let s = upd_buf b (\<lambda>x. x\<lparr>bdisk := True\<rparr>) s;
          s = s\<lparr>info_b := (info_b s)[i0 := Some b], avail_ring := (avail_ring s)[unat (avail_idx s mod 8) := of_nat i0]\<rparr>
      in s\<lparr>avail_idx := avail_idx s + 1\<rparr>)"

text \<open>The first descriptor of the request. With fewer than three free descriptors the caller sleeps.\<close>

definition virtio_disk_submit :: "nat \<Rightarrow> bool \<Rightarrow> ('z vdst_scheme, nat) kroutine" where
  "virtio_disk_submit b write =
     bind acquire_vdisk (\<lambda>_.
     bind alloc3_desc (\<lambda>r.
     case r of None \<Rightarrow> fail (Sleep DescChan)
     | Some (i0, i1, i2) \<Rightarrow>
         bind (modify (format_request b write (i0, i1, i2))) (\<lambda>_.
         bind (modify (publish_request b i0)) (\<lambda>_.
         bind (mmio_write 0x050 0) (\<lambda>_.
         ret i0)))))"

text \<open>With the lock held again: sleep on, or finish the request.\<close>

definition virtio_disk_finish :: "nat \<Rightarrow> nat \<Rightarrow> ('z vdst_scheme, unit) kroutine" where
  "virtio_disk_finish b i0 =
     bind (gets (\<lambda>s. bdisk (bufs s ! b))) (\<lambda>busy.
     if busy then fail (Sleep (DiskChan b))
     else
       bind (modify (\<lambda>s. s\<lparr>info_b := (info_b s)[i0 := None]\<rparr>)) (\<lambda>_.
       bind (free_chain (Suc NUM) i0) (\<lambda>_.
       release_vdisk)))"

subsection \<open>The interrupt handler\<close>

text \<open>
  The used ring has at most \<open>2 ^ 16\<close> new entries, since its index is 16 bits wide; the fuel is their number.
\<close>

fun drain_used :: "nat \<Rightarrow> ('z vdst_scheme, unit) kroutine" where
  "drain_used k s =
     (if used_idx s = used_count s then Inr ((), s)
      else case k of 0 \<Rightarrow> Inl OutOfFuel
      | Suc k' \<Rightarrow>
          let i = unat (used_ring s ! unat (used_idx s mod 8)) in
          if i \<ge> NUM then Inl Undefined
          else if info_status s ! i \<noteq> 0 then Inl (Panic ''virtio_disk_intr status'')
          else case info_b s ! i of
            None \<Rightarrow> Inl Undefined
          | Some b \<Rightarrow>
              bind (modify (upd_buf b (\<lambda>x. x\<lparr>bdisk := False\<rparr>))) (\<lambda>_.
              bind (run (wakeup (DiskChan b))) (\<lambda>_.
              bind (modify (\<lambda>s. s\<lparr>used_idx := used_idx s + 1\<rparr>)) (\<lambda>_.
              drain_used k'))) s)"

definition virtio_disk_intr :: "u32 \<Rightarrow> ('z vdst_scheme, unit) kroutine" where
  "virtio_disk_intr intr_status =
     critical vdisk_lock (\<lambda>lk s. s\<lparr>vdisk_lock := lk\<rparr>)
       (bind (mmio_write 0x064 (intr_status AND 0x3)) (\<lambda>_.
        bind (gets (\<lambda>s. unat (used_count s - used_idx s))) drain_used))"

end
