(* ===== verification/Log.thy ===== *)
theory Log
  imports Virtio
begin

text \<open>
  The log, \<^verbatim>\<open>kernel/log.c\<close>: a redo log that makes the disk writes of a group of system calls atomic with respect to
  crashes. Block numbers are 32-bit words, the counters C integers (\<open>int\<close>); the header block holds \<^verbatim>\<open>n\<close> and
  the block numbers as little-endian words.
\<close>

section \<open>Definitions\<close>

record logst = vdst +
  log_lock :: spinlock
  log_start :: u32
  log_size :: int
  outstanding :: int
  committing :: bool
  log_dev :: u32
  lh_n :: int
  lh_block :: "u32 list"

abbreviation with_log :: "('z logst_scheme, 'a) kroutine \<Rightarrow> ('z logst_scheme, 'a) kroutine" where
  "with_log \<equiv> critical log_lock (\<lambda>lk s. s\<lparr>log_lock := lk\<rparr>)"

text \<open>The \<open>i\<close>-th \<^verbatim>\<open>uint\<close> of a block.\<close>

definition get32 :: "block \<Rightarrow> nat \<Rightarrow> u32" where
  "get32 d i = of_nat (le_val (take 4 (drop (4 * i) d)))"

definition put32 :: "block \<Rightarrow> nat \<Rightarrow> u32 \<Rightarrow> block" where
  "put32 d i v = take (4 * i) d @ le_bytes 4 (unat v) @ drop (4 * i + 4) d"

definition buf_data :: "nat \<Rightarrow> ('z bst_scheme, block) kroutine" where
  "buf_data b = gets (\<lambda>s. bdata (bufs s ! b))"

definition set_buf_data :: "nat \<Rightarrow> block \<Rightarrow> ('z bst_scheme, unit) kroutine" where
  "set_buf_data b d = modify (upd_buf b (\<lambda>x. x\<lparr>bdata := d\<rparr>))"

text \<open>\<^verbatim>\<open>log.lh.block[i]\<close>\<close>

definition lh_at :: "nat \<Rightarrow> ('z logst_scheme, u32) kroutine" where
  "lh_at i = (if i < LOGSIZE then gets (\<lambda>s. lh_block s ! i) else fail Undefined)"

definition set_lh_at :: "nat \<Rightarrow> u32 \<Rightarrow> ('z logst_scheme, unit) kroutine" where
  "set_lh_at i v = (if i < LOGSIZE then modify (\<lambda>s. s\<lparr>lh_block := (lh_block s)[i := v]\<rparr>) else fail Undefined)"

text \<open>\<^verbatim>\<open>for (tail = 0; tail < log.lh.n; tail++)\<close>\<close>

definition for_tail :: "(nat \<Rightarrow> ('z logst_scheme, unit) kroutine) \<Rightarrow> ('z logst_scheme, unit) kroutine" where
  "for_tail f = bind (gets lh_n) (\<lambda>n. for_each [0..<nat n] f)"

text \<open>\<^verbatim>\<open>bread(log.dev, log.start+tail+1)\<close>\<close>

definition bread_log :: "nat \<Rightarrow> ('z logst_scheme, nat) kroutine" where
  "bread_log tail =
     bind (gets (\<lambda>s. (log_dev s, log_start s))) (\<lambda>(dev, start).
     bread dev (start + of_nat tail + 1))"

definition bread_home :: "nat \<Rightarrow> ('z logst_scheme, nat) kroutine" where
  "bread_home tail =
     bind (gets log_dev) (\<lambda>dev. bind (lh_at tail) (\<lambda>n. bread dev n))"

definition install_one :: "bool \<Rightarrow> nat \<Rightarrow> ('z logst_scheme, unit) kroutine" where
  "install_one recovering tail =
     bind (bread_log tail) (\<lambda>lbuf.
     bind (bread_home tail) (\<lambda>dbuf.
     bind (bind (buf_data lbuf) (set_buf_data dbuf)) (\<lambda>_.
     bind (bwrite dbuf) (\<lambda>_.
     bind (whenever (\<not> recovering) (bunpin dbuf)) (\<lambda>_.
     bind (brelse lbuf) (\<lambda>_.
     brelse dbuf))))))"

definition install_trans :: "bool \<Rightarrow> ('z logst_scheme, unit) kroutine" where
  "install_trans recovering = for_tail (install_one recovering)"

definition read_head :: "('z logst_scheme, unit) kroutine" where
  "read_head =
     bind (gets (\<lambda>s. (log_dev s, log_start s))) (\<lambda>(dev, start).
     bind (bread dev start) (\<lambda>b.
     bind (buf_data b) (\<lambda>lh.
     bind (modify (\<lambda>s. s\<lparr>lh_n := sint (get32 lh 0)\<rparr>)) (\<lambda>_.
     bind (for_tail (\<lambda>i. set_lh_at i (get32 lh (i + 1)))) (\<lambda>_.
     brelse b)))))"

text \<open>\<^verbatim>\<open>hb->n = log.lh.n; hb->block[i] = log.lh.block[i]\<close> for all \<open>i\<close>.\<close>

definition write_head_one :: "nat \<Rightarrow> nat \<Rightarrow> ('z logst_scheme, unit) kroutine" where
  "write_head_one b i = bind (lh_at i) (\<lambda>v. bind (buf_data b) (\<lambda>d. set_buf_data b (put32 d (i + 1) v)))"

definition write_head :: "('z logst_scheme, unit) kroutine" where
  "write_head =
     bind (gets (\<lambda>s. (log_dev s, log_start s))) (\<lambda>(dev, start).
     bind (bread dev start) (\<lambda>b.
     bind (bind (gets lh_n) (\<lambda>n. bind (buf_data b) (\<lambda>d. set_buf_data b (put32 d 0 (of_int n))))) (\<lambda>_.
     bind (for_tail (write_head_one b)) (\<lambda>_.
     bind (bwrite b) (\<lambda>_.
     brelse b)))))"

definition recover_from_log :: "('z logst_scheme, unit) kroutine" where
  "recover_from_log =
     bind read_head (\<lambda>_.
     bind (install_trans True) (\<lambda>_.
     bind (modify (\<lambda>s. s\<lparr>lh_n := 0\<rparr>)) (\<lambda>_.
     write_head)))"

definition initlog :: "u32 \<Rightarrow> u32 \<Rightarrow> u32 \<Rightarrow> ('z logst_scheme, unit) kroutine" where
  "initlog dev sb_logstart sb_nlog =
     (if 4 + 4 * LOGSIZE \<ge> BSIZE then panic ''initlog: too big logheader''
      else bind (modify (\<lambda>s. s\<lparr>log_lock := initlock ''log'', log_start := sb_logstart, log_size := sint sb_nlog, log_dev := dev\<rparr>)) (\<lambda>_.
        recover_from_log))"

definition begin_op :: "('z logst_scheme, unit) kroutine" where
  "begin_op = with_log
     (bind (gets id) (\<lambda>s.
      if committing s then fail (Sleep LogChan)
      else if lh_n s + (outstanding s + 1) * int MAXOPBLOCKS > int LOGSIZE then fail (Sleep LogChan)
      else modify (\<lambda>s. s\<lparr>outstanding := outstanding s + 1\<rparr>)))"

definition write_log_one :: "nat \<Rightarrow> ('z logst_scheme, unit) kroutine" where
  "write_log_one tail =
     bind (bread_log tail) (\<lambda>to.
     bind (bread_home tail) (\<lambda>from.
     bind (bind (buf_data from) (set_buf_data to)) (\<lambda>_.
     bind (bwrite to) (\<lambda>_.
     bind (brelse from) (\<lambda>_.
     brelse to)))))"

definition write_log :: "('z logst_scheme, unit) kroutine" where
  "write_log = for_tail write_log_one"

definition commit :: "('z logst_scheme, unit) kroutine" where
  "commit =
     bind (gets lh_n) (\<lambda>n.
     whenever (n > 0)
       (bind write_log (\<lambda>_.
        bind write_head (\<lambda>_.
        bind (install_trans False) (\<lambda>_.
        bind (modify (\<lambda>s. s\<lparr>lh_n := 0\<rparr>)) (\<lambda>_.
        write_head))))))"

definition end_op :: "('z logst_scheme, unit) kroutine" where
  "end_op =
     bind (with_log
       (bind (modify (\<lambda>s. s\<lparr>outstanding := outstanding s - 1\<rparr>)) (\<lambda>_.
        bind (gets id) (\<lambda>s.
        if committing s then panic ''log.committing''
        else if outstanding s = 0 then bind (modify (\<lambda>s. s\<lparr>committing := True\<rparr>)) (\<lambda>_. ret True)
        else bind (run (wakeup LogChan)) (\<lambda>_. ret False))))) (\<lambda>do_commit.
     whenever do_commit
       (bind commit (\<lambda>_.
        with_log (bind (modify (\<lambda>s. s\<lparr>committing := False\<rparr>)) (\<lambda>_. run (wakeup LogChan))))))"

text \<open>The first slot of the header with the block number, or the one after the last.\<close>

definition log_slot :: "u32 \<Rightarrow> 'z logst_scheme \<Rightarrow> nat" where
  "log_slot n s = (case find_index (\<lambda>x. x = n) (take (nat (lh_n s)) (lh_block s)) of Some i \<Rightarrow> i | None \<Rightarrow> nat (lh_n s))"

definition log_write :: "nat \<Rightarrow> ('z logst_scheme, unit) kroutine" where
  "log_write b = with_log
     (bind (gets id) (\<lambda>s.
      if lh_n s \<ge> int LOGSIZE \<or> lh_n s \<ge> log_size s - 1 then panic ''too big a transaction''
      else if outstanding s < 1 then panic ''log_write outside of trans''
      else let i = log_slot (blockno (bufs s ! b)) s in
        bind (set_lh_at i (blockno (bufs s ! b))) (\<lambda>_.
        whenever (int i = lh_n s) (bind (bpin b) (\<lambda>_. modify (\<lambda>s. s\<lparr>lh_n := lh_n s + 1\<rparr>))))))"

end
