(* ===== verification/Fs.thy ===== *)
theory Fs
  imports Log
begin

text \<open>
  The file system, \<^verbatim>\<open>kernel/fs.c\<close>: block allocation, inodes, file contents, directories and path names, on top of the
  log. An in-memory inode is its index in \<^verbatim>\<open>itable.inode\<close>; a null pointer is \<open>None\<close> where the code allows
  it. Strings are byte lists without the terminating zero. What \<^verbatim>\<open>printf\<close> shows on the console is left out.
\<close>

section \<open>On-disk structures\<close>

abbreviation (input) FSMAGIC :: u32 where "FSMAGIC \<equiv> 0x10203040"
abbreviation (input) NDIRECT :: nat where "NDIRECT \<equiv> 12"
abbreviation (input) NINDIRECT :: nat where "NINDIRECT \<equiv> 256"
abbreviation (input) MAXFILE :: nat where "MAXFILE \<equiv> 268"
abbreviation (input) IPB :: u32 where "IPB \<equiv> 16"
abbreviation (input) BPB :: nat where "BPB \<equiv> 8192"
abbreviation (input) DIRSIZ :: nat where "DIRSIZ \<equiv> 14"
abbreviation (input) ROOTINO :: u32 where "ROOTINO \<equiv> 1"
abbreviation (input) T_DIR :: u16 where "T_DIR \<equiv> 1"
abbreviation (input) T_FILE :: u16 where "T_FILE \<equiv> 2"
abbreviation (input) T_DEVICE :: u16 where "T_DEVICE \<equiv> 3"

record superblock =
  sb_magic :: u32
  sb_size :: u32
  sb_nblocks :: u32
  sb_ninodes :: u32
  sb_nlog :: u32
  sb_logstart :: u32
  sb_inodestart :: u32
  sb_bmapstart :: u32

record dinode =
  dtype :: u16
  dmajor :: u16
  dminor :: u16
  dnlink :: u16
  dsize :: u32
  daddrs :: "u32 list"

record inode =
  idev :: u32
  inum :: u32
  iref :: int
  ilk :: sleeplock
  ivalid :: bool
  itype :: u16
  imajor :: u16
  iminor :: u16
  inlink :: u16
  isize :: u32
  iaddrs :: "u32 list"

record dirent =
  de_inum :: u16
  de_name :: "u8 list"

record stat =
  st_dev :: int
  st_ino :: u32
  st_type :: u16
  st_nlink :: u16
  st_size :: u64

record fsst = logst +
  sb :: superblock
  itable_lock :: spinlock
  inodes :: "inode list"

subsection \<open>Layout in bytes\<close>

definition get16 :: "u8 list \<Rightarrow> nat \<Rightarrow> u16" where
  "get16 d o' = of_nat (le_val (take 2 (drop o' d)))"

definition dinode_bytes :: "dinode \<Rightarrow> u8 list" where
  "dinode_bytes d = le_bytes 2 (unat (dtype d)) @ le_bytes 2 (unat (dmajor d)) @ le_bytes 2 (unat (dminor d)) @
     le_bytes 2 (unat (dnlink d)) @ le_bytes 4 (unat (dsize d)) @ concat (map (\<lambda>a. le_bytes 4 (unat a)) (daddrs d))"

definition dinode_of :: "u8 list \<Rightarrow> dinode" where
  "dinode_of bs = \<lparr>dtype = get16 bs 0, dmajor = get16 bs 2, dminor = get16 bs 4, dnlink = get16 bs 6,
     dsize = get32 bs 2, daddrs = map (\<lambda>i. get32 bs (3 + i)) [0..<NDIRECT + 1]\<rparr>"

definition superblock_of :: "u8 list \<Rightarrow> superblock" where
  "superblock_of bs = \<lparr>sb_magic = get32 bs 0, sb_size = get32 bs 1, sb_nblocks = get32 bs 2, sb_ninodes = get32 bs 3,
     sb_nlog = get32 bs 4, sb_logstart = get32 bs 5, sb_inodestart = get32 bs 6, sb_bmapstart = get32 bs 7\<rparr>"

definition dirent_bytes :: "dirent \<Rightarrow> u8 list" where
  "dirent_bytes de = le_bytes 2 (unat (de_inum de)) @ de_name de"

definition dirent_of :: "u8 list \<Rightarrow> dirent" where
  "dirent_of bs = \<lparr>de_inum = get16 bs 0, de_name = take DIRSIZ (drop 2 bs)\<rparr>"

text \<open>\<^verbatim>\<open>(struct dinode*)bp->data + inum%IPB\<close>\<close>

definition get_dinode :: "u32 \<Rightarrow> block \<Rightarrow> dinode" where
  "get_dinode n d = dinode_of (take 64 (drop (64 * unat (n mod IPB)) d))"

definition put_dinode :: "u32 \<Rightarrow> dinode \<Rightarrow> block \<Rightarrow> block" where
  "put_dinode n di d = (let k = 64 * unat (n mod IPB) in take k d @ dinode_bytes di @ drop (k + 64) d)"

definition IBLOCK :: "u32 \<Rightarrow> superblock \<Rightarrow> u32" where
  "IBLOCK i x = i div IPB + sb_inodestart x"

definition BBLOCK :: "u32 \<Rightarrow> superblock \<Rightarrow> u32" where
  "BBLOCK b x = b div of_nat BPB + sb_bmapstart x"

section \<open>Blocks\<close>

definition readsb :: "u32 \<Rightarrow> ('z fsst_scheme, unit) kroutine" where
  "readsb dev =
     bind (bread dev 1) (\<lambda>bp.
     bind (bind (buf_data bp) (\<lambda>d. modify (\<lambda>s. s\<lparr>sb := superblock_of d\<rparr>))) (\<lambda>_.
     brelse bp))"

definition fsinit :: "u32 \<Rightarrow> ('z fsst_scheme, unit) kroutine" where
  "fsinit dev =
     bind (readsb dev) (\<lambda>_.
     bind (gets sb) (\<lambda>sb.
     if sb_magic sb \<noteq> FSMAGIC then panic ''invalid file system''
     else initlog dev (sb_logstart sb) (sb_nlog sb)))"

definition bzero :: "u32 \<Rightarrow> u32 \<Rightarrow> ('z fsst_scheme, unit) kroutine" where
  "bzero dev bno =
     bind (bread dev bno) (\<lambda>bp.
     bind (set_buf_data bp (replicate BSIZE 0)) (\<lambda>_.
     bind (log_write bp) (\<lambda>_.
     brelse bp)))"

text \<open>Bit \<open>bi\<close> of a bitmap block.\<close>

definition bit_mask :: "nat \<Rightarrow> u8" where
  "bit_mask bi = push_bit (bi mod 8) 1"

definition block_free :: "block \<Rightarrow> nat \<Rightarrow> bool" where
  "block_free d bi \<longleftrightarrow> d ! (bi div 8) AND bit_mask bi = 0"

definition mark_used :: "nat \<Rightarrow> block \<Rightarrow> block" where
  "mark_used bi d = d[bi div 8 := d ! (bi div 8) OR bit_mask bi]"

definition mark_free :: "nat \<Rightarrow> block \<Rightarrow> block" where
  "mark_free bi d = d[bi div 8 := d ! (bi div 8) AND NOT (bit_mask bi)]"

text \<open>The blocks \<open>b\<close> to \<open>b + BPB - 1\<close>, one block of the bitmap.\<close>

definition balloc_chunk :: "u32 \<Rightarrow> nat \<Rightarrow> nat \<Rightarrow> ('z fsst_scheme, u32 option) kroutine" where
  "balloc_chunk dev sz b =
     bind (gets sb) (\<lambda>sb.
     bind (bread dev (BBLOCK (of_nat b) sb)) (\<lambda>bp.
     bind (buf_data bp) (\<lambda>d.
     case find (block_free d) [0..<min BPB (sz - b)] of
       Some bi \<Rightarrow>
         bind (set_buf_data bp (mark_used bi d)) (\<lambda>_.
         bind (log_write bp) (\<lambda>_.
         bind (brelse bp) (\<lambda>_.
         bind (bzero dev (of_nat (b + bi))) (\<lambda>_.
         ret (Some (of_nat (b + bi)))))))
     | None \<Rightarrow> bind (brelse bp) (\<lambda>_. ret None))))"

definition balloc :: "u32 \<Rightarrow> ('z fsst_scheme, u32) kroutine" where
  "balloc dev =
     bind (gets (\<lambda>s. unat (sb_size (sb s)))) (\<lambda>size.
     bind (search (map (\<lambda>k. BPB * k) [0..<(size + BPB - 1) div BPB]) (balloc_chunk dev size)) (\<lambda>r.
     ret (case r of Some b \<Rightarrow> b | None \<Rightarrow> 0)))"

definition bfree :: "u32 \<Rightarrow> u32 \<Rightarrow> ('z fsst_scheme, unit) kroutine" where
  "bfree dev b =
     bind (gets sb) (\<lambda>sb.
     bind (bread dev (BBLOCK b sb)) (\<lambda>bp.
     bind (buf_data bp) (\<lambda>d.
     let bi = unat b mod BPB in
     if block_free d bi then panic ''freeing free block''
     else bind (set_buf_data bp (mark_free bi d)) (\<lambda>_.
       bind (log_write bp) (\<lambda>_.
       brelse bp)))))"

section \<open>Inodes\<close>

definition upd_inode :: "nat \<Rightarrow> (inode \<Rightarrow> inode) \<Rightarrow> 'z fsst_scheme \<Rightarrow> 'z fsst_scheme" where
  "upd_inode i f s = s\<lparr>inodes := (inodes s)[i := f (inodes s ! i)]\<rparr>"

definition get_ilk :: "nat \<Rightarrow> 'z fsst_scheme \<Rightarrow> sleeplock" where
  "get_ilk i s = ilk (inodes s ! i)"

definition put_ilk :: "nat \<Rightarrow> sleeplock \<Rightarrow> 'z fsst_scheme \<Rightarrow> 'z fsst_scheme" where
  "put_ilk i l s = upd_inode i (\<lambda>x. x\<lparr>ilk := l\<rparr>) s"

definition inode_at :: "nat \<Rightarrow> ('z fsst_scheme, inode) kroutine" where
  "inode_at i = gets (\<lambda>s. inodes s ! i)"

definition set_inode :: "nat \<Rightarrow> (inode \<Rightarrow> inode) \<Rightarrow> ('z fsst_scheme, unit) kroutine" where
  "set_inode i f = modify (upd_inode i f)"

abbreviation with_itable :: "('z fsst_scheme, 'a) kroutine \<Rightarrow> ('z fsst_scheme, 'a) kroutine" where
  "with_itable \<equiv> critical itable_lock (\<lambda>lk s. s\<lparr>itable_lock := lk\<rparr>)"

definition acquire_itable :: "('z fsst_scheme, unit) kroutine" where
  "acquire_itable = run (\<lambda>s. andthen (acquire (itable_lock s) (kcpu s)) (\<lambda>(lk, c). Inr (s\<lparr>itable_lock := lk, kcpu := c\<rparr>)))"

definition release_itable :: "('z fsst_scheme, unit) kroutine" where
  "release_itable = run (\<lambda>s. andthen (release (itable_lock s) (kcpu s)) (\<lambda>(lk, c). Inr (s\<lparr>itable_lock := lk, kcpu := c\<rparr>)))"

definition iinit :: "'z fsst_scheme \<Rightarrow> 'z fsst_scheme" where
  "iinit s = s\<lparr>itable_lock := initlock ''itable'',
     inodes := map (\<lambda>i. (inodes s ! i)\<lparr>ilk := initsleeplock ''inode''\<rparr>) [0..<NINODE]\<rparr>"

text \<open>The scan of \<open>iget\<close>: an entry that holds the inode, or the first free entry.\<close>

definition iget_entry :: "u32 \<Rightarrow> u32 \<Rightarrow> ('z fsst_scheme, nat) kroutine" where
  "iget_entry dev n s =
     (case find_index (\<lambda>ip. iref ip > 0 \<and> idev ip = dev \<and> inum ip = n) (inodes s) of
        Some i \<Rightarrow> Inr (i, upd_inode i (\<lambda>ip. ip\<lparr>iref := iref ip + 1\<rparr>) s)
      | None \<Rightarrow>
          (case find_index (\<lambda>ip. iref ip = 0) (inodes s) of
             None \<Rightarrow> Inl (Panic ''iget: no inodes'')
           | Some i \<Rightarrow> Inr (i, upd_inode i (\<lambda>ip. ip\<lparr>idev := dev, inum := n, iref := 1, ivalid := False\<rparr>) s)))"

definition iget :: "u32 \<Rightarrow> u32 \<Rightarrow> ('z fsst_scheme, nat) kroutine" where
  "iget dev n = with_itable (iget_entry dev n)"

definition ialloc :: "u32 \<Rightarrow> u16 \<Rightarrow> ('z fsst_scheme, nat option) kroutine" where
  "ialloc dev type =
     bind (gets sb) (\<lambda>sb.
     search [1..<unat (sb_ninodes sb)] (\<lambda>n.
       bind (bread dev (IBLOCK (of_nat n) sb)) (\<lambda>bp.
       bind (buf_data bp) (\<lambda>d.
       if dtype (get_dinode (of_nat n) d) = 0 then
         bind (set_buf_data bp (put_dinode (of_nat n) ((dinode_of (replicate 64 0))\<lparr>dtype := type\<rparr>) d)) (\<lambda>_.
         bind (log_write bp) (\<lambda>_.
         bind (brelse bp) (\<lambda>_.
         bind (iget dev (of_nat n)) (\<lambda>i. ret (Some i)))))
       else bind (brelse bp) (\<lambda>_. ret None)))))"

definition dinode_of_inode :: "inode \<Rightarrow> dinode" where
  "dinode_of_inode ip = \<lparr>dtype = itype ip, dmajor = imajor ip, dminor = iminor ip, dnlink = inlink ip,
     dsize = isize ip, daddrs = iaddrs ip\<rparr>"

definition iupdate :: "nat \<Rightarrow> ('z fsst_scheme, unit) kroutine" where
  "iupdate i =
     bind (gets sb) (\<lambda>sb.
     bind (inode_at i) (\<lambda>ip.
     bind (bread (idev ip) (IBLOCK (inum ip) sb)) (\<lambda>bp.
     bind (bind (buf_data bp) (\<lambda>d. set_buf_data bp (put_dinode (inum ip) (dinode_of_inode ip) d))) (\<lambda>_.
     bind (log_write bp) (\<lambda>_.
     brelse bp)))))"

definition idup :: "nat \<Rightarrow> ('z fsst_scheme, nat) kroutine" where
  "idup i = bind (with_itable (set_inode i (\<lambda>ip. ip\<lparr>iref := iref ip + 1\<rparr>))) (\<lambda>_. ret i)"

definition ilock :: "nat \<Rightarrow> ('z fsst_scheme, unit) kroutine" where
  "ilock i =
     bind (inode_at i) (\<lambda>ip.
     if iref ip < 1 then panic ''ilock''
     else bind (acquiresleep (InodeChan i) (get_ilk i) (put_ilk i)) (\<lambda>_.
       bind (inode_at i) (\<lambda>ip.
       whenever (\<not> ivalid ip)
         (bind (gets sb) (\<lambda>sb.
          bind (bread (idev ip) (IBLOCK (inum ip) sb)) (\<lambda>bp.
          bind (buf_data bp) (\<lambda>d.
          let di = get_dinode (inum ip) d in
          bind (set_inode i (\<lambda>ip. ip\<lparr>itype := dtype di, imajor := dmajor di, iminor := dminor di, inlink := dnlink di,
                  isize := dsize di, iaddrs := daddrs di\<rparr>)) (\<lambda>_.
          bind (brelse bp) (\<lambda>_.
          bind (set_inode i (\<lambda>ip. ip\<lparr>ivalid := True\<rparr>)) (\<lambda>_.
          if dtype di = 0 then panic ''ilock: no type'' else ret ()))))))))))"

definition iunlock :: "nat \<Rightarrow> ('z fsst_scheme, unit) kroutine" where
  "iunlock i =
     bind (holdingsleep (get_ilk i) (put_ilk i)) (\<lambda>h.
     bind (inode_at i) (\<lambda>ip.
     if \<not> h \<or> iref ip < 1 then panic ''iunlock''
     else releasesleep (InodeChan i) (get_ilk i) (put_ilk i)))"

subsection \<open>Contents\<close>

text \<open>The two branches of \<open>bmap\<close>; \<open>slot\<close> is the entry of \<^verbatim>\<open>ip->addrs\<close>.\<close>

definition bmap_direct :: "nat \<Rightarrow> nat \<Rightarrow> ('z fsst_scheme, u32) kroutine" where
  "bmap_direct i slot =
     bind (inode_at i) (\<lambda>ip.
     if iaddrs ip ! slot \<noteq> 0 then ret (iaddrs ip ! slot)
     else bind (balloc (idev ip)) (\<lambda>addr.
       if addr = 0 then ret 0
       else bind (set_inode i (\<lambda>ip. ip\<lparr>iaddrs := (iaddrs ip)[slot := addr]\<rparr>)) (\<lambda>_. ret addr)))"

definition bmap :: "nat \<Rightarrow> nat \<Rightarrow> ('z fsst_scheme, u32) kroutine" where
  "bmap i bn =
     (if bn < NDIRECT then bmap_direct i bn
      else let bn = bn - NDIRECT in
        if bn < NINDIRECT then
          bind (bmap_direct i NDIRECT) (\<lambda>addr.
          if addr = 0 then ret 0
          else bind (inode_at i) (\<lambda>ip.
            bind (bread (idev ip) addr) (\<lambda>bp.
            bind (buf_data bp) (\<lambda>a.
            if get32 a bn \<noteq> 0 then bind (brelse bp) (\<lambda>_. ret (get32 a bn))
            else bind (balloc (idev ip)) (\<lambda>addr.
              bind (whenever (addr \<noteq> 0)
                (bind (bind (buf_data bp) (\<lambda>a. set_buf_data bp (put32 a bn addr))) (\<lambda>_. log_write bp))) (\<lambda>_.
              bind (brelse bp) (\<lambda>_. ret addr)))))))
        else panic ''bmap: out of range'')"

definition itrunc :: "nat \<Rightarrow> ('z fsst_scheme, unit) kroutine" where
  "itrunc i =
     bind (for_each [0..<NDIRECT] (\<lambda>k.
       bind (inode_at i) (\<lambda>ip.
       whenever (iaddrs ip ! k \<noteq> 0)
         (bind (bfree (idev ip) (iaddrs ip ! k)) (\<lambda>_.
          set_inode i (\<lambda>ip. ip\<lparr>iaddrs := (iaddrs ip)[k := 0]\<rparr>)))))) (\<lambda>_.
     bind (inode_at i) (\<lambda>ip.
     bind (whenever (iaddrs ip ! NDIRECT \<noteq> 0)
       (bind (bread (idev ip) (iaddrs ip ! NDIRECT)) (\<lambda>bp.
        bind (for_each [0..<NINDIRECT] (\<lambda>j.
          bind (buf_data bp) (\<lambda>a. whenever (get32 a j \<noteq> 0) (bfree (idev ip) (get32 a j))))) (\<lambda>_.
        bind (brelse bp) (\<lambda>_.
        bind (bfree (idev ip) (iaddrs ip ! NDIRECT)) (\<lambda>_.
        set_inode i (\<lambda>ip. ip\<lparr>iaddrs := (iaddrs ip)[NDIRECT := 0]\<rparr>))))))) (\<lambda>_.
     bind (set_inode i (\<lambda>ip. ip\<lparr>isize := 0\<rparr>)) (\<lambda>_.
     iupdate i))))"

definition iput :: "nat \<Rightarrow> ('z fsst_scheme, unit) kroutine" where
  "iput i =
     bind acquire_itable (\<lambda>_.
     bind (inode_at i) (\<lambda>ip.
     bind (whenever (iref ip = 1 \<and> ivalid ip \<and> inlink ip = 0)
       (bind (acquiresleep (InodeChan i) (get_ilk i) (put_ilk i)) (\<lambda>_.
        bind release_itable (\<lambda>_.
        bind (itrunc i) (\<lambda>_.
        bind (set_inode i (\<lambda>ip. ip\<lparr>itype := 0\<rparr>)) (\<lambda>_.
        bind (iupdate i) (\<lambda>_.
        bind (set_inode i (\<lambda>ip. ip\<lparr>ivalid := False\<rparr>)) (\<lambda>_.
        bind (releasesleep (InodeChan i) (get_ilk i) (put_ilk i)) (\<lambda>_.
        acquire_itable))))))))) (\<lambda>_.
     bind (set_inode i (\<lambda>ip. ip\<lparr>iref := iref ip - 1\<rparr>)) (\<lambda>_.
     release_itable))))"

definition iunlockput :: "nat \<Rightarrow> ('z fsst_scheme, unit) kroutine" where
  "iunlockput i = bind (iunlock i) (\<lambda>_. iput i)"

definition stati :: "inode \<Rightarrow> stat" where
  "stati ip = \<lparr>st_dev = sint (idev ip), st_ino = inum ip, st_type = itype ip, st_nlink = inlink ip, st_size = ucast (isize ip)\<rparr>"

text \<open>
  Where \<open>readi\<close> puts the bytes, and where \<open>writei\<close> takes them: an address of the current process, an address of the kernel,
  or a local variable of the caller, which the model passes as a byte list.
\<close>

datatype dest = UserDst u64 | KernelDst u64 | LocalDst
datatype source = UserSrc u64 | KernelSrc u64 | LocalSrc "u8 list"

fun copy_to :: "dest \<Rightarrow> nat \<Rightarrow> u8 list \<Rightarrow> ('z fsst_scheme, int) kroutine" where
  "copy_to (UserDst a) k bs = either_copyout True (a + of_nat k) bs"
| "copy_to (KernelDst a) k bs = either_copyout False (a + of_nat k) bs"
| "copy_to LocalDst k bs = ret 0"

text \<open>The result of \<open>either_copyin\<close>, and the bytes that arrived.\<close>

definition take_in :: "(int \<times> u8 list \<times> 's) result \<Rightarrow> ((int \<times> u8 list) \<times> 's) result" where
  "take_in r = andthen r (\<lambda>(v, bs, s). Inr ((v, bs), s))"

fun copy_from :: "source \<Rightarrow> nat \<Rightarrow> nat \<Rightarrow> ('z fsst_scheme, int \<times> u8 list) kroutine" where
  "copy_from (UserSrc a) k n s = take_in (either_copyin True (a + of_nat k) n s)"
| "copy_from (KernelSrc a) k n s = take_in (either_copyin False (a + of_nat k) n s)"
| "copy_from (LocalSrc bs) k n s = Inr ((0, take n (drop k bs)), s)"

text \<open>The loop of \<open>readi\<close>. It returns \<^verbatim>\<open>tot\<close> and the bytes it delivered.\<close>

function readi_loop :: "dest \<Rightarrow> nat \<Rightarrow> nat \<Rightarrow> nat \<Rightarrow> nat \<Rightarrow> u8 list \<Rightarrow> ('z fsst_scheme, int \<times> u8 list) kroutine" where
  "readi_loop dst i off n tot acc s =
     (if tot < n then
        bind (bmap i (off div BSIZE)) (\<lambda>addr.
        if addr = 0 then ret (int tot, acc)
        else bind (inode_at i) (\<lambda>ip.
          bind (bread (idev ip) addr) (\<lambda>bp.
          bind (buf_data bp) (\<lambda>d.
          let m = min (n - tot) (BSIZE - off mod BSIZE);
              bs = take m (drop (off mod BSIZE) d) in
          bind (copy_to dst tot bs) (\<lambda>r.
          bind (brelse bp) (\<lambda>_.
          if r = -1 then ret (-1, acc)
          else readi_loop dst i (off + m) n (tot + m) (acc @ bs))))))) s
      else Inr ((int tot, acc), s))"
  by pat_completeness auto
termination
proof (relation "measure (\<lambda>(dst, i, off, n, tot, acc, s). n - tot)", goal_cases)
  case (2 dst i off n tot acc s)
  then have "0 < min (n - tot) (BSIZE - off mod BSIZE)" by simp
  then show ?case using 2 by (simp only: in_measure prod.case) linarith
qed simp

declare readi_loop.simps [simp del]

definition readi :: "dest \<Rightarrow> nat \<Rightarrow> u32 \<Rightarrow> u32 \<Rightarrow> ('z fsst_scheme, int \<times> u8 list) kroutine" where
  "readi dst i off n =
     bind (inode_at i) (\<lambda>ip.
     if off > isize ip \<or> off + n < off then ret (0, [])
     else let n = (if off + n > isize ip then isize ip - off else n) in
       readi_loop dst i (unat off) (unat n) 0 [])"

text \<open>
  The loop of \<open>writei\<close>, with the values of \<^verbatim>\<open>tot\<close> and \<^verbatim>\<open>off\<close> at its end. A copy that fails may have stored a part of
  its bytes in the buffer.
\<close>

definition splice :: "nat \<Rightarrow> u8 list \<Rightarrow> block \<Rightarrow> block" where
  "splice k bs d = take k d @ bs @ drop (k + length bs) d"

function writei_loop :: "source \<Rightarrow> nat \<Rightarrow> nat \<Rightarrow> nat \<Rightarrow> nat \<Rightarrow> ('z fsst_scheme, nat \<times> nat) kroutine" where
  "writei_loop src i off n tot s =
     (if tot < n then
        bind (bmap i (off div BSIZE)) (\<lambda>addr.
        if addr = 0 then ret (tot, off)
        else bind (inode_at i) (\<lambda>ip.
          bind (bread (idev ip) addr) (\<lambda>bp.
          let m = min (n - tot) (BSIZE - off mod BSIZE) in
          bind (copy_from src tot m) (\<lambda>(r, bs).
          bind (bind (buf_data bp) (\<lambda>d. set_buf_data bp (splice (off mod BSIZE) bs d))) (\<lambda>_.
          if r = -1 then bind (brelse bp) (\<lambda>_. ret (tot, off))
          else bind (log_write bp) (\<lambda>_.
            bind (brelse bp) (\<lambda>_.
            writei_loop src i (off + m) n (tot + m)))))))) s
      else Inr ((tot, off), s))"
  by pat_completeness auto
termination
proof (relation "measure (\<lambda>(src, i, off, n, tot, s). n - tot)", goal_cases)
  case (2 src i off n tot s)
  then have "0 < min (n - tot) (BSIZE - off mod BSIZE)" by simp
  then show ?case using 2 by (simp only: in_measure prod.case) linarith
qed simp

declare writei_loop.simps [simp del]

definition writei :: "source \<Rightarrow> nat \<Rightarrow> u32 \<Rightarrow> u32 \<Rightarrow> ('z fsst_scheme, int) kroutine" where
  "writei src i off n =
     bind (inode_at i) (\<lambda>ip.
     if off > isize ip \<or> off + n < off then ret (-1)
     else if unat (off + n) > MAXFILE * BSIZE then ret (-1)
     else bind (writei_loop src i (unat off) (unat n) 0) (\<lambda>(tot, off').
       bind (inode_at i) (\<lambda>ip.
       bind (whenever (off' > unat (isize ip)) (set_inode i (\<lambda>ip. ip\<lparr>isize := of_nat off'\<rparr>))) (\<lambda>_.
       bind (iupdate i) (\<lambda>_.
       ret (int tot))))))"

section \<open>Directories\<close>

text \<open>\<^verbatim>\<open>strncmp\<close> on strings given as byte lists; past its end a string reads as zero.\<close>

definition byte_at :: "u8 list \<Rightarrow> nat \<Rightarrow> u8" where
  "byte_at xs i = (if i < length xs then xs ! i else 0)"

fun strncmp_bytes :: "nat \<Rightarrow> nat \<Rightarrow> u8 list \<Rightarrow> u8 list \<Rightarrow> int" where
  "strncmp_bytes 0 i p q = 0"
| "strncmp_bytes (Suc n) i p q =
     (if byte_at p i \<noteq> 0 \<and> byte_at p i = byte_at q i then strncmp_bytes n (Suc i) p q
      else uint (byte_at p i) - uint (byte_at q i))"

definition namecmp :: "u8 list \<Rightarrow> u8 list \<Rightarrow> int" where
  "namecmp s t = strncmp_bytes DIRSIZ 0 s t"

text \<open>The offsets \<open>0, 16, 32, ...\<close> below the size of the directory.\<close>

definition dir_offsets :: "u32 \<Rightarrow> nat list" where
  "dir_offsets sz = map (\<lambda>k. 16 * k) [0..<(unat sz + 15) div 16]"

definition read_dirent :: "string \<Rightarrow> nat \<Rightarrow> nat \<Rightarrow> ('z fsst_scheme, dirent) kroutine" where
  "read_dirent msg dp off =
     bind (readi LocalDst dp (of_nat off) 16) (\<lambda>(r, bs).
     if r \<noteq> 16 then panic msg else ret (dirent_of bs))"

text \<open>The inode that was found, with the offset of its entry (\<^verbatim>\<open>*poff\<close>).\<close>

definition dirlookup :: "nat \<Rightarrow> u8 list \<Rightarrow> ('z fsst_scheme, (nat \<times> nat) option) kroutine" where
  "dirlookup dp name =
     bind (inode_at dp) (\<lambda>ip.
     if itype ip \<noteq> T_DIR then panic ''dirlookup not DIR''
     else search (dir_offsets (isize ip)) (\<lambda>off.
       bind (read_dirent ''dirlookup read'' dp off) (\<lambda>de.
       if de_inum de = 0 then ret None
       else if namecmp name (de_name de) = 0 then
         bind (iget (idev ip) (ucast (de_inum de))) (\<lambda>i. ret (Some (i, off)))
       else ret None)))"

text \<open>\<^verbatim>\<open>strncpy(de.name, name, DIRSIZ)\<close>\<close>

definition dir_name :: "u8 list \<Rightarrow> u8 list" where
  "dir_name name = take DIRSIZ (name @ replicate DIRSIZ 0)"

definition dirlink :: "nat \<Rightarrow> u8 list \<Rightarrow> u32 \<Rightarrow> ('z fsst_scheme, int) kroutine" where
  "dirlink dp name n =
     bind (dirlookup dp name) (\<lambda>r.
     case r of
       Some (i, _) \<Rightarrow> bind (iput i) (\<lambda>_. ret (-1))
     | None \<Rightarrow>
         bind (inode_at dp) (\<lambda>ip.
         bind (search (dir_offsets (isize ip)) (\<lambda>off.
           bind (read_dirent ''dirlink read'' dp off) (\<lambda>de.
           ret (if de_inum de = 0 then Some off else None)))) (\<lambda>r.
         let off = (case r of Some off \<Rightarrow> off | None \<Rightarrow> 16 * ((unat (isize ip) + 15) div 16));
             de = \<lparr>de_inum = ucast n, de_name = dir_name name\<rparr> in
         bind (writei (LocalSrc (dirent_bytes de)) dp (of_nat off) 16) (\<lambda>v.
         ret (if v \<noteq> 16 then -1 else 0)))))"

section \<open>Paths\<close>

abbreviation (input) slash :: u8 where "slash \<equiv> 47"

definition skipelem :: "u8 list \<Rightarrow> (u8 list \<times> u8 list) option" where
  "skipelem path =
     (let s = dropWhile (\<lambda>c. c = slash) path in
      if s = [] then None
      else let elem = takeWhile (\<lambda>c. c \<noteq> slash) s;
               rest = dropWhile (\<lambda>c. c \<noteq> slash) s;
               name = (if length elem \<ge> DIRSIZ then take DIRSIZ s else elem)
           in Some (dropWhile (\<lambda>c. c = slash) rest, name))"

lemma skipelem_shorter: "skipelem path = Some (rest, name) \<Longrightarrow> length rest < length path"
proof -
  let ?s = "dropWhile (\<lambda>c. c = slash) path"
  assume a: "skipelem path = Some (rest, name)"
  then have "?s \<noteq> []" by (auto simp: skipelem_def Let_def split: if_splits)
  then obtain c cs where s: "?s = c # cs" by (cases ?s) auto
  then have c: "c \<noteq> slash" using hd_dropWhile [OF \<open>?s \<noteq> []\<close>] by simp
  have "rest = dropWhile (\<lambda>c. c = slash) (dropWhile (\<lambda>c. c \<noteq> slash) ?s)"
    using a \<open>?s \<noteq> []\<close> unfolding skipelem_def Let_def by (simp only: if_False option.inject prod.inject)
  then have "length rest \<le> length cs"
    using s c length_dropWhile_le [of "\<lambda>c. c = slash" "dropWhile (\<lambda>c. c \<noteq> slash) ?s"] length_dropWhile_le [of "\<lambda>c. c \<noteq> slash" cs]
    by simp
  also have "length cs < length path" using s length_dropWhile_le [of "\<lambda>c. c = slash" path] by simp
  finally show ?thesis .
qed

text \<open>The loop of \<open>namex\<close>; \<open>name\<close> is the last element it saw. The inode is \<open>None\<close> on failure.\<close>

function namex_loop :: "bool \<Rightarrow> nat \<Rightarrow> u8 list \<Rightarrow> u8 list \<Rightarrow> ('z fsst_scheme, nat option \<times> u8 list) kroutine" where
  "namex_loop par i path name s =
     (case skipelem path of
        Some (rest, name) \<Rightarrow>
          bind (ilock i) (\<lambda>_.
          bind (inode_at i) (\<lambda>ip.
          if itype ip \<noteq> T_DIR then bind (iunlockput i) (\<lambda>_. ret (None, name))
          else if par \<and> rest = [] then bind (iunlock i) (\<lambda>_. ret (Some i, name))
          else bind (dirlookup i name) (\<lambda>r.
            case r of
              None \<Rightarrow> bind (iunlockput i) (\<lambda>_. ret (None, name))
            | Some (next, _) \<Rightarrow> bind (iunlockput i) (\<lambda>_. namex_loop par next rest name)))) s
      | None \<Rightarrow>
          (if par then bind (iput i) (\<lambda>_. ret (None, name)) else ret (Some i, name)) s)"
  by pat_completeness auto
termination
  by (relation "measure (\<lambda>(par, i, path, name, s). length path)") (auto dest: skipelem_shorter)

declare namex_loop.simps [simp del]

definition namex :: "u8 list \<Rightarrow> bool \<Rightarrow> ('z fsst_scheme, nat option \<times> u8 list) kroutine" where
  "namex path par =
     bind (if path \<noteq> [] \<and> hd path = slash then iget (of_nat ROOTDEV) ROOTINO
           else bind current (\<lambda>p.
             bind (gets (\<lambda>s. cwd (procs s ! p))) (\<lambda>c.
             case c of None \<Rightarrow> fail Undefined | Some i \<Rightarrow> idup i))) (\<lambda>i.
     namex_loop par i path [])"

definition namei :: "u8 list \<Rightarrow> ('z fsst_scheme, nat option) kroutine" where
  "namei path = bind (namex path False) (\<lambda>(i, _). ret i)"

definition nameiparent :: "u8 list \<Rightarrow> ('z fsst_scheme, nat option \<times> u8 list) kroutine" where
  "nameiparent path = namex path True"

end
