(* ===== verification/Uart.thy ===== *)
theory Uart
  imports Fs
begin

text \<open>
  The serial line, \<^verbatim>\<open>kernel/uart.c\<close>, and \<^verbatim>\<open>consputc\<close> of \<^verbatim>\<open>kernel/console.c\<close>. The device is the environment: \<open>uart_rx\<close> are the
  characters it has received and not yet handed over, \<open>uart_lsr\<close> what the next reads of the transmit-idle
  bit of the line status register will give (after these the device is busy), and \<open>uart_writes\<close> the
  writes to its registers, in order.
\<close>

section \<open>Definitions\<close>

abbreviation (input) UART_TX_BUF_SIZE :: nat where "UART_TX_BUF_SIZE \<equiv> 32"

record uartst = fsst +
  uart_tx_lock :: spinlock
  uart_tx_buf :: "u8 list"
  uart_tx_w :: u64
  uart_tx_r :: u64
  panicked :: bool
  uart_rx :: "u8 list"
  uart_lsr :: "bool list"
  uart_writes :: "(nat \<times> u8) list"

definition WriteReg :: "nat \<Rightarrow> u8 \<Rightarrow> ('z uartst_scheme, unit) kroutine" where
  "WriteReg r v = modify (\<lambda>s. s\<lparr>uart_writes := uart_writes s @ [(r, v)]\<rparr>)"

text \<open>\<^verbatim>\<open>ReadReg(LSR) & LSR_TX_IDLE\<close>\<close>

definition tx_idle :: "('z uartst_scheme, bool) kroutine" where
  "tx_idle s = Inr (uart_lsr s \<noteq> [] \<and> hd (uart_lsr s), s\<lparr>uart_lsr := tl (uart_lsr s)\<rparr>)"

abbreviation with_uart :: "('z uartst_scheme, 'a) kroutine \<Rightarrow> ('z uartst_scheme, 'a) kroutine" where
  "with_uart \<equiv> critical uart_tx_lock (\<lambda>lk s. s\<lparr>uart_tx_lock := lk\<rparr>)"

definition uartinit :: "('z uartst_scheme, unit) kroutine" where
  "uartinit =
     bind (WriteReg 1 0x00) (\<lambda>_.
     bind (WriteReg 3 0x80) (\<lambda>_.
     bind (WriteReg 0 0x03) (\<lambda>_.
     bind (WriteReg 1 0x00) (\<lambda>_.
     bind (WriteReg 3 0x03) (\<lambda>_.
     bind (WriteReg 2 (0x01 OR 0x06)) (\<lambda>_.
     bind (WriteReg 1 (0x02 OR 0x01)) (\<lambda>_.
     modify (\<lambda>s. s\<lparr>uart_tx_lock := initlock ''uart''\<rparr>))))))))"

definition tx_empty :: "'z uartst_scheme \<Rightarrow> bool" where
  "tx_empty s \<longleftrightarrow> uart_tx_w s = uart_tx_r s"

definition tx_full :: "'z uartst_scheme \<Rightarrow> bool" where
  "tx_full s \<longleftrightarrow> uart_tx_w s = uart_tx_r s + 32"

text \<open>\<^verbatim>\<open>uart_tx_buf[uart_tx_w % UART_TX_BUF_SIZE] = c; uart_tx_w += 1;\<close> and the read side.\<close>

definition tx_put :: "u8 \<Rightarrow> 'z uartst_scheme \<Rightarrow> 'z uartst_scheme" where
  "tx_put c s = s\<lparr>uart_tx_buf := (uart_tx_buf s)[unat (uart_tx_w s mod 32) := c], uart_tx_w := uart_tx_w s + 1\<rparr>"

definition tx_get :: "'z uartst_scheme \<Rightarrow> u8 \<times> 'z uartst_scheme" where
  "tx_get s = (uart_tx_buf s ! unat (uart_tx_r s mod 32), s\<lparr>uart_tx_r := uart_tx_r s + 1\<rparr>)"

text \<open>The loop of \<open>uartstart\<close>; every turn reads the status register once, so it ends with the answers of the device.\<close>

fun uartstart_loop :: "bool list \<Rightarrow> ('z uartst_scheme, unit) kroutine" where
  "uartstart_loop [] s = Inr ((), s)"
| "uartstart_loop (idle # rest) s =
     (if tx_empty s then Inr ((), s)
      else bind tx_idle (\<lambda>i.
        if \<not> i then ret ()
        else bind (\<lambda>s. Inr (tx_get s)) (\<lambda>c.
          bind (run (wakeup UartChan)) (\<lambda>_.
          bind (WriteReg 0 c) (\<lambda>_.
          uartstart_loop rest)))) s)"

definition uartstart :: "('z uartst_scheme, unit) kroutine" where
  "uartstart = bind (gets uart_lsr) uartstart_loop"

text \<open>After a panic the CPU spins, and so does a CPU that waits for a device that never becomes idle.\<close>

definition uartputc :: "u8 \<Rightarrow> ('z uartst_scheme, unit) kroutine" where
  "uartputc c = with_uart
     (bind (gets id) (\<lambda>s.
      if panicked s then fail Spin
      else if tx_full s then fail (Sleep UartChan)
      else bind (modify (tx_put c)) (\<lambda>_. uartstart)))"

definition wait_tx_idle :: "('z uartst_scheme, unit) kroutine" where
  "wait_tx_idle s =
     (case dropWhile (\<lambda>i. \<not> i) (uart_lsr s) of
        [] \<Rightarrow> Inl Spin
      | _ # rest \<Rightarrow> Inr ((), s\<lparr>uart_lsr := rest\<rparr>))"

definition uartputc_sync :: "u8 \<Rightarrow> ('z uartst_scheme, unit) kroutine" where
  "uartputc_sync c =
     bind (modify (\<lambda>s. s\<lparr>kcpu := push_off (kcpu s)\<rparr>)) (\<lambda>_.
     bind (gets panicked) (\<lambda>p.
     if p then fail Spin
     else bind wait_tx_idle (\<lambda>_.
       bind (WriteReg 0 c) (\<lambda>_.
       run (\<lambda>s. andthen (pop_off (kcpu s)) (\<lambda>k. Inr (s\<lparr>kcpu := k\<rparr>)))))))"

definition uartgetc :: "('z uartst_scheme, int) kroutine" where
  "uartgetc s =
     (case uart_rx s of
        [] \<Rightarrow> Inr (-1, s)
      | c # rest \<Rightarrow> Inr (uint c, s\<lparr>uart_rx := rest\<rparr>))"

abbreviation (input) BACKSPACE :: int where "BACKSPACE \<equiv> 0x100"

definition consputc :: "int \<Rightarrow> ('z uartst_scheme, unit) kroutine" where
  "consputc c =
     (if c = BACKSPACE then
        bind (uartputc_sync 8) (\<lambda>_. bind (uartputc_sync 32) (\<lambda>_. uartputc_sync 8))
      else uartputc_sync (of_int c))"

end
