(* ===== verification/Kprintf.thy ===== *)
theory Kprintf
  imports Uart
begin

text \<open>
  \<^verbatim>\<open>kernel/printf.c\<close>: formatted output on the console, and \<^verbatim>\<open>procdump\<close> of \<^verbatim>\<open>kernel/proc.c\<close>. The variable
  arguments are a list; an argument that is missing or of another kind than the directive asks for is undefined in C.
\<close>

section \<open>Definitions\<close>

record prst = uartst +
  pr_lock :: spinlock
  pr_locking :: bool

datatype fmt_arg = ArgInt u32 | ArgPtr u64 | ArgStr "u8 list option"

definition digits :: "nat \<Rightarrow> u8" where
  "digits k = (if k < 10 then of_nat (48 + k) else of_nat (87 + k))"

text \<open>The digits in the order the loop of \<open>printint\<close> makes them: the least significant first.\<close>

function digits_rev :: "nat \<Rightarrow> nat \<Rightarrow> nat list" where
  "digits_rev base x = (if base < 2 \<or> x < base then [x mod base] else x mod base # digits_rev base (x div base))"
  by pat_completeness auto
termination
  by (relation "measure snd") (auto intro: div_less_dividend)

declare digits_rev.simps [simp del]

text \<open>The characters \<open>printint\<close> sends; \<open>x\<close> is the \<^verbatim>\<open>int\<close> argument.\<close>

definition printint_chars :: "u32 \<Rightarrow> nat \<Rightarrow> bool \<Rightarrow> u8 list" where
  "printint_chars xx base sign =
     (let neg = (sign \<and> sint xx < 0);
          x = (if neg then - xx else xx);
          buf = map digits (digits_rev base (unat x)) @ (if neg then [45] else [])
      in rev buf)"

definition putchars :: "u8 list \<Rightarrow> ('z uartst_scheme, unit) kroutine" where
  "putchars cs = for_each cs (\<lambda>c. consputc (uint c))"

definition printint :: "u32 \<Rightarrow> nat \<Rightarrow> bool \<Rightarrow> ('z uartst_scheme, unit) kroutine" where
  "printint xx base sign = putchars (printint_chars xx base sign)"

definition printptr_chars :: "u64 \<Rightarrow> u8 list" where
  "printptr_chars x = [48, 120] @ map (\<lambda>i. digits (unat (drop_bit 60 (push_bit (4 * i) x)))) [0..<16]"

definition printptr :: "u64 \<Rightarrow> ('z uartst_scheme, unit) kroutine" where
  "printptr x = putchars (printptr_chars x)"

fun printf_loop :: "u8 list \<Rightarrow> fmt_arg list \<Rightarrow> ('z uartst_scheme, unit) kroutine" where
  "printf_loop [] args = ret ()"
| "printf_loop (c # cs) args =
     (if c \<noteq> 37 then bind (consputc (uint c)) (\<lambda>_. printf_loop cs args)
      else case cs of
        [] \<Rightarrow> ret ()
      | d # cs' \<Rightarrow>
          if d = 100 then
            (case args of ArgInt x # as \<Rightarrow> bind (printint x 10 True) (\<lambda>_. printf_loop cs' as) | _ \<Rightarrow> fail Undefined)
          else if d = 120 then
            (case args of ArgInt x # as \<Rightarrow> bind (printint x 16 True) (\<lambda>_. printf_loop cs' as) | _ \<Rightarrow> fail Undefined)
          else if d = 112 then
            (case args of ArgPtr x # as \<Rightarrow> bind (printptr x) (\<lambda>_. printf_loop cs' as) | _ \<Rightarrow> fail Undefined)
          else if d = 115 then
            (case args of
               ArgStr str # as \<Rightarrow>
                 bind (putchars (case str of None \<Rightarrow> [40, 110, 117, 108, 108, 41] | Some bs \<Rightarrow> bs)) (\<lambda>_. printf_loop cs' as)
             | _ \<Rightarrow> fail Undefined)
          else if d = 37 then bind (consputc 37) (\<lambda>_. printf_loop cs' args)
          else bind (consputc 37) (\<lambda>_. bind (consputc (uint d)) (\<lambda>_. printf_loop cs' args)))"

definition printf :: "u8 list \<Rightarrow> fmt_arg list \<Rightarrow> ('z prst_scheme, unit) kroutine" where
  "printf fmt args =
     bind (gets pr_locking) (\<lambda>locking.
     if locking then critical pr_lock (\<lambda>lk s. s\<lparr>pr_lock := lk\<rparr>) (printf_loop fmt args)
     else printf_loop fmt args)"

definition printfinit :: "'z prst_scheme \<Rightarrow> 'z prst_scheme" where
  "printfinit s = s\<lparr>pr_lock := initlock ''pr'', pr_locking := True\<rparr>"

text \<open>A C string constant.\<close>

definition cstr :: "string \<Rightarrow> u8 list" where
  "cstr = map (\<lambda>c. of_nat (of_char c))"

fun state_name :: "procstate \<Rightarrow> string" where
  "state_name UNUSED = ''unused''"
| "state_name USED = ''used''"
| "state_name SLEEPING = ''sleep ''"
| "state_name RUNNABLE = ''runble''"
| "state_name RUNNING = ''run   ''"
| "state_name ZOMBIE = ''zombie''"

definition procdump :: "('z prst_scheme, unit) kroutine" where
  "procdump =
     bind (printf (cstr [CHR 0x0A]) []) (\<lambda>_.
     for_each [0..<NPROC] (\<lambda>i.
       bind (gets (\<lambda>s. procs s ! i)) (\<lambda>p.
       whenever (pstate p \<noteq> UNUSED)
         (bind (printf (cstr ''%d %s %s'')
            [ArgInt (of_int (pid p)), ArgStr (Some (cstr (state_name (pstate p)))), ArgStr (Some (takeWhile (\<lambda>c. c \<noteq> 0) (pname p)))]) (\<lambda>_.
          printf (cstr [CHR 0x0A]) [])))))"

end
