(* ===== verification/Console.thy ===== *)
theory Console
  imports Kprintf
begin

text \<open>
  The console, \<^verbatim>\<open>kernel/console.c\<close>: line editing of what is typed, and reads and writes of the console device. With the rest
  of \<^verbatim>\<open>kernel/uart.c\<close>, which calls it.
\<close>

section \<open>Definitions\<close>

abbreviation (input) INPUT_BUF_SIZE :: nat where "INPUT_BUF_SIZE \<equiv> 128"

text \<open>
  The devices that \<^verbatim>\<open>devsw[]\<close> can connect; an entry of the table is \<open>None\<close> where its function pointers are null. (The
  read and the write function of an entry are always set together.)
\<close>

datatype device = ConsoleDevice

record consst = prst +
  cons_lock :: spinlock
  cons_buf :: "u8 list"
  cons_r :: u32
  cons_w :: u32
  cons_e :: u32
  devsw :: "device option list"

abbreviation with_cons :: "('z consst_scheme, 'a) kroutine \<Rightarrow> ('z consst_scheme, 'a) kroutine" where
  "with_cons \<equiv> critical cons_lock (\<lambda>lk s. s\<lparr>cons_lock := lk\<rparr>)"

definition consolewrite_loop :: "bool \<Rightarrow> u64 \<Rightarrow> nat \<Rightarrow> ('z consst_scheme, unit option) kroutine" where
  "consolewrite_loop user_src src i =
     bind (\<lambda>s. take_in (either_copyin user_src (src + of_nat i) 1 s)) (\<lambda>(r, bs).
     if r = -1 then ret (Some ()) else bind (uartputc (hd bs)) (\<lambda>_. ret None))"

text \<open>The loop counter at the end is the number of characters sent.\<close>

fun count_until :: "nat list \<Rightarrow> (nat \<Rightarrow> ('s, unit option) kroutine) \<Rightarrow> ('s, nat) kroutine" where
  "count_until [] f = ret 0"
| "count_until (x # xs) f =
     bind (f x) (\<lambda>r. case r of Some _ \<Rightarrow> ret 0 | None \<Rightarrow> bind (count_until xs f) (\<lambda>k. ret (Suc k)))"

definition consolewrite :: "bool \<Rightarrow> u64 \<Rightarrow> int \<Rightarrow> ('z consst_scheme, int) kroutine" where
  "consolewrite user_src src n =
     bind (count_until [0..<nat n] (consolewrite_loop user_src src)) (\<lambda>i. ret (int i))"

text \<open>
  The loop of \<open>consoleread\<close>: \<open>n\<close> characters are still wanted of the \<open>target\<close> ones, \<open>dst\<close> is the next address. It returns
  the final \<open>n\<close>, or \<open>None\<close> for the exit of a killed reader.
\<close>

fun consoleread_loop :: "bool \<Rightarrow> u64 \<Rightarrow> nat \<Rightarrow> nat \<Rightarrow> ('z consst_scheme, nat option) kroutine" where
  "consoleread_loop user_dst dst target 0 = ret (Some 0)"
| "consoleread_loop user_dst dst target (Suc n) =
     bind (gets id) (\<lambda>s.
     if cons_r s = cons_w s then
       bind current (\<lambda>p. bind (killed p) (\<lambda>k.
       if k \<noteq> 0 then ret None else fail (Sleep ConsChan)))
     else
       let c = cons_buf s ! unat (cons_r s mod 128) in
       bind (modify (\<lambda>s. s\<lparr>cons_r := cons_r s + 1\<rparr>)) (\<lambda>_.
       if c = 4 then
         bind (whenever (Suc n < target) (modify (\<lambda>s. s\<lparr>cons_r := cons_r s - 1\<rparr>))) (\<lambda>_. ret (Some (Suc n)))
       else bind (either_copyout user_dst dst [c]) (\<lambda>r.
         if r = -1 then ret (Some (Suc n))
         else if c = 10 then ret (Some n)
         else consoleread_loop user_dst (dst + 1) target n)))"

definition consoleread :: "bool \<Rightarrow> u64 \<Rightarrow> int \<Rightarrow> ('z consst_scheme, int) kroutine" where
  "consoleread user_dst dst n =
     with_cons
       (if n > 0 then
          bind (consoleread_loop user_dst dst (nat n) (nat n)) (\<lambda>r.
          ret (case r of None \<Rightarrow> -1 | Some k \<Rightarrow> n - int k))
        else ret 0)"

text \<open>The loop of control-U. The counters are 32-bit; the fuel is the number of characters that can be erased.\<close>

fun kill_line :: "nat \<Rightarrow> ('z consst_scheme, unit) kroutine" where
  "kill_line 0 = fail OutOfFuel"
| "kill_line (Suc k) =
     bind (gets id) (\<lambda>s.
     if cons_e s \<noteq> cons_w s \<and> cons_buf s ! unat ((cons_e s - 1) mod 128) \<noteq> 10 then
       bind (modify (\<lambda>s. s\<lparr>cons_e := cons_e s - 1\<rparr>)) (\<lambda>_.
       bind (consputc BACKSPACE) (\<lambda>_.
       kill_line k))
     else ret ())"

definition cons_store :: "u8 \<Rightarrow> 'z consst_scheme \<Rightarrow> 'z consst_scheme" where
  "cons_store c s = s\<lparr>cons_buf := (cons_buf s)[unat (cons_e s mod 128) := c], cons_e := cons_e s + 1\<rparr>"

definition consoleintr :: "int \<Rightarrow> ('z consst_scheme, unit) kroutine" where
  "consoleintr c = with_cons
     (if c = 16 then procdump
      else if c = 21 then bind (gets (\<lambda>s. Suc (unat (cons_e s - cons_w s)))) kill_line
      else if c = 8 \<or> c = 127 then
        bind (gets id) (\<lambda>s.
        whenever (cons_e s \<noteq> cons_w s)
          (bind (modify (\<lambda>s. s\<lparr>cons_e := cons_e s - 1\<rparr>)) (\<lambda>_. consputc BACKSPACE)))
      else
        bind (gets id) (\<lambda>s.
        whenever (c \<noteq> 0 \<and> unat (cons_e s - cons_r s) < INPUT_BUF_SIZE)
          (let c = (if c = 13 then 10 else c) in
           bind (consputc c) (\<lambda>_.
           bind (modify (cons_store (of_int c))) (\<lambda>_.
           bind (gets id) (\<lambda>s.
           whenever (c = 10 \<or> c = 4 \<or> unat (cons_e s - cons_r s) = INPUT_BUF_SIZE)
             (bind (modify (\<lambda>s. s\<lparr>cons_w := cons_e s\<rparr>)) (\<lambda>_.
              run (wakeup ConsChan)))))))))"

text \<open>\<^verbatim>\<open>uartintr\<close>: all characters that have arrived, then the transmit buffer.\<close>

definition uartintr :: "('z consst_scheme, unit) kroutine" where
  "uartintr =
     bind (bind (gets uart_rx) (\<lambda>cs.
       for_each cs (\<lambda>_. bind uartgetc consoleintr))) (\<lambda>_.
     with_uart uartstart)"

definition consoleinit :: "('z consst_scheme, unit) kroutine" where
  "consoleinit =
     bind (modify (\<lambda>s. s\<lparr>cons_lock := initlock ''cons''\<rparr>)) (\<lambda>_.
     bind uartinit (\<lambda>_.
     modify (\<lambda>s. s\<lparr>devsw := (devsw s)[1 := Some ConsoleDevice]\<rparr>)))"

end
