(* ===== verification/File.thy ===== *)
theory File
  imports Console
begin

text \<open>
  Open files, \<^verbatim>\<open>kernel/file.c\<close>, and \<^verbatim>\<open>pipealloc\<close> of \<^verbatim>\<open>kernel/pipe.c\<close>. A file is its index in \<^verbatim>\<open>ftable.file\<close>.
\<close>

section \<open>Definitions\<close>

datatype filetype = FD_NONE | FD_PIPE | FD_INODE | FD_DEVICE

record openfile =
  ftype :: filetype
  fref :: int
  freadable :: bool
  fwritable :: bool
  fpipe :: u64
  fip :: nat
  foff :: u32
  fmajor :: u16

record filest = consst +
  ftable_lock :: spinlock
  files :: "openfile list"

abbreviation with_ftable :: "('z filest_scheme, 'a) kroutine \<Rightarrow> ('z filest_scheme, 'a) kroutine" where
  "with_ftable \<equiv> critical ftable_lock (\<lambda>lk s. s\<lparr>ftable_lock := lk\<rparr>)"

definition upd_file :: "nat \<Rightarrow> (openfile \<Rightarrow> openfile) \<Rightarrow> 'z filest_scheme \<Rightarrow> 'z filest_scheme" where
  "upd_file f g s = s\<lparr>files := (files s)[f := g (files s ! f)]\<rparr>"

definition file_at :: "nat \<Rightarrow> ('z filest_scheme, openfile) kroutine" where
  "file_at f = gets (\<lambda>s. files s ! f)"

definition fileinit :: "'z filest_scheme \<Rightarrow> 'z filest_scheme" where
  "fileinit s = s\<lparr>ftable_lock := initlock ''ftable''\<rparr>"

definition filealloc_entry :: "('z filest_scheme, nat option) kroutine" where
  "filealloc_entry s =
     (case find_index (\<lambda>f. fref f = 0) (files s) of
        Some f \<Rightarrow> Inr (Some f, upd_file f (\<lambda>x. x\<lparr>fref := 1\<rparr>) s)
      | None \<Rightarrow> Inr (None, s))"

definition filealloc :: "('z filest_scheme, nat option) kroutine" where
  "filealloc = with_ftable filealloc_entry"

definition filedup :: "nat \<Rightarrow> ('z filest_scheme, nat) kroutine" where
  "filedup f =
     bind (with_ftable (bind (file_at f) (\<lambda>x.
       if fref x < 1 then panic ''filedup'' else modify (upd_file f (\<lambda>x. x\<lparr>fref := fref x + 1\<rparr>))))) (\<lambda>_.
     ret f)"

text \<open>The critical section of \<open>fileclose\<close>; its result is the copy \<^verbatim>\<open>ff\<close> when this was the last reference.\<close>

definition fileclose_entry :: "nat \<Rightarrow> ('z filest_scheme, openfile option) kroutine" where
  "fileclose_entry f =
     bind (file_at f) (\<lambda>x.
     if fref x < 1 then panic ''fileclose''
     else bind (modify (upd_file f (\<lambda>x. x\<lparr>fref := fref x - 1\<rparr>))) (\<lambda>_.
       bind (file_at f) (\<lambda>ff.
       if fref ff > 0 then ret None
       else bind (modify (upd_file f (\<lambda>x. x\<lparr>fref := 0, ftype := FD_NONE\<rparr>))) (\<lambda>_. ret (Some ff)))))"

definition fileclose :: "u64 \<Rightarrow> nat \<Rightarrow> ('z filest_scheme, unit) kroutine" where
  "fileclose kend f =
     bind (with_ftable (fileclose_entry f)) (\<lambda>r.
     case r of
       None \<Rightarrow> ret ()
     | Some ff \<Rightarrow>
         if ftype ff = FD_PIPE then run (pipeclose kend (fpipe ff) (fwritable ff))
         else whenever (ftype ff = FD_INODE \<or> ftype ff = FD_DEVICE)
           (bind begin_op (\<lambda>_. bind (iput (fip ff)) (\<lambda>_. end_op))))"

text \<open>\<^verbatim>\<open>struct stat\<close> in memory, with the padding of the C layout (24 bytes).\<close>

definition stat_bytes :: "stat \<Rightarrow> u8 list" where
  "stat_bytes st = le_bytes 4 (nat (st_dev st mod 2 ^ 32)) @ le_bytes 4 (unat (st_ino st)) @ le_bytes 2 (unat (st_type st)) @
     le_bytes 2 (unat (st_nlink st)) @ replicate 4 0 @ le_bytes 8 (unat (st_size st))"

definition filestat :: "nat \<Rightarrow> u64 \<Rightarrow> ('z filest_scheme, int) kroutine" where
  "filestat f addr =
     bind current (\<lambda>p.
     bind (file_at f) (\<lambda>x.
     if ftype x = FD_INODE \<or> ftype x = FD_DEVICE then
       bind (ilock (fip x)) (\<lambda>_.
       bind (inode_at (fip x)) (\<lambda>ip.
       bind (iunlock (fip x)) (\<lambda>_.
       bind (gets (\<lambda>s. pagetable (procs s ! p))) (\<lambda>pt.
       bind (copyout_bytes pt addr (stat_bytes (stati ip))) (\<lambda>r.
       ret (if r < 0 then -1 else 0))))))
     else ret (-1)))"

text \<open>A read or write of a pipe that goes to sleep does not return.\<close>

definition pipe_result :: "chan \<Rightarrow> outcome \<Rightarrow> ('z filest_scheme, int) kroutine" where
  "pipe_result ch r = (case r of Returned v \<Rightarrow> ret v | Asleep _ \<Rightarrow> fail (Sleep ch))"

definition device_at :: "u16 \<Rightarrow> ('z filest_scheme, device option) kroutine" where
  "device_at m =
     (if sint m < 0 \<or> sint m \<ge> int NDEV then ret None else gets (\<lambda>s. devsw s ! unat m))"

definition fileread :: "nat \<Rightarrow> u64 \<Rightarrow> int \<Rightarrow> ('z filest_scheme, int) kroutine" where
  "fileread f addr n =
     bind (file_at f) (\<lambda>x.
     if \<not> freadable x then ret (-1)
     else case ftype x of
       FD_PIPE \<Rightarrow> bind (piperead (fpipe x) addr n) (pipe_result (PipeReadChan (fpipe x)))
     | FD_DEVICE \<Rightarrow>
         bind (device_at (fmajor x)) (\<lambda>d.
         case d of None \<Rightarrow> ret (-1) | Some ConsoleDevice \<Rightarrow> consoleread True addr n)
     | FD_INODE \<Rightarrow>
         bind (ilock (fip x)) (\<lambda>_.
         bind (readi (UserDst addr) (fip x) (foff x) (of_int n)) (\<lambda>(r, _).
         bind (whenever (r > 0) (modify (upd_file f (\<lambda>x. x\<lparr>foff := foff x + of_int r\<rparr>)))) (\<lambda>_.
         bind (iunlock (fip x)) (\<lambda>_.
         ret r))))
     | FD_NONE \<Rightarrow> panic ''fileread'')"

text \<open>
  The loop of \<open>filewrite\<close> for an inode, from the counter \<open>i\<close>; \<open>max\<close> is \<^verbatim>\<open>((MAXOPBLOCKS-1-1-2) / 2) * BSIZE\<close>. It returns
  the final counter.
\<close>

definition write_max :: nat where
  "write_max = (MAXOPBLOCKS - 1 - 1 - 2) div 2 * BSIZE"

function filewrite_loop :: "nat \<Rightarrow> u64 \<Rightarrow> nat \<Rightarrow> nat \<Rightarrow> ('z filest_scheme, nat) kroutine" where
  "filewrite_loop f addr n i s =
     (if i < n then
        let n1 = min (n - i) write_max in
        bind begin_op (\<lambda>_.
        bind (file_at f) (\<lambda>x.
        bind (ilock (fip x)) (\<lambda>_.
        bind (writei (UserSrc (addr + of_nat i)) (fip x) (foff x) (of_nat n1)) (\<lambda>r.
        bind (whenever (r > 0) (modify (upd_file f (\<lambda>x. x\<lparr>foff := foff x + of_int r\<rparr>)))) (\<lambda>_.
        bind (iunlock (fip x)) (\<lambda>_.
        bind end_op (\<lambda>_.
        if r \<noteq> int n1 then ret i else filewrite_loop f addr n (i + n1)))))))) s
      else Inr (i, s))"
  by pat_completeness auto
termination
  by (relation "measure (\<lambda>(f, addr, n, i, s). n - i)") (auto simp: write_max_def)

declare filewrite_loop.simps [simp del]

definition filewrite :: "nat \<Rightarrow> u64 \<Rightarrow> int \<Rightarrow> ('z filest_scheme, int) kroutine" where
  "filewrite f addr n =
     bind (file_at f) (\<lambda>x.
     if \<not> fwritable x then ret (-1)
     else case ftype x of
       FD_PIPE \<Rightarrow> bind (pipewrite (fpipe x) addr n) (pipe_result (PipeWriteChan (fpipe x)))
     | FD_DEVICE \<Rightarrow>
         bind (device_at (fmajor x)) (\<lambda>d.
         case d of None \<Rightarrow> ret (-1) | Some ConsoleDevice \<Rightarrow> consolewrite True addr n)
     | FD_INODE \<Rightarrow> bind (filewrite_loop f addr (nat n) 0) (\<lambda>i. ret (if int i = n then n else -1))
     | FD_NONE \<Rightarrow> panic ''filewrite'')"

subsection \<open>pipealloc\<close>

text \<open>A fresh pipe: the page it lies in is not cleared, so its data are the bytes the page has.\<close>

definition fresh_pipe :: "u8 list \<Rightarrow> pipe" where
  "fresh_pipe junk = \<lparr>pipe_lock = initlock ''pipe'', pipe_data = junk, nread = 0, nwrite = 0, readopen = True, writeopen = True\<rparr>"

definition pipealloc_bad :: "u64 \<Rightarrow> u64 \<Rightarrow> nat option \<Rightarrow> nat option \<Rightarrow> ('z filest_scheme, (nat \<times> nat) option) kroutine" where
  "pipealloc_bad kend pi f0 f1 =
     bind (whenever (pi \<noteq> 0) (run (kfree kend pi))) (\<lambda>_.
     bind (case f0 of None \<Rightarrow> ret () | Some f \<Rightarrow> fileclose kend f) (\<lambda>_.
     bind (case f1 of None \<Rightarrow> ret () | Some f \<Rightarrow> fileclose kend f) (\<lambda>_.
     ret None)))"

text \<open>The read end and the write end, or \<open>None\<close> for the result -1.\<close>

definition pipealloc :: "u64 \<Rightarrow> ('z filest_scheme, (nat \<times> nat) option) kroutine" where
  "pipealloc kend =
     bind filealloc (\<lambda>r0.
     case r0 of
       None \<Rightarrow> pipealloc_bad kend 0 None None
     | Some f0 \<Rightarrow>
         bind filealloc (\<lambda>r1.
         case r1 of
           None \<Rightarrow> pipealloc_bad kend 0 (Some f0) None
         | Some f1 \<Rightarrow>
             bind kalloc (\<lambda>pi.
             if pi = 0 then pipealloc_bad kend 0 (Some f0) (Some f1)
             else
               bind (modify (\<lambda>s. s\<lparr>pipes := (pipes s)(pi := fresh_pipe (bytes_at (ram s) (pi + 24) PIPESIZE))\<rparr>)) (\<lambda>_.
               bind (modify (upd_file f0 (\<lambda>x. x\<lparr>ftype := FD_PIPE, freadable := True, fwritable := False, fpipe := pi\<rparr>))) (\<lambda>_.
               bind (modify (upd_file f1 (\<lambda>x. x\<lparr>ftype := FD_PIPE, freadable := False, fwritable := True, fpipe := pi\<rparr>))) (\<lambda>_.
               ret (Some (f0, f1))))))))"

end
