(* ===== verification/Lifecycle.thy ===== *)
theory Lifecycle
  imports File
begin

text \<open>
  The routines of \<^verbatim>\<open>kernel/proc.c\<close> that also work on open files and inodes: \<^verbatim>\<open>userinit\<close>, \<^verbatim>\<open>fork\<close> and \<^verbatim>\<open>exit\<close>. The
  trap frame of a process is a \<^verbatim>\<open>struct trapframe\<close> in the page \<open>trapframe\<close> of physical memory.
\<close>

section \<open>Definitions\<close>

text \<open>Byte offsets in \<^verbatim>\<open>struct trapframe\<close>, which has 36 registers of 8 bytes.\<close>

abbreviation (input) TF_EPC :: u64 where "TF_EPC \<equiv> 24"
abbreviation (input) TF_SP :: u64 where "TF_SP \<equiv> 48"
abbreviation (input) TF_A0 :: u64 where "TF_A0 \<equiv> 112"
abbreviation (input) TF_A1 :: u64 where "TF_A1 \<equiv> 120"
abbreviation (input) TF_A7 :: u64 where "TF_A7 \<equiv> 168"
abbreviation (input) TF_SIZE :: nat where "TF_SIZE \<equiv> 288"

definition tf_get :: "nat \<Rightarrow> u64 \<Rightarrow> 'z pst_scheme \<Rightarrow> u64" where
  "tf_get p k s = load64 (ram s) (trapframe (procs s ! p) + k)"

definition tf_set :: "nat \<Rightarrow> u64 \<Rightarrow> u64 \<Rightarrow> 'z pst_scheme \<Rightarrow> 'z pst_scheme" where
  "tf_set p k v s = s\<lparr>ram := store64 (ram s) (trapframe (procs s ! p) + k) v\<rparr>"

text \<open>
  \<^verbatim>\<open>safestrcpy(dst, src, sizeof(dst))\<close> where \<open>dst\<close> is an array kept as a list and \<open>src\<close> a string: after a short string there are two
  zeros, the one it ends with and the one \<^verbatim>\<open>safestrcpy\<close> adds.
\<close>

definition safestrcpy_list :: "u8 list \<Rightarrow> u8 list \<Rightarrow> u8 list" where
  "safestrcpy_list dst src =
     (let n = length dst - 1 in
      if length src < n then src @ [0, 0] @ drop (length src + 2) dst
      else take n src @ [0])"

definition proc_at :: "nat \<Rightarrow> ('z pst_scheme, proc) kroutine" where
  "proc_at i = gets (\<lambda>s. procs s ! i)"

definition set_proc :: "nat \<Rightarrow> (proc \<Rightarrow> proc) \<Rightarrow> ('z pst_scheme, unit) kroutine" where
  "set_proc i f = modify (upd_proc i f)"

definition dup_cwd :: "nat \<Rightarrow> ('z filest_scheme, nat) kroutine" where
  "dup_cwd p = bind (proc_at p) (\<lambda>q. case cwd q of None \<Rightarrow> fail Undefined | Some i \<Rightarrow> idup i)"

text \<open>\<open>icode\<close> is the address of \<^verbatim>\<open>initcode\<close>, which has 52 bytes. Without a free process the pointer is null.\<close>

definition userinit :: "symbols \<Rightarrow> u64 \<Rightarrow> ('z filest_scheme, unit) kroutine" where
  "userinit y icode =
     bind (allocproc y) (\<lambda>r.
     case r of
       None \<Rightarrow> fail Undefined
     | Some p \<Rightarrow>
         bind (modify (\<lambda>s. s\<lparr>initproc := Some p\<rparr>)) (\<lambda>_.
         bind (proc_at p) (\<lambda>q.
         bind (run (uvmfirst (pagetable q) icode 52)) (\<lambda>_.
         bind (set_proc p (\<lambda>q. q\<lparr>psz := PGSIZE\<rparr>)) (\<lambda>_.
         bind (modify (tf_set p TF_EPC 0)) (\<lambda>_.
         bind (modify (tf_set p TF_SP PGSIZE)) (\<lambda>_.
         bind (set_proc p (\<lambda>q. q\<lparr>pname := safestrcpy_list (pname q) (cstr ''initcode'')\<rparr>)) (\<lambda>_.
         bind (namei (cstr ''/'')) (\<lambda>i.
         bind (set_proc p (\<lambda>q. q\<lparr>cwd := i, pstate := RUNNABLE\<rparr>)) (\<lambda>_.
         run (release_proc p)))))))))))"

text \<open>\<^verbatim>\<open>*(np->trapframe) = *(p->trapframe); np->trapframe->a0 = 0;\<close>\<close>

definition copy_trapframe :: "nat \<Rightarrow> nat \<Rightarrow> 'z pst_scheme \<Rightarrow> 'z pst_scheme" where
  "copy_trapframe p np s =
     tf_set np TF_A0 0
       (s\<lparr>ram := store_bytes (ram s) (trapframe (procs s ! np)) (bytes_at (ram s) (trapframe (procs s ! p)) TF_SIZE)\<rparr>)"

definition fork_files :: "nat \<Rightarrow> nat \<Rightarrow> ('z filest_scheme, unit) kroutine" where
  "fork_files p np =
     for_each [0..<NOFILE] (\<lambda>i.
       bind (proc_at p) (\<lambda>q.
       case ofile q ! i of
         None \<Rightarrow> ret ()
       | Some f \<Rightarrow> bind (filedup f) (\<lambda>f. set_proc np (\<lambda>q. q\<lparr>ofile := (ofile q)[i := Some f]\<rparr>))))"

definition fork :: "symbols \<Rightarrow> ('z filest_scheme, int) kroutine" where
  "fork y =
     bind current (\<lambda>p.
     bind (allocproc y) (\<lambda>r.
     case r of
       None \<Rightarrow> ret (-1)
     | Some np \<Rightarrow>
         bind (\<lambda>s. uvmcopy (sym_end y) (pagetable (procs s ! p)) (pagetable (procs s ! np)) (psz (procs s ! p)) s) (\<lambda>v.
         if v < 0 then
           bind (run (freeproc y np)) (\<lambda>_.
           bind (run (release_proc np)) (\<lambda>_.
           ret (-1)))
         else
           bind (proc_at p) (\<lambda>q.
           bind (set_proc np (\<lambda>r. r\<lparr>psz := psz q\<rparr>)) (\<lambda>_.
           bind (modify (copy_trapframe p np)) (\<lambda>_.
           bind (fork_files p np) (\<lambda>_.
           bind (dup_cwd p) (\<lambda>i.
           bind (set_proc np (\<lambda>r. r\<lparr>cwd := Some i\<rparr>)) (\<lambda>_.
           bind (set_proc np (\<lambda>r. r\<lparr>pname := safestrcpy_list (pname r) (takeWhile (\<lambda>c. c \<noteq> 0) (pname q))\<rparr>)) (\<lambda>_.
           bind (proc_at np) (\<lambda>n.
           bind (run (release_proc np)) (\<lambda>_.
           bind (critical wait_lock (\<lambda>lk s. s\<lparr>wait_lock := lk\<rparr>) (set_proc np (\<lambda>r. r\<lparr>parent := Some p\<rparr>))) (\<lambda>_.
           bind (critical (proc_lock np) (set_proc_lock np) (set_proc np (\<lambda>r. r\<lparr>pstate := RUNNABLE\<rparr>))) (\<lambda>_.
           ret (pid n)))))))))))))))"

definition exit_files :: "u64 \<Rightarrow> nat \<Rightarrow> ('z filest_scheme, unit) kroutine" where
  "exit_files kend p =
     for_each [0..<NOFILE] (\<lambda>fd.
       bind (proc_at p) (\<lambda>q.
       case ofile q ! fd of
         None \<Rightarrow> ret ()
       | Some f \<Rightarrow> bind (fileclose kend f) (\<lambda>_. set_proc p (\<lambda>q. q\<lparr>ofile := (ofile q)[fd := None]\<rparr>))))"

text \<open>It ends at the context switch, from which an exiting process does not come back.\<close>

definition kexit :: "symbols \<Rightarrow> int \<Rightarrow> ('z filest_scheme, unit) kroutine" where
  "kexit y status =
     bind current (\<lambda>p.
     bind (gets initproc) (\<lambda>ini.
     if ini = Some p then panic ''init exiting''
     else bind (exit_files (sym_end y) p) (\<lambda>_.
       bind begin_op (\<lambda>_.
       bind (proc_at p) (\<lambda>q.
       bind (case cwd q of None \<Rightarrow> fail Undefined | Some i \<Rightarrow> iput i) (\<lambda>_.
       bind end_op (\<lambda>_.
       bind (set_proc p (\<lambda>q. q\<lparr>cwd := None\<rparr>)) (\<lambda>_.
       run (exit_zombie p status)))))))))"

end
