(* ===== verification/Syscall_Args.thy ===== *)
theory Syscall_Args
  imports Lifecycle
begin

text \<open>
  How system calls get at their arguments: \<^verbatim>\<open>fetchaddr\<close>, \<^verbatim>\<open>fetchstr\<close> and the \<^verbatim>\<open>arg\<close> routines of \<^verbatim>\<open>kernel/syscall.c\<close>. A
  string that is copied to a local array of the kernel is a byte list; \<open>fetchstr\<close> itself copies to kernel memory.
\<close>

section \<open>Definitions\<close>

text \<open>
  \<open>copyinstr\<close> of \<^verbatim>\<open>vm.c\<close> into a local array: the string without its zero byte, or \<open>None\<close> for the result -1.
\<close>

function copyinstr_list :: "u64 \<Rightarrow> u64 \<Rightarrow> nat \<Rightarrow> 'z kst_scheme \<Rightarrow> (u8 list option \<times> 'z kst_scheme) result" where
  "copyinstr_list pt srcva mx s =
     (if mx > 0 then
        let va0 = PGROUNDDOWN srcva in
        andthen (walkaddr pt va0 s) (\<lambda>(pa0, s1).
          if pa0 = 0 then Inr (None, s1)
          else let n = page_room srcva mx;
                   bs = bytes_at (ram s1) (pa0 + (srcva - va0)) n in
            if 0 \<in> set bs then Inr (Some (takeWhile (\<lambda>c. c \<noteq> 0) bs), s1)
            else andthen (copyinstr_list pt (va0 + PGSIZE) (mx - n) s1) (\<lambda>(r, s2).
              Inr (map_option (\<lambda>cs. bs @ cs) r, s2)))
      else Inr (None, s))"
  by pat_completeness auto
termination
  by (relation "measure (\<lambda>(pt, srcva, mx, s). mx)") (auto simp: page_room_pos)

declare copyinstr_list.simps [simp del]

definition fetchaddr :: "u64 \<Rightarrow> ('z pst_scheme, u64 option) kroutine" where
  "fetchaddr addr =
     bind current (\<lambda>p.
     bind (proc_at p) (\<lambda>q.
     if addr \<ge> psz q \<or> addr + 8 > psz q then ret None
     else bind (\<lambda>s. take_in (copyin_bytes (pagetable q) addr 8 s)) (\<lambda>(r, bs).
       ret (if r \<noteq> 0 then None else Some (of_nat (le_val bs))))))"

text \<open>\<open>fetchstr\<close> into the kernel memory at \<open>buf\<close>.\<close>

definition fetchstr :: "u64 \<Rightarrow> u64 \<Rightarrow> u64 \<Rightarrow> ('z pst_scheme, int) kroutine" where
  "fetchstr addr buf mx =
     bind current (\<lambda>p.
     bind (proc_at p) (\<lambda>q.
     bind (copyinstr (pagetable q) buf addr mx) (\<lambda>r.
     if r < 0 then ret (-1)
     else bind (gets (\<lambda>s. strlen (ram s) buf)) (\<lambda>n.
       case n of None \<Rightarrow> fail OutOfFuel | Some n \<Rightarrow> ret (int n)))))"

definition argraw :: "nat \<Rightarrow> ('z pst_scheme, u64) kroutine" where
  "argraw n =
     bind current (\<lambda>p.
     if n \<le> 5 then gets (tf_get p (TF_A0 + 8 * of_nat n)) else panic ''argraw'')"

definition argint :: "nat \<Rightarrow> ('z pst_scheme, int) kroutine" where
  "argint n = bind (argraw n) (\<lambda>w. ret (sint (ucast w :: u32)))"

definition argaddr :: "nat \<Rightarrow> ('z pst_scheme, u64) kroutine" where
  "argaddr n = argraw n"

definition argstr :: "nat \<Rightarrow> nat \<Rightarrow> ('z pst_scheme, u8 list option) kroutine" where
  "argstr n mx =
     bind (argaddr n) (\<lambda>addr.
     bind current (\<lambda>p.
     bind (proc_at p) (\<lambda>q.
     copyinstr_list (pagetable q) addr mx)))"

end
