(* ===== verification/Exec.thy ===== *)
theory Exec
  imports Syscall_Args
begin

text \<open>
  \<^verbatim>\<open>kernel/exec.c\<close>: a new user image from an ELF file. The headers of the file are read into local variables; \<open>argv\<close> are the
  addresses of the argument strings in kernel memory. An exit through the label \<^verbatim>\<open>bad\<close> of a part of
  \<open>exec\<close> is the value \<open>None\<close>, together with the size of the image at that point.
\<close>

section \<open>Definitions\<close>

abbreviation (input) ELF_MAGIC :: u32 where "ELF_MAGIC \<equiv> 0x464C457F"

record elfhdr =
  elf_magic :: u32
  elf_entry :: u64
  elf_phoff :: u64
  elf_phnum :: u16

record proghdr =
  ph_type :: u32
  ph_flags :: u32
  ph_off :: u64
  ph_vaddr :: u64
  ph_filesz :: u64
  ph_memsz :: u64

definition get64 :: "u8 list \<Rightarrow> nat \<Rightarrow> u64" where
  "get64 d o' = of_nat (le_val (take 8 (drop o' d)))"

text \<open>The fields of the 64-byte file header and the 56-byte program header that \<open>exec\<close> looks at.\<close>

definition elfhdr_of :: "u8 list \<Rightarrow> elfhdr" where
  "elfhdr_of bs = \<lparr>elf_magic = get32 bs 0, elf_entry = get64 bs 24, elf_phoff = get64 bs 32, elf_phnum = get16 bs 56\<rparr>"

definition proghdr_of :: "u8 list \<Rightarrow> proghdr" where
  "proghdr_of bs = \<lparr>ph_type = get32 bs 0, ph_flags = get32 bs 1, ph_off = get64 bs 8, ph_vaddr = get64 bs 16,
     ph_filesz = get64 bs 32, ph_memsz = get64 bs 40\<rparr>"

definition flags2perm :: "u32 \<Rightarrow> u64" where
  "flags2perm flags =
     (let perm = (if flags AND 0x1 \<noteq> 0 then PTE_X else 0)
      in if flags AND 0x2 \<noteq> 0 then perm OR PTE_W else perm)"

definition loadseg_page :: "u64 \<Rightarrow> u64 \<Rightarrow> nat \<Rightarrow> u32 \<Rightarrow> nat \<Rightarrow> nat \<Rightarrow> ('z fsst_scheme, unit option) kroutine" where
  "loadseg_page pt va ip offset sz i =
     bind (walkaddr pt (va + of_nat i)) (\<lambda>pa.
     if pa = 0 then panic ''loadseg: address should exist''
     else let n = min (sz - i) 4096 in
       bind (readi (KernelDst pa) ip (offset + of_nat i) (of_nat n)) (\<lambda>(r, _).
       ret (if r \<noteq> int n then Some () else None)))"

definition loadseg :: "u64 \<Rightarrow> u64 \<Rightarrow> nat \<Rightarrow> u32 \<Rightarrow> u32 \<Rightarrow> ('z fsst_scheme, int) kroutine" where
  "loadseg pt va ip offset sz =
     bind (search (map (\<lambda>k. 4096 * k) [0..<(unat sz + 4095) div 4096]) (loadseg_page pt va ip offset (unat sz))) (\<lambda>r.
     ret (case r of Some _ \<Rightarrow> -1 | None \<Rightarrow> 0))"

text \<open>The loop over the program headers, \<open>n\<close> of which are left; the flag says whether it went through.\<close>

fun load_program :: "u64 \<Rightarrow> nat \<Rightarrow> u64 \<Rightarrow> nat \<Rightarrow> u32 \<Rightarrow> u64 \<Rightarrow> ('z fsst_scheme, bool \<times> u64) kroutine" where
  "load_program kend ip pt 0 off sz = ret (True, sz)"
| "load_program kend ip pt (Suc n) off sz =
     bind (readi LocalDst ip off 56) (\<lambda>(r, bs).
     let ph = proghdr_of bs in
     if r \<noteq> 56 then ret (False, sz)
     else if ph_type ph \<noteq> 1 then load_program kend ip pt n (off + 56) sz
     else if ph_memsz ph < ph_filesz ph then ret (False, sz)
     else if ph_vaddr ph + ph_memsz ph < ph_vaddr ph then ret (False, sz)
     else if ph_vaddr ph mod PGSIZE \<noteq> 0 then ret (False, sz)
     else
       bind (uvmalloc kend pt sz (ph_vaddr ph + ph_memsz ph) (flags2perm (ph_flags ph))) (\<lambda>sz1.
       if sz1 = 0 then ret (False, sz)
       else bind (loadseg pt (ph_vaddr ph) ip (ucast (ph_off ph)) (ucast (ph_filesz ph))) (\<lambda>v.
         if v < 0 then ret (False, sz1) else load_program kend ip pt n (off + 56) sz1)))"

text \<open>The argument strings go onto the stack from \<open>stk\<close> downwards; \<open>ustack\<close> collects their addresses.\<close>

fun push_args :: "u64 \<Rightarrow> u64 list \<Rightarrow> u64 \<Rightarrow> u64 \<Rightarrow> u64 list \<Rightarrow> ('z kst_scheme, (u64 \<times> u64 list) option) kroutine" where
  "push_args pt [] stackbase stk ustack = ret (Some (stk, ustack))"
| "push_args pt (a # argv) stackbase stk ustack =
     (if length ustack \<ge> MAXARG then ret None
      else bind (gets (\<lambda>s. strlen (ram s) a)) (\<lambda>n.
        case n of
          None \<Rightarrow> fail OutOfFuel
        | Some n \<Rightarrow>
            let stk = stk - of_nat (n + 1); stk = stk - stk mod 16 in
            if stk < stackbase then ret None
            else bind (copyout pt stk a (of_nat (n + 1))) (\<lambda>r.
              if r < 0 then ret None else push_args pt argv stackbase stk (ustack @ [stk]))))"

text \<open>The part of the path after its last slash.\<close>

definition last_elem :: "u8 list \<Rightarrow> u8 list" where
  "last_elem path = rev (takeWhile (\<lambda>c. c \<noteq> slash) (rev path))"

text \<open>
  From the allocation of the stack to the commitment to the new image: \<open>None\<close> and the size for \<^verbatim>\<open>bad\<close>, otherwise \<^verbatim>\<open>argc\<close>.
\<close>

definition exec_stack :: "symbols \<Rightarrow> nat \<Rightarrow> u8 list \<Rightarrow> u64 list \<Rightarrow> u64 \<Rightarrow> u64 \<Rightarrow> u64 \<Rightarrow> ('z pst_scheme, int option \<times> u64) kroutine" where
  "exec_stack y p path argv pc pt sz =
     bind (proc_at p) (\<lambda>old.
     let sz = PGROUNDUP sz in
     bind (uvmalloc (sym_end y) pt sz (sz + 2 * PGSIZE) PTE_W) (\<lambda>sz1.
     if sz1 = 0 then ret (None, sz)
     else
       bind (run (uvmclear pt (sz1 - 2 * PGSIZE))) (\<lambda>_.
       bind (push_args pt argv (sz1 - PGSIZE) sz1 []) (\<lambda>r.
       case r of
         None \<Rightarrow> ret (None, sz1)
       | Some (stk, ustack) \<Rightarrow>
           let argc = length argv; stk = stk - of_nat ((argc + 1) * 8); stk = stk - stk mod 16 in
           if stk < sz1 - PGSIZE then ret (None, sz1)
           else bind (copyout_bytes pt stk (concat (map (\<lambda>w. le_bytes 8 (unat w)) (ustack @ [0])))) (\<lambda>v.
             if v < 0 then ret (None, sz1)
             else
               bind (modify (tf_set p TF_A1 stk)) (\<lambda>_.
               bind (set_proc p (\<lambda>q. q\<lparr>pname := safestrcpy_list (pname q) (last_elem path)\<rparr>)) (\<lambda>_.
               bind (set_proc p (\<lambda>q. q\<lparr>pagetable := pt, psz := sz1\<rparr>)) (\<lambda>_.
               bind (modify (tf_set p TF_EPC pc)) (\<lambda>_.
               bind (modify (tf_set p TF_SP stk)) (\<lambda>_.
               bind (run (proc_freepagetable y (pagetable old) (psz old))) (\<lambda>_.
               ret (Some (int argc), sz1))))))))))))"

definition exec_bad :: "symbols \<Rightarrow> u64 \<Rightarrow> u64 \<Rightarrow> nat option \<Rightarrow> ('z filest_scheme, int) kroutine" where
  "exec_bad y pt sz ip =
     bind (whenever (pt \<noteq> 0) (run (proc_freepagetable y pt sz))) (\<lambda>_.
     bind (case ip of None \<Rightarrow> ret () | Some i \<Rightarrow> bind (iunlockput i) (\<lambda>_. end_op)) (\<lambda>_.
     ret (-1)))"

definition exec :: "symbols \<Rightarrow> u8 list \<Rightarrow> u64 list \<Rightarrow> ('z filest_scheme, int) kroutine" where
  "exec y path argv =
     bind current (\<lambda>p.
     bind begin_op (\<lambda>_.
     bind (namei path) (\<lambda>r.
     case r of
       None \<Rightarrow> bind end_op (\<lambda>_. ret (-1))
     | Some ip \<Rightarrow>
         bind (ilock ip) (\<lambda>_.
         bind (readi LocalDst ip 0 64) (\<lambda>(r, bs).
         let elf = elfhdr_of bs in
         if r \<noteq> 64 then exec_bad y 0 0 (Some ip)
         else if elf_magic elf \<noteq> ELF_MAGIC then exec_bad y 0 0 (Some ip)
         else
           bind (proc_pagetable y p) (\<lambda>pt.
           if pt = 0 then exec_bad y 0 0 (Some ip)
           else
             bind (load_program (sym_end y) ip pt (unat (elf_phnum elf)) (ucast (elf_phoff elf)) 0) (\<lambda>(ok, sz).
             if \<not> ok then exec_bad y pt sz (Some ip)
             else
               bind (iunlockput ip) (\<lambda>_.
               bind end_op (\<lambda>_.
               bind current (\<lambda>p.
               bind (exec_stack y p path argv (elf_entry elf) pt sz) (\<lambda>(r, sz).
               case r of None \<Rightarrow> exec_bad y pt sz None | Some argc \<Rightarrow> ret argc)))))))))))"

end
