(* ===== verification/Sysfile.thy ===== *)
theory Sysfile
  imports Exec
begin

text \<open>
  The system calls on files, \<^verbatim>\<open>kernel/sysfile.c\<close>. A routine returns the C \<^verbatim>\<open>int\<close> that the dispatcher stores in the
  register \<^verbatim>\<open>a0\<close>.
\<close>

section \<open>Definitions\<close>

abbreviation (input) O_WRONLY :: u32 where "O_WRONLY \<equiv> 0x001"
abbreviation (input) O_RDWR :: u32 where "O_RDWR \<equiv> 0x002"
abbreviation (input) O_CREATE :: u32 where "O_CREATE \<equiv> 0x200"
abbreviation (input) O_TRUNC :: u32 where "O_TRUNC \<equiv> 0x400"

subsection \<open>Descriptors\<close>

definition argfd :: "nat \<Rightarrow> ('z filest_scheme, (nat \<times> nat) option) kroutine" where
  "argfd n =
     bind (argint n) (\<lambda>fd.
     if fd < 0 \<or> fd \<ge> int NOFILE then ret None
     else bind current (\<lambda>p.
       gets (\<lambda>s. map_option (\<lambda>f. (nat fd, f)) (ofile (procs s ! p) ! nat fd))))"

text \<open>The new descriptor, or \<open>None\<close> for -1.\<close>

definition fdalloc :: "nat \<Rightarrow> ('z filest_scheme, nat option) kroutine" where
  "fdalloc f =
     bind current (\<lambda>p.
     bind (proc_at p) (\<lambda>q.
     case find_index (\<lambda>x. x = None) (ofile q) of
       None \<Rightarrow> ret None
     | Some fd \<Rightarrow> bind (set_proc p (\<lambda>q. q\<lparr>ofile := (ofile q)[fd := Some f]\<rparr>)) (\<lambda>_. ret (Some fd))))"

definition clear_fd :: "nat \<Rightarrow> ('z filest_scheme, unit) kroutine" where
  "clear_fd fd = bind current (\<lambda>p. set_proc p (\<lambda>q. q\<lparr>ofile := (ofile q)[fd := None]\<rparr>))"

definition sys_dup :: "('z filest_scheme, int) kroutine" where
  "sys_dup =
     bind (argfd 0) (\<lambda>r.
     case r of None \<Rightarrow> ret (-1)
     | Some (_, f) \<Rightarrow>
         bind (fdalloc f) (\<lambda>r.
         case r of None \<Rightarrow> ret (-1)
         | Some fd \<Rightarrow> bind (filedup f) (\<lambda>_. ret (int fd))))"

definition sys_read :: "('z filest_scheme, int) kroutine" where
  "sys_read =
     bind (argaddr 1) (\<lambda>p.
     bind (argint 2) (\<lambda>n.
     bind (argfd 0) (\<lambda>r.
     case r of None \<Rightarrow> ret (-1) | Some (_, f) \<Rightarrow> fileread f p n)))"

definition sys_write :: "('z filest_scheme, int) kroutine" where
  "sys_write =
     bind (argaddr 1) (\<lambda>p.
     bind (argint 2) (\<lambda>n.
     bind (argfd 0) (\<lambda>r.
     case r of None \<Rightarrow> ret (-1) | Some (_, f) \<Rightarrow> filewrite f p n)))"

definition sys_close :: "u64 \<Rightarrow> ('z filest_scheme, int) kroutine" where
  "sys_close kend =
     bind (argfd 0) (\<lambda>r.
     case r of None \<Rightarrow> ret (-1)
     | Some (fd, f) \<Rightarrow>
         bind (clear_fd fd) (\<lambda>_.
         bind (fileclose kend f) (\<lambda>_.
         ret 0)))"

definition sys_fstat :: "('z filest_scheme, int) kroutine" where
  "sys_fstat =
     bind (argaddr 1) (\<lambda>st.
     bind (argfd 0) (\<lambda>r.
     case r of None \<Rightarrow> ret (-1) | Some (_, f) \<Rightarrow> filestat f st))"

subsection \<open>link and unlink\<close>

text \<open>\<^verbatim>\<open>end_op(); return v;\<close> and \<^verbatim>\<open>iunlockput(ip); end_op(); return -1;\<close>\<close>

definition end_with :: "'a \<Rightarrow> ('z fsst_scheme, 'a) kroutine" where
  "end_with v = bind end_op (\<lambda>_. ret v)"

definition put_end :: "nat \<Rightarrow> ('z fsst_scheme, int) kroutine" where
  "put_end i = bind (iunlockput i) (\<lambda>_. end_with (-1))"

text \<open>\<^verbatim>\<open>ip->nlink += d; iupdate(ip);\<close>\<close>

definition add_nlink :: "nat \<Rightarrow> u16 \<Rightarrow> ('z fsst_scheme, unit) kroutine" where
  "add_nlink i d = bind (set_inode i (\<lambda>ip. ip\<lparr>inlink := inlink ip + d\<rparr>)) (\<lambda>_. iupdate i)"

definition sys_link_bad :: "nat \<Rightarrow> ('z fsst_scheme, int) kroutine" where
  "sys_link_bad i = bind (ilock i) (\<lambda>_. bind (add_nlink i (-1)) (\<lambda>_. put_end i))"

definition sys_link :: "('z filest_scheme, int) kroutine" where
  "sys_link =
     bind (argstr 0 MAXPATH) (\<lambda>r.
     case r of None \<Rightarrow> ret (-1)
     | Some old \<Rightarrow>
     bind (argstr 1 MAXPATH) (\<lambda>r.
     case r of None \<Rightarrow> ret (-1)
     | Some new \<Rightarrow>
     bind begin_op (\<lambda>_.
     bind (namei old) (\<lambda>r.
     case r of None \<Rightarrow> end_with (-1)
     | Some i \<Rightarrow>
     bind (ilock i) (\<lambda>_.
     bind (inode_at i) (\<lambda>ip.
     if itype ip = T_DIR then put_end i
     else
       bind (add_nlink i 1) (\<lambda>_.
       bind (iunlock i) (\<lambda>_.
       bind (nameiparent new) (\<lambda>(r, name).
       case r of None \<Rightarrow> sys_link_bad i
       | Some d \<Rightarrow>
           bind (ilock d) (\<lambda>_.
           bind (inode_at d) (\<lambda>dp.
           bind (inode_at i) (\<lambda>ip.
           bind (if idev dp \<noteq> idev ip then ret (-1) else dirlink d name (inum ip)) (\<lambda>v.
           if v < 0 then bind (iunlockput d) (\<lambda>_. sys_link_bad i)
           else
             bind (iunlockput d) (\<lambda>_.
             bind (iput i) (\<lambda>_.
             end_with 0)))))))))))))))"

definition isdirempty :: "nat \<Rightarrow> ('z fsst_scheme, bool) kroutine" where
  "isdirempty dp =
     bind (inode_at dp) (\<lambda>ip.
     bind (search (drop 2 (dir_offsets (isize ip))) (\<lambda>off.
       bind (read_dirent ''isdirempty: readi'' dp off) (\<lambda>de.
       ret (if de_inum de \<noteq> 0 then Some () else None)))) (\<lambda>r.
     ret (r = None)))"

definition sys_unlink_found :: "nat \<Rightarrow> nat \<Rightarrow> nat \<Rightarrow> ('z fsst_scheme, int) kroutine" where
  "sys_unlink_found d i off =
     bind (ilock i) (\<lambda>_.
     bind (inode_at i) (\<lambda>ip.
     if sint (inlink ip) < 1 then panic ''unlink: nlink < 1''
     else
       bind (if itype ip = T_DIR then isdirempty i else ret True) (\<lambda>e.
       if \<not> e then bind (iunlockput i) (\<lambda>_. put_end d)
       else
         bind (writei (LocalSrc (replicate 16 0)) d (of_nat off) 16) (\<lambda>v.
         if v \<noteq> 16 then panic ''unlink: writei''
         else
           bind (whenever (itype ip = T_DIR) (add_nlink d (-1))) (\<lambda>_.
           bind (iunlockput d) (\<lambda>_.
           bind (add_nlink i (-1)) (\<lambda>_.
           bind (iunlockput i) (\<lambda>_.
           end_with 0))))))))"

definition sys_unlink :: "('z filest_scheme, int) kroutine" where
  "sys_unlink =
     bind (argstr 0 MAXPATH) (\<lambda>r.
     case r of None \<Rightarrow> ret (-1)
     | Some path \<Rightarrow>
     bind begin_op (\<lambda>_.
     bind (nameiparent path) (\<lambda>(r, name).
     case r of None \<Rightarrow> end_with (-1)
     | Some d \<Rightarrow>
     bind (ilock d) (\<lambda>_.
     if namecmp name (cstr ''.'') = 0 \<or> namecmp name (cstr ''..'') = 0 then put_end d
     else
       bind (dirlookup d name) (\<lambda>r.
       case r of None \<Rightarrow> put_end d
       | Some (i, off) \<Rightarrow> sys_unlink_found d i off)))))"

subsection \<open>Creating and opening\<close>

definition create_fail :: "nat \<Rightarrow> nat \<Rightarrow> ('z fsst_scheme, nat option) kroutine" where
  "create_fail i d =
     bind (set_inode i (\<lambda>ip. ip\<lparr>inlink := 0\<rparr>)) (\<lambda>_.
     bind (iupdate i) (\<lambda>_.
     bind (iunlockput i) (\<lambda>_.
     bind (iunlockput d) (\<lambda>_.
     ret None))))"

definition create_new :: "nat \<Rightarrow> u8 list \<Rightarrow> u16 \<Rightarrow> u16 \<Rightarrow> u16 \<Rightarrow> nat \<Rightarrow> ('z fsst_scheme, nat option) kroutine" where
  "create_new d name type major minor i =
     bind (ilock i) (\<lambda>_.
     bind (set_inode i (\<lambda>ip. ip\<lparr>imajor := major, iminor := minor, inlink := 1\<rparr>)) (\<lambda>_.
     bind (iupdate i) (\<lambda>_.
     bind (inode_at i) (\<lambda>ip.
     bind (inode_at d) (\<lambda>dp.
     bind (if type = T_DIR then
             bind (dirlink i (cstr ''.'') (inum ip)) (\<lambda>v.
             if v < 0 then ret v else dirlink i (cstr ''..'') (inum dp))
           else ret 0) (\<lambda>v.
     if v < 0 then create_fail i d
     else
       bind (dirlink d name (inum ip)) (\<lambda>v.
       if v < 0 then create_fail i d
       else
         bind (whenever (type = T_DIR) (add_nlink d 1)) (\<lambda>_.
         bind (iunlockput d) (\<lambda>_.
         ret (Some i))))))))))"

definition create :: "u8 list \<Rightarrow> u16 \<Rightarrow> u16 \<Rightarrow> u16 \<Rightarrow> ('z fsst_scheme, nat option) kroutine" where
  "create path type major minor =
     bind (nameiparent path) (\<lambda>(r, name).
     case r of None \<Rightarrow> ret None
     | Some d \<Rightarrow>
         bind (ilock d) (\<lambda>_.
         bind (dirlookup d name) (\<lambda>r.
         case r of
           Some (i, _) \<Rightarrow>
             bind (iunlockput d) (\<lambda>_.
             bind (ilock i) (\<lambda>_.
             bind (inode_at i) (\<lambda>ip.
             if type = T_FILE \<and> (itype ip = T_FILE \<or> itype ip = T_DEVICE) then ret (Some i)
             else bind (iunlockput i) (\<lambda>_. ret None))))
         | None \<Rightarrow>
             bind (inode_at d) (\<lambda>dp.
             bind (ialloc (idev dp) type) (\<lambda>r.
             case r of
               None \<Rightarrow> bind (iunlockput d) (\<lambda>_. ret None)
             | Some i \<Rightarrow> create_new d name type major minor i)))))"

text \<open>The inode that \<open>open\<close> works on, locked; \<open>None\<close> when the call has ended with -1.\<close>

definition open_inode :: "u8 list \<Rightarrow> u32 \<Rightarrow> ('z fsst_scheme, nat option) kroutine" where
  "open_inode path omode =
     (if omode AND O_CREATE \<noteq> 0 then
        bind (create path T_FILE 0 0) (\<lambda>r.
        case r of None \<Rightarrow> end_with None | Some i \<Rightarrow> ret (Some i))
      else
        bind (namei path) (\<lambda>r.
        case r of None \<Rightarrow> end_with None
        | Some i \<Rightarrow>
            bind (ilock i) (\<lambda>_.
            bind (inode_at i) (\<lambda>ip.
            if itype ip = T_DIR \<and> omode \<noteq> 0 then bind (put_end i) (\<lambda>_. ret None)
            else ret (Some i)))))"

definition open_file :: "nat \<Rightarrow> nat \<Rightarrow> u32 \<Rightarrow> ('z filest_scheme, unit) kroutine" where
  "open_file f i omode =
     bind (inode_at i) (\<lambda>ip.
     bind (modify (upd_file f (\<lambda>x.
       if itype ip = T_DEVICE then x\<lparr>ftype := FD_DEVICE, fmajor := imajor ip\<rparr> else x\<lparr>ftype := FD_INODE, foff := 0\<rparr>))) (\<lambda>_.
     bind (modify (upd_file f (\<lambda>x. x\<lparr>fip := i, freadable := (omode AND O_WRONLY = 0),
       fwritable := (omode AND O_WRONLY \<noteq> 0 \<or> omode AND O_RDWR \<noteq> 0)\<rparr>))) (\<lambda>_.
     whenever (omode AND O_TRUNC \<noteq> 0 \<and> itype ip = T_FILE) (itrunc i))))"

definition sys_open :: "u64 \<Rightarrow> ('z filest_scheme, int) kroutine" where
  "sys_open kend =
     bind (argint 1) (\<lambda>m.
     let omode = of_int m in
     bind (argstr 0 MAXPATH) (\<lambda>r.
     case r of None \<Rightarrow> ret (-1)
     | Some path \<Rightarrow>
     bind begin_op (\<lambda>_.
     bind (open_inode path omode) (\<lambda>r.
     case r of None \<Rightarrow> ret (-1)
     | Some i \<Rightarrow>
     bind (inode_at i) (\<lambda>ip.
     if itype ip = T_DEVICE \<and> (sint (imajor ip) < 0 \<or> sint (imajor ip) \<ge> int NDEV) then put_end i
     else
       bind filealloc (\<lambda>r.
       case r of None \<Rightarrow> put_end i
       | Some f \<Rightarrow>
       bind (fdalloc f) (\<lambda>r.
       case r of None \<Rightarrow> bind (fileclose kend f) (\<lambda>_. put_end i)
       | Some fd \<Rightarrow>
         bind (open_file f i omode) (\<lambda>_.
         bind (iunlock i) (\<lambda>_.
         end_with (int fd))))))))))"

definition create_put :: "u8 list option \<Rightarrow> u16 \<Rightarrow> u16 \<Rightarrow> u16 \<Rightarrow> ('z fsst_scheme, int) kroutine" where
  "create_put path type major minor =
     (case path of None \<Rightarrow> end_with (-1)
      | Some path \<Rightarrow>
          bind (create path type major minor) (\<lambda>r.
          case r of None \<Rightarrow> end_with (-1)
          | Some i \<Rightarrow> bind (iunlockput i) (\<lambda>_. end_with 0)))"

definition sys_mkdir :: "('z filest_scheme, int) kroutine" where
  "sys_mkdir =
     bind begin_op (\<lambda>_.
     bind (argstr 0 MAXPATH) (\<lambda>path.
     create_put path T_DIR 0 0))"

definition sys_mknod :: "('z filest_scheme, int) kroutine" where
  "sys_mknod =
     bind begin_op (\<lambda>_.
     bind (argint 1) (\<lambda>major.
     bind (argint 2) (\<lambda>minor.
     bind (argstr 0 MAXPATH) (\<lambda>path.
     create_put path T_DEVICE (of_int major) (of_int minor)))))"

definition sys_chdir :: "('z filest_scheme, int) kroutine" where
  "sys_chdir =
     bind current (\<lambda>p.
     bind begin_op (\<lambda>_.
     bind (argstr 0 MAXPATH) (\<lambda>r.
     case r of None \<Rightarrow> end_with (-1)
     | Some path \<Rightarrow>
     bind (namei path) (\<lambda>r.
     case r of None \<Rightarrow> end_with (-1)
     | Some i \<Rightarrow>
     bind (ilock i) (\<lambda>_.
     bind (inode_at i) (\<lambda>ip.
     if itype ip \<noteq> T_DIR then put_end i
     else
       bind (iunlock i) (\<lambda>_.
       bind (proc_at p) (\<lambda>q.
       bind (case cwd q of None \<Rightarrow> fail Undefined | Some c \<Rightarrow> iput c) (\<lambda>_.
       bind end_op (\<lambda>_.
       bind (set_proc p (\<lambda>q. q\<lparr>cwd := Some i\<rparr>)) (\<lambda>_.
       ret 0)))))))))))"

subsection \<open>exec and pipe\<close>

definition free_argv :: "u64 \<Rightarrow> u64 list \<Rightarrow> ('z filest_scheme, unit) kroutine" where
  "free_argv kend argv = for_each argv (\<lambda>a. run (kfree kend a))"

text \<open>
  The loop that fetches the argument pointers and strings, with \<open>k\<close> of the \<open>MAXARG\<close> turns left: the pages of
  the strings, and whether it ended normally.
\<close>

fun fetch_argv :: "u64 \<Rightarrow> nat \<Rightarrow> u64 list \<Rightarrow> ('z filest_scheme, bool \<times> u64 list) kroutine" where
  "fetch_argv uargv 0 argv = ret (False, argv)"
| "fetch_argv uargv (Suc k) argv =
     bind (fetchaddr (uargv + 8 * of_nat (length argv))) (\<lambda>r.
     case r of None \<Rightarrow> ret (False, argv)
     | Some uarg \<Rightarrow>
         if uarg = 0 then ret (True, argv)
         else
           bind kalloc (\<lambda>a.
           if a = 0 then ret (False, argv)
           else
             bind (fetchstr uarg a PGSIZE) (\<lambda>v.
             if v < 0 then ret (False, argv @ [a]) else fetch_argv uargv k (argv @ [a]))))"

definition sys_exec :: "symbols \<Rightarrow> ('z filest_scheme, int) kroutine" where
  "sys_exec y =
     bind (argaddr 1) (\<lambda>uargv.
     bind (argstr 0 MAXPATH) (\<lambda>r.
     case r of None \<Rightarrow> ret (-1)
     | Some path \<Rightarrow>
         bind (fetch_argv uargv MAXARG []) (\<lambda>(ok, argv).
         if \<not> ok then bind (free_argv (sym_end y) argv) (\<lambda>_. ret (-1))
         else
           bind (exec y path argv) (\<lambda>v.
           bind (free_argv (sym_end y) argv) (\<lambda>_.
           ret v)))))"

definition pipe_undo :: "u64 \<Rightarrow> nat option \<Rightarrow> nat option \<Rightarrow> nat \<Rightarrow> nat \<Rightarrow> ('z filest_scheme, int) kroutine" where
  "pipe_undo kend fd0 fd1 rf wrf =
     bind (case fd0 of None \<Rightarrow> ret () | Some fd \<Rightarrow> clear_fd fd) (\<lambda>_.
     bind (case fd1 of None \<Rightarrow> ret () | Some fd \<Rightarrow> clear_fd fd) (\<lambda>_.
     bind (fileclose kend rf) (\<lambda>_.
     bind (fileclose kend wrf) (\<lambda>_.
     ret (-1)))))"

definition copyout_fd :: "nat \<Rightarrow> u64 \<Rightarrow> nat \<Rightarrow> ('z filest_scheme, int) kroutine" where
  "copyout_fd p addr fd = bind (proc_at p) (\<lambda>q. copyout_bytes (pagetable q) addr (le_bytes 4 fd))"

definition sys_pipe :: "u64 \<Rightarrow> ('z filest_scheme, int) kroutine" where
  "sys_pipe kend =
     bind current (\<lambda>p.
     bind (argaddr 0) (\<lambda>fdarray.
     bind (pipealloc kend) (\<lambda>r.
     case r of None \<Rightarrow> ret (-1)
     | Some (rf, wrf) \<Rightarrow>
     bind (fdalloc rf) (\<lambda>r.
     case r of None \<Rightarrow> pipe_undo kend None None rf wrf
     | Some fd0 \<Rightarrow>
     bind (fdalloc wrf) (\<lambda>r.
     case r of None \<Rightarrow> pipe_undo kend (Some fd0) None rf wrf
     | Some fd1 \<Rightarrow>
     bind (copyout_fd p fdarray fd0) (\<lambda>v.
     if v < 0 then pipe_undo kend (Some fd0) (Some fd1) rf wrf
     else
       bind (copyout_fd p (fdarray + 4) fd1) (\<lambda>v.
       if v < 0 then pipe_undo kend (Some fd0) (Some fd1) rf wrf else ret 0)))))))"

end
