(* ===== verification/Syscall.thy ===== *)
theory Syscall
  imports Sysfile
begin

text \<open>
  \<^verbatim>\<open>kernel/sysproc.c\<close> and the dispatcher of \<^verbatim>\<open>kernel/syscall.c\<close>. A system call returns a register value, or it is \<open>exit\<close>, which
  does not return to its caller.
\<close>

section \<open>Definitions\<close>

record sysst = filest +
  tickslock :: spinlock
  ticks :: u32

datatype sysret = SysReturn u64 | SysExited

definition int_result :: "('s, int) kroutine \<Rightarrow> ('s, sysret) kroutine" where
  "int_result m = bind m (\<lambda>v. ret (SysReturn (of_int v)))"

definition sys_exit :: "symbols \<Rightarrow> ('z sysst_scheme, sysret) kroutine" where
  "sys_exit y = bind (argint 0) (\<lambda>n. bind (kexit y n) (\<lambda>_. ret SysExited))"

definition sys_getpid :: "('z sysst_scheme, int) kroutine" where
  "sys_getpid = bind current (\<lambda>p. gets (\<lambda>s. pid (procs s ! p)))"

definition sys_fork :: "symbols \<Rightarrow> ('z sysst_scheme, int) kroutine" where
  "sys_fork y = fork y"

definition sys_wait :: "symbols \<Rightarrow> ('z sysst_scheme, int) kroutine" where
  "sys_wait y = bind (argaddr 0) (\<lambda>p. kwait y p)"

definition sys_sbrk :: "symbols \<Rightarrow> ('z sysst_scheme, sysret) kroutine" where
  "sys_sbrk y =
     bind (argint 0) (\<lambda>n.
     bind current (\<lambda>p.
     bind (gets (\<lambda>s. psz (procs s ! p))) (\<lambda>addr.
     bind (growproc y n) (\<lambda>r.
     ret (SysReturn (if r < 0 then -1 else addr))))))"

text \<open>
  The loop of \<open>sys_sleep\<close> at the test of its condition, which compares unsigned numbers: done, killed, or back to sleep.
\<close>

definition sleep_check :: "u32 \<Rightarrow> int \<Rightarrow> ('z sysst_scheme, int) kroutine" where
  "sleep_check ticks0 n =
     bind (gets ticks) (\<lambda>t.
     if t - ticks0 < of_int n then
       bind current (\<lambda>p.
       bind (killed p) (\<lambda>k.
       if k \<noteq> 0 then ret (-1) else fail (Sleep TicksChan)))
     else ret 0)"

definition sys_sleep :: "('z sysst_scheme, int) kroutine" where
  "sys_sleep =
     bind (argint 0) (\<lambda>n.
     critical tickslock (\<lambda>lk s. s\<lparr>tickslock := lk\<rparr>)
       (bind (gets ticks) (\<lambda>ticks0. sleep_check ticks0 n)))"

definition sys_kill :: "('z sysst_scheme, int) kroutine" where
  "sys_kill = bind (argint 0) (\<lambda>n. kill n)"

definition sys_uptime :: "('z sysst_scheme, sysret) kroutine" where
  "sys_uptime =
     bind (critical tickslock (\<lambda>lk s. s\<lparr>tickslock := lk\<rparr>) (gets ticks)) (\<lambda>t.
     ret (SysReturn (ucast t)))"

text \<open>The table \<^verbatim>\<open>syscalls[]\<close>; \<open>None\<close> is a number with no entry.\<close>

definition syscalls :: "symbols \<Rightarrow> int \<Rightarrow> ('z sysst_scheme, sysret) kroutine option" where
  "syscalls y num =
     (if num = 1 then Some (int_result (sys_fork y))
      else if num = 2 then Some (sys_exit y)
      else if num = 3 then Some (int_result (sys_wait y))
      else if num = 4 then Some (int_result (sys_pipe (sym_end y)))
      else if num = 5 then Some (int_result sys_read)
      else if num = 6 then Some (int_result sys_kill)
      else if num = 7 then Some (int_result (sys_exec y))
      else if num = 8 then Some (int_result sys_fstat)
      else if num = 9 then Some (int_result sys_chdir)
      else if num = 10 then Some (int_result sys_dup)
      else if num = 11 then Some (int_result sys_getpid)
      else if num = 12 then Some (sys_sbrk y)
      else if num = 13 then Some (int_result sys_sleep)
      else if num = 14 then Some sys_uptime
      else if num = 15 then Some (int_result (sys_open (sym_end y)))
      else if num = 16 then Some (int_result sys_write)
      else if num = 17 then Some (int_result sys_mknod)
      else if num = 18 then Some (int_result sys_unlink)
      else if num = 19 then Some (int_result sys_link)
      else if num = 20 then Some (int_result sys_mkdir)
      else if num = 21 then Some (int_result (sys_close (sym_end y)))
      else None)"

text \<open>Whether the process goes on.\<close>

definition syscall :: "symbols \<Rightarrow> ('z sysst_scheme, bool) kroutine" where
  "syscall y =
     bind current (\<lambda>p.
     bind (gets (tf_get p TF_A7)) (\<lambda>a7.
     case syscalls y (sint (ucast a7 :: u32)) of
       Some f \<Rightarrow>
         bind f (\<lambda>r.
         case r of
           SysReturn v \<Rightarrow> bind (modify (tf_set p TF_A0 v)) (\<lambda>_. ret True)
         | SysExited \<Rightarrow> ret False)
     | None \<Rightarrow>
         bind (proc_at p) (\<lambda>q.
         bind (printf (cstr ''%d %s: unknown sys call %d'' @ [10])
           [ArgInt (of_int (pid q)), ArgStr (Some (takeWhile (\<lambda>c. c \<noteq> 0) (pname q))), ArgInt (ucast a7)]) (\<lambda>_.
         bind (modify (tf_set p TF_A0 (-1))) (\<lambda>_. ret True)))))"

end
