(* ===== verification/Trap.thy ===== *)
theory Trap
  imports Syscall
begin

text \<open>
  Traps, \<^verbatim>\<open>kernel/trap.c\<close>, and the interrupt controller, \<^verbatim>\<open>kernel/plic.c\<close>. The control registers of the CPU and the
  interrupt that the controller has pending (0 for none) are part of the state; the bit \<^verbatim>\<open>SIE\<close> of
  \<^verbatim>\<open>sstatus\<close> is \<open>sie\<close> of the CPU. Interrupt registers of the controller that are written are recorded.
\<close>

section \<open>Definitions\<close>

record trapst = sysst +
  scause :: u64
  sepc :: u64
  stval :: u64
  sstatus :: u64
  stvec :: u64
  satp :: u64
  sip :: u64
  plic_pending :: u32
  plic_writes :: "(u64 \<times> u32) list"
  vdisk_intr_status :: u32

text \<open>Code addresses.\<close>

record trap_symbols = symbols +
  sym_kernelvec :: u64
  sym_usertrap :: u64
  sym_uservec :: u64
  sym_userret :: u64

abbreviation (input) SSTATUS_SPP :: u64 where "SSTATUS_SPP \<equiv> 0x100"
abbreviation (input) SSTATUS_SPIE :: u64 where "SSTATUS_SPIE \<equiv> 0x20"

definition MAKE_SATP :: "u64 \<Rightarrow> u64" where
  "MAKE_SATP pt = push_bit 60 8 OR drop_bit 12 pt"

subsection \<open>The interrupt controller\<close>

definition plic_write :: "u64 \<Rightarrow> u32 \<Rightarrow> ('z trapst_scheme, unit) kroutine" where
  "plic_write a v = modify (\<lambda>s. s\<lparr>plic_writes := plic_writes s @ [(a, v)]\<rparr>)"

definition PLIC_SENABLE :: "nat \<Rightarrow> u64" where "PLIC_SENABLE h = 0x0c000000 + 0x2080 + of_nat h * 0x100"
definition PLIC_SPRIORITY :: "nat \<Rightarrow> u64" where "PLIC_SPRIORITY h = 0x0c000000 + 0x201000 + of_nat h * 0x2000"
definition PLIC_SCLAIM :: "nat \<Rightarrow> u64" where "PLIC_SCLAIM h = 0x0c000000 + 0x201004 + of_nat h * 0x2000"

definition plicinit :: "('z trapst_scheme, unit) kroutine" where
  "plicinit = bind (plic_write (0x0c000000 + 10 * 4) 1) (\<lambda>_. plic_write (0x0c000000 + 1 * 4) 1)"

definition plicinithart :: "('z trapst_scheme, unit) kroutine" where
  "plicinithart =
     bind (gets (\<lambda>s. hart (kcpu s))) (\<lambda>h.
     bind (plic_write (PLIC_SENABLE h) (push_bit 10 1 OR push_bit 1 1)) (\<lambda>_.
     plic_write (PLIC_SPRIORITY h) 0))"

text \<open>Reading the claim register takes the pending interrupt.\<close>

definition plic_claim :: "('z trapst_scheme, u32) kroutine" where
  "plic_claim s = Inr (plic_pending s, s\<lparr>plic_pending := 0\<rparr>)"

definition plic_complete :: "u32 \<Rightarrow> ('z trapst_scheme, unit) kroutine" where
  "plic_complete irq = bind (gets (\<lambda>s. hart (kcpu s))) (\<lambda>h. plic_write (PLIC_SCLAIM h) irq)"

subsection \<open>Interrupts\<close>

definition trapinit :: "'z trapst_scheme \<Rightarrow> 'z trapst_scheme" where
  "trapinit s = s\<lparr>tickslock := initlock ''time''\<rparr>"

definition trapinithart :: "'y trap_symbols_scheme \<Rightarrow> ('z trapst_scheme, unit) kroutine" where
  "trapinithart y = modify (\<lambda>s. s\<lparr>stvec := sym_kernelvec y\<rparr>)"

definition clockintr :: "('z sysst_scheme, unit) kroutine" where
  "clockintr =
     critical tickslock (\<lambda>lk s. s\<lparr>tickslock := lk\<rparr>)
       (bind (modify (\<lambda>s. s\<lparr>ticks := ticks s + 1\<rparr>)) (\<lambda>_. run (wakeup TicksChan)))"

definition devintr :: "('z trapst_scheme, int) kroutine" where
  "devintr =
     bind (gets scause) (\<lambda>c.
     if c AND 0x8000000000000000 \<noteq> 0 \<and> c AND 0xff = 9 then
       bind plic_claim (\<lambda>irq.
       bind (if irq = 10 then uartintr
             else if irq = 1 then bind (gets vdisk_intr_status) virtio_disk_intr
             else whenever (irq \<noteq> 0) (printf (cstr ''unexpected interrupt irq=%d'' @ [10]) [ArgInt irq])) (\<lambda>_.
       bind (whenever (irq \<noteq> 0) (plic_complete irq)) (\<lambda>_.
       ret 1)))
     else if c = 0x8000000000000001 then
       bind (bind (gets (\<lambda>s. hart (kcpu s))) (\<lambda>h. whenever (h = 0) clockintr)) (\<lambda>_.
       bind (modify (\<lambda>s. s\<lparr>sip := sip s AND NOT 2\<rparr>)) (\<lambda>_.
       ret 2))
     else ret 0)"

subsection \<open>Traps from user space\<close>

text \<open>
  How a trap ends: back in user space or in the interrupted kernel code, in the exit of the process, or at the context switch of \<open>yield\<close>,
  after which \<open>usertrap_yielded\<close> goes on.
\<close>

datatype trap_end = ToUser | ToKernel | Exited | Yielded

definition usertrapret :: "'y trap_symbols_scheme \<Rightarrow> ('z trapst_scheme, trap_end) kroutine" where
  "usertrapret y =
     bind current (\<lambda>p.
     bind (modify (\<lambda>s. s\<lparr>kcpu := intr_off (kcpu s)\<rparr>)) (\<lambda>_.
     bind (modify (\<lambda>s. s\<lparr>stvec := TRAMPOLINE + (sym_uservec y - sym_trampoline y)\<rparr>)) (\<lambda>_.
     bind (modify (\<lambda>s. tf_set p 0 (satp s) s)) (\<lambda>_.
     bind (modify (\<lambda>s. tf_set p 8 (kstack (procs s ! p) + PGSIZE) s)) (\<lambda>_.
     bind (modify (tf_set p 16 (sym_usertrap y))) (\<lambda>_.
     bind (modify (\<lambda>s. tf_set p 32 (of_nat (hart (kcpu s))) s)) (\<lambda>_.
     bind (modify (\<lambda>s. s\<lparr>sstatus := (sstatus s AND NOT SSTATUS_SPP) OR SSTATUS_SPIE\<rparr>)) (\<lambda>_.
     bind (modify (\<lambda>s. s\<lparr>sepc := tf_get p TF_EPC s\<rparr>)) (\<lambda>_.
     ret ToUser)))))))))"

text \<open>\<^verbatim>\<open>if(killed(p)) exit(-1);\<close> before going on.\<close>

definition unless_killed :: "symbols \<Rightarrow> nat \<Rightarrow> ('z trapst_scheme, trap_end) kroutine \<Rightarrow> ('z trapst_scheme, trap_end) kroutine" where
  "unless_killed y p m =
     bind (killed p) (\<lambda>k.
     if k \<noteq> 0 then bind (kexit y (-1)) (\<lambda>_. ret Exited) else m)"

definition usertrap_finish :: "'y trap_symbols_scheme \<Rightarrow> nat \<Rightarrow> int \<Rightarrow> ('z trapst_scheme, trap_end) kroutine" where
  "usertrap_finish y p which_dev =
     unless_killed (symbols.truncate y) p
       (if which_dev = 2 then bind (run yield_enter) (\<lambda>_. ret Yielded) else usertrapret y)"

definition usertrap_yielded :: "'y trap_symbols_scheme \<Rightarrow> nat \<Rightarrow> ('z trapst_scheme, trap_end) kroutine" where
  "usertrap_yielded y p = bind (run (yield_resume p)) (\<lambda>_. usertrapret y)"

definition usertrap :: "'y trap_symbols_scheme \<Rightarrow> ('z trapst_scheme, trap_end) kroutine" where
  "usertrap y =
     bind (gets sstatus) (\<lambda>ss.
     if ss AND SSTATUS_SPP \<noteq> 0 then panic ''usertrap: not from user mode''
     else
       bind (modify (\<lambda>s. s\<lparr>stvec := sym_kernelvec y\<rparr>)) (\<lambda>_.
       bind current (\<lambda>p.
       bind (modify (\<lambda>s. tf_set p TF_EPC (sepc s) s)) (\<lambda>_.
       bind (gets scause) (\<lambda>c.
       if c = 8 then
         unless_killed (symbols.truncate y) p
           (bind (modify (\<lambda>s. tf_set p TF_EPC (tf_get p TF_EPC s + 4) s)) (\<lambda>_.
            bind (modify (\<lambda>s. s\<lparr>kcpu := intr_on (kcpu s)\<rparr>)) (\<lambda>_.
            bind (syscall (symbols.truncate y)) (\<lambda>alive.
            if alive then usertrap_finish y p 0 else ret Exited))))
       else
         bind devintr (\<lambda>which_dev.
         if which_dev \<noteq> 0 then usertrap_finish y p which_dev
         else
           bind (proc_at p) (\<lambda>q.
           bind (printf (cstr ''usertrap(): unexpected scause %p pid=%d'' @ [10]) [ArgPtr c, ArgInt (of_int (pid q))]) (\<lambda>_.
           bind (gets (\<lambda>s. (sepc s, stval s))) (\<lambda>(pc, tv).
           bind (printf (cstr ''            sepc=%p stval=%p'' @ [10]) [ArgPtr pc, ArgPtr tv]) (\<lambda>_.
           bind (setkilled p) (\<lambda>_.
           usertrap_finish y p 0)))))))))))"

subsection \<open>Traps from the kernel\<close>

text \<open>The part of \<open>kerneltrap\<close> up to \<open>yield\<close>; the registers are restored at its end.\<close>

definition kerneltrap :: "('z trapst_scheme, trap_end) kroutine" where
  "kerneltrap =
     bind (gets (\<lambda>s. (sepc s, sstatus s, scause s))) (\<lambda>(pc, ss, c).
     if ss AND SSTATUS_SPP = 0 then panic ''kerneltrap: not from supervisor mode''
     else bind (gets (\<lambda>s. intr_get (kcpu s))) (\<lambda>on.
       if on then panic ''kerneltrap: interrupts enabled''
       else
         bind devintr (\<lambda>which_dev.
         if which_dev = 0 then
           bind (printf (cstr ''scause %p'' @ [10]) [ArgPtr c]) (\<lambda>_.
           bind (gets (\<lambda>s. (sepc s, stval s))) (\<lambda>(pc, tv).
           bind (printf (cstr ''sepc=%p stval=%p'' @ [10]) [ArgPtr pc, ArgPtr tv]) (\<lambda>_.
           panic ''kerneltrap'')))
         else
           bind myproc (\<lambda>p.
           bind (gets (\<lambda>s. case p of None \<Rightarrow> False | Some i \<Rightarrow> pstate (procs s ! i) = RUNNING)) (\<lambda>running.
           if which_dev = 2 \<and> running then bind (run yield_enter) (\<lambda>_. ret Yielded)
           else bind (modify (\<lambda>s. s\<lparr>sepc := pc, sstatus := ss\<rparr>)) (\<lambda>_. ret ToKernel))))))"

definition kerneltrap_yielded :: "nat \<Rightarrow> u64 \<Rightarrow> u64 \<Rightarrow> ('z trapst_scheme, unit) kroutine" where
  "kerneltrap_yielded p pc ss =
     bind (run (yield_resume p)) (\<lambda>_.
     modify (\<lambda>s. s\<lparr>sepc := pc, sstatus := ss\<rparr>))"

end
