(* ===== verification/Bio_Spec.thy ===== *)
theory Bio_Spec
  imports Bio
begin

text \<open>
  What the buffer cache promises its clients. The abstract state \<open>bcv\<close> has the contents of every block as a client sees it
  (\<open>vw\<close>), the blocks on the disk (\<open>dk\<close>) and the history of disk writes (\<open>tr\<close>), how many users every block has (\<open>rc\<close>), and the
  blocks that the running process has locked (\<open>lk\<close>). \<open>cache_rel\<close> relates it to the cache; each operation of \<^verbatim>\<open>bio.c\<close> refines a
  simple operation on the abstract state. A handle \<open>bh\<close> says which block a buffer stands for.
\<close>

section \<open>The abstract cache\<close>

record bcv =
  vw :: "u32 \<Rightarrow> block"
  dk :: "u32 \<Rightarrow> block"
  tr :: "(u32 \<times> block) list"
  rc :: "u32 \<Rightarrow> nat"
  lk :: "u32 set"

definition bh :: "u32 \<Rightarrow> 'z bst_scheme \<Rightarrow> nat \<Rightarrow> u32 \<Rightarrow> bool" where
  "bh dev s b n \<longleftrightarrow> b < NBUF \<and> holds_block dev n (bufs s ! b)"

text \<open>One buffer agrees with the abstract state; \<open>me\<close> is the id of the running process.\<close>

definition buf_rel :: "u32 \<Rightarrow> int \<Rightarrow> bcv \<Rightarrow> buf \<Rightarrow> bool" where
  "buf_rel dev me A x \<longleftrightarrow> slock_ok (blk x) \<and> (refcnt x \<noteq> 0 \<longrightarrow> bdev x = dev) \<and>
     (slocked (blk x) \<longrightarrow> bdev x = dev \<and> spid (blk x) = me) \<and>
     (bdev x = dev \<longrightarrow> unat (refcnt x) = rc A (blockno x) \<and> (slocked (blk x) \<longleftrightarrow> blockno x \<in> lk A) \<and>
        (bvalid x \<longrightarrow> bdata x = vw A (blockno x)) \<and> (0 < rc A (blockno x) \<longrightarrow> bvalid x))"

definition cache_rel :: "nat \<Rightarrow> u32 \<Rightarrow> 'z bst_scheme \<Rightarrow> bcv \<Rightarrow> bool" where
  "cache_rel p dev s A \<longleftrightarrow> pinv s \<and> curproc s = Some p \<and> p < NPROC \<and> clean (bcache_lock s) \<and> dev \<noteq> 0 \<and>
     (\<exists>xs. lru (bufs s) xs) \<and> cached_once (bufs s) \<and>
     (\<forall>b < NBUF. buf_rel dev (pid (procs s ! p)) A (bufs s ! b)) \<and>
     (\<forall>n. 0 < rc A n \<longrightarrow> (\<exists>b < NBUF. holds_block dev n (bufs s ! b))) \<and>
     (\<forall>n. rc A n = 0 \<longrightarrow> vw A n = dk A n \<and> n \<notin> lk A) \<and>
     dk A = disk s \<and> tr A = writes s"

lemma cache_relD:
  assumes "cache_rel p dev s A"
  shows "pinv s" "curproc s = Some p" "p < NPROC" "clean (bcache_lock s)" "dev \<noteq> 0" "cached_once (bufs s)"
    "\<And>b. b < NBUF \<Longrightarrow> buf_rel dev (pid (procs s ! p)) A (bufs s ! b)" "length (bufs s) = Suc NBUF"
    "\<And>n. 0 < rc A n \<Longrightarrow> \<exists>b < NBUF. holds_block dev n (bufs s ! b)" "\<And>n. rc A n = 0 \<Longrightarrow> vw A n = dk A n"
    "\<And>n. rc A n = 0 \<Longrightarrow> n \<notin> lk A" "dk A = disk s" "tr A = writes s" "cpu_ok (kcpu s)"
  using assms by (auto simp: cache_rel_def lru_def dll_def pinv_def)

lemma bh_unique: "cache_rel p dev s A \<Longrightarrow> bh dev s b n \<Longrightarrow> bh dev s c n \<Longrightarrow> b = c"
  unfolding cache_rel_def cached_once_def bh_def holds_block_def by metis

text \<open>What an operation keeps: the handles of blocks in use, and all state outside the cache.\<close>

definition bkeeps :: "u32 \<Rightarrow> bcv \<Rightarrow> 'z bst_scheme \<Rightarrow> 'z bst_scheme \<Rightarrow> bool" where
  "bkeeps dev A s s' \<longleftrightarrow> (\<forall>b n. bh dev s b n \<longrightarrow> 0 < rc A n \<longrightarrow> bh dev s' b n) \<and> bst.more s' = bst.more s \<and>
     ram s' = ram s \<and> noff (kcpu s') = noff (kcpu s)"

text \<open>The lens of the sleep lock of a buffer.\<close>

lemma blk_lens: "slock_lens (get_blk b) (put_blk b) (\<lambda>s. b < length (bufs s))"
  by (auto simp: slock_lens_def get_blk_def put_blk_def upd_buf_def nth_update_cases list_update_beyond)

lemma with_bcache_free:
  assumes "clean (bcache_lock s)" "cpu_ok (kcpu s)"
    and "m (s\<lparr>kcpu := push_off (kcpu s), bcache_lock := held (bcache_lock s) (kcpu s)\<rparr>) = Inr (r, t)"
    and "bcache_lock t = held (bcache_lock s) (kcpu s)" "kcpu t = push_off (kcpu s)"
  shows "with_bcache m s = Inr (r, t\<lparr>bcache_lock := bcache_lock s, kcpu := after_section (kcpu s)\<rparr>)"
proof -
  have "with_bcache m s = Inr (r, t\<lparr>kcpu := after_section (kcpu s), bcache_lock := freed (bcache_lock s)\<rparr>)"
    by (rule critical_free) (use assms in simp_all)
  then show ?thesis using assms(1) by simp
qed

text \<open>With fewer than \<open>NBUF\<close> blocks in use some buffer is unused.\<close>

lemma free_buffer:
  assumes "cache_rel p dev s A" "finite {m. 0 < rc A m}" "card {m. 0 < rc A m} < NBUF"
  shows "\<exists>b < NBUF. refcnt (bufs s ! b) = 0"
proof (rule ccontr)
  assume no: "\<not> ?thesis"
  note R = cache_relD [OF assms(1)]
  have d: "bdev (bufs s ! b) = dev" "0 < rc A (blockno (bufs s ! b))" if "b < NBUF" for b
  proof -
    have r: "refcnt (bufs s ! b) \<noteq> 0" using no that by blast
    then have "unat (refcnt (bufs s ! b)) \<noteq> 0" by (simp add: unat_eq_0)
    with r show "bdev (bufs s ! b) = dev" "0 < rc A (blockno (bufs s ! b))"
      using R(7) [OF that] unfolding buf_rel_def by auto
  qed
  have "inj_on (\<lambda>b. blockno (bufs s ! b)) {..<NBUF}"
    using R(5,6) d unfolding cached_once_def inj_on_def by (metis lessThan_iff)
  then have "card ((\<lambda>b. blockno (bufs s ! b)) ` {..<NBUF}) = NBUF" by (simp add: card_image)
  moreover have "(\<lambda>b. blockno (bufs s ! b)) ` {..<NBUF} \<subseteq> {m. 0 < rc A m}" using d by auto
  ultimately have "NBUF \<le> card {m. 0 < rc A m}" using card_mono [OF assms(2)] by metis
  then show False using assms(3) by simp
qed

section \<open>bread\<close>

definition recycled :: "u32 \<Rightarrow> u32 \<Rightarrow> buf \<Rightarrow> buf" where
  "recycled dev n x = (if holds_block dev n x then x\<lparr>refcnt := refcnt x + 1\<rparr>
     else x\<lparr>bdev := dev, blockno := n, bvalid := False, refcnt := 1\<rparr>)"

lemma bget_entry_run:
  assumes "lru (bufs s) xs" "(\<exists>b < NBUF. holds_block dev n (bufs s ! b)) \<or> (\<exists>b < NBUF. refcnt (bufs s ! b) = 0)"
  shows "\<exists>b < NBUF. bget_entry dev n s = Inr (b, upd_buf b (recycled dev n) s) \<and>
    (holds_block dev n (bufs s ! b) \<or> (\<forall>c < NBUF. \<not> holds_block dev n (bufs s ! c)) \<and> refcnt (bufs s ! b) = 0)"
proof -
  have xs: "set xs = {..<NBUF}" using assms(1) by (simp add: lru_def)
  show ?thesis
  proof (cases "find (\<lambda>b. holds_block dev n (bufs s ! b)) xs")
    case (Some b)
    have b: "b < NBUF" "holds_block dev n (bufs s ! b)" using find_Some_D [OF Some] xs by simp_all
    then show ?thesis using Some by (intro exI [of _ b]) (simp add: bget_entry_eq [OF assms(1)] recycled_def upd_buf_def)
  next
    case None
    then have no: "\<forall>c < NBUF. \<not> holds_block dev n (bufs s ! c)" using xs by (auto simp: find_None_iff)
    then obtain c where c: "c < NBUF" "refcnt (bufs s ! c) = 0" using assms(2) by blast
    then have "find (\<lambda>b. refcnt (bufs s ! b) = 0) (rev xs) \<noteq> None" using xs by (auto simp: find_None_iff)
    then obtain b where b: "find (\<lambda>b. refcnt (bufs s ! b) = 0) (rev xs) = Some b" by blast
    have b': "b < NBUF" "refcnt (bufs s ! b) = 0" using find_Some_D [OF b] xs by simp_all
    then show ?thesis using None b no by (intro exI [of _ b]) (simp add: bget_entry_eq [OF assms(1)] recycled_def upd_buf_def)
  qed
qed

text \<open>The buffer that \<open>bread\<close> leaves behind, where \<open>x\<close> was.\<close>

definition read_buf :: "u32 \<Rightarrow> u32 \<Rightarrow> int \<Rightarrow> block \<Rightarrow> buf \<Rightarrow> buf" where
  "read_buf dev n me d x = x\<lparr>bdev := dev, blockno := n, bvalid := True, blk := (blk x)\<lparr>slocked := True, spid := me\<rparr>,
     refcnt := (if holds_block dev n x then refcnt x + 1 else 1), bdata := d\<rparr>"

lemma bread_run:
  assumes "cache_rel p dev s A" "n \<notin> lk A" "0 < rc A n \<or> finite {m. 0 < rc A m} \<and> card {m. 0 < rc A m} < NBUF"
  shows "\<exists>b < NBUF. bread dev n s = Inr (b, s\<lparr>bufs := (bufs s)[b := read_buf dev n (pid (procs s ! p)) (vw A n) (bufs s ! b)],
      kcpu := after_section (kcpu s)\<rparr>) \<and>
    (holds_block dev n (bufs s ! b) \<or> (\<forall>c < NBUF. \<not> holds_block dev n (bufs s ! c)) \<and> refcnt (bufs s ! b) = 0)"
proof -
  note R = cache_relD [OF assms(1)]
  obtain xs where xs: "lru (bufs s) xs" using assms(1) by (auto simp: cache_rel_def)
  define s0 where "s0 = s\<lparr>kcpu := push_off (kcpu s), bcache_lock := held (bcache_lock s) (kcpu s)\<rparr>"
  have s0: "bufs s0 = bufs s" "kcpu s0 = push_off (kcpu s)" "bcache_lock s0 = held (bcache_lock s) (kcpu s)" by (simp_all add: s0_def)
  have "(\<exists>b < NBUF. holds_block dev n (bufs s ! b)) \<or> (\<exists>b < NBUF. refcnt (bufs s ! b) = 0)"
    using assms(3) R(9) [of n] free_buffer [OF assms(1)] by blast
  then obtain b where b: "b < NBUF" "bget_entry dev n s0 = Inr (b, upd_buf b (recycled dev n) s0)"
    and h: "holds_block dev n (bufs s ! b) \<or> (\<forall>c < NBUF. \<not> holds_block dev n (bufs s ! c)) \<and> refcnt (bufs s ! b) = 0"
    using bget_entry_run [of s0 xs dev n] xs unfolding s0 by blast
  let ?x = "bufs s ! b" and ?me = "pid (procs s ! p)"
  note B = R(7) [OF b(1)]
  have len: "b < length (bufs s)" using b(1) R(8) by simp
  define s1 where "s1 = s\<lparr>bufs := (bufs s)[b := recycled dev n ?x], kcpu := after_section (kcpu s)\<rparr>"
  have g1: "with_bcache (bget_entry dev n) s = Inr (b, s1)"
    using with_bcache_free [OF R(4,14), of "bget_entry dev n" b "upd_buf b (recycled dev n) s0"] b(2)
    by (simp add: s0_def s1_def upd_buf_def)
  have blk1: "get_blk b s1 = blk ?x" using len by (simp add: s1_def get_blk_def recycled_def)
  have "unat (refcnt ?x) = 0 \<Longrightarrow> bdev ?x = dev \<Longrightarrow> blockno ?x \<notin> lk A"
    using B R(11) [of "blockno ?x"] unfolding buf_rel_def by auto
  then have ns: "\<not> slocked (blk ?x)" using B h assms(2) by (auto simp: buf_rel_def holds_block_def)
  define s2 where "s2 = s\<lparr>bufs := (bufs s)[b := (recycled dev n ?x)\<lparr>blk := (blk ?x)\<lparr>slocked := True, spid := ?me\<rparr>\<rparr>],
    kcpu := after_section (kcpu s)\<rparr>"
  have "acquiresleep (BufChan b) (get_blk b) (put_blk b) s1 =
      Inr ((), (put_blk b ((get_blk b s1)\<lparr>slocked := True, spid := pid (procs s1 ! p)\<rparr>) s1)\<lparr>kcpu := after_section (kcpu s1)\<rparr>)"
    by (rule acquiresleep_eq [OF blk_lens]) (use len R blk1 ns B in \<open>auto simp: s1_def buf_rel_def\<close>)
  also have "(put_blk b ((get_blk b s1)\<lparr>slocked := True, spid := pid (procs s1 ! p)\<rparr>) s1)\<lparr>kcpu := after_section (kcpu s1)\<rparr> = s2"
    using len unfolding blk1 by (simp add: s1_def s2_def put_blk_def upd_buf_def)
  finally have g2: "bget dev n s = Inr (b, s2)" using g1 by (simp add: bget_def run_simps)
  have v: "bvalid (bufs s2 ! b) \<longleftrightarrow> bvalid ?x \<and> holds_block dev n ?x" using len by (simp add: s2_def recycled_def)
  have data: "bvalid ?x \<and> holds_block dev n ?x \<Longrightarrow> bdata ?x = vw A n" using B by (auto simp: buf_rel_def holds_block_def)
  have "rc A n = 0" if nv: "\<not> (bvalid ?x \<and> holds_block dev n ?x)"
  proof (cases "holds_block dev n ?x")
    case True
    then show ?thesis using nv B by (auto simp: buf_rel_def holds_block_def)
  next
    case False
    then show ?thesis using h R(9) [of n] by blast
  qed
  then have miss: "\<not> (bvalid ?x \<and> holds_block dev n ?x) \<Longrightarrow> disk s n = vw A n" using R(10) [of n] R(12) by simp
  have bn: "blockno (bufs s2 ! b) = n" using len by (simp add: s2_def recycled_def holds_block_def)
  have "bread dev n s = Inr (b, s\<lparr>bufs := (bufs s)[b := read_buf dev n ?me (vw A n) ?x], kcpu := after_section (kcpu s)\<rparr>)"
  proof (cases "bvalid ?x \<and> holds_block dev n ?x")
    case True
    then have "read_buf dev n ?me (vw A n) ?x = (recycled dev n ?x)\<lparr>blk := (blk ?x)\<lparr>slocked := True, spid := ?me\<rparr>\<rparr>"
      using data by (simp add: read_buf_def recycled_def holds_block_def)
    then show ?thesis using g2 v True by (simp add: bread_def run_simps s2_def)
  next
    case False
    then have "read_buf dev n ?me (vw A n) ?x =
        (recycled dev n ?x)\<lparr>blk := (blk ?x)\<lparr>slocked := True, spid := ?me\<rparr>, bdata := disk s n, bvalid := True\<rparr>"
      using miss by (simp add: read_buf_def recycled_def holds_block_def)
    then show ?thesis using g2 v False bn len by (simp add: bread_def run_simps disk_rw_def s2_def upd_buf_def)
  qed
  then show ?thesis using b(1) h by blast
qed

section \<open>Changing one buffer\<close>

text \<open>Buffers that differ at most in their links.\<close>

definition alike :: "buf \<Rightarrow> buf \<Rightarrow> bool" where
  "alike x y \<longleftrightarrow> x\<lparr>bnext := 0, bprev := 0\<rparr> = y\<lparr>bnext := 0, bprev := 0\<rparr>"

lemma alike_refl [simp]: "alike x x" and alike_trans: "alike x y \<Longrightarrow> alike y z \<Longrightarrow> alike x z"
  by (simp_all add: alike_def)

lemma alikeD:
  assumes "alike x y"
  shows "bdev x = bdev y" "blockno x = blockno y" "refcnt x = refcnt y" "bvalid x = bvalid y" "blk x = blk y" "bdata x = bdata y"
  using arg_cong [OF assms [unfolded alike_def], of bdev] arg_cong [OF assms [unfolded alike_def], of blockno]
    arg_cong [OF assms [unfolded alike_def], of refcnt] arg_cong [OF assms [unfolded alike_def], of bvalid]
    arg_cong [OF assms [unfolded alike_def], of blk] arg_cong [OF assms [unfolded alike_def], of bdata] by simp_all

lemma alike_rel: "alike x y \<Longrightarrow> buf_rel dev me A x = buf_rel dev me A y" "alike x y \<Longrightarrow> holds_block dev n x = holds_block dev n y"
  by (simp_all add: alikeD buf_rel_def holds_block_def)

lemma other_block:
  assumes "cache_rel p dev s A" "b < NBUF" "c < NBUF" "c \<noteq> b"
    and "holds_block dev n (bufs s ! b) \<or> (\<forall>c < NBUF. \<not> holds_block dev n (bufs s ! c)) \<and> refcnt (bufs s ! b) = 0"
  shows "\<not> holds_block dev n (bufs s ! c)"
  using assms(5)
proof
  assume "holds_block dev n (bufs s ! b)"
  then show ?thesis using bh_unique [OF assms(1), of b n c] assms(2-4) by (auto simp: bh_def)
qed (use assms(3) in blast)

lemma cache_rel_change:
  assumes R: "cache_rel p dev s A" and b: "b < NBUF"
    and h: "holds_block dev n (bufs s ! b) \<or> (\<forall>c < NBUF. \<not> holds_block dev n (bufs s ! c)) \<and> refcnt (bufs s ! b) = 0"
    and s': "pinv s'" "curproc s' = Some p" "pid (procs s' ! p) = pid (procs s ! p)" "clean (bcache_lock s')" "lru (bufs s') xs"
    and oth: "\<And>c. c < NBUF \<Longrightarrow> c \<noteq> b \<Longrightarrow> alike (bufs s' ! c) (bufs s ! c)"
    and new: "holds_block dev n (bufs s' ! b)" "buf_rel dev (pid (procs s ! p)) A' (bufs s' ! b)"
    and A': "\<And>m. m \<noteq> n \<Longrightarrow> rc A' m = rc A m \<and> vw A' m = vw A m \<and> dk A' m = dk A m \<and> (m \<in> lk A' \<longleftrightarrow> m \<in> lk A)"
      "rc A' n = 0 \<Longrightarrow> vw A' n = dk A' n \<and> n \<notin> lk A'" "dk A' = disk s'" "tr A' = writes s'"
  shows "cache_rel p dev s' A' \<and> (\<forall>c m. bh dev s c m \<longrightarrow> 0 < rc A m \<longrightarrow> bh dev s' c m)"
proof -
  note D = cache_relD [OF R]
  have nn: "\<not> holds_block dev n (bufs s ! c)" if "c < NBUF" "c \<noteq> b" for c by (rule other_block [OF R b that h])
  have notb: "m = n" if "holds_block dev m (bufs s ! b)" "0 < rc A m" for m
  proof (rule ccontr)
    assume "m \<noteq> n"
    then have "refcnt (bufs s ! b) = 0" using h that(1) by (auto simp: holds_block_def)
    then show False using D(7) [OF b] that by (auto simp: buf_rel_def holds_block_def)
  qed
  have keep: "bh dev s' c m" if "bh dev s c m" "0 < rc A m" for c m
  proof (cases "c = b")
    case True
    then show ?thesis using notb that new(1) by (auto simp: bh_def)
  next
    case False
    then show ?thesis using that oth [of c] by (auto simp: bh_def alike_rel(2))
  qed
  have rel: "buf_rel dev (pid (procs s' ! p)) A' (bufs s' ! c)" if c: "c < NBUF" for c
  proof (cases "c = b")
    case True
    then show ?thesis using new(2) s'(3) by simp
  next
    case False
    have a: "alike (bufs s' ! c) (bufs s ! c)" using oth c False by blast
    have m: "bdev (bufs s ! c) = dev \<Longrightarrow> blockno (bufs s ! c) \<noteq> n" using nn [OF c False] by (auto simp: holds_block_def)
    have "buf_rel dev me A' (bufs s ! c) = buf_rel dev me A (bufs s ! c)" for me
    proof (cases "bdev (bufs s ! c) = dev")
      case True
      then show ?thesis using A'(1) [OF m [OF True]] by (simp add: buf_rel_def)
    qed (simp add: buf_rel_def)
    then show ?thesis using D(7) [OF c] unfolding alike_rel(1) [OF a] s'(3) by simp
  qed
  have once: "cached_once (bufs s')" unfolding cached_once_def
  proof (intro allI impI)
    fix a c assume ac: "a < NBUF" "c < NBUF" "a \<noteq> c" "bdev (bufs s' ! a) \<noteq> 0"
    have bn: "bdev (bufs s' ! b) = dev" "blockno (bufs s' ! b) = n" using new(1) by (simp_all add: holds_block_def)
    note al = alikeD(1,2) [OF oth]
    consider "a = b" "c \<noteq> b" | "a \<noteq> b" "c = b" | "a \<noteq> b" "c \<noteq> b" using ac(3) by blast
    then show "\<not> (bdev (bufs s' ! a) = bdev (bufs s' ! c) \<and> blockno (bufs s' ! a) = blockno (bufs s' ! c))"
    proof cases
      case 1 then show ?thesis using nn [OF ac(2)] bn al(1,2) [OF ac(2)] by (auto simp: holds_block_def)
    next
      case 2 then show ?thesis using nn [OF ac(1)] bn al(1,2) [OF ac(1)] by (auto simp: holds_block_def)
    next
      case 3 then show ?thesis using D(6) ac al(1,2) [OF ac(1)] al(1,2) [OF ac(2)] unfolding cached_once_def by auto
    qed
  qed
  have ex: "\<exists>b < NBUF. holds_block dev m (bufs s' ! b)" if "0 < rc A' m" for m
  proof (cases "m = n")
    case True
    then show ?thesis using b new(1) by blast
  next
    case False
    have "0 < rc A m" using that A'(1) [OF False] by simp
    then obtain c where "bh dev s c m" using D(9) unfolding bh_def by blast
    then show ?thesis using keep [of c m] that A'(1) [OF False] by (auto simp: bh_def)
  qed
  have z: "vw A' m = dk A' m \<and> m \<notin> lk A'" if "rc A' m = 0" for m
    using A'(1) [of m] A'(2) D(10,11) [of m] that by (cases "m = n") auto
  have "cache_rel p dev s' A'" unfolding cache_rel_def
    using s' D(3,5) once rel ex z A'(3,4) by blast
  then show ?thesis using keep by blast
qed

section \<open>The operations\<close>

lemma pinv_cpu: "pinv s \<Longrightarrow> pinv (s\<lparr>kcpu := after_section (kcpu s)\<rparr>)"
  by (simp add: pinv_def)

lemma unat_plus_1: "unat (x :: u32) < 1000 \<Longrightarrow> unat (x + 1) = Suc (unat x)"
  by (simp add: unat_word_ariths)

lemma unat_minus_1: "unat (x :: u32) = Suc k \<Longrightarrow> unat (x - 1) = k"
proof -
  assume a: "unat x = Suc k"
  then have "x \<noteq> 0" by auto
  then show ?thesis using a by (simp add: unat_minus_one)
qed

lemma bread_spec:
  assumes R: "cache_rel p dev s A" and n: "n \<notin> lk A" "rc A n < 1000"
    and room: "0 < rc A n \<or> finite {m. 0 < rc A m} \<and> card {m. 0 < rc A m} < NBUF"
  shows "\<exists>b s'. bread dev n s = Inr (b, s') \<and> bh dev s' b n \<and>
    cache_rel p dev s' (A\<lparr>rc := (rc A)(n := Suc (rc A n)), lk := insert n (lk A)\<rparr>) \<and> bkeeps dev A s s'"
proof -
  let ?A = "A\<lparr>rc := (rc A)(n := Suc (rc A n)), lk := insert n (lk A)\<rparr>" and ?me = "pid (procs s ! p)"
  note D = cache_relD [OF R]
  obtain xs where xs: "lru (bufs s) xs" using R by (auto simp: cache_rel_def)
  obtain b where b: "b < NBUF" and h: "holds_block dev n (bufs s ! b) \<or> (\<forall>c < NBUF. \<not> holds_block dev n (bufs s ! c)) \<and> refcnt (bufs s ! b) = 0"
    and run: "bread dev n s = Inr (b, s\<lparr>bufs := (bufs s)[b := read_buf dev n ?me (vw A n) (bufs s ! b)], kcpu := after_section (kcpu s)\<rparr>)"
    using bread_run [OF R n(1) room] by blast
  let ?x = "bufs s ! b" let ?y = "read_buf dev n ?me (vw A n) ?x"
  define s' where "s' = s\<lparr>bufs := (bufs s)[b := ?y], kcpu := after_section (kcpu s)\<rparr>"
  have nb: "bufs s' ! b = ?y" "\<And>c. c \<noteq> b \<Longrightarrow> bufs s' ! c = bufs s ! c" using b D(8) by (simp_all add: s'_def)
  have l: "lru (bufs s') xs" unfolding s'_def using lru_upd [OF xs, of "read_buf dev n ?me (vw A n)" b] by (simp add: read_buf_def)
  have cnt: "unat (refcnt ?y) = Suc (rc A n)"
  proof (cases "holds_block dev n ?x")
    case True
    then have "unat (refcnt ?x) = rc A n" using D(7) [OF b] by (auto simp: buf_rel_def holds_block_def)
    then show ?thesis using True n(2) unat_plus_1 [of "refcnt ?x"] by (simp add: read_buf_def)
  next
    case False
    then have "rc A n = 0" using h D(9) [of n] by blast
    then show ?thesis using False by (simp add: read_buf_def)
  qed
  have sl: "slock_ok (blk ?x)" using D(7) [OF b] by (simp add: buf_rel_def)
  have rel: "buf_rel dev ?me ?A ?y" using cnt sl by (simp add: buf_rel_def read_buf_def slock_ok_def)
  have S: "pinv s'" "curproc s' = Some p" "pid (procs s' ! p) = ?me" "clean (bcache_lock s')" "disk s' = disk s" "writes s' = writes s"
    using D by (simp_all add: s'_def pinv_def)
  have hb: "holds_block dev n (bufs s' ! b)" using nb by (simp add: read_buf_def holds_block_def)
  have C: "cache_rel p dev s' ?A \<and> (\<forall>c m. bh dev s c m \<longrightarrow> 0 < rc A m \<longrightarrow> bh dev s' c m)"
    by (rule cache_rel_change [OF R b h S(1-4) l _ hb]) (simp_all add: nb rel S(5,6) D(12,13))
  have "bh dev s' b n" using b hb by (simp add: bh_def)
  then show ?thesis using run C by (intro exI [of _ b] exI [of _ s']) (simp add: s'_def bkeeps_def)
qed

lemma put_get_blk: "put_blk b (get_blk b s) s = s"
  by (simp add: put_blk_def get_blk_def upd_buf_def)

lemma holding_mine:
  assumes R: "cache_rel p dev s A" and b: "bh dev s b n" "n \<in> lk A"
  shows "holdingsleep (get_blk b) (put_blk b) s = Inr (True, s\<lparr>kcpu := after_section (kcpu s)\<rparr>)"
proof -
  note D = cache_relD [OF R]
  have B: "slock_ok (get_blk b s)" "slocked (get_blk b s)" "spid (get_blk b s) = pid (procs s ! p)" "b < length (bufs s)"
    using D(7) [of b] D(8) b by (auto simp: bh_def holds_block_def buf_rel_def get_blk_def)
  show ?thesis using holdingsleep_eq [OF blk_lens, of b s p] B D(2,14) by (simp add: put_get_blk)
qed

text \<open>Reading and changing the data of a locked buffer.\<close>

lemma buf_data_spec:
  assumes "cache_rel p dev s A" "bh dev s b n" "0 < rc A n"
  shows "bdata (bufs s ! b) = vw A n"
  using cache_relD(7) [OF assms(1), of b] assms(2,3) by (auto simp: bh_def holds_block_def buf_rel_def)

lemma set_buf_data_spec:
  assumes R: "cache_rel p dev s A" and b: "bh dev s b n" "0 < rc A n"
  shows "cache_rel p dev (upd_buf b (\<lambda>x. x\<lparr>bdata := d\<rparr>) s) (A\<lparr>vw := (vw A)(n := d)\<rparr>) \<and>
    bkeeps dev A s (upd_buf b (\<lambda>x. x\<lparr>bdata := d\<rparr>) s)"
proof -
  let ?A = "A\<lparr>vw := (vw A)(n := d)\<rparr>" and ?s = "upd_buf b (\<lambda>x. x\<lparr>bdata := d\<rparr>) s"
  note D = cache_relD [OF R]
  obtain xs where xs: "lru (bufs s) xs" using R by (auto simp: cache_rel_def)
  have bn: "b < NBUF" "holds_block dev n (bufs s ! b)" using b by (simp_all add: bh_def)
  have nb: "bufs ?s ! b = (bufs s ! b)\<lparr>bdata := d\<rparr>" "\<And>c. c \<noteq> b \<Longrightarrow> bufs ?s ! c = bufs s ! c" using bn D(8) by simp_all
  have l: "lru (bufs ?s) xs" using lru_upd [OF xs, of "\<lambda>x. x\<lparr>bdata := d\<rparr>" b] by simp
  have S: "pinv ?s" "curproc ?s = Some p" "pid (procs ?s ! p) = pid (procs s ! p)" "clean (bcache_lock ?s)"
    using D by (simp_all add: pinv_def)
  have hb: "holds_block dev n (bufs ?s ! b)" using nb bn by (simp add: holds_block_def)
  have rel: "buf_rel dev (pid (procs s ! p)) ?A (bufs ?s ! b)"
    using D(7) [OF bn(1)] bn(2) unfolding nb(1) by (auto simp: buf_rel_def holds_block_def)
  have "cache_rel p dev ?s ?A \<and> (\<forall>c m. bh dev s c m \<longrightarrow> 0 < rc A m \<longrightarrow> bh dev ?s c m)"
    by (rule cache_rel_change [OF R bn(1) disjI1 [OF bn(2)] S l _ hb rel]) (use nb b(2) D(12,13) in simp_all)
  then show ?thesis by (simp add: bkeeps_def upd_buf_def)
qed

lemma bwrite_spec:
  assumes R: "cache_rel p dev s A" and b: "bh dev s b n" "n \<in> lk A"
  shows "\<exists>s'. bwrite b s = Inr ((), s') \<and> bkeeps dev A s s' \<and> bufs s' = bufs s \<and>
    cache_rel p dev s' (A\<lparr>dk := (dk A)(n := vw A n), tr := tr A @ [(n, vw A n)]\<rparr>)"
proof -
  note D = cache_relD [OF R]
  have rc: "0 < rc A n" using D(11) [of n] b(2) by auto
  let ?s = "s\<lparr>kcpu := after_section (kcpu s), disk := (disk s)(n := vw A n), writes := writes s @ [(n, vw A n)]\<rparr>"
  have "blockno (bufs s ! b) = n" using b(1) by (simp add: bh_def holds_block_def)
  then have run: "bwrite b s = Inr ((), ?s)"
    using holding_mine [OF R b] buf_data_spec [OF R b(1) rc] by (simp add: bwrite_def run_simps disk_rw_def Let_def)
  have "cache_rel p dev ?s (A\<lparr>dk := (dk A)(n := vw A n), tr := tr A @ [(n, vw A n)]\<rparr>)"
    using R rc unfolding cache_rel_def by (simp add: pinv_def buf_rel_def)
  then show ?thesis using run by (intro exI [of _ ?s]) (simp add: bkeeps_def bh_def)
qed

lemma alike_links: "alike (set_next x v bs ! c) (bs ! c)" "alike (set_prev x v bs ! c) (bs ! c)"
  by (auto simp: set_next_def set_prev_def nth_update_cases alike_def)

lemma alike_moves: "alike (push_front b bs ! c) (bs ! c)" "alike (unlink b bs ! c) (bs ! c)"
  unfolding push_front_def unlink_def Let_def by (meson alike_links alike_trans)+

lemma brelse_entry_facts:
  assumes "lru bs xs" "b < NBUF"
  shows "lru (brelse_entry b bs) (if refcnt (bs ! b) = 1 then b # remove1 b xs else xs)"
    "alike (brelse_entry b bs ! c) (bs[b := (bs ! b)\<lparr>refcnt := refcnt (bs ! b) - 1\<rparr>] ! c)"
proof -
  let ?bs = "bs[b := (bs ! b)\<lparr>refcnt := refcnt (bs ! b) - 1\<rparr>]"
  have len: "length bs = Suc NBUF" "distinct xs" "set xs = {..<NBUF}" using assms(1) by (simp_all add: lru_def dll_def)
  have l: "lru ?bs xs" using lru_upd [OF assms(1), of "\<lambda>x. x\<lparr>refcnt := refcnt x - 1\<rparr>" b] by simp
  have z: "refcnt (?bs ! b) = 0 \<longleftrightarrow> refcnt (bs ! b) = 1" using assms(2) len by simp
  show "alike (brelse_entry b bs ! c) (?bs ! c)"
    using alike_trans [OF alike_moves(1) alike_moves(2)] by (simp add: brelse_entry_def Let_def)
  show "lru (brelse_entry b bs) (if refcnt (bs ! b) = 1 then b # remove1 b xs else xs)"
  proof (cases "refcnt (bs ! b) = 1")
    case True
    have "b \<in> set xs" using len assms(2) by simp
    then obtain ys zs where yz: "xs = ys @ b # zs" "b \<notin> set ys" by (meson split_list_first)
    then have r: "remove1 b xs = ys @ zs" by (simp add: remove1_append)
    have "dll (unlink b ?bs) (ys @ zs)" using unlink_dll [of ?bs ys b zs] l yz by (simp add: lru_def)
    moreover have "b \<notin> set (ys @ zs)" using len(2) yz by simp
    ultimately have "dll (push_front b (unlink b ?bs)) (b # ys @ zs)" using push_front_dll assms(2) by blast
    then show ?thesis using True z r len yz by (auto simp: brelse_entry_def Let_def lru_def)
  next
    case False
    then show ?thesis using z l by (simp add: brelse_entry_def Let_def)
  qed
qed

lemma brelse_run:
  assumes R: "cache_rel p dev s A" and b: "bh dev s b n" "n \<in> lk A"
  defines "x \<equiv> bufs s ! b"
  shows "brelse b s = Inr ((), s\<lparr>bufs := brelse_entry b ((bufs s)[b := x\<lparr>blk := (blk x)\<lparr>slocked := False, spid := 0\<rparr>\<rparr>]),
    procs := wake_from (BufChan b) (Some p) 0 (procs s), kcpu := after_section (kcpu s)\<rparr>)"
proof -
  note D = cache_relD [OF R]
  have B: "slock_ok (get_blk b s)" "b < length (bufs s)"
    using D(7) [of b] D(8) b by (auto simp: bh_def buf_rel_def get_blk_def)
  let ?s = "s\<lparr>kcpu := after_section (kcpu s)\<rparr>"
  define s1 where "s1 = s\<lparr>bufs := (bufs s)[b := x\<lparr>blk := (blk x)\<lparr>slocked := False, spid := 0\<rparr>\<rparr>],
    procs := wake_from (BufChan b) (Some p) 0 (procs s), kcpu := after_section (kcpu s)\<rparr>"
  have "releasesleep (BufChan b) (get_blk b) (put_blk b) ?s = Inr ((), (put_blk b ((get_blk b ?s)\<lparr>slocked := False, spid := 0\<rparr>) ?s)
      \<lparr>procs := wake_from (BufChan b) (curproc ?s) 0 (procs ?s), kcpu := after_section (kcpu ?s)\<rparr>)"
    by (rule releasesleep_eq [OF blk_lens]) (use B D in \<open>simp_all add: get_blk_def pinv_def\<close>)
  also have "(put_blk b ((get_blk b ?s)\<lparr>slocked := False, spid := 0\<rparr>) ?s)
      \<lparr>procs := wake_from (BufChan b) (curproc ?s) 0 (procs ?s), kcpu := after_section (kcpu ?s)\<rparr> = s1"
    using D(2) by (simp add: s1_def put_blk_def get_blk_def upd_buf_def x_def)
  finally have r: "releasesleep (BufChan b) (get_blk b) (put_blk b) ?s = Inr ((), s1)" .
  have s1: "clean (bcache_lock s1)" "cpu_ok (kcpu s1)" using D by (simp_all add: s1_def)
  have "with_bcache (modify (\<lambda>s. s\<lparr>bufs := brelse_entry b (bufs s)\<rparr>)) s1 =
      Inr ((), (s1\<lparr>kcpu := push_off (kcpu s1), bcache_lock := held (bcache_lock s1) (kcpu s1), bufs := brelse_entry b (bufs s1)\<rparr>)
        \<lparr>bcache_lock := bcache_lock s1, kcpu := after_section (kcpu s1)\<rparr>)"
    by (rule with_bcache_free [OF s1]) (simp_all add: run_simps)
  then show ?thesis using holding_mine [OF R b] r by (simp add: brelse_def run_simps s1_def)
qed

lemma brelse_spec:
  assumes R: "cache_rel p dev s A" and b: "bh dev s b n" "n \<in> lk A" "rc A n = Suc k" and clean: "k = 0 \<Longrightarrow> vw A n = dk A n"
  shows "\<exists>s'. brelse b s = Inr ((), s') \<and> bkeeps dev A s s' \<and> cache_rel p dev s' (A\<lparr>rc := (rc A)(n := k), lk := lk A - {n}\<rparr>)"
proof -
  let ?A = "A\<lparr>rc := (rc A)(n := k), lk := lk A - {n}\<rparr>" and ?x = "bufs s ! b"
  note D = cache_relD [OF R]
  obtain xs where xs: "lru (bufs s) xs" using R by (auto simp: cache_rel_def)
  have bn: "b < NBUF" "holds_block dev n ?x" using b by (simp_all add: bh_def)
  let ?y = "?x\<lparr>blk := (blk ?x)\<lparr>slocked := False, spid := 0\<rparr>\<rparr>"
  let ?bs = "(bufs s)[b := ?y]"
  define s' where "s' = s\<lparr>bufs := brelse_entry b ?bs, procs := wake_from (BufChan b) (Some p) 0 (procs s), kcpu := after_section (kcpu s)\<rparr>"
  have run: "brelse b s = Inr ((), s')" using brelse_run [OF R b(1,2)] by (simp add: s'_def)
  have l: "lru ?bs xs" using lru_upd [OF xs, of "\<lambda>x. x\<lparr>blk := (blk x)\<lparr>slocked := False, spid := 0\<rparr>\<rparr>" b] by simp
  note F = brelse_entry_facts [OF l bn(1)]
  have len: "b < length (bufs s)" using bn(1) D(8) by simp
  have oth: "alike (bufs s' ! c) (bufs s ! c)" if "c \<noteq> b" for c using F(2) [of c] that by (simp add: s'_def)
  have new: "alike (bufs s' ! b) (?y\<lparr>refcnt := refcnt ?x - 1\<rparr>)" using F(2) [of b] len by (simp add: s'_def)
  have "length (procs s) = NPROC" using D(1) by (simp add: pinv_def)
  then have S: "pinv s'" "curproc s' = Some p" "pid (procs s' ! p) = pid (procs s ! p)" "clean (bcache_lock s')"
    using D pinv_wakeup [OF D(1), of "BufChan b" "Some p" 0] by (simp_all add: s'_def pinv_def wakeup_one_def)
  have B: "slock_ok (blk ?x)" "unat (refcnt ?x) = Suc k" "bvalid ?x" "bdata ?x = vw A n" "bdev ?x = dev" "blockno ?x = n"
    using D(7) [OF bn(1)] bn(2) b(3) by (auto simp: buf_rel_def holds_block_def)
  have hb: "holds_block dev n (bufs s' ! b)" using alike_rel(2) [OF new] B by (simp add: holds_block_def)
  have rel: "buf_rel dev (pid (procs s ! p)) ?A (bufs s' ! b)"
    unfolding alike_rel(1) [OF new] using B unat_minus_1 [OF B(2)] by (simp add: buf_rel_def slock_ok_def)
  obtain ys where ys: "lru (bufs s') ys" using F(1) by (auto simp: s'_def)
  have "cache_rel p dev s' ?A \<and> (\<forall>c m. bh dev s c m \<longrightarrow> 0 < rc A m \<longrightarrow> bh dev s' c m)"
    by (rule cache_rel_change [OF R bn(1) disjI1 [OF bn(2)] S ys oth hb rel])
      (use clean D(12,13) in \<open>simp_all add: s'_def\<close>)
  then show ?thesis using run by (intro exI [of _ s']) (simp add: bkeeps_def s'_def)
qed

text \<open>Both \<open>bpin\<close> and \<open>bunpin\<close> change only the count.\<close>

lemma pin_run:
  assumes "cache_rel p dev s A"
  shows "with_bcache (modify (upd_buf b f)) s = Inr ((), s\<lparr>bufs := (bufs s)[b := f (bufs s ! b)], kcpu := after_section (kcpu s)\<rparr>)"
proof -
  note D = cache_relD [OF assms]
  have "with_bcache (modify (upd_buf b f)) s =
      Inr ((), (s\<lparr>kcpu := push_off (kcpu s), bcache_lock := held (bcache_lock s) (kcpu s), bufs := (bufs s)[b := f (bufs s ! b)]\<rparr>)
        \<lparr>bcache_lock := bcache_lock s, kcpu := after_section (kcpu s)\<rparr>)"
    by (rule with_bcache_free [OF D(4,14)]) (simp_all add: run_simps upd_buf_def)
  then show ?thesis by simp
qed

lemma pin_change:
  assumes R: "cache_rel p dev s A" and b: "bh dev s b n" "0 < rc A n" "unat v = k" "0 < k"
  defines "s' \<equiv> s\<lparr>bufs := (bufs s)[b := (bufs s ! b)\<lparr>refcnt := v\<rparr>], kcpu := after_section (kcpu s)\<rparr>"
  shows "cache_rel p dev s' (A\<lparr>rc := (rc A)(n := k)\<rparr>) \<and> bkeeps dev A s s'"
proof -
  let ?A = "A\<lparr>rc := (rc A)(n := k)\<rparr>"
  note D = cache_relD [OF R]
  obtain xs where xs: "lru (bufs s) xs" using R by (auto simp: cache_rel_def)
  have bn: "b < NBUF" "holds_block dev n (bufs s ! b)" using b by (simp_all add: bh_def)
  have nb: "bufs s' ! b = (bufs s ! b)\<lparr>refcnt := v\<rparr>" "\<And>c. c \<noteq> b \<Longrightarrow> bufs s' ! c = bufs s ! c" using bn D(8) by (simp_all add: s'_def)
  have l: "lru (bufs s') xs" unfolding s'_def using lru_upd [OF xs, of "\<lambda>x. x\<lparr>refcnt := v\<rparr>" b] by simp
  have S: "pinv s'" "curproc s' = Some p" "pid (procs s' ! p) = pid (procs s ! p)" "clean (bcache_lock s')"
    using D by (simp_all add: s'_def pinv_def)
  have hb: "holds_block dev n (bufs s' ! b)" using nb bn by (simp add: holds_block_def)
  have rel: "buf_rel dev (pid (procs s ! p)) ?A (bufs s' ! b)"
    using D(7) [OF bn(1)] bn(2) b unfolding nb(1) by (auto simp: buf_rel_def holds_block_def)
  have "cache_rel p dev s' ?A \<and> (\<forall>c m. bh dev s c m \<longrightarrow> 0 < rc A m \<longrightarrow> bh dev s' c m)"
    by (rule cache_rel_change [OF R bn(1) disjI1 [OF bn(2)] S l _ hb rel]) (use nb b(4) D(12,13) in \<open>simp_all add: s'_def\<close>)
  then show ?thesis by (simp add: bkeeps_def s'_def)
qed

lemma bpin_spec:
  assumes R: "cache_rel p dev s A" and b: "bh dev s b n" "0 < rc A n" "rc A n < 1000"
  shows "\<exists>s'. bpin b s = Inr ((), s') \<and> bkeeps dev A s s' \<and> cache_rel p dev s' (A\<lparr>rc := (rc A)(n := Suc (rc A n))\<rparr>)"
proof -
  have "unat (refcnt (bufs s ! b)) = rc A n" using cache_relD(7) [OF R, of b] b by (auto simp: bh_def holds_block_def buf_rel_def)
  then have "unat (refcnt (bufs s ! b) + 1) = Suc (rc A n)" using b(3) unat_plus_1 by metis
  from pin_change [OF R b(1,2) this] show ?thesis unfolding bpin_def pin_run [OF R] by blast
qed

lemma bunpin_spec:
  assumes R: "cache_rel p dev s A" and b: "bh dev s b n" "rc A n = Suc k" "0 < k"
  shows "\<exists>s'. bunpin b s = Inr ((), s') \<and> bkeeps dev A s s' \<and> cache_rel p dev s' (A\<lparr>rc := (rc A)(n := k)\<rparr>)"
proof -
  have "unat (refcnt (bufs s ! b)) = Suc k" using cache_relD(7) [OF R, of b] b by (auto simp: bh_def holds_block_def buf_rel_def)
  then have "unat (refcnt (bufs s ! b) - 1) = k" by (rule unat_minus_1)
  moreover have "0 < rc A n" using b(2) by simp
  ultimately show ?thesis using pin_change [OF R b(1) _ _ b(3)] unfolding bunpin_def pin_run [OF R] by blast
qed

section \<open>binit\<close>

text \<open>A buffer in the zeroed data segment.\<close>

definition zero_buf :: "buf \<Rightarrow> bool" where
  "zero_buf x \<longleftrightarrow> bdev x = 0 \<and> refcnt x = 0 \<and> \<not> bvalid x"

lemma binit_one_links:
  assumes "length bs = Suc NBUF" "b < NBUF" "nexts bs NBUF \<le> NBUF"
  shows "length (binit_one b bs) = length bs" "nexts (binit_one b bs) = nexts (push_front b bs)" "prevs (binit_one b bs) = prevs (push_front b bs)"
  using assms unfolding binit_one_def push_front_def Let_def nexts_def prevs_def set_next_def set_prev_def
  by (auto simp: fun_eq_iff nth_update_cases)

lemma binit_one_other:
  assumes "length bs = Suc NBUF" "b < NBUF" "\<forall>i \<le> NBUF. zero_buf (bs ! i)"
  shows "\<forall>i \<le> NBUF. zero_buf (binit_one b bs ! i)" "blk (binit_one b bs ! i) = (if i = b then initsleeplock ''buffer'' else blk (bs ! i))"
  using assms unfolding binit_one_def Let_def set_next_def set_prev_def zero_buf_def
  by (auto simp: nth_update_cases)

lemma dll_cong: "length bs = length cs \<Longrightarrow> nexts bs = nexts cs \<Longrightarrow> prevs bs = prevs cs \<Longrightarrow> dll bs xs = dll cs xs"
  by (simp add: dll_def)

lemma binit_fold:
  assumes "length bs = Suc NBUF" "nexts bs NBUF = NBUF" "prevs bs NBUF = NBUF" "\<forall>i \<le> NBUF. zero_buf (bs ! i)" "k \<le> NBUF"
  shows "dll (fold binit_one [0..<k] bs) (rev [0..<k]) \<and> (\<forall>i \<le> NBUF. zero_buf (fold binit_one [0..<k] bs ! i)) \<and>
    (\<forall>i < k. blk (fold binit_one [0..<k] bs ! i) = initsleeplock ''buffer'')"
  using assms(5)
proof (induction k)
  case 0
  then show ?case using assms by (simp add: dll_def)
next
  case (Suc k)
  let ?bs = "fold binit_one [0..<k] bs"
  have IH: "dll ?bs (rev [0..<k])" "\<forall>i \<le> NBUF. zero_buf (?bs ! i)" "\<forall>i < k. blk (?bs ! i) = initsleeplock ''buffer''"
    and k: "k < NBUF" using Suc by auto
  have l: "length ?bs = Suc NBUF" using IH(1) by (simp add: dll_def)
  have "nexts ?bs NBUF = (case rev [0..<k] of [] \<Rightarrow> NBUF | x # _ \<Rightarrow> x)" by (rule dll_first [OF IH(1)])
  then have "nexts ?bs NBUF \<le> NBUF" using k by (cases k) simp_all
  note L = binit_one_links [OF l k this]
  have "dll (push_front k ?bs) (k # rev [0..<k])" by (rule push_front_dll [OF IH(1) k]) simp
  moreover have "length (push_front k ?bs) = length ?bs" by (simp add: push_front_def Let_def set_next_def set_prev_def)
  ultimately have "dll (binit_one k ?bs) (k # rev [0..<k])" using dll_cong [of "binit_one k ?bs" "push_front k ?bs"] L by simp
  then show ?case using binit_one_other [OF l k IH(2)] IH(3) by (simp add: less_Suc_eq)
qed

lemma binit_cache_rel:
  assumes "pinv s" "curproc s = Some p" "p < NPROC" "dev \<noteq> 0" "length (bufs s) = Suc NBUF" "\<forall>i \<le> NBUF. zero_buf (bufs s ! i)"
  shows "cache_rel p dev (binit s) \<lparr>vw = disk s, dk = disk s, tr = writes s, rc = (\<lambda>_. 0), lk = {}\<rparr>"
proof -
  define bs where "bs = set_next NBUF NBUF (set_prev NBUF NBUF (bufs s))"
  have b: "length bs = Suc NBUF" "nexts bs NBUF = NBUF" "prevs bs NBUF = NBUF" "\<forall>i \<le> NBUF. zero_buf (bs ! i)"
    using assms(5,6) by (auto simp: bs_def set_next_def set_prev_def nexts_def prevs_def nth_update_cases zero_buf_def)
  define cs where "cs = fold binit_one [0..<NBUF] bs"
  have c: "dll cs (rev [0..<NBUF])" "\<And>i. i \<le> NBUF \<Longrightarrow> zero_buf (cs ! i)" "\<And>i. i < NBUF \<Longrightarrow> blk (cs ! i) = initsleeplock ''buffer''"
    using binit_fold [OF b order_refl] unfolding cs_def by blast+
  have "set (rev [0..<NBUF]) = {..<NBUF}" by auto
  with c(1) have "lru cs (rev [0..<NBUF])" unfolding lru_def by blast
  moreover have "binit s = s\<lparr>bcache_lock := initlock ''bcache'', bufs := cs\<rparr>" by (simp add: binit_def cs_def bs_def Let_def)
  moreover have "buf_rel dev me \<lparr>vw = disk s, dk = disk s, tr = writes s, rc = (\<lambda>_. 0), lk = {}\<rparr> (cs ! b)" if "b < NBUF" for b me
    using c(2) [of b] c(3) [OF that] that assms(4) by (auto simp: buf_rel_def zero_buf_def initsleeplock_def slock_ok_def clean_def initlock_def)
  moreover have "cached_once cs" using c(2) by (auto simp: cached_once_def zero_buf_def)
  ultimately show ?thesis using assms(1-4) by (auto simp: cache_rel_def pinv_def clean_def initlock_def)
qed

section \<open>The cache as its clients see it\<close>

text \<open>
  \<^verbatim>\<open>binit\<close> on the zeroed table of buffers builds the empty cache: the list through all buffers is well linked in both directions, no block
  is in use or locked, and every block reads as what is on the disk.
\<close>
theorem binit_refines_empty_cache:
  assumes "pinv s" "curproc s = Some p" "p < NPROC" "dev \<noteq> 0" "length (bufs s) = Suc NBUF" "\<forall>i \<le> NBUF. zero_buf (bufs s ! i)"
  shows "cache_rel p dev (binit s) \<lparr>vw = disk s, dk = disk s, tr = writes s, rc = (\<lambda>_. 0), lk = {}\<rparr>"
  by (rule binit_cache_rel [OF assms])

text \<open>
  C8. \<^verbatim>\<open>bread\<close> refines the lookup of a block: for a block that the process has not locked, and if the block is in use or some buffer is unused,
  it returns a buffer that stands for the block and holds its contents; the block then has one more user and is locked, no disk block is
  written, and all other blocks keep their buffers, users and contents.
\<close>
theorem bread_refines:
  assumes R: "cache_rel p dev s A" and n: "n \<notin> lk A" "rc A n < 1000"
    and room: "0 < rc A n \<or> finite {m. 0 < rc A m} \<and> card {m. 0 < rc A m} < NBUF"
  shows "\<exists>b s'. bread dev n s = Inr (b, s') \<and> bh dev s' b n \<and> bdata (bufs s' ! b) = vw A n \<and>
    cache_rel p dev s' (A\<lparr>rc := (rc A)(n := Suc (rc A n)), lk := insert n (lk A)\<rparr>) \<and>
    (\<forall>c m. bh dev s c m \<longrightarrow> 0 < rc A m \<longrightarrow> bh dev s' c m)"
proof -
  let ?A = "A\<lparr>rc := (rc A)(n := Suc (rc A n)), lk := insert n (lk A)\<rparr>"
  obtain b s' where s': "bread dev n s = Inr (b, s')" "bh dev s' b n" "cache_rel p dev s' ?A" "bkeeps dev A s s'"
    using bread_spec [OF assms] by blast
  have "bdata (bufs s' ! b) = vw A n" using buf_data_spec [OF s'(3,2)] by simp
  then show ?thesis using s' by (auto simp: bkeeps_def)
qed


text \<open>
  The buffer that \<^verbatim>\<open>bget\<close> takes is the one that holds the block, and else the least recently used one that nobody uses: the last such of
  the list. It leaves the order of the list as it is and no block in two buffers; if all buffers are in use it panics.
\<close>
theorem bget_lru_choice:
  assumes "lru (bufs s) xs" "cached_once (bufs s)" "dev \<noteq> 0"
  shows "case bget_entry dev n s of
      Inr (b, s') \<Rightarrow> lru (bufs s') xs \<and> cached_once (bufs s') \<and> holds_block dev n (bufs s' ! b) \<and>
        (holds_block dev n (bufs s ! b) \<or> (\<forall>c < NBUF. \<not> holds_block dev n (bufs s ! c)) \<and>
           find (\<lambda>b. refcnt (bufs s ! b) = 0) (rev xs) = Some b)
    | Inl e \<Rightarrow> e = Panic ''bget: no buffers'' \<and> (\<forall>c < NBUF. \<not> holds_block dev n (bufs s ! c) \<and> refcnt (bufs s ! c) \<noteq> 0)"
proof -
  have xs: "set xs = {..<NBUF}" using assms(1) by (simp add: lru_def)
  show ?thesis
  proof (cases "bget_entry dev n s")
    case (Inl e)
    then show ?thesis using xs unfolding bget_entry_eq [OF assms(1)] by (auto simp: find_None_iff split: option.splits)
  next
    case (Inr r)
    then obtain b s' where r: "bget_entry dev n s = Inr (b, s')" by (cases r) auto
    note K = bget_entry_keeps [OF assms r]
    have "holds_block dev n (bufs s ! b) \<or> find (\<lambda>b. refcnt (bufs s ! b) = 0) (rev xs) = Some b"
    proof (cases "find (\<lambda>b. holds_block dev n (bufs s ! b)) xs")
      case None then show ?thesis using r unfolding bget_entry_eq [OF assms(1)] by (auto split: option.splits)
    next
      case (Some a) then show ?thesis using r find_Some_D [OF Some] unfolding bget_entry_eq [OF assms(1)] by auto
    qed
    then show ?thesis using r K(1,2,4,10) by auto
  qed
qed

end
