(* ===== verification/Log_Spec.thy ===== *)
theory Log_Spec
  imports Log Bio_Spec
begin

text \<open>
  The log makes commits atomic with respect to crashes. A crash can happen between any two disk writes of a commit, which \<open>writes\<close>
  records; recovery then runs on the disk with a prefix of these writes. It is shown that after recovery every block outside
  the log has its contents from before the commit, or every one has its contents from after it.
\<close>

section \<open>Lemmas\<close>

subsection \<open>Words in blocks\<close>

lemma length_put32: "4 * i + 4 \<le> length d \<Longrightarrow> length (put32 d i v) = length d"
  by (simp add: put32_def)

lemma get32_put32_same: "4 * i + 4 \<le> length d \<Longrightarrow> get32 (put32 d i v) i = v"
  by (simp add: get32_def put32_def)

lemma get32_put32_other:
  assumes "i \<noteq> j" "4 * i + 4 \<le> length d" "4 * j + 4 \<le> length d"
  shows "get32 (put32 d i v) j = get32 d j"
proof -
  have "take 4 (drop (4 * j) (put32 d i v)) = take 4 (drop (4 * j) d)"
  proof (rule nth_equalityI)
    fix k assume "k < length (take 4 (drop (4 * j) (put32 d i v)))"
    then have k: "k < 4" "4 * j + k < length d" using assms by (auto simp: length_put32)
    have "4 * j + k < 4 * i \<or> 4 * i + 4 \<le> 4 * j + k" using assms(1) k by linarith
    then have "put32 d i v ! (4 * j + k) = d ! (4 * j + k)"
      using assms k by (auto simp: put32_def nth_append)
    then show "take 4 (drop (4 * j) (put32 d i v)) ! k = take 4 (drop (4 * j) d) ! k"
      using k assms by (simp add: length_put32)
  qed (use assms in \<open>simp add: length_put32\<close>)
  then show ?thesis by (simp add: get32_def)
qed

subsection \<open>The log's part of the state\<close>

lemma more_log:
  assumes "bst.more s' = bst.more (s :: 'z logst_scheme)"
  shows "lh_n s' = lh_n s" "lh_block s' = lh_block s" "log_start s' = log_start s" "log_dev s' = log_dev s"
    "log_lock s' = log_lock s" "outstanding s' = outstanding s" "committing s' = committing s" "log_size s' = log_size s"
  using assms by (cases s; cases s'; simp)+

lemma upd_more: "bst.more (upd_buf b f s) = bst.more s"
  by (simp add: upd_buf_def)

subsection \<open>Two buffers at once\<close>

text \<open>All that is in use is unlocked, and at least one buffer is unused.\<close>

definition calm :: "bcv \<Rightarrow> bool" where
  "calm A \<longleftrightarrow> lk A = {} \<and> finite {m. 0 < rc A m} \<and> card {m. 0 < rc A m} < NBUF \<and> (\<forall>m. rc A m \<le> 1)"

text \<open>Reading a block of the log and its home block.\<close>

lemma bread_pair:
  assumes R: "cache_rel p dev s A" "calm A" and n: "nl \<noteq> nh" "rc A nl = 0"
    and room: "rc A nh = 1 \<or> card {m. 0 < rc A m} < NBUF - 1"
  shows "\<exists>lb db s1 s2. bread dev nl s = Inr (lb, s1) \<and> bread dev nh s1 = Inr (db, s2) \<and> bst.more s1 = bst.more s \<and> bst.more s2 = bst.more s \<and>
    bh dev s2 lb nl \<and> bh dev s2 db nh \<and> 
    cache_rel p dev s2 (A\<lparr>rc := (rc A)(nl := 1, nh := Suc (rc A nh)), lk := {nl, nh}\<rparr>)"
proof -
  have c: "lk A = {}" "finite {m. 0 < rc A m}" "card {m. 0 < rc A m} < NBUF" "rc A nh \<le> 1" using R(2) by (auto simp: calm_def)
  let ?A1 = "A\<lparr>rc := (rc A)(nl := Suc (rc A nl)), lk := insert nl (lk A)\<rparr>"
  obtain lb s1 where s1: "bread dev nl s = Inr (lb, s1)" "bh dev s1 lb nl" "cache_rel p dev s1 ?A1" "bkeeps dev A s s1"
    using bread_spec [OF R(1), of nl] c n(2) by auto
  have e: "{m. 0 < rc ?A1 m} = insert nl {m. 0 < rc A m}" by auto
  have "card {m. 0 < rc ?A1 m} \<le> Suc (card {m. 0 < rc A m})" unfolding e using card_insert_le_m1 c(2) by (simp add: card_insert_if)
  then have room1: "0 < rc ?A1 nh \<or> finite {m. 0 < rc ?A1 m} \<and> card {m. 0 < rc ?A1 m} < NBUF"
    using room n(1) c(2) unfolding e by auto
  have "nh \<notin> lk ?A1" "rc ?A1 nh < 1000" using c n by simp_all
  from bread_spec [OF s1(3) this room1] obtain db s2 where s2: "bread dev nh s1 = Inr (db, s2)" "bh dev s2 db nh"
    "cache_rel p dev s2 (?A1\<lparr>rc := (rc ?A1)(nh := Suc (rc ?A1 nh)), lk := insert nh (lk ?A1)\<rparr>)" "bkeeps dev ?A1 s1 s2" by blast
  have eq: "?A1\<lparr>rc := (rc ?A1)(nh := Suc (rc ?A1 nh)), lk := insert nh (lk ?A1)\<rparr> =
      A\<lparr>rc := (rc A)(nl := 1, nh := Suc (rc A nh)), lk := {nl, nh}\<rparr>"
    using n c(1) by (simp add: insert_commute)
  have "bh dev s2 lb nl" using s2(4) s1(2) by (simp add: bkeeps_def)
  moreover have "bst.more s1 = bst.more s" "bst.more s2 = bst.more s" using s1(4) s2(4) by (simp_all add: bkeeps_def)
  ultimately show ?thesis using s1(1) s2(1-3) unfolding eq by blast
qed

text \<open>Releasing two locked buffers whose data are on the disk, except perhaps those of a pinned one.\<close>

lemma brelse_pair:
  assumes R: "cache_rel p dev s A" and b: "bh dev s b1 n1" "bh dev s b2 n2" "n1 \<noteq> n2" "lk A = {n1, n2}"
    and r: "rc A n1 = Suc k1" "rc A n2 = Suc k2" "k1 = 0 \<Longrightarrow> vw A n1 = dk A n1" "k2 = 0 \<Longrightarrow> vw A n2 = dk A n2"
  shows "\<exists>s1 s2. brelse b1 s = Inr ((), s1) \<and> brelse b2 s1 = Inr ((), s2) \<and> bst.more s2 = bst.more s \<and>
    cache_rel p dev s2 (A\<lparr>rc := (rc A)(n1 := k1, n2 := k2), lk := {}\<rparr>)"
proof -
  let ?A1 = "A\<lparr>rc := (rc A)(n1 := k1), lk := lk A - {n1}\<rparr>"
  obtain s1 where s1: "brelse b1 s = Inr ((), s1)" "bkeeps dev A s s1" "cache_rel p dev s1 ?A1"
    using brelse_spec [OF R b(1) _ r(1,3)] b(4) by auto
  have h: "bh dev s1 b2 n2" using s1(2) b(2) r(2) by (simp add: bkeeps_def)
  have l: "n2 \<in> lk ?A1" "rc ?A1 n2 = Suc k2" "k2 = 0 \<Longrightarrow> vw ?A1 n2 = dk ?A1 n2" using b(3,4) r by simp_all
  obtain s2 where s2: "brelse b2 s1 = Inr ((), s2)" "bkeeps dev ?A1 s1 s2"
    "cache_rel p dev s2 (?A1\<lparr>rc := (rc ?A1)(n2 := k2), lk := lk ?A1 - {n2}\<rparr>)"
    using brelse_spec [OF s1(3) h l] by blast
  have "?A1\<lparr>rc := (rc ?A1)(n2 := k2), lk := lk ?A1 - {n2}\<rparr> = A\<lparr>rc := (rc A)(n1 := k1, n2 := k2), lk := {}\<rparr>"
    using b(3,4) by (simp add: insert_Diff_if)
  then show ?thesis using s1(1,2) s2 by (auto simp: bkeeps_def)
qed

subsection \<open>One turn of the loops\<close>

lemma bread_log_home:
  assumes "tail < LOGSIZE" "dev = log_dev s" "nl = log_start s + of_nat tail + 1" "nh = lh_block s ! tail"
    and "bread dev nl s = Inr (lb, s1)" "bread dev nh s1 = Inr (db, s2)" "bst.more s1 = bst.more s"
  shows "bread_log tail s = Inr (lb, s1)" "bread_home tail s1 = Inr (db, s2)"
  using assms more_log [OF assms(7)] by (simp_all add: bread_log_def bread_home_def lh_at_def run_simps)

text \<open>The data of one locked buffer copied to another, and that one written to the disk.\<close>

lemma copy_write:
  assumes R: "cache_rel p dev s A" and b: "bh dev s from nf" "bh dev s to nt" "nf \<noteq> nt" "nf \<in> lk A" "nt \<in> lk A"
  shows "\<exists>s1 s2. bind (buf_data from) (set_buf_data to) s = Inr ((), s1) \<and> bwrite to s1 = Inr ((), s2) \<and> bst.more s2 = bst.more s \<and>
    bh dev s2 from nf \<and> bh dev s2 to nt \<and>
    cache_rel p dev s2 (A\<lparr>vw := (vw A)(nt := vw A nf), dk := (dk A)(nt := vw A nf), tr := tr A @ [(nt, vw A nf)]\<rparr>)"
proof -
  have rc: "0 < rc A nf" "0 < rc A nt" using cache_relD(11) [OF R, of nf] cache_relD(11) [OF R, of nt] b(4,5) by auto
  let ?s1 = "upd_buf to (\<lambda>x. x\<lparr>bdata := vw A nf\<rparr>) s" and ?A1 = "A\<lparr>vw := (vw A)(nt := vw A nf)\<rparr>"
  have c: "bind (buf_data from) (set_buf_data to) s = Inr ((), ?s1)"
    using buf_data_spec [OF R b(1) rc(1)] by (simp add: buf_data_def set_buf_data_def run_simps)
  have S1: "cache_rel p dev ?s1 ?A1" "bkeeps dev A s ?s1" using set_buf_data_spec [OF R b(2) rc(2)] by auto
  have h1: "bh dev ?s1 from nf" "bh dev ?s1 to nt" using S1(2) b(1,2) rc by (simp_all add: bkeeps_def)
  have l1: "nt \<in> lk ?A1" using b(5) by simp
  obtain s2 where s2: "bwrite to ?s1 = Inr ((), s2)" "bkeeps dev ?A1 ?s1 s2"
    "cache_rel p dev s2 (?A1\<lparr>dk := (dk ?A1)(nt := vw ?A1 nt), tr := tr ?A1 @ [(nt, vw ?A1 nt)]\<rparr>)"
    using bwrite_spec [OF S1(1) h1(2) l1] by blast
  have "bh dev s2 from nf" "bh dev s2 to nt" "bst.more s2 = bst.more s"
    using s2(2) h1 rc by (simp_all add: bkeeps_def upd_more)
  then show ?thesis using c s2(1,3) by auto
qed

lemma write_log_step:
  assumes R: "cache_rel p (log_dev s) s A" "calm A" and t: "tail < LOGSIZE"
    and n: "nl = log_start s + of_nat tail + 1" "nh = lh_block s ! tail" "nl \<noteq> nh" "rc A nl = 0" "rc A nh = 1"
  shows "\<exists>s'. write_log_one tail s = Inr ((), s') \<and> bst.more s' = bst.more s \<and>
    cache_rel p (log_dev s) s' (A\<lparr>vw := (vw A)(nl := vw A nh), dk := (dk A)(nl := vw A nh), tr := tr A @ [(nl, vw A nh)]\<rparr>)"
proof -
  let ?A1 = "A\<lparr>rc := (rc A)(nl := 1, nh := Suc (rc A nh)), lk := {nl, nh}\<rparr>" and ?d = "log_dev s"
  obtain lb db s1 s2 where s2: "bread ?d nl s = Inr (lb, s1)" "bread ?d nh s1 = Inr (db, s2)" "bst.more s1 = bst.more s" "bst.more s2 = bst.more s"
    "bh ?d s2 lb nl" "bh ?d s2 db nh" "cache_rel p ?d s2 ?A1"
    using bread_pair [OF R n(3,4)] n(5) by blast
  note br = bread_log_home [OF t refl n(1,2) s2(1-3)]
  have l: "nh \<in> lk ?A1" "nl \<in> lk ?A1" by simp_all
  let ?A3 = "?A1\<lparr>vw := (vw ?A1)(nl := vw ?A1 nh), dk := (dk ?A1)(nl := vw ?A1 nh), tr := tr ?A1 @ [(nl, vw ?A1 nh)]\<rparr>"
  obtain s3 s4 where s4: "bind (buf_data db) (set_buf_data lb) s2 = Inr ((), s3)" "bwrite lb s3 = Inr ((), s4)" "bst.more s4 = bst.more s2"
    "bh ?d s4 db nh" "bh ?d s4 lb nl" "cache_rel p ?d s4 ?A3"
    using copy_write [OF s2(7) s2(6,5) n(3) [symmetric] l] by blast
  have r: "rc ?A3 nh = Suc 1" "rc ?A3 nl = Suc 0" "vw ?A3 nl = dk ?A3 nl" "lk ?A3 = {nh, nl}" using n by auto
  obtain s5 s6 where s6: "brelse db s4 = Inr ((), s5)" "brelse lb s5 = Inr ((), s6)" "bst.more s6 = bst.more s4"
    "cache_rel p ?d s6 (?A3\<lparr>rc := (rc ?A3)(nh := 1, nl := 0), lk := {}\<rparr>)"
    using brelse_pair [OF s4(6,4,5) n(3) [symmetric] r(4) r(1,2)] r(3) by auto
  have "(rc A)(nl := 0, nh := 1) = rc A" using n(4,5) by auto
  moreover have "lk A = {}" using R(2) by (simp add: calm_def)
  ultimately have eq: "?A3\<lparr>rc := (rc ?A3)(nh := 1, nl := 0), lk := {}\<rparr> =
      A\<lparr>vw := (vw A)(nl := vw A nh), dk := (dk A)(nl := vw A nh), tr := tr A @ [(nl, vw A nh)]\<rparr>"
    using n(3) by (simp add: fun_upd_twist [of nl nh])
  have "write_log_one tail s = Inr ((), s6)" unfolding write_log_one_def using br s4(1,2) s6(1,2) by (simp add: run_simps)
  then show ?thesis using s6(3,4) s4(3) s2(4) unfolding eq by auto
qed

lemma install_step:
  assumes R: "cache_rel p (log_dev s) s A" "calm A" and t: "tail < LOGSIZE"
    and n: "nl = log_start s + of_nat tail + 1" "nh = lh_block s ! tail" "nl \<noteq> nh" "rc A nl = 0"
    and pin: "if recovering then rc A nh = 0 \<and> card {m. 0 < rc A m} < NBUF - 1 else rc A nh = 1"
  shows "\<exists>s'. install_one recovering tail s = Inr ((), s') \<and> bst.more s' = bst.more s \<and>
    cache_rel p (log_dev s) s' (A\<lparr>vw := (vw A)(nh := vw A nl), dk := (dk A)(nh := vw A nl), tr := tr A @ [(nh, vw A nl)], rc := (rc A)(nh := 0)\<rparr>)"
proof -
  let ?A1 = "A\<lparr>rc := (rc A)(nl := 1, nh := Suc (rc A nh)), lk := {nl, nh}\<rparr>" and ?d = "log_dev s"
  have room: "rc A nh = 1 \<or> card {m. 0 < rc A m} < NBUF - 1" using pin by (auto split: if_splits)
  obtain lb db s1 s2 where s2: "bread ?d nl s = Inr (lb, s1)" "bread ?d nh s1 = Inr (db, s2)" "bst.more s1 = bst.more s" "bst.more s2 = bst.more s"
    "bh ?d s2 lb nl" "bh ?d s2 db nh" "cache_rel p ?d s2 ?A1"
    using bread_pair [OF R n(3,4) room] by blast
  note br = bread_log_home [OF t refl n(1,2) s2(1-3)]
  have l: "nl \<in> lk ?A1" "nh \<in> lk ?A1" by simp_all
  let ?A3 = "?A1\<lparr>vw := (vw ?A1)(nh := vw ?A1 nl), dk := (dk ?A1)(nh := vw ?A1 nl), tr := tr ?A1 @ [(nh, vw ?A1 nl)]\<rparr>"
  obtain s3 s4 where s4: "bind (buf_data lb) (set_buf_data db) s2 = Inr ((), s3)" "bwrite db s3 = Inr ((), s4)" "bst.more s4 = bst.more s2"
    "bh ?d s4 lb nl" "bh ?d s4 db nh" "cache_rel p ?d s4 ?A3"
    using copy_write [OF s2(7) s2(5,6) n(3) l] by blast
  have "\<exists>s5. whenever (\<not> recovering) (bunpin db) s4 = Inr ((), s5) \<and> bst.more s5 = bst.more s4 \<and> bh ?d s5 lb nl \<and> bh ?d s5 db nh \<and>
      cache_rel p ?d s5 (?A3\<lparr>rc := (rc ?A3)(nh := 1)\<rparr>)"
  proof (cases recovering)
    case True
    then have "?A3\<lparr>rc := (rc ?A3)(nh := 1)\<rparr> = ?A3" using pin by simp
    then show ?thesis using True s4 by (simp add: run_simps)
  next
    case False
    then have "rc ?A3 nh = Suc 1" using pin by simp
    then obtain s5 where "bunpin db s4 = Inr ((), s5)" "bkeeps ?d ?A3 s4 s5" "cache_rel p ?d s5 (?A3\<lparr>rc := (rc ?A3)(nh := 1)\<rparr>)"
      using bunpin_spec [OF s4(6,5)] by auto
    then show ?thesis using False s4(4,5) n(3) by (auto simp: run_simps bkeeps_def)
  qed
  then obtain s5 where s5: "whenever (\<not> recovering) (bunpin db) s4 = Inr ((), s5)" "bst.more s5 = bst.more s4" "bh ?d s5 lb nl" "bh ?d s5 db nh"
      "cache_rel p ?d s5 (?A3\<lparr>rc := (rc ?A3)(nh := 1)\<rparr>)" by blast
  let ?A5 = "?A3\<lparr>rc := (rc ?A3)(nh := 1)\<rparr>"
  have v: "vw A nl = dk A nl" using cache_relD(10) [OF R(1) n(4)] .
  have r: "rc ?A5 nl = Suc 0" "rc ?A5 nh = Suc 0" "vw ?A5 nl = dk ?A5 nl" "vw ?A5 nh = dk ?A5 nh" "lk ?A5 = {nl, nh}"
    using n(3) v by simp_all
  obtain s6 s7 where s7: "brelse lb s5 = Inr ((), s6)" "brelse db s6 = Inr ((), s7)" "bst.more s7 = bst.more s5"
    "cache_rel p ?d s7 (?A5\<lparr>rc := (rc ?A5)(nl := 0, nh := 0), lk := {}\<rparr>)"
    using brelse_pair [OF s5(5,3,4) n(3) r(5) r(1,2)] r(3,4) by auto
  have "(rc A)(nh := 0, nl := 0) = (rc A)(nh := 0)" using n(4) by auto
  moreover have "lk A = {}" using R(2) by (simp add: calm_def)
  ultimately have eq: "?A5\<lparr>rc := (rc ?A5)(nl := 0, nh := 0), lk := {}\<rparr> =
      A\<lparr>vw := (vw A)(nh := vw A nl), dk := (dk A)(nh := vw A nl), tr := tr A @ [(nh, vw A nl)], rc := (rc A)(nh := 0)\<rparr>"
    using n(3) by (intro bcv.equality) (simp_all add: fun_upd_twist [of nl nh])
  have "install_one recovering tail s = Inr ((), s7)" unfolding install_one_def
    using br s4(1,2) s5(1) s7(1,2) by (simp add: run_simps)
  then show ?thesis using s7(3,4) s5(2) s4(3) s2(4) unfolding eq by auto
qed

section \<open>The loops\<close>

text \<open>A counted loop keeps an invariant that mentions the number of turns done.\<close>

lemma for_upto:
  assumes "P 0 s" "\<And>k s. k < n \<Longrightarrow> P k s \<Longrightarrow> \<exists>s'. f k s = Inr ((), s') \<and> P (Suc k) s'"
  shows "\<exists>s'. for_each [0..<n] f s = Inr ((), s') \<and> P n s'"
proof -
  have "\<exists>s'. for_each [n - j..<n] f s = Inr ((), s') \<and> P n s'" if "P (n - j) s" "j \<le> n" for j s
    using that
  proof (induction j arbitrary: s)
    case 0 then show ?case by (simp add: run_simps)
  next
    case (Suc j)
    have u: "[n - Suc j..<n] = (n - Suc j) # [n - j..<n]" using Suc.prems(2) by (simp add: upt_conv_Cons Suc_diff_Suc)
    have S: "Suc (n - Suc j) = n - j" using Suc.prems(2) by simp
    obtain s1 where s1: "f (n - Suc j) s = Inr ((), s1)" "P (n - j) s1"
      using assms(2) [of "n - Suc j" s] Suc.prems unfolding S by auto
    then show ?case using Suc.IH [OF s1(2)] Suc.prems(2) unfolding u by (simp add: run_simps)
  qed
  from this [of n s] show ?thesis using assms(1) by simp
qed

text \<open>The effect of a sequence of disk writes.\<close>

definition after_writes :: "(u32 \<times> block) list \<Rightarrow> (u32 \<Rightarrow> block) \<Rightarrow> u32 \<Rightarrow> block" where
  "after_writes ws = fold (\<lambda>(n, d) f. f(n := d)) ws"

lemma after_writes_simps [simp]:
  "after_writes [] f = f" "after_writes ((n, d) # ws) f = after_writes ws (f(n := d))"
  "after_writes (ws @ vs) f = after_writes vs (after_writes ws f)"
  by (simp_all add: after_writes_def)

lemma after_writes_other: "n \<notin> fst ` set ws \<Longrightarrow> after_writes ws f n = f n"
  by (induction ws arbitrary: f) auto

text \<open>Writing a value of its own to each of the first \<open>k\<close> blocks of a list.\<close>

lemma after_writes_map:
  assumes "inj_on a {..<k}" "i < k"
  shows "after_writes (map (\<lambda>i. (a i, v i)) [0..<k]) f (a i) = v i"
  using assms
proof (induction k)
  case (Suc k)
  show ?case
  proof (cases "i = k")
    case False
    then have "i < k" "a i \<noteq> a k" using Suc.prems by (auto simp: inj_on_def)
    then show ?thesis using Suc by (simp add: lessThan_Suc)
  qed simp
qed simp

lemma after_writes_map_other:
  assumes "\<And>i. i < k \<Longrightarrow> a i \<noteq> n"
  shows "after_writes (map (\<lambda>i. (a i, v i)) [0..<k]) f n = f n"
  by (rule after_writes_other) (use assms in force)

text \<open>The blocks of the log: the header and after it one for each block of a transaction.\<close>

definition log_at :: "u32 \<Rightarrow> nat \<Rightarrow> u32" where
  "log_at start i = start + of_nat i + 1"

definition log_area :: "u32 \<Rightarrow> u32 set" where
  "log_area start = (\<lambda>i. start + of_nat i) ` {..<LOGSIZE}"

lemma small_u32: "i < 2 ^ 32 \<Longrightarrow> j < 2 ^ 32 \<Longrightarrow> (of_nat i = (of_nat j :: u32)) = (i = j)"
  by (simp add: word_unat_eq_iff unat_of_nat)

lemma log_at_inj: "inj_on (log_at start) {..<LOGSIZE}"
  by (rule inj_onI) (simp add: log_at_def small_u32)

lemma log_at_area: "i + 1 < LOGSIZE \<Longrightarrow> log_at start i \<in> log_area start"
  unfolding log_area_def log_at_def by (rule image_eqI [of _ _ "Suc i"]) (simp_all add: ac_simps)

lemma start_area: "start \<in> log_area start"
  unfolding log_area_def by (rule image_eqI [of _ _ 0]) simp_all

lemma start_not_log_at:
  assumes "i < LOGSIZE"
  shows "log_at start i \<noteq> start"
  using assms small_u32 [of "Suc i" 0] by (auto simp: log_at_def ac_simps)

lemma write_log_spec:
  assumes R: "cache_rel p (log_dev s) s A" "calm A" and n: "lh_n s = int n" "n \<le> LOGSIZE" "ns = lh_block s"
    and rc: "\<And>i. i < n \<Longrightarrow> rc A (ns ! i) = 1" "\<And>i. i < n \<Longrightarrow> rc A (log_at (log_start s) i) = 0"
    and ws: "ws = map (\<lambda>i. (log_at (log_start s) i, vw A (ns ! i))) [0..<n]"
  shows "\<exists>s'. write_log s = Inr ((), s') \<and> bst.more s' = bst.more s \<and>
    cache_rel p (log_dev s) s' (A\<lparr>vw := after_writes ws (vw A), dk := after_writes ws (dk A), tr := tr A @ ws\<rparr>)"
proof -
  let ?L = "log_at (log_start s)"
  let ?w = "\<lambda>k. map (\<lambda>i. (?L i, vw A (ns ! i))) [0..<k]"
  let ?A = "\<lambda>k. A\<lparr>vw := after_writes (?w k) (vw A), dk := after_writes (?w k) (dk A), tr := tr A @ ?w k\<rparr>"
  let ?P = "\<lambda>k s'. bst.more s' = bst.more s \<and> cache_rel p (log_dev s) s' (?A k)"
  have "\<exists>s'. for_each [0..<n] write_log_one s = Inr ((), s') \<and> ?P n s'"
  proof (rule for_upto)
    show "?P 0 s" using R(1) by simp
    fix k t assume k: "k < n" and P: "?P k t"
    note more = more_log [OF conjunct1 [OF P]]
    have ne: "?L i \<noteq> ns ! j" if "i < n" "j < n" for i j using rc(1) [OF that(2)] rc(2) [OF that(1)] by auto
    have v: "vw (?A k) (ns ! k) = vw A (ns ! k)"
    proof -
      have "?L i \<noteq> ns ! k" if "i < k" for i using ne [of i k] that k by simp
      then show ?thesis by (simp add: after_writes_map_other)
    qed
    have "\<exists>s'. write_log_one k t = Inr ((), s') \<and> bst.more s' = bst.more t \<and>
      cache_rel p (log_dev t) s' (?A k\<lparr>vw := (vw (?A k))(?L k := vw (?A k) (ns ! k)), dk := (dk (?A k))(?L k := vw (?A k) (ns ! k)),
        tr := tr (?A k) @ [(?L k, vw (?A k) (ns ! k))]\<rparr>)"
    proof (rule write_log_step)
      show "cache_rel p (log_dev t) t (?A k)" using P more by simp
      show "calm (?A k)" using R(2) by (simp add: calm_def)
    qed (use k n rc ne more in \<open>simp_all add: log_at_def\<close>)
    then show "\<exists>s'. write_log_one k t = Inr ((), s') \<and> ?P (Suc k) s'" using P more unfolding v by simp
  qed
  then show ?thesis using n(1) unfolding write_log_def for_tail_def ws by (simp add: run_simps)
qed

lemma calm_less:
  assumes "calm A" "\<And>m. rc B m \<le> rc A m" "lk B = {}"
  shows "calm B" "card {m. 0 < rc B m} \<le> card {m. 0 < rc A m}"
proof -
  have sub: "{m. 0 < rc B m} \<subseteq> {m. 0 < rc A m}" using assms(2) by (auto intro: less_le_trans)
  then show c: "card {m. 0 < rc B m} \<le> card {m. 0 < rc A m}" using assms(1) by (intro card_mono) (auto simp: calm_def)
  have "rc B m \<le> 1" for m using assms(1) assms(2) [of m] by (auto simp: calm_def intro: order_trans)
  then show "calm B" using sub c assms finite_subset by (auto simp: calm_def)
qed

text \<open>Unpinning the first \<open>k\<close> blocks.\<close>

definition unpinned :: "u32 list \<Rightarrow> nat \<Rightarrow> (u32 \<Rightarrow> nat) \<Rightarrow> u32 \<Rightarrow> nat" where
  "unpinned ns k r m = (if \<exists>i<k. m = ns ! i then 0 else r m)"

lemma unpinned_simps: "unpinned ns 0 r = r" "unpinned ns (Suc k) r = (unpinned ns k r)(ns ! k := 0)"
  "unpinned ns k r m \<le> r m"
  by (auto simp: unpinned_def fun_eq_iff less_Suc_eq)

lemma install_trans_spec:
  assumes R: "cache_rel p (log_dev s) s A" "calm A" and n: "lh_n s = int n" "n \<le> LOGSIZE" "ns = lh_block s" "inj_on ((!) ns) {..<n}"
    and L: "\<And>i. i < n \<Longrightarrow> rc A (log_at (log_start s) i) = 0" "\<And>i j. i < n \<Longrightarrow> j < n \<Longrightarrow> log_at (log_start s) i \<noteq> ns ! j"
    and pin: "\<And>i. i < n \<Longrightarrow> rc A (ns ! i) = (if recovering then 0 else 1)" "recovering \<Longrightarrow> card {m. 0 < rc A m} < NBUF - 1"
    and ws: "ws = map (\<lambda>i. (ns ! i, vw A (log_at (log_start s) i))) [0..<n]"
  shows "\<exists>s'. install_trans recovering s = Inr ((), s') \<and> bst.more s' = bst.more s \<and>
    cache_rel p (log_dev s) s' (A\<lparr>vw := after_writes ws (vw A), dk := after_writes ws (dk A), tr := tr A @ ws, rc := unpinned ns n (rc A)\<rparr>)"
proof -
  let ?L = "log_at (log_start s)"
  let ?w = "\<lambda>k. map (\<lambda>i. (ns ! i, vw A (?L i))) [0..<k]"
  let ?A = "\<lambda>k. A\<lparr>vw := after_writes (?w k) (vw A), dk := after_writes (?w k) (dk A), tr := tr A @ ?w k, rc := unpinned ns k (rc A)\<rparr>"
  let ?P = "\<lambda>k s'. bst.more s' = bst.more s \<and> cache_rel p (log_dev s) s' (?A k)"
  have "\<exists>s'. for_each [0..<n] (install_one recovering) s = Inr ((), s') \<and> ?P n s'"
  proof (rule for_upto)
    show "?P 0 s" using R(1) by (simp add: unpinned_simps)
    fix k t assume k: "k < n" and P: "?P k t"
    note more = more_log [OF conjunct1 [OF P]]
    have ne: "ns ! i \<noteq> ?L k" "ns ! i \<noteq> ns ! k" if "i < k" for i using L(2) [of k i] n(4) that k by (auto simp: inj_on_def)
    have v: "vw (?A k) (?L k) = vw A (?L k)" using ne(1) by (simp add: after_writes_map_other)
    have r: "rc (?A k) (ns ! k) = rc A (ns ! k)" "rc (?A k) (?L k) = 0"
      using ne(2) L(1) [OF k] by (fastforce simp: unpinned_def)+
    have c: "calm (?A k)" "card {m. 0 < rc (?A k) m} \<le> card {m. 0 < rc A m}"
      using R(2) by (intro calm_less [OF R(2)]; simp add: unpinned_simps calm_def)+
    have "\<exists>s'. install_one recovering k t = Inr ((), s') \<and> bst.more s' = bst.more t \<and>
      cache_rel p (log_dev t) s' (?A k\<lparr>vw := (vw (?A k))(ns ! k := vw (?A k) (?L k)), dk := (dk (?A k))(ns ! k := vw (?A k) (?L k)),
        tr := tr (?A k) @ [(ns ! k, vw (?A k) (?L k))], rc := (rc (?A k))(ns ! k := 0)\<rparr>)"
    proof (rule install_step [OF _ c(1)])
      show "cache_rel p (log_dev t) t (?A k)" using P more by simp
      show "if recovering then rc (?A k) (ns ! k) = 0 \<and> card {m. 0 < rc (?A k) m} < NBUF - 1 else rc (?A k) (ns ! k) = 1"
        using pin(1) [OF k] pin(2) c(2) unfolding r by (auto split: if_splits)
    qed (use k n r(2) L(2) [OF k k] more in \<open>simp_all add: log_at_def\<close>)
    then show "\<exists>s'. install_one recovering k t = Inr ((), s') \<and> ?P (Suc k) s'" using P more unfolding v by (simp add: unpinned_simps)
  qed
  then show ?thesis using n(1) unfolding install_trans_def for_tail_def ws by (simp add: run_simps)
qed

section \<open>The header\<close>

primrec head_entries :: "u32 list \<Rightarrow> block \<Rightarrow> nat \<Rightarrow> block" where
  "head_entries ns d 0 = d"
| "head_entries ns d (Suc k) = put32 (head_entries ns d k) (k + 1) (ns ! k)"

definition head_block :: "u32 list \<Rightarrow> nat \<Rightarrow> block \<Rightarrow> block" where
  "head_block ns n d = head_entries ns (put32 d 0 (of_nat n)) n"

lemma head_entries_facts:
  assumes "length d = BSIZE" "k \<le> LOGSIZE"
  shows "length (head_entries ns d k) = BSIZE" "get32 (head_entries ns d k) 0 = get32 d 0"
    "i < k \<Longrightarrow> get32 (head_entries ns d k) (i + 1) = ns ! i"
proof -
  have "length (head_entries ns d k) = BSIZE \<and> get32 (head_entries ns d k) 0 = get32 d 0 \<and>
      (\<forall>i < k. get32 (head_entries ns d k) (i + 1) = ns ! i)"
    using assms(2)
  proof (induction k)
    case 0 then show ?case using assms(1) by simp
  next
    case (Suc k) then show ?case by (simp add: length_put32 get32_put32_same get32_put32_other less_Suc_eq all_conj_distrib)
  qed
  then show "length (head_entries ns d k) = BSIZE" "get32 (head_entries ns d k) 0 = get32 d 0"
    "i < k \<Longrightarrow> get32 (head_entries ns d k) (i + 1) = ns ! i" by simp_all
qed

text \<open>The header can be read back.\<close>

lemma head_block_facts:
  assumes "length d = BSIZE" "n \<le> LOGSIZE"
  shows "length (head_block ns n d) = BSIZE" "get32 (head_block ns n d) 0 = of_nat n"
    "i < n \<Longrightarrow> get32 (head_block ns n d) (i + 1) = ns ! i"
  using assms head_entries_facts [where d = "put32 d 0 (of_nat n)" and k = n and ns = ns]
  by (simp_all add: head_block_def length_put32 get32_put32_same)

lemma set_data_step:
  assumes "cache_rel p dev s A" "bh dev s b n" "0 < rc A n"
  shows "bind (buf_data b) (\<lambda>d. set_buf_data b (f d)) s = Inr ((), upd_buf b (\<lambda>x. x\<lparr>bdata := f (vw A n)\<rparr>) s)"
    "cache_rel p dev (upd_buf b (\<lambda>x. x\<lparr>bdata := f (vw A n)\<rparr>) s) (A\<lparr>vw := (vw A)(n := f (vw A n))\<rparr>)"
    "bh dev (upd_buf b (\<lambda>x. x\<lparr>bdata := f (vw A n)\<rparr>) s) b n"
    "bst.more (upd_buf b (\<lambda>x. x\<lparr>bdata := f (vw A n)\<rparr>) s) = bst.more s"
  using buf_data_spec [OF assms] set_buf_data_spec [OF assms, of "f (vw A n)"] assms(2,3)
  by (simp_all add: buf_data_def set_buf_data_def run_simps bkeeps_def)

lemma write_head_spec:
  assumes R: "cache_rel p (log_dev s) s A" "calm A" "rc A (log_start s) = 0" and n: "lh_n s = int n" "n \<le> LOGSIZE"
    and h: "h = head_block (lh_block s) n (vw A (log_start s))"
  shows "\<exists>s'. write_head s = Inr ((), s') \<and> bst.more s' = bst.more s \<and>
    cache_rel p (log_dev s) s' (A\<lparr>vw := (vw A)(log_start s := h), dk := (dk A)(log_start s := h), tr := tr A @ [(log_start s, h)]\<rparr>)"
proof -
  let ?st = "log_start s" and ?dev = "log_dev s" and ?ns = "lh_block s"
  let ?A1 = "A\<lparr>rc := (rc A)(?st := Suc (rc A ?st)), lk := insert ?st (lk A)\<rparr>"
  have c: "lk A = {}" "finite {m. 0 < rc A m}" "card {m. 0 < rc A m} < NBUF" using R(2) by (auto simp: calm_def)
  obtain b s1 where s1: "bread ?dev ?st s = Inr (b, s1)" "bh ?dev s1 b ?st" "cache_rel p ?dev s1 ?A1" "bkeeps ?dev A s s1"
    using bread_spec [OF R(1), of ?st] c R(3) by auto
  note m1 = more_log [of s1 s]
  define d0 where "d0 = put32 (vw A ?st) 0 (of_nat n)"
  define s2 where "s2 = upd_buf b (\<lambda>x. x\<lparr>bdata := d0\<rparr>) s1"
  note st = set_data_step [OF s1(3,2), where f = "\<lambda>d. put32 d 0 (of_nat n)", simplified, folded d0_def s2_def]
  have more2: "bst.more s2 = bst.more s" using st(4) s1(4) by (simp add: bkeeps_def)
  let ?A = "\<lambda>d. ?A1\<lparr>vw := (vw A)(?st := d)\<rparr>"
  let ?P = "\<lambda>k t. bst.more t = bst.more s \<and> bh ?dev t b ?st \<and> cache_rel p ?dev t (?A (head_entries ?ns d0 k))"
  have "\<exists>t. for_each [0..<n] (write_head_one b) s2 = Inr ((), t) \<and> ?P n t"
  proof (rule for_upto)
    show "?P 0 s2" using st more2 by simp
    fix k t assume k: "k < n" and P: "?P k t"
    note more = more_log [OF conjunct1 [OF P]]
    note w = set_data_step [of p ?dev t "?A (head_entries ?ns d0 k)" b ?st "\<lambda>d. put32 d (k + 1) (?ns ! k)"]
    show "\<exists>s'. write_head_one b k t = Inr ((), s') \<and> ?P (Suc k) s'"
      using w P more k n by (simp add: write_head_one_def lh_at_def run_simps)
  qed
  then obtain t where t: "for_each [0..<n] (write_head_one b) s2 = Inr ((), t)" "bst.more t = bst.more s" "bh ?dev t b ?st"
    "cache_rel p ?dev t (?A h)" by (auto simp: h head_block_def d0_def)
  have l: "?st \<in> lk (?A h)" by simp
  obtain s4 where s4: "bwrite b t = Inr ((), s4)" "bkeeps ?dev (?A h) t s4"
      "cache_rel p ?dev s4 (?A h\<lparr>dk := (dk (?A h))(?st := vw (?A h) ?st), tr := tr (?A h) @ [(?st, vw (?A h) ?st)]\<rparr>)" (is "cache_rel p _ _ ?A4")
    using bwrite_spec [OF t(4,3) l] by blast
  have h4: "bh ?dev s4 b ?st" using s4(2) t(3) by (simp add: bkeeps_def)
  have l4: "?st \<in> lk ?A4" "rc ?A4 ?st = Suc 0" "vw ?A4 ?st = dk ?A4 ?st" using R(3) by simp_all
  obtain s5 where s5: "brelse b s4 = Inr ((), s5)" "bkeeps ?dev ?A4 s4 s5"
      "cache_rel p ?dev s5 (?A4\<lparr>rc := (rc ?A4)(?st := 0), lk := lk ?A4 - {?st}\<rparr>)"
    using brelse_spec [OF s4(3) h4 l4] by blast
  have eq: "?A4\<lparr>rc := (rc ?A4)(?st := 0), lk := lk ?A4 - {?st}\<rparr> =
      A\<lparr>vw := (vw A)(?st := h), dk := (dk A)(?st := h), tr := tr A @ [(?st, h)]\<rparr>"
    using R(3) c(1) by (intro bcv.equality) (auto simp: fun_eq_iff)
  have "write_head s = Inr ((), s5)"
    unfolding write_head_def for_tail_def using s1(1) m1 s1(4) st(1) more2 more_log [OF more2] n t(1) s4(1) s5(1)
    by (simp add: run_simps bkeeps_def)
  moreover have "bst.more s5 = bst.more s" using s5(2) s4(2) t(2) by (simp add: bkeeps_def)
  ultimately show ?thesis using s5(3) unfolding eq by blast
qed

lemma cache_rel_lh:
  "cache_rel p dev (s\<lparr>lh_n := x\<rparr>) A = cache_rel p dev s A" "cache_rel p dev (s\<lparr>lh_block := y\<rparr>) A = cache_rel p dev s A"
  "bh dev (s\<lparr>lh_n := x\<rparr>) b n = bh dev s b n" "bh dev (s\<lparr>lh_block := y\<rparr>) b n = bh dev s b n"
  by (simp_all add: cache_rel_def pinv_def bh_def)

lemma read_entries:
  assumes "n \<le> LOGSIZE" "length (lh_block s) = LOGSIZE"
  shows "\<exists>bs. for_each [0..<n] (\<lambda>i. set_lh_at i (f i)) s = Inr ((), s\<lparr>lh_block := bs\<rparr>) \<and> length bs = LOGSIZE \<and> (\<forall>i < n. bs ! i = f i)"
proof -
  let ?P = "\<lambda>k t. \<exists>bs. t = s\<lparr>lh_block := bs\<rparr> \<and> length bs = LOGSIZE \<and> (\<forall>i < k. bs ! i = f i)"
  have "\<exists>t. for_each [0..<n] (\<lambda>i. set_lh_at i (f i)) s = Inr ((), t) \<and> ?P n t"
  proof (rule for_upto)
    show "?P 0 s" using assms(2) by (intro exI [of _ "lh_block s"]) simp
    fix k t assume k: "k < n" and P: "?P k t"
    then obtain bs where bs: "t = s\<lparr>lh_block := bs\<rparr>" "length bs = LOGSIZE" "\<forall>i < k. bs ! i = f i" by blast
    have "set_lh_at k (f k) t = Inr ((), s\<lparr>lh_block := bs[k := f k]\<rparr>)" using bs k assms(1) by (simp add: set_lh_at_def run_simps)
    moreover have "?P (Suc k) (s\<lparr>lh_block := bs[k := f k]\<rparr>)"
      using bs k assms(1) by (intro exI [of _ "bs[k := f k]"]) (simp add: nth_list_update less_Suc_eq)
    ultimately show "\<exists>s'. set_lh_at k (f k) t = Inr ((), s') \<and> ?P (Suc k) s'" by blast
  qed
  then show ?thesis by blast
qed

lemma read_head_spec:
  assumes R: "cache_rel p (log_dev s) s A" "calm A" "rc A (log_start s) = 0"
    and n: "sint (get32 (dk A (log_start s)) 0) = int n" "n \<le> LOGSIZE" "length (lh_block s) = LOGSIZE"
  shows "\<exists>s'. read_head s = Inr ((), s') \<and> cache_rel p (log_dev s) s' A \<and> log_start s' = log_start s \<and> log_dev s' = log_dev s \<and>
    lh_n s' = int n \<and> length (lh_block s') = LOGSIZE \<and> (\<forall>i < n. lh_block s' ! i = get32 (dk A (log_start s)) (i + 1))"
proof -
  let ?st = "log_start s" and ?dev = "log_dev s"
  let ?A1 = "A\<lparr>rc := (rc A)(?st := Suc (rc A ?st)), lk := insert ?st (lk A)\<rparr>"
  have c: "lk A = {}" "finite {m. 0 < rc A m}" "card {m. 0 < rc A m} < NBUF" using R(2) by (auto simp: calm_def)
  have v: "vw A ?st = dk A ?st" using cache_relD(10) [OF R(1,3)] .
  obtain b s1 where s1: "bread ?dev ?st s = Inr (b, s1)" "bh ?dev s1 b ?st" "cache_rel p ?dev s1 ?A1" "bkeeps ?dev A s s1"
    using bread_spec [OF R(1), of ?st] c R(3) by auto
  have more: "bst.more s1 = bst.more s" using s1(4) by (simp add: bkeeps_def)
  note m1 = more_log [OF this]
  have d: "bdata (bufs s1 ! b) = dk A ?st" using buf_data_spec [OF s1(3,2)] v by simp
  obtain bs where bs: "for_each [0..<n] (\<lambda>i. set_lh_at i (get32 (dk A ?st) (i + 1))) (s1\<lparr>lh_n := int n\<rparr>) =
      Inr ((), s1\<lparr>lh_n := int n, lh_block := bs\<rparr>)" "length bs = LOGSIZE" "\<forall>i < n. bs ! i = get32 (dk A ?st) (i + 1)"
    using read_entries [of n "s1\<lparr>lh_n := int n\<rparr>" "\<lambda>i. get32 (dk A ?st) (i + 1)"] n m1 by auto
  let ?s2 = "s1\<lparr>lh_n := int n, lh_block := bs\<rparr>"
  have s2: "cache_rel p ?dev ?s2 ?A1" "bh ?dev ?s2 b ?st" using s1 by (simp_all add: cache_rel_lh)
  have l: "?st \<in> lk ?A1" "rc ?A1 ?st = Suc 0" "vw ?A1 ?st = dk ?A1 ?st" using R(3) v by simp_all
  obtain s3 where s3: "brelse b ?s2 = Inr ((), s3)" "bkeeps ?dev ?A1 ?s2 s3"
      "cache_rel p ?dev s3 (?A1\<lparr>rc := (rc ?A1)(?st := 0), lk := lk ?A1 - {?st}\<rparr>)"
    using brelse_spec [OF s2 l] by blast
  have "?A1\<lparr>rc := (rc ?A1)(?st := 0), lk := lk ?A1 - {?st}\<rparr> = A"
    using R(3) c(1) by (intro bcv.equality) (auto simp: fun_eq_iff)
  moreover have "read_head s = Inr ((), s3)"
    unfolding read_head_def for_tail_def using s1(1) d n(1) bs(1) s3(1) by (simp add: run_simps buf_data_def)
  moreover note more_log [of s3 ?s2]
  moreover have "bst.more s3 = bst.more ?s2" using s3(2) by (simp add: bkeeps_def)
  ultimately show ?thesis using s3(3) bs(2,3) m1 by simp
qed

section \<open>Recovery\<close>

text \<open>A state after boot: no block is in use.\<close>

definition cold :: "nat \<Rightarrow> 'z logst_scheme \<Rightarrow> bcv \<Rightarrow> bool" where
  "cold p s A \<longleftrightarrow> cache_rel p (log_dev s) s A \<and> (\<forall>m. rc A m = 0) \<and> length (lh_block s) = LOGSIZE"

lemma coldD:
  assumes "cold p s A"
  shows "cache_rel p (log_dev s) s A" "rc A m = 0" "length (lh_block s) = LOGSIZE" "calm A" "vw A = dk A" "dk A = disk s"
  using assms cache_relD(10-12) [of p "log_dev s" s A] by (auto simp: cold_def calm_def)

lemma recover_spec:
  assumes C: "cold p s A" and H: "H = disk s (log_start s)" "length H = BSIZE" "sint (get32 H 0) = int n" "n < LOGSIZE"
    and e: "\<And>i. i < n \<Longrightarrow> get32 H (i + 1) = e i" "inj_on e {..<n}" "\<And>i. i < n \<Longrightarrow> e i \<notin> log_area (log_start s)"
  shows "\<exists>s'. recover_from_log s = Inr ((), s') \<and> lh_n s' = 0 \<and> get32 (disk s' (log_start s)) 0 = 0 \<and>
    (\<forall>m. m \<notin> log_area (log_start s) \<longrightarrow>
       disk s' m = after_writes (map (\<lambda>i. (e i, disk s (log_at (log_start s) i))) [0..<n]) (disk s) m)"
proof -
  let ?st = "log_start s"
  note D = coldD [OF C]
  obtain s1 where s1: "read_head s = Inr ((), s1)" "cache_rel p (log_dev s) s1 A" "log_start s1 = ?st" "log_dev s1 = log_dev s"
    "lh_n s1 = int n" "length (lh_block s1) = LOGSIZE" "\<forall>i < n. lh_block s1 ! i = e i"
    using read_head_spec [OF D(1,4,2)] H D(3,6) e(1) by (auto simp: less_imp_le)
  have inj: "inj_on ((!) (lh_block s1)) {..<n}" using e(2) s1(7) by (auto simp: inj_on_def)
  have ar: "log_at ?st i \<in> log_area ?st" if "i < n" for i using log_at_area [of i ?st] that H(4) by simp
  have ne: "log_at ?st i \<noteq> lh_block s1 ! j" if "i < n" "j < n" for i j using ar [OF that(1)] e(3) [OF that(2)] s1(7) that by auto
  define ws where "ws = map (\<lambda>i. (lh_block s1 ! i, vw A (log_at ?st i))) [0..<n]"
  let ?A2 = "A\<lparr>vw := after_writes ws (vw A), dk := after_writes ws (dk A), tr := tr A @ ws, rc := unpinned (lh_block s1) n (rc A)\<rparr>"
  have "\<exists>s'. install_trans True s1 = Inr ((), s') \<and> bst.more s' = bst.more s1 \<and> cache_rel p (log_dev s1) s' ?A2"
    by (rule install_trans_spec) (use s1 D H(4) inj ne in \<open>simp_all add: ws_def\<close>)
  then obtain s2 where s2: "install_trans True s1 = Inr ((), s2)" "bst.more s2 = bst.more s1" "cache_rel p (log_dev s) s2 ?A2"
    using s1(4) by auto
  note m2 = more_log [OF s2(2)]
  let ?s3 = "s2\<lparr>lh_n := 0\<rparr>"
  have rc0: "rc ?A2 m = 0" for m using D(2) by (simp add: unpinned_def)
  define h where "h = head_block (lh_block ?s3) 0 (vw ?A2 ?st)"
  have "\<exists>s'. write_head ?s3 = Inr ((), s') \<and> bst.more s' = bst.more ?s3 \<and> cache_rel p (log_dev ?s3) s'
      (?A2\<lparr>vw := (vw ?A2)(log_start ?s3 := h), dk := (dk ?A2)(log_start ?s3 := h), tr := tr ?A2 @ [(log_start ?s3, h)]\<rparr>)"
  proof (rule write_head_spec [where n = 0])
    show "cache_rel p (log_dev ?s3) ?s3 ?A2" using s2 m2 s1 by (simp add: cache_rel_lh)
    show "calm ?A2" using calm_less(1) [OF D(4), of ?A2] D(4) rc0 by (simp add: calm_def)
  qed (use rc0 m2 s1 in \<open>simp_all add: h_def\<close>)
  then obtain s4 where s4: "write_head ?s3 = Inr ((), s4)" "bst.more s4 = bst.more ?s3"
      "dk (?A2\<lparr>dk := (dk ?A2)(?st := h)\<rparr>) = disk s4" using m2 s1 cache_relD(12) by fastforce
  have ne_st: "lh_block s1 ! i \<noteq> ?st" if "i < n" for i using e(3) [OF that] s1(7) that start_area [of ?st] by auto
  have v: "vw ?A2 ?st = H" using D(5,6) H(1) ne_st by (simp add: ws_def after_writes_map_other)
  have g: "get32 h 0 = 0" unfolding h_def v using head_block_facts(2) [OF H(2), of 0] by simp
  have "ws = map (\<lambda>i. (e i, disk s (log_at ?st i))) [0..<n]" using s1(7) D(5,6) by (simp add: ws_def)
  then have "disk s4 = (after_writes (map (\<lambda>i. (e i, disk s (log_at ?st i))) [0..<n]) (disk s))(?st := h)"
    using s4(3) D(6) by simp
  moreover have "recover_from_log s = Inr ((), s4)"
    unfolding recover_from_log_def using s1(1) s2(1) s4(1) by (simp add: run_simps)
  moreover have "lh_n s4 = 0" using more_log(1) [OF s4(2)] by simp
  ultimately show ?thesis using g start_area [of ?st] by auto
qed

section \<open>Commit\<close>

text \<open>
  The state in which \<^verbatim>\<open>end_op\<close> calls \<^verbatim>\<open>commit\<close>: the transaction's blocks are pinned in the cache, once each, and nothing else is in
  use; they lie outside the log; the log on the disk is empty.
\<close>

definition log_ready :: "nat \<Rightarrow> 'z logst_scheme \<Rightarrow> bcv \<Rightarrow> bool" where
  "log_ready p s A \<longleftrightarrow> (let ns = take (nat (lh_n s)) (lh_block s) in
     cache_rel p (log_dev s) s A \<and> lk A = {} \<and> 0 \<le> lh_n s \<and> lh_n s < int LOGSIZE \<and> length (lh_block s) = LOGSIZE \<and>
     distinct ns \<and> (\<forall>m. rc A m = (if m \<in> set ns then 1 else 0)) \<and> set ns \<inter> log_area (log_start s) = {} \<and>
     length (disk s (log_start s)) = BSIZE \<and> get32 (disk s (log_start s)) 0 = 0)"

text \<open>The disk writes of a commit.\<close>

definition log_writes :: "u32 \<Rightarrow> u32 list \<Rightarrow> (u32 \<Rightarrow> block) \<Rightarrow> (u32 \<times> block) list" where
  "log_writes start ns v = map (\<lambda>i. (log_at start i, v (ns ! i))) [0..<length ns]"

definition home_writes :: "u32 list \<Rightarrow> (u32 \<Rightarrow> block) \<Rightarrow> (u32 \<times> block) list" where
  "home_writes ns v = map (\<lambda>i. (ns ! i, v (ns ! i))) [0..<length ns]"

lemma log_readyD:
  assumes "log_ready p s A" "n = nat (lh_n s)" "ns = take n (lh_block s)"
  shows "cache_rel p (log_dev s) s A" "calm A" "lh_n s = int n" "n < LOGSIZE" "length ns = n" "inj_on ((!) ns) {..<n}"
    "\<And>i. i < n \<Longrightarrow> lh_block s ! i = ns ! i" "\<And>i. i < n \<Longrightarrow> rc A (ns ! i) = 1" "\<And>m. m \<in> log_area (log_start s) \<Longrightarrow> rc A m = 0"
    "\<And>i. i < n \<Longrightarrow> ns ! i \<notin> log_area (log_start s)" "\<And>m. m \<notin> set ns \<Longrightarrow> rc A m = 0" "length (disk s (log_start s)) = BSIZE" "get32 (disk s (log_start s)) 0 = 0"
    "distinct ns" "length (lh_block s) = LOGSIZE"
proof -
  show l: "cache_rel p (log_dev s) s A" "lh_n s = int n" "n < LOGSIZE" "length ns = n" "length (disk s (log_start s)) = BSIZE"
    "get32 (disk s (log_start s)) 0 = 0" "distinct ns" "length (lh_block s) = LOGSIZE" and r: "\<And>m. m \<notin> set ns \<Longrightarrow> rc A m = 0"
    using assms by (auto simp: log_ready_def Let_def)
  have r1: "rc A m = (if m \<in> set ns then 1 else 0)" for m using assms by (simp add: log_ready_def Let_def)
  have "{m. 0 < rc A m} = set ns" by (auto simp: r1)
  then have "card {m. 0 < rc A m} \<le> n" "finite {m. 0 < rc A m}" using card_length [of ns] l(4) by simp_all
  then show "calm A" using l(3) r1 assms(1) by (auto simp: calm_def log_ready_def Let_def)
  have dis: "set ns \<inter> log_area (log_start s) = {}" using assms by (simp add: log_ready_def Let_def)
  show "rc A m = 0" if "m \<in> log_area (log_start s)" for m using dis that r1 by auto
  show "inj_on ((!) ns) {..<n}" using l(4,7) by (auto simp: inj_on_def nth_eq_iff_index_eq)
  show "lh_block s ! i = ns ! i" if "i < n" for i using that assms(3) by simp
  show "rc A (ns ! i) = 1" "ns ! i \<notin> log_area (log_start s)" if "i < n" for i
  proof -
    have "ns ! i \<in> set ns" using that l(4) by simp
    then show "rc A (ns ! i) = 1" "ns ! i \<notin> log_area (log_start s)" using r1 dis by auto
  qed
qed

text \<open>The first half of a commit: the blocks and the header go to the log.\<close>

lemma commit_log_phase:
  assumes Rdy: "log_ready p s A" and n: "n = nat (lh_n s)" "ns = take n (lh_block s)" and st: "st = log_start s"
    and h: "h = head_block (lh_block s) n (disk s st)" and A2: "wl = log_writes st ns (vw A)"
      "A2 = A\<lparr>vw := (after_writes wl (vw A))(st := h), dk := (after_writes wl (dk A))(st := h), tr := tr A @ wl @ [(st, h)]\<rparr>"
  shows "\<exists>s1 s2. write_log s = Inr ((), s1) \<and> write_head s1 = Inr ((), s2) \<and> bst.more s2 = bst.more s \<and>
    cache_rel p (log_dev s) s2 A2 \<and> (\<forall>i < n. vw A2 (log_at st i) = vw A (ns ! i))"
proof -
  note D = log_readyD [OF Rdy n(1,2)]
  have area: "log_at st i \<in> log_area st" if "i < n" for i using log_at_area [of i st] that D(4) by simp
  have L0: "rc A (log_at st i) = 0" if "i < n" for i using D(9) area [OF that] st by simp
  have ne: "log_at st i \<noteq> st" if "i < n" for i using start_not_log_at [of i st] that D(4) by simp
  let ?A1 = "A\<lparr>vw := after_writes wl (vw A), dk := after_writes wl (dk A), tr := tr A @ wl\<rparr>"
  have "\<exists>s'. write_log s = Inr ((), s') \<and> bst.more s' = bst.more s \<and> cache_rel p (log_dev s) s' ?A1"
    by (rule write_log_spec [where n = n and ns = "lh_block s"]) (use D L0 st in \<open>simp_all add: log_writes_def A2(1)\<close>)
  then obtain s1 where s1: "write_log s = Inr ((), s1)" "bst.more s1 = bst.more s" "cache_rel p (log_dev s) s1 ?A1" by blast
  note m1 = more_log [OF s1(2)]
  have v1s: "after_writes wl (vw A) st = disk s st"
    using ne D(5,9) start_area [of st] st cache_relD(10) [OF D(1), of st] cache_relD(12) [OF D(1)]
    by (simp add: A2(1) log_writes_def after_writes_map_other)
  have "\<exists>s'. write_head s1 = Inr ((), s') \<and> bst.more s' = bst.more s1 \<and>
     cache_rel p (log_dev s1) s' (?A1\<lparr>vw := (vw ?A1)(log_start s1 := h), dk := (dk ?A1)(log_start s1 := h), tr := tr ?A1 @ [(log_start s1, h)]\<rparr>)"
    by (rule write_head_spec [where n = n]) (use s1 m1 D start_area [of st] st v1s h in \<open>simp_all add: calm_def\<close>)
  then obtain s2 where s2: "write_head s1 = Inr ((), s2)" "bst.more s2 = bst.more s" "cache_rel p (log_dev s) s2 A2"
    using m1 s1(2) st A2(2) by auto
  have inj: "inj_on (log_at st) {..<n}" using log_at_inj [of st] D(4) by (auto simp: inj_on_def)
  have "vw A2 (log_at st i) = vw A (ns ! i)" if "i < n" for i
    using after_writes_map [OF inj that] ne [OF that] D(5) by (simp add: A2 log_writes_def)
  then show ?thesis using s1(1) s2 by blast
qed

text \<open>The second half: the blocks go home, and the log is emptied.\<close>

lemma commit_spec:
  assumes Rdy: "log_ready p s A" and n: "n = nat (lh_n s)" "ns = take n (lh_block s)" "0 < n" and st: "st = log_start s"
    and h: "h = head_block (lh_block s) n (disk s st)"
    and ws: "ws = log_writes st ns (vw A) @ [(st, h)] @ home_writes ns (vw A) @ [(st, head_block (lh_block s) 0 h)]"
  shows "\<exists>s'. commit s = Inr ((), s') \<and> lh_n s' = 0 \<and> writes s' = writes s @ ws \<and> disk s' = after_writes ws (disk s) \<and>
    bst.more s' = bst.more (s\<lparr>lh_n := 0\<rparr>) \<and> (\<exists>A'. cache_rel p (log_dev s) s' A')"
proof -
  note D = log_readyD [OF Rdy n(1,2)]
  let ?b = "lh_block s" and ?wl = "log_writes st ns (vw A)" and ?wh = "home_writes ns (vw A)" and ?h0 = "head_block (lh_block s) 0 h"
  define A2 where "A2 = A\<lparr>vw := (after_writes ?wl (vw A))(st := h), dk := (after_writes ?wl (dk A))(st := h), tr := tr A @ ?wl @ [(st, h)]\<rparr>"
  obtain s1 s2 where s2: "write_log s = Inr ((), s1)" "write_head s1 = Inr ((), s2)" "bst.more s2 = bst.more s"
      "cache_rel p (log_dev s) s2 A2" "\<And>i. i < n \<Longrightarrow> vw A2 (log_at st i) = vw A (ns ! i)"
    using commit_log_phase [OF Rdy n(1,2) st h refl A2_def] by blast
  note m2 = more_log [OF s2(3)]
  have A2: "rc A2 = rc A" "lk A2 = lk A" by (simp_all add: A2_def)
  have area: "log_at st i \<in> log_area st" if "i < n" for i using log_at_area [of i st] that D(4) by simp
  have L0: "rc A (log_at st i) = 0" if "i < n" for i using D(9) area [OF that] st by simp
  have ne: "log_at st i \<noteq> ns ! j" "ns ! j \<noteq> st" if "i < n" "j < n" for i j
    using D(10) [OF that(2)] area [OF that(1)] start_area [of st] st by auto
  have wh: "?wh = map (\<lambda>i. (?b ! i, vw A2 (log_at st i))) [0..<n]" using s2(5) D(5,7) by (simp add: home_writes_def)
  have injb: "inj_on ((!) ?b) {..<n}" using D(6,7) by (auto simp: inj_on_def)
  let ?A3 = "A2\<lparr>vw := after_writes ?wh (vw A2), dk := after_writes ?wh (dk A2), tr := tr A2 @ ?wh, rc := unpinned ?b n (rc A2)\<rparr>"
  have c: "calm A2" using D(2) A2 by (simp add: calm_def)
  have "\<exists>s'. install_trans False s2 = Inr ((), s') \<and> bst.more s' = bst.more s2 \<and> cache_rel p (log_dev s2) s' ?A3"
    by (rule install_trans_spec [where n = n and ns = ?b]) (use s2 m2 c A2 D L0 ne st injb wh in simp_all)
  then obtain s3 where s3: "install_trans False s2 = Inr ((), s3)" "bst.more s3 = bst.more s" "cache_rel p (log_dev s) s3 ?A3"
    using m2 s2(3) by auto
  note m3 = more_log [OF s3(2)]
  let ?s4 = "s3\<lparr>lh_n := 0\<rparr>"
  have "calm ?A3" using calm_less(1) [OF c, of ?A3] c by (simp add: unpinned_simps calm_def)
  moreover have "rc ?A3 st = 0" using D(9) start_area [of st] st A2 by (simp add: unpinned_def)
  moreover have "vw ?A3 st = h" using ne(2) D(5) n(3) by (simp add: home_writes_def after_writes_map_other A2_def)
  ultimately have "\<exists>s'. write_head ?s4 = Inr ((), s') \<and> bst.more s' = bst.more ?s4 \<and> cache_rel p (log_dev ?s4) s'
      (?A3\<lparr>vw := (vw ?A3)(log_start ?s4 := ?h0), dk := (dk ?A3)(log_start ?s4 := ?h0), tr := tr ?A3 @ [(log_start ?s4, ?h0)]\<rparr>)"
    by (intro write_head_spec [where n = 0]) (use s3 m3 st in \<open>simp_all add: cache_rel_lh\<close>)
  then obtain s5 where s5: "write_head ?s4 = Inr ((), s5)" "bst.more s5 = bst.more ?s4"
      "cache_rel p (log_dev s) s5 (?A3\<lparr>vw := (vw ?A3)(st := ?h0), dk := (dk ?A3)(st := ?h0), tr := tr ?A3 @ [(st, ?h0)]\<rparr>)"
    using m3 st by auto
  have "commit s = Inr ((), s5)" unfolding commit_def using D(3) n(3) s2(1,2) s3(1) s5(1) by (simp add: run_simps)
  moreover have "lh_n s5 = 0" using more_log(1) [OF s5(2)] by simp
  moreover have "writes s5 = writes s @ ws" "disk s5 = after_writes ws (disk s)"
    using cache_relD(12,13) [OF s5(3)] cache_relD(12,13) [OF D(1)] by (simp_all add: ws A2_def)
  moreover have "bst.more s5 = bst.more (s\<lparr>lh_n := 0\<rparr>)" using s5(2) s3(2) by (cases s; cases s3; simp)
  ultimately show ?thesis using s5(3) by blast
qed

section \<open>Crashes\<close>

lemma home_writes_at: "after_writes (take j (home_writes ns v)) f m = (if m \<in> set (take j ns) then v m else f m)"
proof -
  have "home_writes ns v = map (\<lambda>x. (x, v x)) ns" by (rule nth_equalityI) (simp_all add: home_writes_def)
  moreover have "after_writes (map (\<lambda>x. (x, v x)) xs) f m = (if m \<in> set xs then v m else f m)" for xs
    by (induction xs arbitrary: f) auto
  ultimately show ?thesis by (simp add: take_map)
qed

lemma log_writes_at:
  assumes "length ns < LOGSIZE"
  shows "m \<notin> log_area st \<Longrightarrow> after_writes (take k (log_writes st ns v)) f m = f m"
    "after_writes (take k (log_writes st ns v)) f st = f st"
    "i < length ns \<Longrightarrow> after_writes (log_writes st ns v) f (log_at st i) = v (ns ! i)"
proof -
  have t: "take k (log_writes st ns v) = map (\<lambda>i. (log_at st i, v (ns ! i))) [0..<min k (length ns)]"
    by (cases "k \<le> length ns") (simp_all add: log_writes_def take_map take_upt min_def)
  show "after_writes (take k (log_writes st ns v)) f m = f m" if "m \<notin> log_area st"
    unfolding t by (rule after_writes_map_other) (use log_at_area [of _ st] assms that in auto)
  show "after_writes (take k (log_writes st ns v)) f st = f st"
    unfolding t by (rule after_writes_map_other) (use start_not_log_at [of _ st] assms in auto)
  have inj: "inj_on (log_at st) {..<length ns}" using log_at_inj [of st] assms by (auto simp: inj_on_def)
  show "after_writes (log_writes st ns v) f (log_at st i) = v (ns ! i)" if "i < length ns"
    unfolding log_writes_def by (rule after_writes_map [OF inj that])
qed

lemma writes_at_all:
  "after_writes (home_writes ns v) f m = (if m \<in> set ns then v m else f m)"
  "length ns < LOGSIZE \<Longrightarrow> m \<notin> log_area st \<Longrightarrow> after_writes (log_writes st ns v) f m = f m"
  using home_writes_at [of "length ns" ns v f m] log_writes_at(1) [where k = "length ns" and m = m and st = st and ns = ns and v = v and f = f]
  by (simp_all add: home_writes_def log_writes_def)

text \<open>Recovery with an empty log changes nothing outside it.\<close>

lemma recover_empty:
  assumes "cold q t B" "length (disk t (log_start t)) = BSIZE" "get32 (disk t (log_start t)) 0 = 0"
  shows "\<exists>t'. recover_from_log t = Inr ((), t') \<and> (\<forall>m. m \<notin> log_area (log_start t) \<longrightarrow> disk t' m = disk t m)"
  using recover_spec [OF assms(1) refl assms(2), of 0 undefined] assms(3) by auto

text \<open>Recovery with a full log installs it.\<close>

lemma recover_full:
  assumes C: "cold q t B" and st: "st = log_start t" and h: "length (disk t st) = BSIZE" "get32 (disk t st) 0 = of_nat (length ns)"
    and ns: "length ns < LOGSIZE" "distinct ns" "set ns \<inter> log_area st = {}"
    and e: "\<And>i. i < length ns \<Longrightarrow> get32 (disk t st) (i + 1) = ns ! i" "\<And>i. i < length ns \<Longrightarrow> disk t (log_at st i) = v (ns ! i)"
  shows "\<exists>t'. recover_from_log t = Inr ((), t') \<and> (\<forall>m. m \<notin> log_area st \<longrightarrow> disk t' m = (if m \<in> set ns then v m else disk t m))"
proof -
  have s: "sint (get32 (disk t st) 0) = int (length ns)"
    unfolding h(2) using ns(1) by (simp add: signed_of_nat signed_take_bit_int_eq_self)
  have inj: "inj_on ((!) ns) {..<length ns}" using ns(2) by (auto simp: inj_on_def nth_eq_iff_index_eq)
  have out: "ns ! i \<notin> log_area st" if "i < length ns" for i using ns(3) nth_mem [OF that] by blast
  obtain t' where t': "recover_from_log t = Inr ((), t')"
      "\<forall>m. m \<notin> log_area st \<longrightarrow> disk t' m = after_writes (map (\<lambda>i. (ns ! i, disk t (log_at st i))) [0..<length ns]) (disk t) m"
    using recover_spec [OF C refl, of "length ns" "(!) ns"] h(1) s ns(1) e(1) inj out unfolding st by auto
  have "map (\<lambda>i. (ns ! i, disk t (log_at st i))) [0..<length ns] = home_writes ns v" using e(2) by (simp add: home_writes_def)
  then show ?thesis using t' by (simp add: writes_at_all)
qed

text \<open>What is on the disk when a crash cuts a commit short.\<close>

lemma crash_disk:
  assumes l: "length ns < LOGSIZE" "set ns \<inter> log_area st = {}" and ws: "ws = log_writes st ns v @ [(st, h)] @ home_writes ns v @ [(st, h0)]"
    and d: "d = after_writes (take k ws) f"
  shows "d st = f st \<and> (\<forall>m. m \<notin> log_area st \<longrightarrow> d m = f m) \<or>
    d st = h \<and> (\<forall>i < length ns. d (log_at st i) = v (ns ! i)) \<and> (\<forall>m. m \<notin> log_area st \<longrightarrow> m \<notin> set ns \<longrightarrow> d m = f m) \<or>
    d st = h0 \<and> (\<forall>m. m \<notin> log_area st \<longrightarrow> d m = (if m \<in> set ns then v m else f m))"
proof -
  let ?n = "length ns"
  have len: "length (log_writes st ns v) = ?n" "length (home_writes ns v) = ?n" by (simp_all add: log_writes_def home_writes_def)
  note L = log_writes_at [OF l(1)]
  have st: "st \<notin> set ns" "\<And>i. i < ?n \<Longrightarrow> log_at st i \<notin> set ns" "\<And>i. i < ?n \<Longrightarrow> log_at st i \<noteq> st"
    using l(2) start_area [of st] log_at_area [of _ st] l(1) start_not_log_at [of _ st] by auto
  consider "k \<le> ?n" | "?n < k" "k \<le> 2 * ?n + 1" | "2 * ?n + 1 < k" by linarith
  then show ?thesis
  proof cases
    case 1
    then have "take k ws = take k (log_writes st ns v)" using len by (simp add: ws)
    then show ?thesis using L(1,2) d by auto
  next
    case 2
    then obtain j where j: "k = Suc (?n + j)" "j \<le> ?n" using less_imp_Suc_add [of ?n k] by auto
    then have "take k ws = log_writes st ns v @ [(st, h)] @ take j (home_writes ns v)" using len by (simp add: ws)
    then have dd: "d m = (if m \<in> set (take j ns) then v m else if m = st then h else after_writes (log_writes st ns v) f m)" for m
      by (simp add: d home_writes_at)
    have sub: "set (take j ns) \<subseteq> set ns" by (rule set_take_subset)
    have "d st = h" "\<And>i. i < ?n \<Longrightarrow> d (log_at st i) = v (ns ! i)" using dd st L(3) sub by (auto split: if_splits)
    moreover have "d m = f m" if "m \<notin> log_area st" "m \<notin> set ns" for m
      using dd [of m] that sub start_area [of st] writes_at_all(2) [OF l(1) that(1)] by auto
    ultimately show ?thesis by blast
  next
    case 3
    then have "take k ws = ws" using len by (simp add: ws)
    then have dd: "d m = (if m = st then h0 else if m \<in> set ns then v m else if m = st then h else after_writes (log_writes st ns v) f m)" for m
      by (simp add: ws d writes_at_all(1))
    have "d m = (if m \<in> set ns then v m else f m)" if "m \<notin> log_area st" for m
      using dd [of m] writes_at_all(2) [OF l(1) that] that start_area [of st] by auto
    then show ?thesis using dd [of st] by simp
  qed
qed

text \<open>Recovery after a crash during a commit: all old or all new.\<close>

lemma recover_after_crash:
  assumes C: "cold q t B" and l: "length ns < LOGSIZE" "distinct ns" "set ns \<inter> log_area st = {}"
    and ws: "ws = log_writes st ns v @ [(st, h)] @ home_writes ns v @ [(st, h0)]"
    and t: "log_start t = st" "disk t = after_writes (take k ws) f"
    and f: "length (f st) = BSIZE" "get32 (f st) 0 = 0" and h0: "length h0 = BSIZE" "get32 h0 0 = 0"
    and h: "length h = BSIZE" "get32 h 0 = of_nat (length ns)" "\<And>i. i < length ns \<Longrightarrow> get32 h (i + 1) = ns ! i"
  shows "\<exists>t'. recover_from_log t = Inr ((), t') \<and>
    ((\<forall>m. m \<notin> log_area st \<longrightarrow> disk t' m = f m) \<or> (\<forall>m. m \<notin> log_area st \<longrightarrow> disk t' m = (if m \<in> set ns then v m else f m)))"
  using crash_disk [OF l(1,3) ws t(2)]
proof (elim disjE conjE)
  assume "disk t st = f st" "\<forall>m. m \<notin> log_area st \<longrightarrow> disk t m = f m"
  then show ?thesis using recover_empty [OF C] t(1) f by auto
next
  assume d: "disk t st = h" "\<forall>i < length ns. disk t (log_at st i) = v (ns ! i)" "\<forall>m. m \<notin> log_area st \<longrightarrow> m \<notin> set ns \<longrightarrow> disk t m = f m"
  have "\<exists>t'. recover_from_log t = Inr ((), t') \<and> (\<forall>m. m \<notin> log_area st \<longrightarrow> disk t' m = (if m \<in> set ns then v m else disk t m))"
    by (rule recover_full [OF C]) (use d t h l in simp_all)
  then show ?thesis using d(3) by (metis (no_types, lifting))
next
  assume "disk t st = h0" "\<forall>m. m \<notin> log_area st \<longrightarrow> disk t m = (if m \<in> set ns then v m else f m)"
  then show ?thesis using recover_empty [OF C] t(1) h0 by auto
qed

text \<open>After a commit the disk has what the cache had.\<close>

lemma log_ready_old:
  assumes "log_ready p s A" "m \<notin> set (take (nat (lh_n s)) (lh_block s))"
  shows "vw A m = disk s m"
  using log_readyD(1,11) [OF assms(1) refl refl] assms(2) cache_relD(10,12) by metis

lemma commit_run:
  assumes R: "log_ready p s A"
  shows "\<exists>u. commit s = Inr ((), u) \<and> lh_n u = 0 \<and> bst.more u = bst.more (s\<lparr>lh_n := 0\<rparr>) \<and> (\<exists>A'. cache_rel p (log_dev s) u A') \<and>
    (\<forall>m. m \<notin> log_area (log_start s) \<longrightarrow> disk u m = vw A m)"
proof -
  define n ns st h where defs: "n = nat (lh_n s)" "ns = take n (lh_block s)" "st = log_start s" "h = head_block (lh_block s) n (disk s st)"
  note D = log_readyD [OF R defs(1,2)]
  have old: "m \<notin> set ns \<Longrightarrow> vw A m = disk s m" for m using log_ready_old [OF R] by (simp add: defs(1,2))
  show ?thesis
  proof (cases "n = 0")
    case True
    then have z: "lh_n s = 0" using D(3) by simp
    then have c: "commit s = Inr ((), s)" by (simp add: commit_def run_simps)
    have e: "s\<lparr>lh_n := 0\<rparr> = s" using z by (cases s) simp
    have "disk s m = vw A m" for m using old True by (simp add: defs(2))
    then show ?thesis unfolding e using c D(1) z by blast
  next
    case False
    define ws where "ws = log_writes st ns (vw A) @ [(st, h)] @ home_writes ns (vw A) @ [(st, head_block (lh_block s) 0 h)]"
    obtain u where u: "commit s = Inr ((), u)" "lh_n u = 0" "disk u = after_writes ws (disk s)" "bst.more u = bst.more (s\<lparr>lh_n := 0\<rparr>)"
        "\<exists>A'. cache_rel p (log_dev s) u A'" using commit_spec [OF R defs(1,2) _ defs(3,4) ws_def] False by blast
    have lns: "length ns < LOGSIZE" using D(4,5) by simp
    have "disk u m = vw A m" if "m \<notin> log_area st" for m
      using that old start_area [of st] writes_at_all(2) [OF lns that] by (auto simp: u(3) ws_def writes_at_all(1))
    then show ?thesis using u by (auto simp: defs(3))
  qed
qed

text \<open>
  C1. A commit is atomic with respect to crashes. When \<^verbatim>\<open>commit\<close> starts with the transaction's blocks pinned in the cache it returns, its disk
  writes are a list \<open>ws\<close>, and every block outside the log then has on the disk what the cache had. After a crash that lets only the
  first \<open>k\<close> of these writes reach the disk, for any \<open>k\<close>, \<^verbatim>\<open>recover_from_log\<close> on the rebooted machine returns, and every block outside the
  log has its contents from before the commit, or every one has its contents from after it.
\<close>
theorem commit_crash_atomic:
  assumes "log_ready p s A"
  shows "\<exists>s' ws. commit s = Inr ((), s') \<and> writes s' = writes s @ ws \<and> lh_n s' = 0 \<and>
    (\<forall>m. m \<notin> log_area (log_start s) \<longrightarrow> disk s' m = vw A m) \<and>
    (\<forall>k q t B. k \<le> length ws \<longrightarrow> cold q t B \<longrightarrow> log_start t = log_start s \<longrightarrow> disk t = after_writes (take k ws) (disk s) \<longrightarrow>
      (\<exists>t'. recover_from_log t = Inr ((), t') \<and>
        ((\<forall>m. m \<notin> log_area (log_start s) \<longrightarrow> disk t' m = disk s m) \<or> (\<forall>m. m \<notin> log_area (log_start s) \<longrightarrow> disk t' m = disk s' m))))"
proof -
  define n ns st h where defs: "n = nat (lh_n s)" "ns = take n (lh_block s)" "st = log_start s" "h = head_block (lh_block s) n (disk s st)"
  note D = log_readyD [OF assms defs(1,2)]
  have old: "m \<notin> set ns \<Longrightarrow> vw A m = disk s m" for m using log_ready_old [OF assms] by (simp add: defs(1,2))
  have dis: "set ns \<inter> log_area st = {}" using D(5,10) by (auto simp: in_set_conv_nth defs(3))
  show ?thesis
  proof (cases "n = 0")
    case True
    then have c: "commit s = Inr ((), s)" using D(3) by (simp add: commit_def run_simps)
    have "disk s m = vw A m" for m using old True by (simp add: defs(2))
    moreover have "\<exists>t'. recover_from_log t = Inr ((), t') \<and> (\<forall>m. m \<notin> log_area (log_start s) \<longrightarrow> disk t' m = disk s m)"
      if "cold q t B" "log_start t = log_start s" "disk t = disk s" for q t B using recover_empty [OF that(1)] that D(12,13) by simp
    ultimately show ?thesis using c D(3) True by (intro exI [of _ s] exI [of _ "[]"]) auto
  next
    case False
    let ?h0 = "head_block (lh_block s) 0 h"
    define ws where "ws = log_writes st ns (vw A) @ [(st, h)] @ home_writes ns (vw A) @ [(st, ?h0)]"
    obtain s' where s': "commit s = Inr ((), s')" "lh_n s' = 0" "writes s' = writes s @ ws"
      using commit_spec [OF assms defs(1,2) _ defs(3,4) ws_def] False by blast
    have lns: "length ns < LOGSIZE" using D(4,5) by simp
    have hf: "length h = BSIZE" "get32 h 0 = of_nat n" "\<And>i. i < n \<Longrightarrow> get32 h (i + 1) = ns ! i"
      using head_block_facts [where d = "disk s st" and n = n and ns = "lh_block s"] D(4,7,12) by (simp_all add: defs(3,4))
    have h0: "length ?h0 = BSIZE" "get32 ?h0 0 = 0" using head_block_facts [OF hf(1), of 0] by simp_all
    have new: "disk s' m = vw A m" if "m \<notin> log_area st" for m using commit_run [OF assms] s'(1) that by (auto simp: defs(3))
    have same: "(if m \<in> set ns then vw A m else disk s m) = disk s' m" if "m \<notin> log_area st" for m using new [OF that] old [of m] by auto
    note rec = recover_after_crash [OF _ lns D(14) dis ws_def, where f = "disk s", folded defs(3)]
    have "\<exists>t'. recover_from_log t = Inr ((), t') \<and>
        ((\<forall>m. m \<notin> log_area st \<longrightarrow> disk t' m = disk s m) \<or> (\<forall>m. m \<notin> log_area st \<longrightarrow> disk t' m = disk s' m))"
      if "cold q t B" "log_start t = st" "disk t = after_writes (take k ws) (disk s)" for q t B k
      using rec [OF that] D(5,12,13) hf h0 same by (simp add: defs(3))
    then show ?thesis using s' new unfolding defs(3) by blast
  qed
qed

end
