(* ===== verification/Log_Ops.thy ===== *)
theory Log_Ops
  imports Log_Spec
begin

text \<open>
  The operations of the log that a system call uses, \<^verbatim>\<open>begin_op\<close> and \<^verbatim>\<open>log_write\<close>: a write is absorbed by an earlier one to the
  same block, else the block gets the next place of the transaction and is pinned in the cache; and how far the space that
  \<^verbatim>\<open>begin_op\<close> reserves is enough.
\<close>

section \<open>log_write\<close>

text \<open>The blocks of the current transaction.\<close>

definition txn :: "'z logst_scheme \<Rightarrow> u32 list" where
  "txn s = take (nat (lh_n s)) (lh_block s)"

lemma log_slot_cases:
  assumes "0 \<le> lh_n s" "nat (lh_n s) \<le> length (lh_block s)"
  shows "if n \<in> set (txn s) then log_slot n s < nat (lh_n s) \<and> lh_block s ! log_slot n s = n else log_slot n s = nat (lh_n s)"
proof (cases "find_index (\<lambda>x. x = n) (txn s)")
  case None
  then have "n \<notin> set (txn s)" by (auto simp: find_index_None)
  then show ?thesis using None by (simp add: log_slot_def txn_def)
next
  case (Some i)
  then have i: "i < length (txn s)" "txn s ! i = n" by (simp_all add: find_index_Some)
  then have "n \<in> set (txn s)" using nth_mem by blast
  then show ?thesis using Some i assms by (simp add: log_slot_def txn_def)
qed

lemma cache_rel_lock:
  assumes "cache_rel p dev s A" "cpu_ok c"
  shows "cache_rel p dev (s\<lparr>kcpu := c, log_lock := l\<rparr>) A" "bh dev (s\<lparr>kcpu := c, log_lock := l\<rparr>) b n = bh dev s b n"
  using assms by (simp_all add: cache_rel_def pinv_def bh_def)

lemma cache_rel_outstanding:
  "cache_rel p dev (s\<lparr>outstanding := x\<rparr>) A = cache_rel p dev s A" "bh dev (s\<lparr>outstanding := x\<rparr>) b n = bh dev s b n"
  by (simp_all add: cache_rel_def pinv_def bh_def)

text \<open>The body of \<open>log_write\<close>.\<close>

lemma log_write_body:
  assumes R: "cache_rel p dev s A" and b: "bh dev s b n" "0 < rc A n" "rc A n < 1000"
    and l: "0 \<le> lh_n s" "lh_n s < int LOGSIZE" "length (lh_block s) = LOGSIZE"
  shows "\<exists>s'. bind (set_lh_at (log_slot n s) n) (\<lambda>_. whenever (int (log_slot n s) = lh_n s) (bind (bpin b) (\<lambda>_. modify (\<lambda>s. s\<lparr>lh_n := lh_n s + 1\<rparr>)))) s = Inr ((), s') \<and>
    txn s' = (if n \<in> set (txn s) then txn s else txn s @ [n]) \<and> lh_n s' = int (length (txn s')) \<and> length (lh_block s') = LOGSIZE \<and>
    kcpu s' \<in> {kcpu s, after_section (kcpu s)} \<and> log_lock s' = log_lock s \<and> log_start s' = log_start s \<and> log_dev s' = log_dev s \<and>
    outstanding s' = outstanding s \<and> committing s' = committing s \<and> log_size s' = log_size s \<and> logst.more s' = logst.more s \<and>
    disk s' = disk s \<and> (\<forall>c m. bh dev s' c m = bh dev s c m) \<and> cache_rel p dev s' (if n \<in> set (txn s) then A else A\<lparr>rc := (rc A)(n := Suc (rc A n))\<rparr>)"
proof (cases "n \<in> set (txn s)")
  case True
  then have i: "log_slot n s < nat (lh_n s)" "lh_block s ! log_slot n s = n" using log_slot_cases [of s n] l by auto
  then have "(lh_block s)[log_slot n s := n] = lh_block s" by (metis list_update_id)
  moreover have "int (log_slot n s) \<noteq> lh_n s" "log_slot n s < LOGSIZE" using i(1) l by linarith+
  ultimately show ?thesis using True R i l by (intro exI [of _ s]) (simp add: set_lh_at_def run_simps txn_def)
next
  case False
  then have i: "log_slot n s = nat (lh_n s)" using log_slot_cases [of s n] l by auto
  let ?k = "nat (lh_n s)"
  define s1 where "s1 = s\<lparr>lh_block := (lh_block s)[?k := n]\<rparr>"
  have R1: "cache_rel p dev s1 A" "bh dev s1 b n" using R b by (simp_all add: s1_def cache_rel_lh)
  have "unat (refcnt (bufs s1 ! b)) = rc A n" using cache_relD(7) [OF R, of b] b by (auto simp: bh_def holds_block_def buf_rel_def s1_def)
  then have u: "unat (refcnt (bufs s1 ! b) + 1) = Suc (rc A n)" using b(3) unat_plus_1 by metis
  define s2 where "s2 = s1\<lparr>bufs := (bufs s1)[b := (bufs s1 ! b)\<lparr>refcnt := refcnt (bufs s1 ! b) + 1\<rparr>], kcpu := after_section (kcpu s1)\<rparr>"
  have p: "bpin b s1 = Inr ((), s2)" unfolding bpin_def pin_run [OF R1(1)] s2_def by simp
  have R2: "cache_rel p dev s2 (A\<lparr>rc := (rc A)(n := Suc (rc A n))\<rparr>)" using pin_change [OF R1 b(2) u] unfolding s2_def by simp
  have h: "bh dev s2 c m = bh dev s c m" for c m
    using cache_relD(8) [OF R] by (auto simp: bh_def s2_def s1_def holds_block_def nth_update_cases)
  let ?s = "s2\<lparr>lh_n := lh_n s + 1\<rparr>"
  have t: "txn ?s = txn s @ [n]" using l by (simp add: txn_def s2_def s1_def nat_add_distrib take_Suc_conv_app_nth)
  have len: "length (txn s) = ?k" using l by (simp add: txn_def)
  show ?thesis using False i p t len l R2 h
    by (intro exI [of _ ?s]) (simp add: set_lh_at_def run_simps cache_rel_lh s2_def s1_def)
qed

lemma log_write_spec:
  assumes R: "cache_rel p dev s A" "clean (log_lock s)" and b: "bh dev s b n" "0 < rc A n" "rc A n < 1000"
    and l: "0 \<le> lh_n s" "lh_n s < int LOGSIZE" "lh_n s < log_size s - 1" "length (lh_block s) = LOGSIZE" "1 \<le> outstanding s"
  shows "\<exists>s'. log_write b s = Inr ((), s') \<and> txn s' = (if n \<in> set (txn s) then txn s else txn s @ [n]) \<and> lh_n s' = int (length (txn s')) \<and>
    length (lh_block s') = LOGSIZE \<and> log_start s' = log_start s \<and> log_dev s' = log_dev s \<and> disk s' = disk s \<and>
    log_size s' = log_size s \<and> outstanding s' = outstanding s \<and> committing s' = committing s \<and> log_lock s' = log_lock s \<and> logst.more s' = logst.more s \<and>
    (\<forall>c m. bh dev s' c m = bh dev s c m) \<and>
    cache_rel p dev s' (if n \<in> set (txn s) then A else A\<lparr>rc := (rc A)(n := Suc (rc A n))\<rparr>)"
proof -
  note D = cache_relD [OF R(1)]
  define t where "t = s\<lparr>kcpu := push_off (kcpu s), log_lock := held (log_lock s) (kcpu s)\<rparr>"
  have tf: "txn t = txn s" "log_slot n t = log_slot n s" "lh_n t = lh_n s" "lh_block t = lh_block s" "bufs t = bufs s" "outstanding t = outstanding s"
    "log_size t = log_size s" by (simp_all add: t_def txn_def log_slot_def split: option.split)
  have Rt: "cache_rel p dev t A" "\<And>c m. bh dev t c m = bh dev s c m" unfolding t_def using cache_rel_lock [OF R(1) push_off_ok [OF D(14)]] by auto
  obtain t' where t': "bind (set_lh_at (log_slot n s) n) (\<lambda>_. whenever (int (log_slot n s) = lh_n s) (bind (bpin b) (\<lambda>_. modify (\<lambda>s. s\<lparr>lh_n := lh_n s + 1\<rparr>)))) t = Inr ((), t')"
      "txn t' = (if n \<in> set (txn s) then txn s else txn s @ [n])" "lh_n t' = int (length (txn t'))" "length (lh_block t') = LOGSIZE"
      "kcpu t' = push_off (kcpu s)" "log_lock t' = held (log_lock s) (kcpu s)" "log_start t' = log_start s" "log_dev t' = log_dev s" "disk t' = disk s"
      "log_size t' = log_size s" "outstanding t' = outstanding s" "committing t' = committing s" "logst.more t' = logst.more s"
      "\<And>c m. bh dev t' c m = bh dev s c m" "cache_rel p dev t' (if n \<in> set (txn s) then A else A\<lparr>rc := (rc A)(n := Suc (rc A n))\<rparr>)"
    using log_write_body [OF Rt(1), of b n] b l Rt(2) D(14) unfolding tf by (auto simp: t_def)
  have bn: "blockno (bufs s ! b) = n" using b(1) by (simp add: bh_def holds_block_def)
  have "log_write b s = Inr ((), t'\<lparr>kcpu := after_section (kcpu s), log_lock := freed (log_lock s)\<rparr>)"
    unfolding log_write_def
    by (rule critical_free) (use R(2) D(14) t'(1,5,6) l bn tf in \<open>simp_all add: run_simps Let_def flip: t_def\<close>)
  moreover have "txn (t'\<lparr>kcpu := x, log_lock := y\<rparr>) = txn t'" for x y by (simp add: txn_def)
  ultimately show ?thesis using t' cache_rel_lock [OF t'(15)] D(14) R(2) by simp
qed

text \<open>
  C20. \<^verbatim>\<open>log_write\<close> on a locked buffer, inside a transaction with a free place, returns; it writes nothing to the disk. If the block is in
  the transaction already, the write is absorbed: the transaction and the pin counts stay as they are. Otherwise the block becomes
  the last one of the transaction and gets one more reference, so that the cache keeps it until the commit.
\<close>
theorem log_write_correct:
  assumes R: "cache_rel p dev s A" "clean (log_lock s)" and b: "bh dev s b n" "0 < rc A n" "rc A n < 1000"
    and l: "0 \<le> lh_n s" "lh_n s < int LOGSIZE" "lh_n s < log_size s - 1" "length (lh_block s) = LOGSIZE" "1 \<le> outstanding s"
  shows "\<exists>s'. log_write b s = Inr ((), s') \<and> txn s' = (if n \<in> set (txn s) then txn s else txn s @ [n]) \<and> lh_n s' = int (length (txn s')) \<and>
    length (lh_block s') = LOGSIZE \<and> log_start s' = log_start s \<and> log_dev s' = log_dev s \<and> disk s' = disk s \<and>
    (\<forall>c m. bh dev s' c m = bh dev s c m) \<and>
    cache_rel p dev s' (if n \<in> set (txn s) then A else A\<lparr>rc := (rc A)(n := Suc (rc A n))\<rparr>)"
  using log_write_spec [OF assms] by blast

section \<open>The space that is reserved\<close>

text \<open>
  \<^verbatim>\<open>begin_op\<close> as a step on the counters of the log.
\<close>

lemma begin_op_run:
  assumes "clean (log_lock s)" "cpu_ok (kcpu s)"
  shows "begin_op s = (if committing s \<or> lh_n s + (outstanding s + 1) * int MAXOPBLOCKS > int LOGSIZE then Inl (Sleep LogChan)
    else Inr ((), s\<lparr>outstanding := outstanding s + 1, kcpu := after_section (kcpu s)\<rparr>))"
proof (cases "committing s \<or> lh_n s + (outstanding s + 1) * int MAXOPBLOCKS > int LOGSIZE")
  case True
  have "begin_op s = Inl (Sleep LogChan)" unfolding begin_op_def
    by (rule critical_fault) (use True assms in \<open>auto simp: run_simps\<close>)
  then show ?thesis using True by simp
next
  case False
  let ?t = "s\<lparr>kcpu := push_off (kcpu s), log_lock := held (log_lock s) (kcpu s), outstanding := outstanding s + 1\<rparr>"
  have "begin_op s = Inr ((), (?t\<lparr>kcpu := after_section (kcpu s)\<rparr>)\<lparr>log_lock := freed (log_lock s)\<rparr>)" unfolding begin_op_def
    by (rule critical_free) (use False assms in \<open>auto simp: run_simps\<close>)
  then show ?thesis using False assms(1) by simp
qed

text \<open>
  \<^verbatim>\<open>begin_op\<close> never over-commits the header: if the blocks in the header and \<open>MAXOPBLOCKS\<close> for every running system call fit in \<open>LOGSIZE\<close>
  before, they do after it has admitted one more; a call for which there is no space, or that comes during a commit, sleeps and
  changes nothing, and one for which there is space is admitted.
\<close>
theorem begin_op_reserves:
  assumes "clean (log_lock s)" "cpu_ok (kcpu s)"
  shows "case begin_op s of
      Inl e \<Rightarrow> e = Sleep LogChan \<and> (committing s \<or> lh_n s + (outstanding s + 1) * int MAXOPBLOCKS > int LOGSIZE)
    | Inr (_, s') \<Rightarrow> \<not> committing s \<and> outstanding s' = outstanding s + 1 \<and> lh_n s' = lh_n s \<and> lh_block s' = lh_block s \<and>
        lh_n s' + outstanding s' * int MAXOPBLOCKS \<le> int LOGSIZE"
  unfolding begin_op_run [OF assms] by simp


section \<open>Witnesses\<close>

text \<open>A machine after boot with a given disk, and a system call that writes block 40.\<close>

definition demo_raw :: "(u32 \<Rightarrow> block) \<Rightarrow> logst" where
  "demo_raw d = (pipest.extend (demo_pipest 4096 demo_pipe)
     \<lparr>bcache_lock = initlock ''bcache'',
      bufs = replicate (Suc NBUF) \<lparr>bvalid = False, bdisk = False, bdev = 0, blockno = 0, blk = initsleeplock ''buffer'', refcnt = 0,
        bprev = 0, bnext = 0, bdata = replicate BSIZE 0\<rparr>,
      disk = d, writes = [],
      descs = [], avail_ring = [], avail_idx = 0, used_ring = [], used_count = 0, desc_free = [], used_idx = 0, info_b = [], info_status = [],
      ops = [], vdisk_lock = initlock ''virtio_disk'', mmio = [],
      log_lock = initlock ''log'', log_start = 2, log_size = int LOGSIZE, outstanding = 0, committing = False, log_dev = 1,
      lh_n = 0, lh_block = replicate LOGSIZE 0\<rparr>)"

definition demo_boot :: "(u32 \<Rightarrow> block) \<Rightarrow> logst" where
  "demo_boot d = binit (demo_raw d)"

definition demo_call :: "(logst, unit) kroutine" where
  "demo_call = bind begin_op (\<lambda>_. bind (bread 1 40) (\<lambda>b.
     bind (set_buf_data b (replicate BSIZE 7)) (\<lambda>_. bind (log_write b) (\<lambda>_. brelse b))))"

abbreviation demo_zero :: "u32 \<Rightarrow> block" where "demo_zero \<equiv> \<lambda>_. replicate BSIZE 0"

lemma demo_raw_facts [simp]:
  "disk (demo_raw d) = d" "writes (demo_raw d) = []" "pinv (demo_raw d)" "curproc (demo_raw d) = Some 1" "length (bufs (demo_raw d)) = Suc NBUF"
  "\<forall>i \<le> NBUF. zero_buf (bufs (demo_raw d) ! i)"
  by (simp_all add: demo_raw_def pipest.defs demo_pipest_def pst.defs demo_pst_def kst.defs boot_kst_def zero_buf_def pinv_def boot_cpu_def cpu_ok_def
    del: replicate_Suc)

lemma demo_boot_facts [simp]:
  "disk (demo_boot d) = d" "log_start (demo_boot d) = 2" "log_dev (demo_boot d) = 1" "lh_n (demo_boot d) = 0" "log_lock (demo_boot d) = initlock ''log''"
  "outstanding (demo_boot d) = 0" "committing (demo_boot d) = False" "log_size (demo_boot d) = 30" "lh_block (demo_boot d) = replicate LOGSIZE 0"
  "kcpu (demo_boot d) = boot_cpu" "writes (demo_boot d) = []"
  by (simp_all add: demo_boot_def demo_raw_def binit_def Let_def pipest.defs demo_pipest_def pst.defs demo_pst_def kst.defs boot_kst_def)

abbreviation empty_bcv :: "(u32 \<Rightarrow> block) \<Rightarrow> bcv" where
  "empty_bcv d \<equiv> \<lparr>vw = d, dk = d, tr = [], rc = (\<lambda>_. 0), lk = {}\<rparr>"

lemma demo_boot_rel: "cache_rel 1 1 (demo_boot d) (empty_bcv d)"
  using binit_cache_rel [of "demo_raw d" 1 1] by (simp add: demo_boot_def)

lemma demo_boot_cold: "cold 1 (demo_boot d) (empty_bcv d)"
  using demo_boot_rel [of d] by (simp add: cold_def)

lemma demo_area: "(40 :: u32) \<notin> log_area 2"
proof -
  have "2 + of_nat i \<noteq> (40 :: u32)" if "i < LOGSIZE" for i using small_u32 [of "i + 2" 40] that by (auto simp: ac_simps)
  then show ?thesis by (auto simp: log_area_def)
qed

lemma get32_zero: "get32 (replicate 1024 0) 0 = 0"
  by (simp add: get32_def numeral_eq_Suc)

lemma demo_call_ready:
  "\<exists>s A. demo_call (demo_boot demo_zero) = Inr ((), s) \<and> log_ready 1 s A \<and> lh_n s = 1 \<and> log_start s = 2 \<and> disk s = demo_zero \<and> vw A 40 = replicate BSIZE 7"
proof -
  let ?s0 = "demo_boot demo_zero"
  let ?A0 = "empty_bcv demo_zero"
  define s1 where "s1 = ?s0\<lparr>outstanding := 1, kcpu := after_section boot_cpu\<rparr>"
  have b: "begin_op ?s0 = Inr ((), s1)" unfolding s1_def by (subst begin_op_run) (simp_all add: boot_cpu_def cpu_ok_def)
  have R1: "cache_rel 1 1 s1 ?A0" using demo_boot_cold [of demo_zero]
    unfolding s1_def cold_def by (simp add: cache_rel_def pinv_def)
  let ?A2 = "?A0\<lparr>rc := (\<lambda>_. 0)(40 := 1), lk := {40}\<rparr>"
  obtain b2 s2 where s2: "bread 1 40 s1 = Inr (b2, s2)" "bh 1 s2 b2 40" "cache_rel 1 1 s2 ?A2" "bkeeps 1 ?A0 s1 s2"
    using bread_spec [OF R1, of 40] by auto
  note m2 = more_log [of s2 s1]
  let ?A3 = "?A2\<lparr>vw := demo_zero(40 := replicate BSIZE 7)\<rparr>"
  define s3 where "s3 = upd_buf b2 (\<lambda>x. x\<lparr>bdata := replicate BSIZE 7\<rparr>) s2"
  have R3: "cache_rel 1 1 s3 ?A3" "bh 1 s3 b2 40" "bst.more s3 = bst.more s1"
    using set_buf_data_spec [OF s2(3,2), of "replicate BSIZE 7"] s2(2,4) by (auto simp: s3_def bkeeps_def)
  note m3 = more_log [OF R3(3)]
  let ?A4 = "?A3\<lparr>rc := (\<lambda>_. 0)(40 := Suc 1)\<rparr>"
  have tx: "txn s3 = []" using m3 by (simp add: txn_def s1_def)
  obtain s4 where s4: "log_write b2 s3 = Inr ((), s4)" "txn s4 = [40]" "lh_n s4 = 1" "length (lh_block s4) = LOGSIZE" "log_start s4 = 2" "log_dev s4 = 1"
      "bh 1 s4 b2 40" "cache_rel 1 1 s4 ?A4" 
    using log_write_spec [OF R3(1) _ R3(2)] tx m3 R3(2) by (auto simp: s1_def)
  let ?A5 = "?A3\<lparr>rc := (\<lambda>_. 0)(40 := 1), lk := {}\<rparr>"
  obtain s5 where s5: "brelse b2 s4 = Inr ((), s5)" "bkeeps 1 ?A4 s4 s5" "cache_rel 1 1 s5 ?A5"
    using brelse_spec [OF s4(8,7), of 1] by auto
  have m5: "bst.more s5 = bst.more s4" using s5(2) by (simp add: bkeeps_def)
  note m5 = more_log [OF m5]
  have "demo_call ?s0 = Inr ((), s5)" unfolding demo_call_def using b s2(1) s4(1) s5(1)
    by (simp add: run_simps set_buf_data_def flip: s3_def)
  moreover have d: "disk s5 = demo_zero" using cache_relD(12) [OF s5(3)] by simp
  moreover have "log_ready 1 s5 ?A5" 
    using s5(3) s4 m5 d demo_area get32_zero by (simp add: log_ready_def txn_def)
  ultimately show ?thesis using s4 m5 by (intro exI [of _ s5] exI [of _ ?A5]) simp
qed

theorem commit_crash_atomic_witness:
  "\<exists>s s' ws. demo_call (demo_boot demo_zero) = Inr ((), s) \<and> lh_n s = 1 \<and> commit s = Inr ((), s') \<and> writes s' = writes s @ ws \<and>
     disk s 40 = replicate BSIZE 0 \<and> disk s' 40 = replicate BSIZE 7 \<and>
     (\<forall>k \<le> length ws. \<exists>t'. recover_from_log (demo_boot (after_writes (take k ws) (disk s))) = Inr ((), t') \<and>
        (disk t' 40 = replicate BSIZE 0 \<or> disk t' 40 = replicate BSIZE 7))"
proof -
  obtain s A where s: "demo_call (demo_boot demo_zero) = Inr ((), s)" "log_ready 1 s A" "lh_n s = 1" "log_start s = 2" "disk s = demo_zero"
    "vw A 40 = replicate BSIZE 7" using demo_call_ready by blast
  obtain s' ws where s': "commit s = Inr ((), s')" "writes s' = writes s @ ws" "\<forall>m. m \<notin> log_area 2 \<longrightarrow> disk s' m = vw A m"
    "\<And>k q (t :: logst) B. k \<le> length ws \<Longrightarrow> cold q t B \<Longrightarrow> log_start t = 2 \<Longrightarrow> disk t = after_writes (take k ws) (disk s) \<Longrightarrow>
      \<exists>t'. recover_from_log t = Inr ((), t') \<and>
        ((\<forall>m. m \<notin> log_area 2 \<longrightarrow> disk t' m = disk s m) \<or> (\<forall>m. m \<notin> log_area 2 \<longrightarrow> disk t' m = disk s' m))"
    using commit_crash_atomic [OF s(2), unfolded s(4)] by blast
  have "\<exists>t'. recover_from_log (demo_boot (after_writes (take k ws) (disk s))) = Inr ((), t') \<and>
        (disk t' 40 = replicate BSIZE 0 \<or> disk t' 40 = replicate BSIZE 7)" if "k \<le> length ws" for k
    using s'(4) [OF that demo_boot_cold] s'(3) demo_area s(5,6) by fastforce
  then show ?thesis using s s' demo_area by auto
qed

theorem log_write_correct_witness:
  "\<exists>b s s'. bread 1 40 (demo_boot demo_zero) = Inr (b, s) \<and> log_write b (s\<lparr>outstanding := 1\<rparr>) = Inr ((), s') \<and> txn s' = [40]"
proof -
  let ?A0 = "empty_bcv demo_zero"
  note R0 = demo_boot_rel [of demo_zero]
  obtain b s where s: "bread 1 40 (demo_boot demo_zero) = Inr (b, s)" "bh 1 s b 40" "cache_rel 1 1 s (?A0\<lparr>rc := (\<lambda>_. 0)(40 := 1), lk := {40}\<rparr>)"
    "bst.more s = bst.more (demo_boot demo_zero)" using bread_spec [OF R0, of 40] by (auto simp: bkeeps_def)
  note m = more_log [OF s(4)]
  let ?s = "s\<lparr>outstanding := 1\<rparr>"
  have h: "bh 1 ?s b 40" "cache_rel 1 1 ?s (?A0\<lparr>rc := (\<lambda>_. 0)(40 := 1), lk := {40}\<rparr>)"
    using s(2,3) by (simp_all add: cache_rel_outstanding)
  have "txn ?s = []" using m by (simp add: txn_def)
  then show ?thesis using log_write_correct [OF h(2) _ h(1)] m s(1) by auto
qed

theorem begin_op_reserves_witness: "\<exists>s'. begin_op (demo_boot demo_zero) = Inr ((), s') \<and> outstanding s' = 1"
  using begin_op_reserves [of "demo_boot demo_zero"] by (simp add: boot_cpu_def cpu_ok_def begin_op_run)


theorem binit_refines_empty_cache_witness: "cache_rel 1 1 (binit (demo_raw demo_zero)) (empty_bcv demo_zero)"
  using binit_refines_empty_cache [of "demo_raw demo_zero" 1 1] by simp

theorem bread_refines_witness: "\<exists>b s'. bread 1 40 (demo_boot demo_zero) = Inr (b, s') \<and> bdata (bufs s' ! b) = replicate BSIZE 0"
  using bread_refines [OF demo_boot_rel [of demo_zero], of 40] by auto


theorem bget_lru_choice_witness: "\<exists>b s'. bget_entry 1 40 (demo_boot demo_zero) = Inr (b, s') \<and> holds_block 1 40 (bufs s' ! b)"
proof -
  note R = demo_boot_rel [of demo_zero]
  obtain xs where xs: "lru (bufs (demo_boot demo_zero)) xs" using R by (auto simp: cache_rel_def)
  obtain b where "b < NBUF" "refcnt (bufs (demo_boot demo_zero) ! b) = 0" using free_buffer [OF R] by auto
  then show ?thesis using bget_lru_choice [OF xs cache_relD(6) [OF R], of 1 40] by (auto split: sum.splits)
qed

end
