(* ===== verification/Txn.thy ===== *)
theory Txn
  imports Log_Ops Fs
begin

text \<open>
  What a system call does to the blocks of the disk inside a transaction. \<open>in_txn p s v\<close> says that process \<open>p\<close> runs in a transaction in which
  the blocks have the contents \<open>v\<close>: those of the transaction in the cache, the others on the disk. \<open>holding p s v b n\<close> says that it has, besides,
  locked block \<open>n\<close> in buffer \<open>b\<close>. \<^verbatim>\<open>bread\<close>, an assignment to the data, \<^verbatim>\<open>log_write\<close> and \<^verbatim>\<open>brelse\<close> move between these states, and so
  the operations of \<^verbatim>\<open>fs.c\<close> that are made of them become updates of \<open>v\<close>.
\<close>

section \<open>Transactions\<close>

definition log_open :: "'z logst_scheme \<Rightarrow> bool" where
  "log_open s \<longleftrightarrow> clean (log_lock s) \<and> \<not> committing s \<and> 1 \<le> outstanding s \<and> lh_n s = int (length (txn s)) \<and> length (lh_block s) = LOGSIZE \<and>
     distinct (txn s) \<and> set (txn s) \<inter> log_area (log_start s) = {}"

definition pins :: "'z logst_scheme \<Rightarrow> u32 \<Rightarrow> nat" where
  "pins s m = (if m \<in> set (txn s) then 1 else 0)"

definition in_txn :: "nat \<Rightarrow> 'z logst_scheme \<Rightarrow> (u32 \<Rightarrow> block) \<Rightarrow> bool" where
  "in_txn p s v \<longleftrightarrow> log_open s \<and> (\<exists>A. cache_rel p (log_dev s) s A \<and> vw A = v \<and> rc A = pins s \<and> lk A = {})"

definition holding_block :: "nat \<Rightarrow> 'z logst_scheme \<Rightarrow> (u32 \<Rightarrow> block) \<Rightarrow> nat \<Rightarrow> u32 \<Rightarrow> bool" where
  "holding_block p s v b n \<longleftrightarrow> log_open s \<and> bh (log_dev s) s b n \<and>
     (\<exists>A. cache_rel p (log_dev s) s A \<and> vw A = v \<and> rc A = (pins s)(n := Suc (pins s n)) \<and> lk A = {n})"

text \<open>There is room for \<open>k\<close> more blocks in the transaction.\<close>

definition room :: "nat \<Rightarrow> 'z logst_scheme \<Rightarrow> bool" where
  "room k s \<longleftrightarrow> lh_n s + int k < log_size s \<and> log_size s \<le> int LOGSIZE"

text \<open>What no operation inside a transaction changes.\<close>

definition txn_keeps :: "'z logst_scheme \<Rightarrow> 'z logst_scheme \<Rightarrow> bool" where
  "txn_keeps s s' \<longleftrightarrow> log_dev s' = log_dev s \<and> log_start s' = log_start s \<and> log_size s' = log_size s \<and> outstanding s' = outstanding s \<and>
     disk s' = disk s \<and> logst.more s' = logst.more s"

lemma txn_keeps_refl [simp]: "txn_keeps s s"
  by (simp add: txn_keeps_def)

lemma txn_keeps_trans: "txn_keeps s t \<Longrightarrow> txn_keeps t u \<Longrightarrow> txn_keeps s u"
  by (simp add: txn_keeps_def)

text \<open>Operations of the cache leave the log's state alone.\<close>

lemma more_txn:
  assumes "bst.more s' = bst.more (s :: 'z logst_scheme)"
  shows "txn s' = txn s" "log_open s' = log_open s" "room k s' = room k s" "pins s' = pins s" "disk s' = disk s \<Longrightarrow> txn_keeps s s'"
proof -
  note m = more_log [OF assms]
  show t: "txn s' = txn s" using m by (simp add: txn_def)
  show "log_open s' = log_open s" "room k s' = room k s" using m t by (simp_all add: log_open_def room_def)
  show "pins s' = pins s" using t by (simp add: pins_def fun_eq_iff)
  have "logst.more s' = logst.more s" using assms by (cases s; cases s'; simp)
  then show "txn_keeps s s'" if "disk s' = disk s" using m that by (simp add: txn_keeps_def)
qed

lemma in_txn_clean: "in_txn p s v \<Longrightarrow> n \<notin> set (txn s) \<Longrightarrow> v n = disk s n"
  unfolding in_txn_def using cache_relD(10,12) by (metis pins_def)

lemma in_txn_bread:
  assumes "in_txn p s v" "room k s"
  shows "\<exists>b s'. bread (log_dev s) n s = Inr (b, s') \<and> holding_block p s' v b n \<and> txn s' = txn s \<and> room k s' \<and> txn_keeps s s'"
proof -
  obtain A where o: "log_open s" and A: "cache_rel p (log_dev s) s A" "vw A = v" "rc A = pins s" "lk A = {}" using assms(1) by (auto simp: in_txn_def)
  have e: "{m. 0 < rc A m} = set (txn s)" using A(3) by (auto simp: pins_def)
  have "length (txn s) < NBUF" using o assms(2) by (simp add: log_open_def room_def)
  then have c: "finite {m. 0 < rc A m} \<and> card {m. 0 < rc A m} < NBUF" unfolding e using card_length [of "txn s"] by simp
  have r: "n \<notin> lk A" "rc A n < 1000" using A(3,4) by (simp_all add: pins_def)
  let ?A = "A\<lparr>rc := (rc A)(n := Suc (rc A n)), lk := insert n (lk A)\<rparr>"
  obtain b s' where s': "bread (log_dev s) n s = Inr (b, s')" "bh (log_dev s) s' b n" "cache_rel p (log_dev s) s' ?A" "bkeeps (log_dev s) A s s'"
    using bread_spec [OF A(1) r] c by blast
  have more: "bst.more s' = bst.more s" using s'(4) by (simp add: bkeeps_def)
  have "disk s' = disk s" using cache_relD(12) [OF s'(3)] cache_relD(12) [OF A(1)] by simp
  moreover have "holding_block p s' v b n" unfolding holding_block_def
    using s' A o more_log(4) [OF more] more_txn [OF more] by (intro conjI exI [of _ ?A]) simp_all
  ultimately show ?thesis using s'(1) more_txn [OF more] assms(2) by auto
qed

lemma holding_data: "holding_block p s v b n \<Longrightarrow> bdata (bufs s ! b) = v n"
  using buf_data_spec by (fastforce simp: holding_block_def)

lemma holding_set:
  assumes "holding_block p s v b n"
  shows "\<exists>s'. set_buf_data b d s = Inr ((), s') \<and> holding_block p s' (v(n := d)) b n \<and> txn s' = txn s \<and> room k s' = room k s \<and> txn_keeps s s'"
proof -
  obtain A where o: "log_open s" "bh (log_dev s) s b n" and A: "cache_rel p (log_dev s) s A" "vw A = v" "rc A = (pins s)(n := Suc (pins s n))" "lk A = {n}"
    using assms by (auto simp: holding_block_def)
  let ?s = "upd_buf b (\<lambda>x. x\<lparr>bdata := d\<rparr>) s"
  have r: "cache_rel p (log_dev s) ?s (A\<lparr>vw := (vw A)(n := d)\<rparr>)" "bkeeps (log_dev s) A s ?s" using set_buf_data_spec [OF A(1) o(2)] A(3) by auto
  have more: "bst.more ?s = bst.more s" by (rule upd_more)
  have "holding_block p ?s (v(n := d)) b n" unfolding holding_block_def
    using r o A more_log(4) [OF more] more_txn [OF more]
    by (intro conjI exI [of _ "A\<lparr>vw := (vw A)(n := d)\<rparr>"]) (simp_all add: bkeeps_def)
  then show ?thesis using more_txn [OF more] by (intro exI [of _ ?s]) (simp add: set_buf_data_def run_simps)
qed

lemma holding_brelse:
  assumes "holding_block p s v b n" "n \<in> set (txn s) \<or> v n = disk s n"
  shows "\<exists>s'. brelse b s = Inr ((), s') \<and> in_txn p s' v \<and> txn s' = txn s \<and> room k s' = room k s \<and> txn_keeps s s'"
proof -
  obtain A where o: "log_open s" "bh (log_dev s) s b n" and A: "cache_rel p (log_dev s) s A" "vw A = v" "rc A = (pins s)(n := Suc (pins s n))" "lk A = {n}"
    using assms(1) by (auto simp: holding_block_def)
  have l: "n \<in> lk A" "rc A n = Suc (pins s n)" "pins s n = 0 \<Longrightarrow> vw A n = dk A n"
    using A assms(2) cache_relD(12) [OF A(1)] by (auto simp: pins_def split: if_splits)
  let ?A = "A\<lparr>rc := (rc A)(n := pins s n), lk := lk A - {n}\<rparr>"
  obtain s' where s': "brelse b s = Inr ((), s')" "bkeeps (log_dev s) A s s'" "cache_rel p (log_dev s) s' ?A"
    using brelse_spec [OF A(1) o(2) l] by blast
  have more: "bst.more s' = bst.more s" using s'(2) by (simp add: bkeeps_def)
  have "disk s' = disk s" using cache_relD(12) [OF s'(3)] cache_relD(12) [OF A(1)] by simp
  moreover have "in_txn p s' v" unfolding in_txn_def
    using s'(3) A o(1) more_log(4) [OF more] more_txn [OF more] by (intro conjI exI [of _ ?A]) simp_all
  ultimately show ?thesis using s'(1) more_txn [OF more] by (intro exI [of _ s']) simp
qed

lemma holding_log_write:
  assumes "holding_block p s v b n" "room (Suc k) s" "n \<notin> log_area (log_start s)"
  shows "\<exists>s'. log_write b s = Inr ((), s') \<and> holding_block p s' v b n \<and> txn s' = (if n \<in> set (txn s) then txn s else txn s @ [n]) \<and> room k s' \<and> txn_keeps s s'"
proof -
  obtain A where o: "log_open s" "bh (log_dev s) s b n" and A: "cache_rel p (log_dev s) s A" "vw A = v" "rc A = (pins s)(n := Suc (pins s n))" "lk A = {n}"
    using assms(1) by (auto simp: holding_block_def)
  let ?A = "if n \<in> set (txn s) then A else A\<lparr>rc := (rc A)(n := Suc (rc A n))\<rparr>"
  have "0 < rc A n" "rc A n < 1000" using A(3) by (auto simp: pins_def)
  then obtain s' where s': "log_write b s = Inr ((), s')" "txn s' = (if n \<in> set (txn s) then txn s else txn s @ [n])" "lh_n s' = int (length (txn s'))"
      "length (lh_block s') = LOGSIZE" "log_start s' = log_start s" "log_dev s' = log_dev s" "disk s' = disk s"
      "log_size s' = log_size s" "outstanding s' = outstanding s" "committing s' = committing s" "log_lock s' = log_lock s" "logst.more s' = logst.more s"
      "\<And>c m. bh (log_dev s) s' c m = bh (log_dev s) s c m" "cache_rel p (log_dev s) s' ?A"
    using log_write_spec [OF A(1) _ o(2)] o(1) assms(2) unfolding log_open_def room_def by auto
  have "log_open s'" using s' o(1) assms(3) by (auto simp: log_open_def)
  moreover have "rc ?A = (pins s')(n := Suc (pins s' n))" using s'(2) A(3) by (auto simp: pins_def fun_eq_iff)
  ultimately have "holding_block p s' v b n" unfolding holding_block_def
    using s' o A by (intro conjI exI [of _ ?A]) auto
  moreover have "room k s'" using assms(2) s'(2,3,8) o(1) by (auto simp: room_def log_open_def)
  ultimately show ?thesis using s' by (auto simp: txn_keeps_def)
qed

text \<open>Reading a block, and then either releasing it or changing it.\<close>

lemma block_in_txn:
  assumes "in_txn p s v" "room k s"
  shows "\<exists>b s1. bread (log_dev s) n s = Inr (b, s1) \<and> bdata (bufs s1 ! b) = v n \<and> txn_keeps s s1 \<and>
    (\<exists>s'. brelse b s1 = Inr ((), s') \<and> in_txn p s' v \<and> txn s' = txn s \<and> room k s' \<and> txn_keeps s s') \<and>
    (\<forall>d j. n \<notin> log_area (log_start s) \<longrightarrow> k = Suc j \<longrightarrow>
       (\<exists>s2 s3 s'. set_buf_data b d s1 = Inr ((), s2) \<and> log_write b s2 = Inr ((), s3) \<and> brelse b s3 = Inr ((), s') \<and>
          in_txn p s' (v(n := d)) \<and> set (txn s') = insert n (set (txn s)) \<and> room j s' \<and> txn_keeps s s'))"
proof -
  obtain b s1 where s1: "bread (log_dev s) n s = Inr (b, s1)" "holding_block p s1 v b n" "txn s1 = txn s" "room k s1" "txn_keeps s s1"
    using in_txn_bread [OF assms] by blast
  have c: "n \<in> set (txn s1) \<or> v n = disk s1 n" using in_txn_clean [OF assms(1), of n] s1(3,5) by (auto simp: txn_keeps_def)
  obtain s' where s': "brelse b s1 = Inr ((), s')" "in_txn p s' v" "txn s' = txn s1" "room k s' = room k s1" "txn_keeps s1 s'"
    using holding_brelse [OF s1(2) c] by blast
  have "\<exists>s2 s3 s'. set_buf_data b d s1 = Inr ((), s2) \<and> log_write b s2 = Inr ((), s3) \<and> brelse b s3 = Inr ((), s') \<and>
      in_txn p s' (v(n := d)) \<and> set (txn s') = insert n (set (txn s)) \<and> room j s' \<and> txn_keeps s s'"
    if n: "n \<notin> log_area (log_start s)" "k = Suc j" for d j
  proof -
    obtain s2 where s2: "set_buf_data b d s1 = Inr ((), s2)" "holding_block p s2 (v(n := d)) b n" "txn s2 = txn s" "room k s2" "txn_keeps s s2"
      using holding_set [OF s1(2), of d k] s1(3-5) txn_keeps_trans by metis
    have n2: "n \<notin> log_area (log_start s2)" using n(1) s2(5) by (simp add: txn_keeps_def)
    obtain s3 where s3: "log_write b s2 = Inr ((), s3)" "holding_block p s3 (v(n := d)) b n" "txn s3 = (if n \<in> set (txn s2) then txn s2 else txn s2 @ [n])"
        "room j s3" "txn_keeps s2 s3"
      using holding_log_write [OF s2(2) s2(4) [unfolded n(2)] n2] by blast
    then have set3: "set (txn s3) = insert n (set (txn s))" using s2(3) by auto
    then have "n \<in> set (txn s3) \<or> (v(n := d)) n = disk s3 n" by simp
    from holding_brelse [OF s3(2) this, of j] obtain s4 where s4: "brelse b s3 = Inr ((), s4)" "in_txn p s4 (v(n := d))" "txn s4 = txn s3"
      "room j s4 = room j s3" "txn_keeps s3 s4" by blast
    show ?thesis using s2(1) s3(1) s4 set3 s3(4) txn_keeps_trans [OF txn_keeps_trans [OF s2(5) s3(5)] s4(5)] by auto
  qed
  then show ?thesis using s1 s' holding_data [OF s1(2)] txn_keeps_trans [OF s1(5) s'(5)] by auto
qed

lemma keeps_sb: "txn_keeps s s' \<Longrightarrow> sb s' = sb (s :: 'z fsst_scheme) \<and> inodes s' = inodes s"
  by (cases s; cases s'; simp add: txn_keeps_def)

section \<open>Blocks\<close>

lemma bzero_txn:
  assumes "in_txn p s v" "room (Suc k) s" "n \<notin> log_area (log_start s)" "dev = log_dev s"
  shows "\<exists>s'. bzero dev n s = Inr ((), s') \<and> in_txn p s' (v(n := replicate BSIZE 0)) \<and> room k s' \<and> txn_keeps s s'"
proof -
  obtain b s1 s2 s3 s' where "bread dev n s = Inr (b, s1)" "set_buf_data b (replicate BSIZE 0) s1 = Inr ((), s2)" "log_write b s2 = Inr ((), s3)"
      "brelse b s3 = Inr ((), s')" "in_txn p s' (v(n := replicate BSIZE 0))" "room k s'" "txn_keeps s s'"
    using block_in_txn [OF assms(1,2), of n] assms(3,4) by blast
  then show ?thesis by (intro exI [of _ s']) (simp add: bzero_def run_simps)
qed

lemma balloc_chunk_txn:
  assumes I: "in_txn p s v" "room (Suc (Suc k)) s" and dev: "dev = log_dev s" and n: "n = BBLOCK (of_nat b) (sb s)" "n \<notin> log_area (log_start s)"
  shows "find (block_free (v n)) [0..<min BPB (sz - b)] = None \<Longrightarrow>
      \<exists>s'. balloc_chunk dev sz b s = Inr (None, s') \<and> in_txn p s' v \<and> room (Suc (Suc k)) s' \<and> txn_keeps s s'"
    "find (block_free (v n)) [0..<min BPB (sz - b)] = Some bi \<Longrightarrow> of_nat (b + bi) \<notin> log_area (log_start s) \<Longrightarrow>
      \<exists>s'. balloc_chunk dev sz b s = Inr (Some (of_nat (b + bi)), s') \<and>
        in_txn p s' (v(n := mark_used bi (v n), of_nat (b + bi) := replicate BSIZE 0)) \<and> room k s' \<and> txn_keeps s s'"
proof -
  obtain c s1 where s1: "bread dev n s = Inr (c, s1)" "bdata (bufs s1 ! c) = v n" "txn_keeps s s1"
      "\<exists>s'. brelse c s1 = Inr ((), s') \<and> in_txn p s' v \<and> txn s' = txn s \<and> room (Suc (Suc k)) s' \<and> txn_keeps s s'"
      "\<And>d. \<exists>s2 s3 s'. set_buf_data c d s1 = Inr ((), s2) \<and> log_write c s2 = Inr ((), s3) \<and> brelse c s3 = Inr ((), s') \<and>
          in_txn p s' (v(n := d)) \<and> set (txn s') = insert n (set (txn s)) \<and> room (Suc k) s' \<and> txn_keeps s s'"
    using block_in_txn [OF I, of n] dev n(2) by blast
  show "\<exists>s'. balloc_chunk dev sz b s = Inr (None, s') \<and> in_txn p s' v \<and> room (Suc (Suc k)) s' \<and> txn_keeps s s'"
    if "find (block_free (v n)) [0..<min BPB (sz - b)] = None"
    using s1(1,2,4) that n(1) by (auto simp: balloc_chunk_def run_simps buf_data_def)
  assume f: "find (block_free (v n)) [0..<min BPB (sz - b)] = Some bi" and a: "of_nat (b + bi) \<notin> log_area (log_start s)"
  let ?d = "mark_used bi (v n)"
  obtain s2 s3 s4 where s4: "set_buf_data c ?d s1 = Inr ((), s2)" "log_write c s2 = Inr ((), s3)" "brelse c s3 = Inr ((), s4)" "in_txn p s4 (v(n := ?d))"
      "room (Suc k) s4" "txn_keeps s s4" using s1(5) by blast
  have "of_nat (b + bi) \<notin> log_area (log_start s4)" "dev = log_dev s4" using a dev s4(6) by (simp_all add: txn_keeps_def)
  from bzero_txn [OF s4(4,5) this] obtain s5 where s5: "bzero dev (of_nat (b + bi)) s4 = Inr ((), s5)"
      "in_txn p s5 (v(n := ?d, of_nat (b + bi) := replicate BSIZE 0))" "room k s5" "txn_keeps s4 s5" by blast
  show "\<exists>s'. balloc_chunk dev sz b s = Inr (Some (of_nat (b + bi)), s') \<and>
        in_txn p s' (v(n := ?d, of_nat (b + bi) := replicate BSIZE 0)) \<and> room k s' \<and> txn_keeps s s'"
    using s1(1,2) s4(1-3) s5 f n(1) txn_keeps_trans [OF s4(6) s5(4)]
    by (intro exI [of _ s5]) (simp add: balloc_chunk_def run_simps buf_data_def)
qed

lemma find_upt: "find P [0..<n] = Some i \<longleftrightarrow> i < n \<and> P i \<and> (\<forall>j < i. \<not> P j)"
  by (auto simp: find_Some_iff)

lemma find_upt_None: "find P [0..<n] = None \<longleftrightarrow> (\<forall>i < n. \<not> P i)"
  by (auto simp: find_None_iff)

text \<open>The bitmap: whether block \<open>b\<close> is free.\<close>

definition is_free :: "superblock \<Rightarrow> (u32 \<Rightarrow> block) \<Rightarrow> nat \<Rightarrow> bool" where
  "is_free x v b \<longleftrightarrow> block_free (v (BBLOCK (of_nat b) x)) (b mod BPB)"

lemma BBLOCK_chunk:
  assumes "BPB * j + i < 2 ^ 32" "i < BPB"
  shows "BBLOCK (of_nat (BPB * j + i)) x = BBLOCK (of_nat (BPB * j)) x" "(BPB * j + i) mod BPB = i"
proof -
  have "of_nat c div (8192 :: u32) = of_nat (c div 8192)" if "c < 2 ^ 32" for c :: nat
    using that by (simp add: word_unat_eq_iff unat_div unat_of_nat less_imp_diff_less div_le_dividend le_less_trans)
  from this [of "BPB * j + i"] this [of "BPB * j"] assms
  show "BBLOCK (of_nat (BPB * j + i)) x = BBLOCK (of_nat (BPB * j)) x" by (simp add: BBLOCK_def)
  show "(BPB * j + i) mod BPB = i" using assms(2) by simp
qed

definition chunk_has_free :: "superblock \<Rightarrow> (u32 \<Rightarrow> block) \<Rightarrow> nat \<Rightarrow> nat \<Rightarrow> bool" where
  "chunk_has_free x v sz j \<longleftrightarrow> (\<exists>i < min BPB (sz - BPB * j). block_free (v (BBLOCK (of_nat (BPB * j)) x)) i)"

text \<open>What \<open>balloc\<close> has done when \<open>c\<close> is the first part of the bitmap with a free block.\<close>

definition alloc_result :: "nat \<Rightarrow> (u32 \<Rightarrow> block) \<Rightarrow> superblock \<Rightarrow> nat \<Rightarrow> nat \<Rightarrow> u32 option \<Rightarrow> 'z logst_scheme \<Rightarrow> nat option \<Rightarrow> bool" where
  "alloc_result p v x sz k r s c \<longleftrightarrow>
    (case c of
       None \<Rightarrow> r = None \<and> in_txn p s v
     | Some j \<Rightarrow> (\<exists>i < min BPB (sz - BPB * j). block_free (v (BBLOCK (of_nat (BPB * j)) x)) i \<and>
         (\<forall>c < i. \<not> block_free (v (BBLOCK (of_nat (BPB * j)) x)) c) \<and> r = Some (of_nat (BPB * j + i)) \<and> room k s \<and>
         in_txn p s (v(BBLOCK (of_nat (BPB * j)) x := mark_used i (v (BBLOCK (of_nat (BPB * j)) x)), of_nat (BPB * j + i) := replicate BSIZE 0))))"

lemma balloc_search:
  assumes "in_txn p s v" "room (Suc (Suc k)) s" "dev = log_dev s" "x = sb s" "st = log_start s"
    and "\<forall>j \<in> set js. BBLOCK (of_nat (BPB * j)) x \<notin> log_area st"
    and "\<forall>j \<in> set js. \<forall>i < min BPB (sz - BPB * j). block_free (v (BBLOCK (of_nat (BPB * j)) x)) i \<longrightarrow> of_nat (BPB * j + i) \<notin> log_area st"
  shows "\<exists>r s'. search (map (\<lambda>j. BPB * j) js) (balloc_chunk dev sz) s = Inr (r, s') \<and> txn_keeps s s' \<and>
    alloc_result p v x sz k r s' (find (chunk_has_free x v sz) js)"
  using assms
proof (induction js arbitrary: s)
  case Nil
  then show ?case by (intro exI [of _ None] exI [of _ s]) (simp add: run_simps alloc_result_def)
next
  case (Cons j js)
  let ?n = "BBLOCK (of_nat (BPB * j)) x"
  have n: "?n = BBLOCK (of_nat (BPB * j)) (sb s)" "?n \<notin> log_area (log_start s)" using Cons.prems by simp_all
  note chunk = balloc_chunk_txn [OF Cons.prems(1-3) n, where sz = sz]
  show ?case
  proof (cases "find (block_free (v ?n)) [0..<min BPB (sz - BPB * j)]")
    case None
    from chunk(1) [OF None] obtain s1 where s1: "balloc_chunk dev sz (BPB * j) s = Inr (None, s1)" "in_txn p s1 v" "room (Suc (Suc k)) s1" "txn_keeps s s1" by blast
    have nf: "\<not> chunk_has_free x v sz j" using None by (simp add: chunk_has_free_def find_upt_None)
    have k1: "dev = log_dev s1" "x = sb s1" "st = log_start s1" using s1(4) keeps_sb [OF s1(4)] Cons.prems(3-5) by (simp_all add: txn_keeps_def)
    have "\<exists>r s'. search (map (\<lambda>j. BPB * j) js) (balloc_chunk dev sz) s1 = Inr (r, s') \<and> txn_keeps s1 s' \<and> alloc_result p v x sz k r s' (find (chunk_has_free x v sz) js)"
      by (rule Cons.IH [OF s1(2,3) k1]) (use Cons.prems(6,7) in simp_all)
    then obtain r s' where s': "search (map (\<lambda>j. BPB * j) js) (balloc_chunk dev sz) s1 = Inr (r, s')" "txn_keeps s1 s'"
      "alloc_result p v x sz k r s' (find (chunk_has_free x v sz) js)" by blast
    then show ?thesis using s1(1) nf txn_keeps_trans [OF s1(4) s'(2)] by (intro exI [of _ r] exI [of _ s']) (simp add: run_simps)
  next
    case (Some i)
    then have i: "i < min BPB (sz - BPB * j)" "block_free (v ?n) i" "\<forall>c < i. \<not> block_free (v ?n) c" by (simp_all add: find_upt)
    have "of_nat (BPB * j + i) \<notin> log_area (log_start s)" using Cons.prems(5,7) i by auto
    from chunk(2) [OF Some this] obtain s' where s': "balloc_chunk dev sz (BPB * j) s = Inr (Some (of_nat (BPB * j + i)), s')"
      "in_txn p s' (v(?n := mark_used i (v ?n), of_nat (BPB * j + i) := replicate BSIZE 0))" "room k s'" "txn_keeps s s'" by blast
    have "chunk_has_free x v sz j" using i by (auto simp: chunk_has_free_def)
    moreover have "alloc_result p v x sz k (Some (of_nat (BPB * j + i))) s' (Some j)" unfolding alloc_result_def option.case
      using s'(2,3) i by blast
    ultimately show ?thesis using s'(1,4) by (intro exI [of _ "Some (of_nat (BPB * j + i))"] exI [of _ s']) (simp add: run_simps)
  qed
qed

text \<open>
  C9. \<^verbatim>\<open>balloc\<close> inside a transaction allocates the first free block: if the bitmap has a free block below the size of the file system, it returns the
  least one, and in the transaction its bit is then set, the block is all zeros, and no other block is changed; if there is none it returns 0
  and changes nothing. (The bitmap and the free blocks lie outside the log, and the transaction has room for two more blocks.)
\<close>
theorem balloc_correct:
  assumes I: "in_txn p s v" "room (Suc (Suc k)) s" and dev: "dev = log_dev s" and x: "x = sb s" "sz = unat (sb_size x)"
    and lay: "\<forall>b < sz. BBLOCK (of_nat b) x \<notin> log_area (log_start s) \<and> (is_free x v b \<longrightarrow> of_nat b \<notin> log_area (log_start s))"
  shows "\<exists>r s'. balloc dev s = Inr (r, s') \<and> txn_keeps s s' \<and>
    ((\<forall>b < sz. \<not> is_free x v b) \<and> r = 0 \<and> in_txn p s' v \<or>
     (\<exists>b < sz. is_free x v b \<and> (\<forall>c < b. \<not> is_free x v c) \<and> r = of_nat b \<and>
        in_txn p s' (v(BBLOCK (of_nat b) x := mark_used (b mod BPB) (v (BBLOCK (of_nat b) x)), of_nat b := replicate BSIZE 0))))"
proof -
  let ?js = "[0..<(sz + BPB - 1) div BPB]" and ?B = "\<lambda>j. BBLOCK (of_nat (BPB * j)) x"
  have sz: "sz < 2 ^ 32" by (simp add: x(2))
  have blk: "BBLOCK (of_nat (BPB * j + i)) x = ?B j" "(BPB * j + i) mod BPB = i" "BPB * j + i < sz" if "i < min BPB (sz - BPB * j)" for j i
    using BBLOCK_chunk(1) [of j i x] BBLOCK_chunk(2) [of j i] that sz by auto
  have fr: "is_free x v (BPB * j + i) = block_free (v (?B j)) i" if "i < min BPB (sz - BPB * j)" for j i
    using blk [OF that] by (simp add: is_free_def)
  have in_js: "BPB * j < sz" if "j \<in> set ?js" for j using that by auto
  have split: "\<exists>j \<in> set ?js. \<exists>i < min BPB (sz - BPB * j). b = BPB * j + i" if "b < sz" for b
  proof (intro bexI [of _ "b div BPB"] exI [of _ "b mod BPB"] conjI)
    show "b mod BPB < min BPB (sz - BPB * (b div BPB))" using that mult_div_mod_eq [of BPB b] by (simp; linarith)
    show "b div BPB \<in> set ?js" using that by auto
  qed simp
  have "\<forall>j \<in> set ?js. ?B j \<notin> log_area (log_start s)" using lay in_js by blast
  moreover have "\<forall>j \<in> set ?js. \<forall>i < min BPB (sz - BPB * j). block_free (v (?B j)) i \<longrightarrow> of_nat (BPB * j + i) \<notin> log_area (log_start s)"
    using lay blk(3) fr by blast
  ultimately obtain r s' where s': "search (map (\<lambda>j. BPB * j) ?js) (balloc_chunk dev sz) s = Inr (r, s')" "txn_keeps s s'"
      "alloc_result p v x sz k r s' (find (chunk_has_free x v sz) ?js)"
    using balloc_search [OF I dev x(1) refl, of ?js] by blast
  have run: "balloc dev s = Inr (case r of Some b \<Rightarrow> b | None \<Rightarrow> 0, s')" using s'(1) x by (simp add: balloc_def run_simps)
  show ?thesis
  proof (cases "find (chunk_has_free x v sz) ?js")
    case None
    then have "\<not> is_free x v b" if "b < sz" for b
      using split [OF that] fr by (auto simp: find_None_iff chunk_has_free_def)
    then show ?thesis using run s'(2,3) None by (intro exI [of _ 0] exI [of _ s']) (simp add: alloc_result_def)
  next
    case (Some j)
    then obtain i where i: "i < min BPB (sz - BPB * j)" "block_free (v (?B j)) i" "\<forall>c < i. \<not> block_free (v (?B j)) c" "r = Some (of_nat (BPB * j + i))"
        "in_txn p s' (v(?B j := mark_used i (v (?B j)), of_nat (BPB * j + i) := replicate BSIZE 0))" using s'(3) by (auto simp: alloc_result_def)
    have first: "\<not> chunk_has_free x v sz c" if "c < j" for c using Some that by (simp add: find_upt)
    have "\<not> is_free x v c" if "c < BPB * j + i" for c
    proof -
      have "c < sz" using that blk(3) [OF i(1)] by simp
      then obtain a e where a: "e < min BPB (sz - BPB * a)" "c = BPB * a + e" using split by blast
      then have "a < j \<or> a = j \<and> e < i" using that i(1) by (cases "a < j"; auto; presburger)
      then show ?thesis using fr [OF a(1)] a first i(3) by (auto simp: chunk_has_free_def)
    qed
    then show ?thesis using run s'(2) i blk [OF i(1)] fr [OF i(1)]
      by (intro exI [of _ "of_nat (BPB * j + i)"] exI [of _ s']) auto
  qed
qed

section \<open>The end of a transaction\<close>

lemma in_txn_ready:
  assumes "in_txn p s v" "room 0 s" "length (disk s (log_start s)) = BSIZE" "get32 (disk s (log_start s)) 0 = 0"
  obtains A where "log_ready p s A" "vw A = v"
proof -
  obtain A where A: "cache_rel p (log_dev s) s A" "vw A = v" "rc A = pins s" "lk A = {}" and o: "log_open s" using assms(1) by (auto simp: in_txn_def)
  have "log_ready p s A" using A o assms(2-4) by (auto simp: log_ready_def Let_def log_open_def room_def pins_def txn_def)
  then show thesis using that A(2) by blast
qed

lemma log_ready_lock:
  assumes "log_ready p s A" "cpu_ok c"
  shows "log_ready p (s\<lparr>kcpu := c, log_lock := l, outstanding := x, committing := y\<rparr>) A"
  using assms by (simp add: log_ready_def Let_def cache_rel_def pinv_def)

text \<open>The two critical sections of \<open>end_op\<close>.\<close>

lemma end_op_first:
  assumes "clean (log_lock s)" "cpu_ok (kcpu s)" "\<not> committing s" "outstanding s = 1"
  shows "with_log (bind (modify (\<lambda>s. s\<lparr>outstanding := outstanding s - 1\<rparr>)) (\<lambda>_.
        bind (gets id) (\<lambda>s.
        if committing s then panic ''log.committing''
        else if outstanding s = 0 then bind (modify (\<lambda>s. s\<lparr>committing := True\<rparr>)) (\<lambda>_. ret True)
        else bind (run (wakeup LogChan)) (\<lambda>_. ret False)))) s =
    Inr (True, s\<lparr>kcpu := after_section (kcpu s), outstanding := 0, committing := True\<rparr>)"
proof -
  let ?t = "s\<lparr>kcpu := push_off (kcpu s), log_lock := held (log_lock s) (kcpu s), outstanding := 0, committing := True\<rparr>"
  have "with_log (bind (modify (\<lambda>s. s\<lparr>outstanding := outstanding s - 1\<rparr>)) (\<lambda>_.
        bind (gets id) (\<lambda>s.
        if committing s then panic ''log.committing''
        else if outstanding s = 0 then bind (modify (\<lambda>s. s\<lparr>committing := True\<rparr>)) (\<lambda>_. ret True)
        else bind (run (wakeup LogChan)) (\<lambda>_. ret False)))) s = Inr (True, (?t\<lparr>kcpu := after_section (kcpu s)\<rparr>)\<lparr>log_lock := freed (log_lock s)\<rparr>)"
    by (rule critical_free) (use assms in \<open>simp_all add: run_simps\<close>)
  then show ?thesis using assms(1) by simp
qed

lemma end_op_last:
  assumes "clean (log_lock s)" "pinv s"
  shows "with_log (bind (modify (\<lambda>s. s\<lparr>committing := False\<rparr>)) (\<lambda>_. run (wakeup LogChan))) s =
    Inr ((), s\<lparr>committing := False, procs := wake_from LogChan (curproc s) 0 (procs s), kcpu := after_section (kcpu s)\<rparr>)"
proof -
  have ok: "cpu_ok (kcpu s)" using assms(2) by (simp add: pinv_def)
  let ?u = "s\<lparr>kcpu := push_off (kcpu s), log_lock := held (log_lock s) (kcpu s), committing := False\<rparr>"
  have "pinv ?u" using assms(2) push_off_ok [OF ok] by (simp add: pinv_def)
  let ?t = "?u\<lparr>procs := wake_from LogChan (curproc s) 0 (procs s)\<rparr>"
  have w: "wakeup LogChan ?u = Inr ?t" using \<open>pinv ?u\<close> ok by (simp add: wakeup_eq)
  have "with_log (bind (modify (\<lambda>s. s\<lparr>committing := False\<rparr>)) (\<lambda>_. run (wakeup LogChan))) s =
      Inr ((), (?t\<lparr>kcpu := after_section (kcpu s)\<rparr>)\<lparr>log_lock := freed (log_lock s)\<rparr>)"
    by (rule critical_free) (use assms ok w in \<open>simp_all add: run_simps run_def\<close>)
  then show ?thesis using assms(1) by simp
qed

text \<open>
  C2. \<^verbatim>\<open>end_op\<close> of the last system call of a transaction makes it durable: it returns, every block outside the log then has on the disk the contents that
  the transaction gave it, and the log is empty and open for the next transaction.
\<close>
theorem end_op_commits:
  assumes I: "in_txn p s v" "room 0 s" "outstanding s = 1" and h: "length (disk s (log_start s)) = BSIZE" "get32 (disk s (log_start s)) 0 = 0"
  shows "\<exists>s'. end_op s = Inr ((), s') \<and> (\<forall>m. m \<notin> log_area (log_start s) \<longrightarrow> disk s' m = v m) \<and>
    lh_n s' = 0 \<and> outstanding s' = 0 \<and> \<not> committing s' \<and> log_start s' = log_start s"
proof -
  obtain A where A: "log_ready p s A" "vw A = v" using in_txn_ready [OF I(1,2) h] .
  have o: "clean (log_lock s)" "\<not> committing s" using I(1) by (auto simp: in_txn_def log_open_def)
  have R: "cache_rel p (log_dev s) s A" using A(1) by (simp add: log_ready_def Let_def)
  note D = cache_relD [OF R]
  define t where "t = s\<lparr>kcpu := after_section (kcpu s), outstanding := 0, committing := True\<rparr>"
  have t: "log_ready p t A" "log_lock t = log_lock s" "disk t = disk s" "log_start t = log_start s" "log_dev t = log_dev s" "outstanding t = 0"
    using log_ready_lock [OF A(1), where c = "after_section (kcpu s)" and l = "log_lock s" and x = 0 and y = True] D(14) by (simp_all add: t_def)
  obtain u A' where u: "commit t = Inr ((), u)" "lh_n u = 0" "bst.more u = bst.more (t\<lparr>lh_n := 0\<rparr>)" "cache_rel p (log_dev s) u A'"
      "\<forall>m. m \<notin> log_area (log_start s) \<longrightarrow> disk u m = v m"
    using commit_run [OF t(1)] t A(2) by auto
  note m = more_log [OF u(3)]
  have "clean (log_lock u)" "pinv u" using m(5) t(2) o(1) cache_relD(1) [OF u(4)] by simp_all
  note l = end_op_last [OF this]
  have "end_op s = Inr ((), u\<lparr>committing := False, procs := wake_from LogChan (curproc u) 0 (procs u), kcpu := after_section (kcpu u)\<rparr>)"
    unfolding end_op_def using end_op_first [OF o(1) D(14) o(2) I(3)] u(1) l by (simp add: run_simps flip: t_def)
  then show ?thesis using u m t(4,6) by auto
qed

section \<open>The bitmap\<close>

lemma block_free_bit: "block_free d i \<longleftrightarrow> \<not> bit (d ! (i div 8)) (i mod 8)"
  by (simp add: block_free_def bit_mask_def push_bit_eq_mult and_exp_eq_0_iff_not_bit)

lemma bit_mask_bit: "bit (bit_mask i) k \<longleftrightarrow> k = i mod 8"
proof -
  have "i mod 8 < 8" by simp
  then show ?thesis by (auto simp: bit_mask_def push_bit_eq_mult bit_exp_iff)
qed

text \<open>Setting or clearing a bit changes the state of one block only.\<close>

lemma block_free_mark:
  assumes "i < 8 * length d" "j < 8 * length d"
  shows "block_free (mark_used i d) j \<longleftrightarrow> j \<noteq> i \<and> block_free d j" "block_free (mark_free i d) j \<longleftrightarrow> j = i \<or> block_free d j"
proof -
  have l: "i div 8 < length d" "j div 8 < length d" using assms by auto
  have e: "j = i \<longleftrightarrow> j div 8 = i div 8 \<and> j mod 8 = i mod 8" by (metis div_mult_mod_eq)
  have m: "j mod 8 < 8" by simp
  show "block_free (mark_used i d) j \<longleftrightarrow> j \<noteq> i \<and> block_free d j" "block_free (mark_free i d) j \<longleftrightarrow> j = i \<or> block_free d j"
    unfolding block_free_bit mark_used_def mark_free_def e using l m
    by (auto simp: nth_list_update bit_or_iff bit_and_iff bit_not_iff bit_mask_bit)
qed

text \<open>
  C33. \<^verbatim>\<open>bfree\<close> inside a transaction panics if the block is free already; otherwise it returns, and in the transaction the block is then free, no
  other block is marked differently, and no block but that of the bitmap is changed.
\<close>
theorem bfree_correct:
  assumes I: "in_txn p s v" "room (Suc k) s" and dev: "dev = log_dev s" and x: "x = sb s" "b < 2 ^ 32"
    and lay: "BBLOCK (of_nat b) x \<notin> log_area (log_start s)" "length (v (BBLOCK (of_nat b) x)) = BSIZE"
  shows "if is_free x v b then bfree dev (of_nat b) s = Inl (Panic ''freeing free block'')
    else \<exists>s' d. bfree dev (of_nat b) s = Inr ((), s') \<and> in_txn p s' (v(BBLOCK (of_nat b) x := d)) \<and> room k s' \<and>
      (\<forall>j < BPB. block_free d j \<longleftrightarrow> j = b mod BPB \<or> block_free (v (BBLOCK (of_nat b) x)) j)"
proof -
  let ?n = "BBLOCK (of_nat b) x"
  let ?d = "mark_free (b mod BPB) (v ?n)"
  have u: "unat (of_nat b :: u32) = b" using x(2) by (simp add: unat_of_nat)
  obtain c s1 where s1: "bread dev ?n s = Inr (c, s1)" "bdata (bufs s1 ! c) = v ?n"
      "\<exists>s2 s3 s'. set_buf_data c ?d s1 = Inr ((), s2) \<and> log_write c s2 = Inr ((), s3) \<and> brelse c s3 = Inr ((), s') \<and>
          in_txn p s' (v(?n := ?d)) \<and> room k s'"
    using block_in_txn [OF I, of ?n] dev lay(1) by blast
  show ?thesis
  proof (cases "is_free x v b")
    case True
    then show ?thesis using s1(1,2) x(1) u by (simp add: bfree_def run_simps buf_data_def Let_def is_free_def)
  next
    case False
    obtain s2 s3 s' where s': "set_buf_data c ?d s1 = Inr ((), s2)" "log_write c s2 = Inr ((), s3)" "brelse c s3 = Inr ((), s')"
      "in_txn p s' (v(?n := ?d))" "room k s'" using s1(3) by blast
    have "bfree dev (of_nat b) s = Inr ((), s')"
      using False s1(1,2) x(1) u s'(1-3) by (simp add: bfree_def run_simps buf_data_def Let_def is_free_def)
    moreover have "b mod BPB < 8 * length (v ?n)" "\<And>j. j < BPB \<Longrightarrow> j < 8 * length (v ?n)" using lay(2) by simp_all
    ultimately show ?thesis using False s'(4,5) block_free_mark(2) by auto
  qed
qed

section \<open>Inodes on the disk\<close>

lemma u16_mod: "of_nat (unat (a :: u16) mod 65536) = a"
proof -
  have "unat a < 2 ^ LENGTH(16)" by (rule unsigned_less)
  then show ?thesis by simp
qed

lemma words_at:
  assumes "i < length ws"
  shows "take 4 (drop (4 * i) (concat (map (\<lambda>a. le_bytes 4 (unat (a :: u32))) ws))) = le_bytes 4 (unat (ws ! i))"
  using assms
proof (induction ws arbitrary: i)
  case (Cons w ws) then show ?case by (cases i) (simp_all add: drop_append)
qed simp

lemma length_words: "length (concat (map (\<lambda>a. le_bytes 4 (unat (a :: u32))) ws)) = 4 * length ws"
  by (induction ws) simp_all

lemma dinode_of_bytes:
  assumes "length (daddrs d) = NDIRECT + 1"
  shows "dinode_of (dinode_bytes d) = d" "length (dinode_bytes d) = 64"
proof -
  show "length (dinode_bytes d) = 64" using assms by (simp add: dinode_bytes_def length_words)
  let ?w = "concat (map (\<lambda>a. le_bytes 4 (unat a)) (daddrs d))"
  have "get32 (dinode_bytes d) (3 + i) = daddrs d ! i" if "i < 13" for i
  proof -
    have "drop (4 * (3 + i)) (dinode_bytes d) = drop (4 * i) ?w" by (simp add: dinode_bytes_def drop_append add.commute)
    then show ?thesis using words_at [of i "daddrs d"] that assms by (simp add: get32_def)
  qed
  then have "map (\<lambda>i. get32 (dinode_bytes d) (3 + i)) [0..<NDIRECT + 1] = daddrs d"
    using assms by (intro nth_equalityI) (simp_all del: upt_Suc)
  moreover have "get16 (dinode_bytes d) 0 = dtype d" "get16 (dinode_bytes d) 2 = dmajor d" "get16 (dinode_bytes d) 4 = dminor d"
      "get16 (dinode_bytes d) 6 = dnlink d" "get32 (dinode_bytes d) 2 = dsize d"
    by (simp_all add: dinode_bytes_def get16_def get32_def drop_append take_append u16_mod)
  ultimately show "dinode_of (dinode_bytes d) = d" by (simp add: dinode_of_def)
qed

lemma put_get_dinode:
  assumes "length (daddrs di) = NDIRECT + 1" "length d = BSIZE"
  shows "get_dinode m (put_dinode n di d) = (if m mod IPB = n mod IPB then di else get_dinode m d)" "length (put_dinode n di d) = BSIZE"
proof -
  let ?k = "64 * unat (n mod IPB)" and ?j = "64 * unat (m mod IPB)"
  have lt: "unat (a mod IPB) < 16" for a :: u32 by (simp add: unat_mod)
  have k: "?k + 64 \<le> BSIZE" "?j + 64 \<le> BSIZE" using lt [of n] lt [of m] by auto
  note b = dinode_of_bytes [OF assms(1)]
  show len: "length (put_dinode n di d) = BSIZE" using k assms(2) b(2) by (simp add: put_dinode_def Let_def)
  show "get_dinode m (put_dinode n di d) = (if m mod IPB = n mod IPB then di else get_dinode m d)"
  proof (cases "m mod IPB = n mod IPB")
    case True
    then have "take 64 (drop ?j (put_dinode n di d)) = dinode_bytes di" using k assms(2) b(2) by (simp add: put_dinode_def Let_def)
    then show ?thesis using True b(1) by (simp add: get_dinode_def)
  next
    case False
    then have ne: "unat (m mod IPB) \<noteq> unat (n mod IPB)" by (simp add: word_unat_eq_iff)
    have "take 64 (drop ?j (put_dinode n di d)) = take 64 (drop ?j d)"
    proof (rule nth_equalityI)
      fix i assume i: "i < length (take 64 (drop ?j (put_dinode n di d)))"
      have "?j + i < ?k \<or> ?k + 64 \<le> ?j + i" using ne i by (simp; linarith)
      then have "put_dinode n di d ! (?j + i) = d ! (?j + i)" using k assms(2) b(2) i len
        by (auto simp: put_dinode_def Let_def nth_append)
      then show "take 64 (drop ?j (put_dinode n di d)) ! i = take 64 (drop ?j d) ! i" using i len k assms(2) by simp
    qed (use len assms(2) in simp)
    then show ?thesis using False by (simp add: get_dinode_def)
  qed
qed


end
