(* ===== verification/Fs_Spec.thy ===== *)
theory Fs_Spec
  imports Txn
begin

text \<open>
  Further properties of the file system: the elements of a path, and the table of inodes, in which no inode has two entries. At the end,
  witnesses for the theorems on transactions, on a small file system.
\<close>

section \<open>Paths\<close>

text \<open>The elements of a path, taken off one by one as \<open>namex\<close> does.\<close>

function path_elems :: "u8 list \<Rightarrow> u8 list list" where
  "path_elems path = (case skipelem path of None \<Rightarrow> [] | Some (rest, name) \<Rightarrow> name # path_elems rest)"
  by pat_completeness auto
termination
  by (relation "measure length") (auto dest: skipelem_shorter)

declare path_elems.simps [simp del]

text \<open>The pieces of a path between slashes.\<close>

fun split_slash :: "u8 list \<Rightarrow> u8 list \<Rightarrow> u8 list list" where
  "split_slash cur [] = [cur]"
| "split_slash cur (c # cs) = (if c = slash then cur # split_slash [] cs else split_slash (cur @ [c]) cs)"

definition pieces :: "u8 list \<Rightarrow> u8 list list" where
  "pieces path = filter (\<lambda>e. e \<noteq> []) (split_slash [] path)"

lemma split_slash_prefix: "slash \<notin> set e \<Longrightarrow> split_slash cur (e @ cs) = split_slash (cur @ e) cs"
  by (induction e arbitrary: cur) auto

lemma pieces_slashes: "pieces (dropWhile (\<lambda>c. c = slash) path) = pieces path"
  by (induction path) (auto simp: pieces_def)

lemma pieces_elem:
  assumes "slash \<notin> set e" "e \<noteq> []" "rest = [] \<or> hd rest = slash"
  shows "pieces (e @ rest) = e # pieces rest"
  using assms split_slash_prefix [OF assms(1), of "[]" rest] by (cases rest) (auto simp: pieces_def)

lemma skipelem_pieces:
  "skipelem path = (if pieces path = [] then None else Some (dropWhile (\<lambda>c. c = slash) (dropWhile (\<lambda>c. c \<noteq> slash) (dropWhile (\<lambda>c. c = slash) path)), take DIRSIZ (hd (pieces path))))"
  "pieces path \<noteq> [] \<Longrightarrow> pieces (dropWhile (\<lambda>c. c \<noteq> slash) (dropWhile (\<lambda>c. c = slash) path)) = tl (pieces path)"
proof -
  define t where "t = dropWhile (\<lambda>c. c = slash) path"
  define e r where "e = takeWhile (\<lambda>c. c \<noteq> slash) t" and "r = dropWhile (\<lambda>c. c \<noteq> slash) t"
  have er: "t = e @ r" by (simp add: e_def r_def)
  have pt: "pieces t = pieces path" unfolding t_def by (rule pieces_slashes)
  have e: "slash \<notin> set e" by (auto simp: e_def dest: set_takeWhileD)
  have r: "r = [] \<or> hd r = slash" using hd_dropWhile [of "\<lambda>c. c \<noteq> slash" t] by (auto simp: r_def)
  have ne: "e \<noteq> []" if "t \<noteq> []" using that hd_dropWhile [of "\<lambda>c. c = slash" path] unfolding e_def by (cases t) (auto simp flip: t_def)
  have p: "pieces path = e # pieces r" if "t \<noteq> []" using pieces_elem [OF e ne [OF that] r] er pt by simp
  have z: "pieces path = []" if "t = []" using pt that by (simp add: pieces_def)
  have sk: "skipelem path = (if t = [] then None else Some (dropWhile (\<lambda>c. c = slash) r, if length e \<ge> DIRSIZ then take DIRSIZ t else e))"
    by (simp add: skipelem_def Let_def e_def r_def flip: t_def)
  have "(if length e \<ge> DIRSIZ then take DIRSIZ t else e) = take DIRSIZ e" using er by auto
  then show "skipelem path = (if pieces path = [] then None else Some (dropWhile (\<lambda>c. c = slash)
      (dropWhile (\<lambda>c. c \<noteq> slash) (dropWhile (\<lambda>c. c = slash) path)), take DIRSIZ (hd (pieces path))))"
    using sk p z by (cases "t = []") (simp_all add: r_def flip: t_def)
  show "pieces path \<noteq> [] \<Longrightarrow> pieces (dropWhile (\<lambda>c. c \<noteq> slash) (dropWhile (\<lambda>c. c = slash) path)) = tl (pieces path)"
    using p z by (cases "t = []") (simp_all add: r_def flip: t_def)
qed

text \<open>
  C35. Following a path with \<^verbatim>\<open>skipelem\<close>, as \<^verbatim>\<open>namex\<close> does, goes through exactly the non-empty pieces of the path between slashes, each cut to the
  \<open>DIRSIZ\<close> bytes that a directory entry holds.
\<close>
theorem path_elems_equiv: "path_elems path = map (take DIRSIZ) (pieces path)"
proof (induction path rule: path_elems.induct)
  case (1 path)
  show ?case
  proof (cases "pieces path = []")
    case True then show ?thesis using skipelem_pieces(1) [of path] by (simp add: path_elems.simps [of path])
  next
    case False
    let ?r = "dropWhile (\<lambda>c. c = slash) (dropWhile (\<lambda>c. c \<noteq> slash) (dropWhile (\<lambda>c. c = slash) path))"
    have s: "skipelem path = Some (?r, take DIRSIZ (hd (pieces path)))" using False skipelem_pieces(1) [of path] by simp
    have "pieces ?r = tl (pieces path)" using skipelem_pieces(2) [OF False] pieces_slashes by simp
    then show ?thesis using 1 [OF s refl] s False by (simp add: path_elems.simps [of path] flip: map_tl) (metis list.collapse list.simps(9))
  qed
qed

section \<open>The table of inodes\<close>

text \<open>No inode has two entries in use.\<close>

definition itable_once :: "inode list \<Rightarrow> bool" where
  "itable_once ins \<longleftrightarrow> (\<forall>i < length ins. 0 \<le> iref (ins ! i) \<and>
     (\<forall>j < length ins. i \<noteq> j \<longrightarrow> 0 < iref (ins ! i) \<longrightarrow> 0 < iref (ins ! j) \<longrightarrow> \<not> (idev (ins ! i) = idev (ins ! j) \<and> inum (ins ! i) = inum (ins ! j))))"

lemma iget_run:
  assumes "clean (itable_lock s)" "cpu_ok (kcpu s)"
  shows "iget dev n s = (case iget_entry dev n s of Inl e \<Rightarrow> Inl e | Inr (i, s') \<Rightarrow> Inr (i, s'\<lparr>kcpu := after_section (kcpu s)\<rparr>))"
proof -
  let ?t = "s\<lparr>kcpu := push_off (kcpu s), itable_lock := held (itable_lock s) (kcpu s)\<rparr>"
  show ?thesis
  proof (cases "iget_entry dev n s")
    case (Inl e)
    then have "iget_entry dev n ?t = Inl e" by (auto simp: iget_entry_def split: option.splits)
    then have "iget dev n s = Inl e" unfolding iget_def by (intro critical_fault) (use assms in simp_all)
    then show ?thesis using Inl by simp
  next
    case (Inr r)
    then obtain i s' where r: "iget_entry dev n s = Inr (i, s')" by (cases r) auto
    then obtain f where f: "s' = upd_inode i f s" "iget_entry dev n ?t = Inr (i, upd_inode i f ?t)"
      by (auto simp: iget_entry_def split: option.splits)
    have "iget dev n s = Inr (i, (upd_inode i f ?t\<lparr>kcpu := after_section (kcpu s)\<rparr>)\<lparr>itable_lock := freed (itable_lock s)\<rparr>)" unfolding iget_def
      by (rule critical_free) (use assms f(2) in \<open>simp_all add: upd_inode_def\<close>)
    then show ?thesis using r f(1) assms(1) by (simp add: upd_inode_def)
  qed
qed

text \<open>
  C17. \<^verbatim>\<open>iget\<close> gives every inode one entry: if the inode is in the table it returns that entry with one more reference, else it takes a free entry, which
  then belongs to the inode, is not valid and has one reference; the other entries stay, and no inode gets a second entry. Without a free entry it
  panics.
\<close>
theorem iget_unique:
  assumes "clean (itable_lock s)" "cpu_ok (kcpu s)" "itable_once (inodes s)"
  shows "case iget dev n s of
      Inl e \<Rightarrow> e = Panic ''iget: no inodes'' \<and> (\<forall>x \<in> set (inodes s). 0 < iref x \<and> \<not> (idev x = dev \<and> inum x = n))
    | Inr (i, s') \<Rightarrow> i < length (inodes s) \<and> itable_once (inodes s') \<and> idev (inodes s' ! i) = dev \<and> inum (inodes s' ! i) = n \<and>
        (if 0 < iref (inodes s ! i) then inodes s' ! i = (inodes s ! i)\<lparr>iref := iref (inodes s ! i) + 1\<rparr>
         else iref (inodes s' ! i) = 1 \<and> \<not> ivalid (inodes s' ! i)) \<and>
        (\<forall>j < length (inodes s). j \<noteq> i \<longrightarrow> inodes s' ! j = inodes s ! j)"
proof -
  have nn: "0 \<le> iref x" if "x \<in> set (inodes s)" for x using assms(3) that by (auto simp: itable_once_def in_set_conv_nth)
  show ?thesis
  proof (cases "find_index (\<lambda>ip. iref ip > 0 \<and> idev ip = dev \<and> inum ip = n) (inodes s)")
    case (Some i)
    then have i: "i < length (inodes s)" "0 < iref (inodes s ! i)" "idev (inodes s ! i) = dev" "inum (inodes s ! i) = n" by (auto simp: find_index_Some)
    have "itable_once ((inodes s)[i := (inodes s ! i)\<lparr>iref := iref (inodes s ! i) + 1\<rparr>])"
      using assms(3) i unfolding itable_once_def by (auto simp: nth_list_update)
    then show ?thesis using i Some iget_run [OF assms(1,2), of dev n] by (simp add: iget_entry_def upd_inode_def)
  next
    case None
    then have no: "x \<in> set (inodes s) \<Longrightarrow> 0 < iref x \<Longrightarrow> \<not> (idev x = dev \<and> inum x = n)" for x by (auto simp: find_index_None)
    show ?thesis
    proof (cases "find_index (\<lambda>ip. iref ip = 0) (inodes s)")
      case None2: None
      then have "x \<in> set (inodes s) \<Longrightarrow> 0 < iref x" for x using nn [of x] by (force simp: find_index_None)
      then show ?thesis using None None2 no iget_run [OF assms(1,2), of dev n] by (simp add: iget_entry_def)
    next
      case (Some i)
      then have i: "i < length (inodes s)" "iref (inodes s ! i) = 0" by (auto simp: find_index_Some)
      have no': "\<not> (idev (inodes s ! j) = dev \<and> inum (inodes s ! j) = n)" if "j < length (inodes s)" "0 < iref (inodes s ! j)" for j
        using no [of "inodes s ! j"] that by simp
      have "itable_once ((inodes s)[i := (inodes s ! i)\<lparr>idev := dev, inum := n, iref := 1, ivalid := False\<rparr>])"
        using assms(3) i no' unfolding itable_once_def by (auto simp: nth_list_update)
      then show ?thesis using i Some None iget_run [OF assms(1,2), of dev n] by (simp add: iget_entry_def upd_inode_def)
    qed
  qed
qed

section \<open>Witnesses\<close>

text \<open>A file system of 64 blocks: the log in blocks 2 to 31, the bitmap in block 45, blocks from 48 on free; a system call is running.\<close>

definition demo_bitmap :: block where
  "demo_bitmap = replicate 6 255 @ replicate 1018 0"

definition demo_disk :: "u32 \<Rightarrow> block" where
  "demo_disk = (\<lambda>_. replicate BSIZE 0)(45 := demo_bitmap)"

definition demo_sb :: superblock where
  "demo_sb = \<lparr>sb_magic = 0x10203040, sb_size = 64, sb_nblocks = 18, sb_ninodes = 32, sb_nlog = 30, sb_logstart = 2, sb_inodestart = 32, sb_bmapstart = 45\<rparr>"

definition demo_inode :: inode where
  "demo_inode = \<lparr>idev = 0, inum = 0, iref = 0, ilk = initsleeplock ''inode'', ivalid = False, itype = 0, imajor = 0, iminor = 0, inlink = 0,
     isize = 0, iaddrs = replicate 13 0\<rparr>"

definition demo_fs :: fsst where
  "demo_fs = logst.extend ((demo_boot demo_disk)\<lparr>outstanding := 1\<rparr>)
     \<lparr>sb = demo_sb, itable_lock = initlock ''itable'', inodes = replicate NINODE demo_inode\<rparr>"

lemma demo_fs_facts [simp]:
  "sb demo_fs = demo_sb" "itable_lock demo_fs = initlock ''itable''" "inodes demo_fs = replicate NINODE demo_inode" "kcpu demo_fs = boot_cpu"
  "log_dev demo_fs = 1" "log_start demo_fs = 2" "log_size demo_fs = 30" "lh_n demo_fs = 0" "disk demo_fs = demo_disk" "outstanding demo_fs = 1"
  "lh_block demo_fs = replicate LOGSIZE 0" "log_lock demo_fs = initlock ''log''" "committing demo_fs = False"
  using demo_boot_facts [of demo_disk] by (simp_all add: demo_fs_def logst.defs)

lemma demo_fs_txn: "in_txn 1 demo_fs demo_disk"
proof -
  have "cache_rel 1 1 demo_fs (empty_bcv demo_disk)" using demo_boot_rel [of demo_disk] unfolding cache_rel_def pinv_def by (simp add: demo_fs_def logst.defs)
  then show ?thesis unfolding in_txn_def log_open_def by (intro conjI exI [of _ "empty_bcv demo_disk"]) (simp_all add: txn_def pins_def fun_eq_iff)
qed

lemma demo_layout:
  assumes "b < 64"
  shows "BBLOCK (of_nat b) demo_sb = 45" "is_free demo_sb demo_disk b \<longleftrightarrow> 48 \<le> b"
proof -
  show B: "BBLOCK (of_nat b) demo_sb = 45" using BBLOCK_chunk(1) [of 0 b demo_sb] assms by (simp add: BBLOCK_def demo_sb_def)
  have "(255 :: u8) = mask 8" by (simp add: mask_eq_exp_minus_1)
  then have m: "bit (255 :: u8) (b mod 8)" by (simp only: bit_mask_iff) simp
  have n: "demo_bitmap ! (b div 8) = (if b div 8 < 6 then 255 else 0)" using assms by (simp add: demo_bitmap_def nth_append)
  have e: "b div 8 < 6 \<longleftrightarrow> b < 48" by linarith
  have "b mod BPB = b" using assms by simp
  then show "is_free demo_sb demo_disk b \<longleftrightarrow> 48 \<le> b" unfolding is_free_def B using m n e by (simp add: demo_disk_def block_free_bit not_less)
qed

lemma demo_log_area: "of_nat b \<in> log_area 2 \<Longrightarrow> b < 2 ^ 32 \<Longrightarrow> b < 32"
proof -
  assume b: "of_nat b \<in> log_area 2" "b < 2 ^ 32"
  then obtain i where i: "i < LOGSIZE" "of_nat b = (2 + of_nat i :: u32)" by (auto simp: log_area_def)
  then have "of_nat b = (of_nat (2 + i) :: u32)" by simp
  then have "b = 2 + i" using small_u32 [of b "2 + i"] b(2) i(1) by simp
  then show ?thesis using i(1) by simp
qed

lemma demo_room: "room (Suc (Suc 18)) demo_fs" "room (Suc 19) demo_fs" "room 0 demo_fs"
  by (simp_all add: room_def)

theorem balloc_correct_witness: "\<exists>s'. balloc 1 demo_fs = Inr (48, s')"
proof -
  have s: "unat (sb_size demo_sb) = 64" by (simp add: demo_sb_def)
  have a: "45 \<notin> log_area (2 :: u32)" using demo_log_area [of 45] by auto
  have "BBLOCK (of_nat b) demo_sb \<notin> log_area 2 \<and> (is_free demo_sb demo_disk b \<longrightarrow> of_nat b \<notin> log_area 2)" if "b < 64" for b
    unfolding demo_layout [OF that] using demo_log_area [of b] that a by auto
  then have lay: "\<forall>b < 64. BBLOCK (of_nat b) demo_sb \<notin> log_area 2 \<and> (is_free demo_sb demo_disk b \<longrightarrow> of_nat b \<notin> log_area 2)" by blast
  obtain r s' where b: "balloc 1 demo_fs = Inr (r, s')"
      "(\<forall>b < 64. \<not> is_free demo_sb demo_disk b) \<and> r = 0 \<and> in_txn 1 s' demo_disk \<or> (\<exists>b < 64. is_free demo_sb demo_disk b \<and> (\<forall>c < b. \<not> is_free demo_sb demo_disk c) \<and> r = of_nat b)"
    using balloc_correct [OF demo_fs_txn demo_room(1), of 1 demo_sb 64, unfolded demo_fs_facts, OF refl refl s [symmetric] lay] by blast
  have "is_free demo_sb demo_disk 48" using demo_layout(2) [of 48] by simp
  then obtain c where c: "c < 64" "is_free demo_sb demo_disk c" "\<forall>d < c. \<not> is_free demo_sb demo_disk d" "r = of_nat c" using b(2) by auto
  then have "48 \<le> c" "\<not> 48 < c" using demo_layout(2) [OF c(1)] \<open>is_free demo_sb demo_disk 48\<close> by blast+
  then have "c = 48" by simp
  then show ?thesis using b(1) c(4) by auto
qed

theorem bfree_correct_witness:
  "(\<exists>s'. bfree 1 40 demo_fs = Inr ((), s')) \<and> bfree 1 50 demo_fs = Inl (Panic ''freeing free block'')"
proof -
  have "45 \<notin> log_area (2 :: u32)" using demo_log_area [of 45] by auto
  moreover have "length (demo_disk 45) = 1024" by (simp add: demo_disk_def demo_bitmap_def)
  ultimately show ?thesis
    using bfree_correct [OF demo_fs_txn demo_room(2), of 1 demo_sb 40] bfree_correct [OF demo_fs_txn demo_room(2), of 1 demo_sb 50]
      demo_layout [of 40] demo_layout [of 50] by auto
qed

theorem end_op_commits_witness: "\<exists>s'. end_op demo_fs = Inr ((), s') \<and> outstanding s' = 0 \<and> disk s' 45 = demo_bitmap"
proof -
  have "45 \<notin> log_area (2 :: u32)" using demo_log_area [of 45] by auto
  then show ?thesis using end_op_commits [OF demo_fs_txn demo_room(3)] get32_zero by (auto simp: demo_disk_def)
qed


theorem iget_unique_witness: "\<exists>i s'. iget 1 7 demo_fs = Inr (i, s') \<and> inum (inodes s' ! i) = 7 \<and> iref (inodes s' ! i) = 1"
proof -
  have "itable_once (inodes demo_fs)" by (simp add: itable_once_def demo_inode_def)
  then have "case iget 1 7 demo_fs of
      Inl e \<Rightarrow> e = Panic ''iget: no inodes'' \<and> (\<forall>x \<in> set (inodes demo_fs). 0 < iref x \<and> \<not> (idev x = 1 \<and> inum x = 7))
    | Inr (i, s') \<Rightarrow> i < length (inodes demo_fs) \<and> itable_once (inodes s') \<and> idev (inodes s' ! i) = 1 \<and> inum (inodes s' ! i) = 7 \<and>
        (if 0 < iref (inodes demo_fs ! i) then inodes s' ! i = (inodes demo_fs ! i)\<lparr>iref := iref (inodes demo_fs ! i) + 1\<rparr>
         else iref (inodes s' ! i) = 1 \<and> \<not> ivalid (inodes s' ! i)) \<and>
        (\<forall>j < length (inodes demo_fs). j \<noteq> i \<longrightarrow> inodes s' ! j = inodes demo_fs ! j)"
    by (intro iget_unique) (simp_all add: boot_cpu_def cpu_ok_def)
  then show ?thesis by (auto simp: demo_inode_def split: sum.splits)
qed

end
