(* ===== verification/Grep.thy ===== *)
theory Grep
  imports Xv6_Prelude
begin

text \<open>
  The user program \<^verbatim>\<open>user/grep.c\<close>: the matcher for regular expressions with the operators \<^verbatim>\<open>^ . * $\<close>, and the loop that reads its input
  into a buffer of 1024 bytes and prints the lines that match. A C string is the list of its characters before the terminating zero; an
  access at its end reads that zero, which no pattern character equals.

  The matcher is shown equivalent to the language of the pattern, and the loop to printing the matching lines of the whole input, however
  \<^verbatim>\<open>read\<close> cuts that into pieces.
\<close>

section \<open>Definitions\<close>

text \<open>\<^verbatim>\<open>re[1] == '*'\<close>, for the pattern after its first character\<close>

definition starred :: "string \<Rightarrow> bool" where
  "starred re \<longleftrightarrow> re \<noteq> [] \<and> hd re = CHR ''*''"

text \<open>
  \<^verbatim>\<open>matchhere\<close> and \<^verbatim>\<open>matchstar\<close>. The loop of \<^verbatim>\<open>matchstar\<close> is a recursion on the text.
\<close>

function matchhere :: "string \<Rightarrow> string \<Rightarrow> bool" and matchstar :: "char \<Rightarrow> string \<Rightarrow> string \<Rightarrow> bool" where
  "matchhere re text =
     (case re of
        [] \<Rightarrow> True
      | c # re1 \<Rightarrow>
          (if starred re1 then matchstar c (tl re1) text
           else if c = CHR ''$'' \<and> re1 = [] then text = []
           else case text of
                  [] \<Rightarrow> False
                | x # text1 \<Rightarrow> (if c = CHR ''.'' \<or> c = x then matchhere re1 text1 else False)))"
| "matchstar c re text =
     (if matchhere re text then True
      else case text of
             [] \<Rightarrow> False
           | x # text1 \<Rightarrow> (if x = c \<or> c = CHR ''.'' then matchstar c re text1 else False))"
  by pat_completeness auto
termination
  by (relation "inv_image (less_than <*lex*> less_than <*lex*> less_than)
        (\<lambda>x. case x of Inl (re, text) \<Rightarrow> (length re, length text, 0) | Inr (c, re, text) \<Rightarrow> (length re, length text, 1 :: nat))")
    (auto simp: neq_Nil_conv)

declare matchhere.simps [simp del] matchstar.simps [simp del]

fun match_anywhere :: "string \<Rightarrow> string \<Rightarrow> bool" where
  "match_anywhere re text =
     (if matchhere re text then True
      else case text of [] \<Rightarrow> False | _ # text1 \<Rightarrow> match_anywhere re text1)"

declare match_anywhere.simps [simp del]

definition match :: "string \<Rightarrow> string \<Rightarrow> bool" where
  "match re text =
     (case re of c # re1 \<Rightarrow> (if c = CHR ''^'' then matchhere re1 text else match_anywhere re text) | [] \<Rightarrow> match_anywhere re text)"

abbreviation newline :: char where "newline \<equiv> CHR 0x0A"

text \<open>
  The inner loop of \<^verbatim>\<open>grep\<close>, on the characters of the buffer: for every line that ends in the buffer, print it if it matches; \<^verbatim>\<open>strchr\<close> looks
  no further than a zero. It returns what is printed and the rest of the buffer.
\<close>

function grep_lines :: "string \<Rightarrow> string \<Rightarrow> string \<times> string" where
  "grep_lines pattern p =
     (if newline \<in> set (takeWhile (\<lambda>c. c \<noteq> CHR 0x00) p) then
        let q = takeWhile (\<lambda>c. c \<noteq> newline) p;
            p1 = drop (length q + 1) p;
            (out, rest) = grep_lines pattern p1
        in ((if match pattern q then q @ [newline] else []) @ out, rest)
      else ([], p))"
  by pat_completeness auto
termination
  by (relation "measure (\<lambda>(pattern, p). length p)") (auto dest!: set_takeWhileD intro!: diff_less length_pos_if_in_set)

declare grep_lines.simps [simp del]

text \<open>
  The outer loop, with \<open>buf\<close> the \<^verbatim>\<open>m\<close> characters kept in the buffer and \<open>inp\<close> the rest of the input. \<^verbatim>\<open>read(fd, buf+m, sizeof(buf)-m-1)\<close>
  returns at least one byte if there is one and room for it; \<open>how\<close> says how many, depending on how much input is left. It returns what
  is printed.
\<close>

function grep_loop :: "(nat \<Rightarrow> nat) \<Rightarrow> string \<Rightarrow> string \<Rightarrow> string \<Rightarrow> string" where
  "grep_loop how pattern buf inp =
     (let n = min (min (max 1 (how (length inp))) (1023 - length buf)) (length inp) in
      if n > 0 then
        let (out, rest) = grep_lines pattern (buf @ take n inp)
        in out @ grep_loop how pattern rest (drop n inp)
      else [])"
  by pat_completeness auto
termination
  by (relation "measure (\<lambda>(how, pattern, buf, inp). length inp)") auto

declare grep_loop.simps [simp del]

definition grep :: "(nat \<Rightarrow> nat) \<Rightarrow> string \<Rightarrow> string \<Rightarrow> string" where
  "grep how pattern inp = grep_loop how pattern [] inp"

section \<open>The language of a pattern\<close>

text \<open>
  A pattern is a sequence of items: a character, \<^verbatim>\<open>.\<close> or one of these with \<^verbatim>\<open>*\<close>. A \<^verbatim>\<open>$\<close> at the end is an anchor.
\<close>

datatype item = One char | Many char

function items :: "string \<Rightarrow> item list" where
  "items [] = []"
| "items (c # re) =
     (if starred re then Many c # items (tl re) else if c = CHR ''$'' \<and> re = [] then [] else One c # items re)"
  by pat_completeness auto
termination
  by (relation "measure length") auto

function anchored :: "string \<Rightarrow> bool" where
  "anchored [] = False"
| "anchored (c # re) = (if starred re then anchored (tl re) else if re = [] then c = CHR ''$'' else anchored re)"
  by pat_completeness auto
termination
  by (relation "measure length") auto

definition fits :: "char \<Rightarrow> char \<Rightarrow> bool" where
  "fits c x \<longleftrightarrow> c = CHR ''.'' \<or> x = c"

fun lang :: "item list \<Rightarrow> string set" where
  "lang [] = {[]}"
| "lang (One c # is) = {x # u | x u. fits c x \<and> u \<in> lang is}"
| "lang (Many c # is) = {w @ u | w u. (\<forall>x \<in> set w. fits c x) \<and> u \<in> lang is}"

text \<open>A text begins with a word of the pattern, up to its end if the pattern is anchored there.\<close>

definition begins :: "string \<Rightarrow> string \<Rightarrow> bool" where
  "begins re text \<longleftrightarrow> (\<exists>u v. text = u @ v \<and> u \<in> lang (items re) \<and> (anchored re \<longrightarrow> v = []))"

section \<open>Lemmas\<close>

lemma begins_star:
  assumes "starred re1"
  shows "begins (c # re1) text \<longleftrightarrow> (\<exists>w v. text = w @ v \<and> (\<forall>x \<in> set w. fits c x) \<and> begins (tl re1) v)"
proof
  assume "begins (c # re1) text"
  then obtain y v where y: "text = y @ v" "y \<in> lang (items (c # re1))" "anchored (c # re1) \<longrightarrow> v = []"
    unfolding begins_def by blast
  then obtain w u where "y = w @ u" "\<forall>x \<in> set w. fits c x" "u \<in> lang (items (tl re1))" using assms by auto
  with y show "\<exists>w v. text = w @ v \<and> (\<forall>x \<in> set w. fits c x) \<and> begins (tl re1) v"
    using assms unfolding begins_def by (intro exI [of _ w] exI [of _ "u @ v"]) auto
next
  assume "\<exists>w v. text = w @ v \<and> (\<forall>x \<in> set w. fits c x) \<and> begins (tl re1) v"
  then obtain w u v where "text = w @ u @ v" "\<forall>x \<in> set w. fits c x" "u \<in> lang (items (tl re1))" "anchored (tl re1) \<longrightarrow> v = []"
    unfolding begins_def by blast
  then show "begins (c # re1) text" using assms unfolding begins_def by (intro exI [of _ "w @ u"] exI [of _ v]) auto
qed

lemma begins_one:
  assumes "\<not> starred re" "\<not> (c = CHR ''$'' \<and> re = [])"
  shows "begins (c # re) text \<longleftrightarrow> (\<exists>x v. text = x # v \<and> fits c x \<and> begins re v)"
proof
  have e: "items (c # re) = One c # items re" "anchored (c # re) = anchored re" using assms by auto
  {
    assume "begins (c # re) text"
    then obtain y v where y: "text = y @ v" "y \<in> lang (One c # items re)" "anchored re \<longrightarrow> v = []"
      unfolding begins_def e by blast
    then obtain x u where "y = x # u" "fits c x" "u \<in> lang (items re)" by auto
    with y show "\<exists>x v. text = x # v \<and> fits c x \<and> begins re v" unfolding begins_def by (intro exI [of _ x] exI [of _ "u @ v"]) auto
  next
    assume "\<exists>x v. text = x # v \<and> fits c x \<and> begins re v"
    then obtain x u v where "text = x # u @ v" "fits c x" "u \<in> lang (items re)" "anchored re \<longrightarrow> v = []" unfolding begins_def by blast
    then show "begins (c # re) text" unfolding begins_def e by (intro exI [of _ "x # u"] exI [of _ v]) auto
  }
qed

lemma begins_end: "begins [] text" "begins ''$'' text \<longleftrightarrow> text = []"
  by (auto simp: begins_def starred_def)

lemma star_unfold:
  "(\<exists>w v. [] = w @ v \<and> (\<forall>x \<in> set w. P x) \<and> Q v) \<longleftrightarrow> Q []"
  "(\<exists>w v. x # t = w @ v \<and> (\<forall>x \<in> set w. P x) \<and> Q v) \<longleftrightarrow> Q (x # t) \<or> P x \<and> (\<exists>w v. t = w @ v \<and> (\<forall>x \<in> set w. P x) \<and> Q v)"
proof -
  show "(\<exists>w v. [] = w @ v \<and> (\<forall>x \<in> set w. P x) \<and> Q v) \<longleftrightarrow> Q []" by auto
  have "(\<exists>w v. x # t = w @ v \<and> (\<forall>x \<in> set w. P x) \<and> Q v) \<longleftrightarrow> (\<exists>v. x # t = [] @ v \<and> Q v) \<or> (\<exists>y w v. x # t = (y # w) @ v \<and> P y \<and> (\<forall>x \<in> set w. P x) \<and> Q v)"
    (is "?l = ?r")
  proof
    assume ?l
    then obtain w v where "x # t = w @ v" "\<forall>x \<in> set w. P x" "Q v" by blast
    then show ?r by (cases w) auto
  next
    assume ?r
    then show ?l by (metis empty_iff empty_set set_ConsD)
  qed
  then show "(\<exists>w v. x # t = w @ v \<and> (\<forall>x \<in> set w. P x) \<and> Q v) \<longleftrightarrow> Q (x # t) \<or> P x \<and> (\<exists>w v. t = w @ v \<and> (\<forall>x \<in> set w. P x) \<and> Q v)" by auto
qed

lemma matchhere_matchstar:
  "matchhere re text \<longleftrightarrow> begins re text"
  "matchstar c re' text' \<longleftrightarrow> (\<exists>w v. text' = w @ v \<and> (\<forall>x \<in> set w. fits c x) \<and> begins re' v)"
proof (induction re "text" and c re' "text'" rule: matchhere_matchstar.induct)
  case (1 re tx)
  show ?case
  proof (cases re)
    case (Cons c re1)
    consider (star) "starred re1" | (dollar) "\<not> starred re1" "c = CHR ''$'' \<and> re1 = []"
      | (one) "\<not> starred re1" "\<not> (c = CHR ''$'' \<and> re1 = [])" by blast
    then show ?thesis
    proof cases
      case star then show ?thesis using 1(1) [OF Cons star] Cons by (simp add: matchhere.simps [of "c # re1"] begins_star)
    next
      case dollar then show ?thesis using Cons by (simp add: matchhere.simps [of "''$''"] begins_end)
    next
      case one
      show ?thesis
      proof (cases tx)
        case Nil then show ?thesis using one \<open>re = c # re1\<close> by (auto simp: matchhere.simps [of "c # re1"] begins_one)
      next
        case (Cons x t)
        then show ?thesis using 1(2) [OF \<open>re = c # re1\<close> one Cons] one \<open>re = c # re1\<close>
          by (auto simp: matchhere.simps [of "c # re1"] begins_one fits_def)
      qed
    qed
  qed (simp add: matchhere.simps begins_end)
next
  case (2 c re tx)
  show ?case
  proof (cases tx)
    case Nil then show ?thesis using 2(1) unfolding Nil star_unfold by (simp add: matchstar.simps [of c re "[]"])
  next
    case (Cons x t)
    have IH: "\<not> matchhere re tx \<Longrightarrow> x = c \<or> c = CHR ''.'' \<Longrightarrow> matchstar c re t \<longleftrightarrow> (\<exists>w v. t = w @ v \<and> (\<forall>x \<in> set w. fits c x) \<and> begins re v)"
      using 2(2) Cons by blast
    show ?thesis using 2(1) IH unfolding Cons star_unfold matchstar.simps [of c re "x # t"] by (simp add: fits_def)
  qed
qed

lemma match_anywhere_iff: "match_anywhere re text \<longleftrightarrow> (\<exists>t u. text = t @ u \<and> matchhere re u)"
proof (induction "text")
  case Nil then show ?case by (simp add: match_anywhere.simps [of re])
next
  case (Cons x tx)
  have "(\<exists>t u. x # tx = t @ u \<and> matchhere re u) \<longleftrightarrow> matchhere re (x # tx) \<or> (\<exists>t u. tx = t @ u \<and> matchhere re u)"
    by (metis Cons_eq_append_conv)
  then show ?case using Cons by (simp add: match_anywhere.simps [of re])
qed

subsection \<open>The lines\<close>

text \<open>The lines of an input that end with a newline, and what comes after the last of them.\<close>

fun split_lines :: "string \<Rightarrow> string \<Rightarrow> string list \<times> string" where
  "split_lines cur [] = ([], cur)"
| "split_lines cur (c # s) =
     (if c = newline then (let (ls, r) = split_lines [] s in (cur # ls, r)) else split_lines (cur @ [c]) s)"

definition print_matching :: "string \<Rightarrow> string list \<Rightarrow> string" where
  "print_matching pattern ls = concat (map (\<lambda>l. l @ [newline]) (filter (match pattern) ls))"

lemma print_matching_simps:
  "print_matching pattern [] = []" "print_matching pattern (ls @ ks) = print_matching pattern ls @ print_matching pattern ks"
  "print_matching pattern (l # ls) = (if match pattern l then l @ [newline] else []) @ print_matching pattern ls"
  by (simp_all add: print_matching_def)

lemma split_lines_append:
  "split_lines cur (s @ t) = (fst (split_lines cur s) @ fst (split_lines (snd (split_lines cur s)) t), snd (split_lines (snd (split_lines cur s)) t))"
  by (induction cur s rule: split_lines.induct) (auto simp: Let_def split: prod.split)

lemma split_lines_prefix: "newline \<notin> set q \<Longrightarrow> split_lines cur (q @ s) = split_lines (cur @ q) s"
  by (induction q arbitrary: cur) auto

lemma split_lines_rest: "newline \<notin> set cur \<Longrightarrow> newline \<notin> set (snd (split_lines cur s))"
  by (induction cur s rule: split_lines.induct) (auto simp: Let_def split: prod.split)

lemma rest_subset: "set (snd (split_lines cur s)) \<subseteq> set cur \<union> set s"
  by (induction cur s rule: split_lines.induct) (auto simp: Let_def split: prod.split)

lemma rest_split: "newline \<notin> set r \<Longrightarrow> split_lines [] (r @ s) = split_lines r s"
  using split_lines_prefix [of r "[]" s] by simp

text \<open>The inner loop splits the buffer into lines and prints those that match.\<close>

lemma grep_lines_split:
  assumes "CHR 0x00 \<notin> set p"
  shows "grep_lines pattern p = (print_matching pattern (fst (split_lines [] p)), snd (split_lines [] p))"
  using assms
proof (induction pattern p rule: grep_lines.induct)
  case (1 pattern p)
  have z: "takeWhile (\<lambda>c. c \<noteq> CHR 0x00) p = p" using 1(2) by (auto simp: takeWhile_eq_all_conv)
  show ?case
  proof (cases "newline \<in> set p")
    case False
    then show ?thesis using split_lines_prefix [of p "[]" "[]"] by (simp add: grep_lines.simps [of pattern p] z print_matching_simps)
  next
    case True
    then obtain q p1 where q: "p = q @ newline # p1" "newline \<notin> set q" by (meson split_list_first)
    have "\<And>x. x \<in> set q \<Longrightarrow> x \<noteq> newline" using q(2) by auto
    then have tw: "takeWhile (\<lambda>c. c \<noteq> newline) p = q" "drop (length q + 1) p = p1" "drop (Suc (length q)) p = p1" unfolding q(1) by (simp_all add: takeWhile_append2)
    have "grep_lines pattern p1 = (print_matching pattern (fst (split_lines [] p1)), snd (split_lines [] p1))"
      using 1(1) [OF _ refl refl, unfolded z tw(1,2)] True 1(2) q(1) by auto
    then show ?thesis using split_lines_prefix [OF q(2), of "[]" "newline # p1"] True
      by (auto simp: grep_lines.simps [of pattern p] z tw Let_def q(1)[symmetric] print_matching_simps split: prod.split)
  qed
qed

lemma first_line_len: "fst (split_lines cur s) \<noteq> [] \<Longrightarrow> length cur \<le> length (hd (fst (split_lines cur s)))"
  by (induction cur s rule: split_lines.induct) (auto simp: Let_def split: prod.splits if_splits)

lemma grep_loop_unfold:
  "n = min (min (max 1 (how (length inp))) (1023 - length buf)) (length inp) \<Longrightarrow> grep_loop how pattern buf inp =
     (if n > 0 then fst (grep_lines pattern (buf @ take n inp)) @ grep_loop how pattern (snd (grep_lines pattern (buf @ take n inp))) (drop n inp) else [])"
  by (subst grep_loop.simps) (simp only: Let_def case_prod_beta)

text \<open>The outer loop, with the kept characters as the beginning of the input.\<close>

lemma grep_loop_lines:
  assumes "newline \<notin> set buf" "CHR 0x00 \<notin> set (buf @ inp)" "\<forall>l \<in> set (fst (split_lines buf inp)). length l \<le> 1022"
  shows "grep_loop how pattern buf inp = print_matching pattern (fst (split_lines buf inp))"
  using assms
proof (induction "length inp" arbitrary: buf inp rule: less_induct)
  case less
  define n where "n = min (min (max 1 (how (length inp))) (1023 - length buf)) (length inp)"
  define p where "p = buf @ take n inp"
  note e = grep_loop_unfold [where how = how and inp = inp and buf = buf, OF n_def, of pattern, folded p_def]
  note sp = split_lines_append [of buf "take n inp" "drop n inp", simplified]
  let ?s = "split_lines buf (take n inp)"
  show ?case
  proof (cases "n > 0")
    case True
    then have len: "length (drop n inp) < length inp" by (auto simp: n_def)
    have z: "CHR 0x00 \<notin> set p" using less.prems(2) by (auto simp: p_def dest: in_set_takeD)
    have g: "grep_lines pattern p = (print_matching pattern (fst ?s), snd ?s)"
      using grep_lines_split [OF z] rest_split [OF less.prems(1), of "take n inp"] by (simp add: p_def)
    have "snd ?s = snd (split_lines [] p)" using rest_split [OF less.prems(1), of "take n inp"] by (simp add: p_def)
    then have z2: "CHR 0x00 \<notin> set (snd ?s)" using rest_subset [of "[]" p] z by auto
    have "grep_loop how pattern (snd ?s) (drop n inp) = print_matching pattern (fst (split_lines (snd ?s) (drop n inp)))"
      by (rule less.hyps [OF len]) (use split_lines_rest [OF less.prems(1)] z2 less.prems(2,3) sp in \<open>auto dest: in_set_dropD\<close>)
    then show ?thesis unfolding e g sp using True by (simp add: print_matching_simps)
  next
    case False
    have "fst (split_lines buf inp) = []"
    proof (cases inp)
      case (Cons c t)
      then have "1023 \<le> length buf" using False by (auto simp: n_def min_def split: if_splits)
      then show ?thesis using first_line_len [of buf inp] less.prems(3) hd_in_set [of "fst (split_lines buf inp)"] by fastforce
    qed simp
    then show ?thesis unfolding e using False by (simp add: print_matching_simps)
  qed
qed

section \<open>Correctness\<close>

text \<open>
  C16. The matcher is equivalent to the language of the pattern: \<^verbatim>\<open>match\<close> finds a match exactly if some part of the text is a word of the pattern
  after an initial \<^verbatim>\<open>^\<close>, where the part begins the text if there is such a \<^verbatim>\<open>^\<close>, and ends it if the pattern ends with an unstarred \<^verbatim>\<open>$\<close>.
\<close>
theorem match_equiv_lang:
  "match re t \<longleftrightarrow>
     (\<exists>a u v. t = a @ u @ v \<and>
        (if re \<noteq> [] \<and> hd re = CHR ''^'' then a = [] \<and> u \<in> lang (items (tl re)) \<and> (anchored (tl re) \<longrightarrow> v = [])
         else u \<in> lang (items re) \<and> (anchored re \<longrightarrow> v = [])))"
proof (cases "re \<noteq> [] \<and> hd re = CHR ''^''")
  case True
  then obtain re1 where "re = CHR ''^'' # re1" by (cases re) auto
  then show ?thesis by (simp add: match_def matchhere_matchstar(1) begins_def)
next
  case False
  then have "match re t = match_anywhere re t" by (auto simp: match_def split: list.split)
  then show ?thesis using False by (auto simp: match_anywhere_iff matchhere_matchstar(1) begins_def)
qed

text \<open>
  C32. \<^verbatim>\<open>grep\<close> prints exactly the lines of its input that match, each with its newline and in their order, however \<^verbatim>\<open>read\<close> cuts the input
  into pieces; provided the input has no zero byte and no line of more than 1022 characters. What comes after the last newline is not
  printed.
\<close>
theorem grep_correct:
  assumes "CHR 0x00 \<notin> set inp" "\<forall>l \<in> set (fst (split_lines [] inp)). length l \<le> 1022"
  shows "grep how pattern inp = print_matching pattern (fst (split_lines [] inp))"
  unfolding grep_def by (rule grep_loop_lines) (use assms in simp_all)

theorem grep_correct_witness:
  "grep (\<lambda>n. n mod 3) ''a.*c$'' (''xabc'' @ [newline] @ ''b'' @ [newline] @ ''ac'' @ [newline] @ ''ac'') = ''xabc'' @ [newline] @ ''ac'' @ [newline]"
proof -
  let ?i = "''xabc'' @ [newline] @ ''b'' @ [newline] @ ''ac'' @ [newline] @ ''ac''"
  have m: "match ''a.*c$'' ''xabc''" "\<not> match ''a.*c$'' ''b''" "match ''a.*c$'' ''ac''" by code_simp+
  have s: "fst (split_lines [] ?i) = [''xabc'', ''b'', ''ac'']" by simp
  have "grep (\<lambda>n. n mod 3) ''a.*c$'' ?i = print_matching ''a.*c$'' (fst (split_lines [] ?i))"
    by (rule grep_correct) (unfold s, simp_all)
  then show ?thesis unfolding s using m by (simp add: print_matching_def)
qed

theorem match_equiv_lang_witness: "match ''^ab*$'' ''abb'' \<and> ''abb'' \<in> lang (items ''ab*$'')"
proof -
  have m: "match ''^ab*$'' ''abb''" "anchored ''ab*$''" by code_simp+
  then show ?thesis using match_equiv_lang [of "''^ab*$''" "''abb''"] by auto
qed

end
