(* ===== verification/Umalloc.thy ===== *)
theory Umalloc
  imports Xv6_Prelude
begin

text \<open>
  The memory allocator of user programs, \<^verbatim>\<open>user/umalloc.c\<close>. Free blocks form a circular list in the order of their addresses, through the header in
  front of each; \<^verbatim>\<open>base\<close> is its element of size zero, and \<^verbatim>\<open>freep\<close> points to where the last search ended. Addresses are natural numbers (user
  addresses are below \<open>2 ^ 38\<close>, pointers do not wrap), sizes are 32-bit counts of headers of 16 bytes. The heap maps an address to the header there.
  The system call \<^verbatim>\<open>sbrk\<close> is a parameter: from the old break and the argument it gives the new break, or nothing when it fails.

  Shown here: \<^verbatim>\<open>malloc\<close> and \<^verbatim>\<open>free\<close> return, whatever the list is; blocks in use never overlap each other or a free block; neighbouring free
  blocks are always merged; and every byte that \<^verbatim>\<open>sbrk\<close> gave is in exactly one block.
\<close>

section \<open>Definitions\<close>

record header =
  hptr :: nat
  hsize :: nat

record um =
  heap :: "nat \<Rightarrow> header"
  freep :: nat
  brk :: nat

abbreviation (input) HSIZE :: nat where "HSIZE \<equiv> 16"

abbreviation nxt :: "um \<Rightarrow> nat \<Rightarrow> nat" where "nxt s p \<equiv> hptr (heap s p)"
abbreviation units :: "um \<Rightarrow> nat \<Rightarrow> nat" where "units s p \<equiv> hsize (heap s p)"

definition set_ptr :: "nat \<Rightarrow> nat \<Rightarrow> um \<Rightarrow> um" where
  "set_ptr p v s = s\<lparr>heap := (heap s)(p := (heap s p)\<lparr>hptr := v\<rparr>)\<rparr>"

definition set_size :: "nat \<Rightarrow> nat \<Rightarrow> um \<Rightarrow> um" where
  "set_size p v s = s\<lparr>heap := (heap s)(p := (heap s p)\<lparr>hsize := v\<rparr>)\<rparr>"

text \<open>The search for the place of a block to be freed: the loop ends at \<open>p\<close> when the block lies between \<open>p\<close> and its successor, or beyond an end of the list.\<close>

definition stops :: "um \<Rightarrow> nat \<Rightarrow> nat \<Rightarrow> bool" where
  "stops s bp p \<longleftrightarrow> bp > p \<and> bp < nxt s p \<or> p \<ge> nxt s p \<and> (bp > p \<or> bp < nxt s p)"

partial_function (option) free_search :: "um \<Rightarrow> nat \<Rightarrow> nat \<Rightarrow> nat option" where
  "free_search s bp p = (if stops s bp p then Some p else free_search s bp (nxt s p))"

definition free_link :: "nat \<Rightarrow> nat \<Rightarrow> um \<Rightarrow> um" where
  "free_link bp p s =
     (let s = (if bp + HSIZE * units s bp = nxt s p
               then let s = set_size bp ((units s bp + units s (nxt s p)) mod 2 ^ 32) s
                    in set_ptr bp (nxt s (nxt s p)) s
               else set_ptr bp (nxt s p) s);
          s = (if p + HSIZE * units s p = bp
               then let s = set_size p ((units s p + units s bp) mod 2 ^ 32) s
                    in set_ptr p (nxt s bp) s
               else set_ptr p bp s)
      in s\<lparr>freep := p\<rparr>)"

definition free :: "nat \<Rightarrow> um \<Rightarrow> um option" where
  "free ap s =
     (let bp = ap - HSIZE
      in Option.bind (free_search s bp (freep s)) (\<lambda>p. Some (free_link bp p s)))"

text \<open>The argument of \<^verbatim>\<open>sbrk\<close> is an \<^verbatim>\<open>int\<close>; the product of an unsigned and a size is converted.\<close>

definition to_int32 :: "nat \<Rightarrow> int" where
  "to_int32 n = (int n + 2 ^ 31) mod 2 ^ 32 - 2 ^ 31"

definition morecore :: "(nat \<Rightarrow> int \<Rightarrow> nat option) \<Rightarrow> nat \<Rightarrow> um \<Rightarrow> (nat \<times> um) option" where
  "morecore sbrk nu s =
     (let nu = (if nu < 4096 then 4096 else nu)
      in case sbrk (brk s) (to_int32 (nu * HSIZE)) of
        None \<Rightarrow> Some (0, s)
      | Some b \<Rightarrow>
          let hp = brk s
          in Option.bind (free (hp + HSIZE) (set_size hp nu (s\<lparr>brk := b\<rparr>))) (\<lambda>s. Some (freep s, s)))"

text \<open>A block that fits exactly is unlinked; of a larger one the end is taken.\<close>

definition cut :: "nat \<Rightarrow> nat \<Rightarrow> nat \<Rightarrow> um \<Rightarrow> nat \<times> um" where
  "cut n prevp p s =
     (if units s p = n then (p + HSIZE, (set_ptr prevp (nxt s p) s)\<lparr>freep := prevp\<rparr>)
      else
        let s = set_size p (units s p - n) s;
            q = p + HSIZE * units s p;
            s = set_size q n s
        in (q + HSIZE, s\<lparr>freep := prevp\<rparr>))"

partial_function (option) malloc_loop :: "(nat \<Rightarrow> int \<Rightarrow> nat option) \<Rightarrow> nat \<Rightarrow> nat \<Rightarrow> nat \<Rightarrow> um \<Rightarrow> (nat \<times> um) option" where
  "malloc_loop sbrk n prevp p s =
     (if units s p \<ge> n then Some (cut n prevp p s)
      else if p = freep s then
        Option.bind (morecore sbrk n s) (\<lambda>(p, s).
        if p = 0 then Some (0, s) else malloc_loop sbrk n p (nxt s p) s)
      else malloc_loop sbrk n p (nxt s p) s)"

text \<open>The sum is one of 64 bits, since \<^verbatim>\<open>sizeof\<close> is; the quotient fits in 32.\<close>

definition nunits :: "u32 \<Rightarrow> nat" where
  "nunits nbytes = (unat nbytes + HSIZE - 1) div HSIZE + 1"

definition init_base :: "nat \<Rightarrow> um \<Rightarrow> um" where
  "init_base base s = set_size base 0 (set_ptr base base (s\<lparr>freep := base\<rparr>))"

definition malloc :: "(nat \<Rightarrow> int \<Rightarrow> nat option) \<Rightarrow> nat \<Rightarrow> u32 \<Rightarrow> um \<Rightarrow> (nat \<times> um) option" where
  "malloc sbrk base nbytes s =
     (let s = (if freep s = 0 then init_base base s else s)
      in malloc_loop sbrk (nunits nbytes) (freep s) (nxt s (freep s)) s)"

section \<open>The list of free blocks\<close>

fun links :: "(nat \<Rightarrow> header) \<Rightarrow> nat list \<Rightarrow> bool" where
  "links h (p # q # ps) \<longleftrightarrow> hptr (h p) = q \<and> links h (q # ps)"
| "links h ps \<longleftrightarrow> True"

text \<open>Blocks in the order of their addresses, with something between any two.\<close>

fun apart :: "(nat \<times> nat) list \<Rightarrow> bool" where
  "apart (x # y # fl) \<longleftrightarrow> fst x + HSIZE * snd x < fst y \<and> apart (y # fl)"
| "apart fl \<longleftrightarrow> True"

definition free_list :: "nat \<Rightarrow> (nat \<times> nat) list \<Rightarrow> (nat \<Rightarrow> header) \<Rightarrow> bool" where
  "free_list base fl h \<longleftrightarrow> fl \<noteq> [] \<and> hd fl = (base, 0) \<and> apart fl \<and> links h (map fst fl @ [base]) \<and>
     (\<forall>(a, n) \<in> set fl. hsize (h a) = n) \<and> (\<forall>(a, n) \<in> set (tl fl). 0 < n)"

lemma links_append: "links h (xs @ a # ys) \<longleftrightarrow> links h (xs @ [a]) \<and> links h (a # ys)"
proof (induction xs)
  case (Cons x xs) then show ?case by (cases xs) auto
qed simp

lemma links_upd: "a \<notin> set (butlast xs) \<Longrightarrow> links (h(a := v)) xs = links h xs"
  by (induction h xs rule: links.induct) (auto split: if_splits)

lemma links_hsize: "hptr v = hptr (h a) \<Longrightarrow> links (h(a := v)) xs = links h xs"
  by (induction h xs rule: links.induct) auto

lemma apart_append: "apart (xs @ y # ys) \<longleftrightarrow> apart (xs @ [y]) \<and> apart (y # ys)"
proof (induction xs)
  case (Cons x xs) then show ?case by (cases xs) auto
qed simp

lemma apart_after: "apart (x # fl) \<Longrightarrow> y \<in> set fl \<Longrightarrow> fst x + HSIZE * snd x < fst y"
proof (induction fl arbitrary: x)
  case (Cons z fl) then show ?case by fastforce
qed simp

lemma apart_before:
  assumes "apart (xs @ [y])" "x \<in> set xs"
  shows "fst x + HSIZE * snd x < fst y"
proof -
  obtain us vs where "xs = us @ x # vs" using assms(2) by (meson split_list)
  then have "apart (x # vs @ [y])" using assms(1) apart_append [of us x "vs @ [y]"] by simp
  then show ?thesis by (rule apart_after) simp
qed

lemma apart_distinct: "apart fl \<Longrightarrow> distinct (map fst fl)"
proof (induction fl)
  case (Cons x fl)
  moreover have "apart fl" using Cons.prems by (cases fl) simp_all
  ultimately show ?case using apart_after [OF Cons.prems] by fastforce
qed simp

section \<open>Searching\<close>

text \<open>The two loops walk along the list as long as nothing stops them.\<close>

lemma search_walk:
  assumes "links (heap s) (p # ps)" "\<forall>q \<in> set (butlast (p # ps)). \<not> stops s bp q"
  shows "free_search s bp p = free_search s bp (last (p # ps))"
  using assms
proof (induction ps arbitrary: p)
  case (Cons q ps)
  have "free_search s bp p = free_search s bp q" using Cons.prems by (subst free_search.simps) auto
  then show ?case using Cons by auto
qed simp

lemma search_from:
  assumes "links (heap s) (zs @ [z])" "r \<in> set (zs @ [z])" "\<forall>q \<in> set zs. \<not> stops s bp q"
  shows "free_search s bp r = free_search s bp z"
proof (cases "r \<in> set zs")
  case True
  then obtain us vs where z: "zs = us @ r # vs" by (meson split_list)
  then have "links (heap s) (r # vs @ [z])" using assms(1) links_append [of "heap s" us r "vs @ [z]"] by simp
  then show ?thesis using search_walk [of s r "vs @ [z]" bp] assms(3) z by (simp add: butlast_append)
qed (use assms(2) in simp)

lemma next_in_list:
  assumes "links h (map fst fl @ [base])" "fl = xs @ (p, k) # ys"
  shows "hptr (h p) = (case ys of [] \<Rightarrow> base | y # _ \<Rightarrow> fst y)"
  using assms links_append [of h "map fst xs" p "map fst ys @ [base]"] by (cases ys) auto

lemma free_listD:
  assumes "free_list base fl h"
  shows "links h (map fst fl @ [base])" "apart fl" "fl = (base, 0) # tl fl" "\<And>a n. (a, n) \<in> set fl \<Longrightarrow> hsize (h a) = n"
    "\<And>a n. (a, n) \<in> set (tl fl) \<Longrightarrow> 0 < n" "base \<in> fst ` set fl"
  using assms by (cases fl, auto simp: free_list_def)+

lemma base_least:
  assumes "free_list base fl h" "a \<in> fst ` set fl"
  shows "base \<le> a"
proof -
  obtain n where n: "(a, n) \<in> set fl" using assms(2) by auto
  have "(a, n) = (base, 0) \<or> (a, n) \<in> set (tl fl)" using n free_listD(3) [OF assms(1)] by (metis set_ConsD)
  then show ?thesis using apart_after [of "(base, 0)" "tl fl" "(a, n)"] free_listD(2,3) [OF assms(1)] by auto
qed

text \<open>The successor of an address is the next larger one, or \<open>base\<close> for the largest.\<close>

lemma next_cases:
  assumes "free_list base fl h" "q \<in> fst ` set fl"
  shows "hptr (h q) = base \<and> (\<forall>a \<in> fst ` set fl. a \<le> q) \<or>
    q < hptr (h q) \<and> hptr (h q) \<in> fst ` set fl \<and> (\<forall>a \<in> fst ` set fl. a \<le> q \<or> hptr (h q) \<le> a)"
proof -
  obtain us m vs where fl: "fl = us @ (q, m) # vs" using assms(2) by (force dest: split_list)
  have A: "apart (us @ [(q, m)])" "apart ((q, m) # vs)" using free_listD(2) [OF assms(1)] apart_append [of us "(q, m)" vs] fl by auto
  have us: "fst x \<le> q" if "x \<in> set us" for x using apart_before [OF A(1) that] by simp
  show ?thesis
  proof (cases vs)
    case Nil then show ?thesis using us next_in_list [OF free_listD(1) [OF assms(1)] fl] fl by auto
  next
    case (Cons v ws)
    have "fst v \<le> fst x" if "x \<in> set vs" for x using that Cons A(2) apart_after [of v ws x] by auto
    moreover have "q < fst v" using A(2) Cons by (cases v) auto
    ultimately show ?thesis using us next_in_list [OF free_listD(1) [OF assms(1)] fl] fl Cons by auto
  qed
qed

text \<open>The place of a block at \<open>bp\<close> is after the last free block below it.\<close>

definition place :: "(nat \<times> nat) list \<Rightarrow> nat \<Rightarrow> nat \<Rightarrow> bool" where
  "place fl bp p \<longleftrightarrow> p \<in> fst ` set fl \<and> p < bp \<and> (\<forall>a \<in> fst ` set fl. a \<le> p \<or> bp < a)"

lemma stops_place:
  assumes "free_list base fl (heap s)" "place fl bp p" "q \<in> fst ` set fl"
  shows "stops s bp q \<longleftrightarrow> q = p"
proof -
  let ?n = "nxt s q"
  have p: "p \<in> fst ` set fl" "p < bp" "q \<le> p \<or> bp < q" using assms(2,3) by (auto simp: place_def)
  have "base \<le> p" "base \<le> q" using base_least [OF assms(1)] assms(3) p(1) by auto
  moreover have "?n = base \<and> p \<le> q \<or> q < ?n \<and> (?n \<le> p \<or> bp < ?n) \<and> (p \<le> q \<or> ?n \<le> p)"
    using next_cases [OF assms(1,3)] assms(2) p(1) by (auto simp: place_def)
  ultimately show ?thesis using p(2,3) unfolding stops_def by (cases "q = p"; cases "q < bp"; auto)
qed

lemma search_finds:
  assumes fl: "free_list base fl (heap s)" and p: "place fl bp p" and r: "r \<in> fst ` set fl"
  shows "free_search s bp r = Some p"
proof -
  obtain xs k ys where x: "fl = xs @ (p, k) # ys" using p by (force simp: place_def dest: split_list)
  have d: "distinct (map fst fl)" using apart_distinct free_listD(2) [OF fl] by blast
  have ns: "\<forall>q \<in> set (map fst xs). \<not> stops s bp q" "\<forall>q \<in> set (map fst ys). \<not> stops s bp q" "stops s bp p"
  proof -
    have "p \<notin> set (map fst xs)" "p \<notin> set (map fst ys)" using d x by auto
    moreover have "stops s bp q \<longleftrightarrow> q = p" if "q \<in> set (map fst xs) \<union> set (map fst ys) \<union> {p}" for q
      by (rule stops_place [OF fl p]) (use that x in auto)
    ultimately show "\<forall>q \<in> set (map fst xs). \<not> stops s bp q" "\<forall>q \<in> set (map fst ys). \<not> stops s bp q" "stops s bp p" by blast+
  qed
  have L: "links (heap s) (map fst xs @ [p])" "links (heap s) ((p # map fst ys) @ [base])"
    using free_listD(1) [OF fl] x links_append [of "heap s" "map fst xs" p "map fst ys @ [base]"] by auto
  have one: "free_search s bp q = Some p" if "q \<in> set (map fst xs @ [p])" for q
    using search_from [OF L(1) that ns(1)] ns(3) by (subst (asm) (2) free_search.simps) simp
  have "links (heap s) (map fst ys @ [base])" using L(2) by (cases ys) auto
  then have two: "free_search s bp q = free_search s bp base" if "q \<in> set (map fst ys)" for q
    using search_from [of s "map fst ys" base q bp] ns(2) that by auto
  have "base \<in> set (map fst xs @ [p])" using free_listD(3) [OF fl] x by (cases xs) auto
  then show ?thesis using r x one two by auto
qed

lemma malloc_walk:
  assumes "links (heap s) (prevp # ps @ [q])" "\<forall>a \<in> set ps. units s a < n \<and> a \<noteq> freep s"
  shows "malloc_loop sbrk n prevp (nxt s prevp) s = malloc_loop sbrk n (last (prevp # ps)) q s"
  using assms
proof (induction ps arbitrary: prevp)
  case (Cons p ps)
  have "malloc_loop sbrk n prevp p s = malloc_loop sbrk n p (nxt s p) s" using Cons.prems by (subst malloc_loop.simps) auto
  then show ?case using Cons by auto
qed simp

text \<open>One lap of the list, from the block after \<^verbatim>\<open>freep\<close> to \<^verbatim>\<open>freep\<close> itself.\<close>

lemma lap_exists:
  assumes "free_list base fl h" "f \<in> fst ` set fl"
  shows "\<exists>L. links h (f # L @ [f]) \<and> insert f (set L) = fst ` set fl \<and> f \<notin> set L"
proof -
  obtain us m vs where fl: "fl = us @ (f, m) # vs" using assms(2) by (force dest: split_list)
  have d: "distinct (map fst fl)" using apart_distinct free_listD(2) [OF assms(1)] by blast
  have l: "links h (map fst us @ [f])" "links h (f # map fst vs @ [base])"
    using free_listD(1) [OF assms(1)] fl links_append [of h "map fst us" f "map fst vs @ [base]"] by auto
  have "links h (f # (map fst vs @ map fst us) @ [f])"
  proof (cases us)
    case Nil then show ?thesis using l(2) free_listD(3) [OF assms(1)] fl by simp
  next
    case (Cons u us')
    then have "fst u = base" using free_listD(3) [OF assms(1)] fl by simp
    then show ?thesis using l Cons links_append [of h "f # map fst vs" base "map fst us' @ [f]"] by simp
  qed
  then show ?thesis using d fl by (intro exI [of _ "map fst vs @ map fst us"]) auto
qed

lemma malloc_lap:
  assumes fl: "free_list base fl (heap s)" "freep s \<in> fst ` set fl"
  shows "(\<exists>prevp q. prevp \<in> fst ` set fl \<and> q \<in> fst ` set fl \<and> nxt s prevp = q \<and> n \<le> units s q \<and>
      malloc_loop sbrk n (freep s) (nxt s (freep s)) s = Some (cut n prevp q s)) \<or>
    (\<forall>a \<in> fst ` set fl. units s a < n) \<and>
      malloc_loop sbrk n (freep s) (nxt s (freep s)) s =
        Option.bind (morecore sbrk n s) (\<lambda>(p, s). if p = 0 then Some (0, s) else malloc_loop sbrk n p (nxt s p) s)"
proof -
  obtain L where L: "links (heap s) (freep s # L @ [freep s])" "insert (freep s) (set L) = fst ` set fl" "freep s \<notin> set L"
    using lap_exists [OF fl] by blast
  show ?thesis
  proof (cases "\<exists>a \<in> set (L @ [freep s]). n \<le> units s a")
    case True
    then obtain ps q qs where q: "L @ [freep s] = ps @ q # qs" "n \<le> units s q" "\<forall>a \<in> set ps. \<not> n \<le> units s a"
      using split_list_first_prop [of "L @ [freep s]" "\<lambda>a. n \<le> units s a"] by blast
    have "ps @ q # qs = L @ [freep s]" using q(1) by simp
    then have "set ps \<subseteq> set L" by (cases qs rule: rev_cases) auto
    then have w: "\<forall>a \<in> set ps. units s a < n \<and> a \<noteq> freep s" using q(3) L(3) by auto
    have l: "links (heap s) (freep s # ps @ [q])" using L(1) q(1) links_append [of "heap s" "freep s # ps" q qs] by simp
    let ?p = "last (freep s # ps)"
    have "links (heap s) (butlast (freep s # ps) @ [?p, q])" using l append_butlast_last_id [of "freep s # ps"] by (metis append.assoc append_Cons append_Nil list.discI)
    then have "nxt s ?p = q" using links_append [of "heap s" "butlast (freep s # ps)" ?p "[q]"] by simp
    moreover have "?p \<in> fst ` set fl" "q \<in> fst ` set fl" using L(2) \<open>set ps \<subseteq> set L\<close> arg_cong [OF q(1), of set] by auto
    moreover have "malloc_loop sbrk n (freep s) (nxt s (freep s)) s = Some (cut n ?p q s)"
      unfolding malloc_walk [OF l w] using q(2) by (subst malloc_loop.simps) simp
    ultimately show ?thesis using q(2) by blast
  next
    case False
    then have w: "\<forall>a \<in> set L. units s a < n \<and> a \<noteq> freep s" using L(3) by auto
    have "malloc_loop sbrk n (freep s) (nxt s (freep s)) s =
        Option.bind (morecore sbrk n s) (\<lambda>(p, s). if p = 0 then Some (0, s) else malloc_loop sbrk n p (nxt s p) s)"
      unfolding malloc_walk [OF L(1) w] using False by (subst malloc_loop.simps) simp
    moreover have "\<forall>a \<in> fst ` set fl. units s a < n" using False L(2) by (metis insertE not_le set_append Un_iff list.set_intros(1))
    ultimately show ?thesis by blast
  qed
qed

section \<open>Freeing a block\<close>

definition succ_addr :: "nat \<Rightarrow> (nat \<times> nat) list \<Rightarrow> nat" where
  "succ_addr base ys = (case ys of [] \<Rightarrow> base | y # _ \<Rightarrow> fst y)"

text \<open>What \<^verbatim>\<open>free\<close> does to the list of blocks: the block absorbs its upper neighbour, and is absorbed by its lower one, if they touch.\<close>

fun join_up :: "nat \<Rightarrow> nat \<Rightarrow> (nat \<times> nat) list \<Rightarrow> nat \<times> (nat \<times> nat) list" where
  "join_up bp n ((q, m) # ys) = (if bp + HSIZE * n = q then (n + m, ys) else (n, (q, m) # ys))"
| "join_up bp n [] = (n, [])"

definition insert_block :: "nat \<Rightarrow> nat \<Rightarrow> (nat \<times> nat) list \<Rightarrow> nat \<Rightarrow> nat \<Rightarrow> (nat \<times> nat) list \<Rightarrow> (nat \<times> nat) list" where
  "insert_block bp n xs p k ys =
     (case join_up bp n ys of (n', ys') \<Rightarrow>
        if p + HSIZE * k = bp then xs @ (p, k + n') # ys' else xs @ (p, k) # (bp, n') # ys')"

lemma header_upd: "x\<lparr>hptr := a\<rparr> = \<lparr>hptr = a, hsize = hsize x\<rparr>" "x\<lparr>hsize := n\<rparr> = \<lparr>hptr = hptr x, hsize = n\<rparr>"
  by simp_all

lemma free_link_heap:
  assumes fl: "free_list base (xs @ (p, k) # ys) (heap s)" and bp: "p < bp" "\<forall>y \<in> set ys. bp < fst y" and n: "units s bp = n"
    and wrap: "k + fst (join_up bp n ys) < 2 ^ 32"
  shows "free_link bp p s =
    (let (n', ys') = join_up bp n ys; r = succ_addr base ys'; h = (heap s)(bp := \<lparr>hptr = r, hsize = n'\<rparr>)
     in s\<lparr>heap := h(p := if p + HSIZE * k = bp then \<lparr>hptr = r, hsize = k + n'\<rparr> else \<lparr>hptr = bp, hsize = k\<rparr>), freep := p\<rparr>)"
proof -
  have L: "links (heap s) (map fst (xs @ (p, k) # ys) @ [base])" and k: "units s p = k" using free_listD(1,4) [OF fl] by auto
  have np: "nxt s p = succ_addr base ys" using next_in_list [OF L refl] by (simp add: succ_addr_def)
  have b: "base \<le> p" using base_least [OF fl, of p] by simp
  show ?thesis
  proof (cases ys)
    case Nil
    then show ?thesis using np k n b bp(1) wrap
      by (cases "p + HSIZE * k = bp") (simp_all add: free_link_def set_ptr_def set_size_def succ_addr_def Let_def header_upd fun_upd_twist [of p bp])
  next
    case (Cons y zs)
    obtain q m where y: "y = (q, m)" by (cases y)
    have q: "units s q = m" "q \<noteq> bp" "q \<noteq> p" using free_listD(4) [OF fl, of q m] bp Cons y by auto
    have nq: "nxt s q = succ_addr base zs" using next_in_list [OF L, of "xs @ [(p, k)]" q m zs] Cons y by (simp add: succ_addr_def)
    show ?thesis using np nq k n bp(1) q wrap Cons y
      by (cases "bp + HSIZE * n = q"; cases "p + HSIZE * k = bp")
         (simp_all add: free_link_def set_ptr_def set_size_def succ_addr_def Let_def header_upd fun_upd_twist [of p bp])
  qed
qed

definition blk :: "nat \<times> nat \<Rightarrow> nat set" where
  "blk x = {fst x..<fst x + HSIZE * snd x}"

abbreviation bytes :: "(nat \<times> nat) set \<Rightarrow> nat set" where
  "bytes X \<equiv> \<Union> (blk ` X)"

lemma blk_join: "blk (a, n + m) = blk (a, n) \<union> blk (a + HSIZE * n, m)"
  by (auto simp: blk_def)

lemma apart_tl: "apart (x # fl) \<Longrightarrow> apart fl"
  by (cases fl) simp_all

lemma apart_last: "apart (xs @ [(p, k)]) \<longleftrightarrow> apart (xs @ [(p, k')])"
proof (induction xs)
  case (Cons x xs) then show ?case by (cases xs) auto
qed simp

lemma join_up_facts:
  assumes "join_up bp n ys = (n', ys')" "apart ys" "\<forall>y \<in> set ys. 0 < snd y" "0 < n" "ys = [] \<or> bp + HSIZE * n \<le> fst (hd ys)"
  shows "apart ((bp, n') # ys')" "0 < n'" "set ys' \<subseteq> set ys" "blk (bp, n') \<union> bytes (set ys') = blk (bp, n) \<union> bytes (set ys)" "\<exists>us. ys = us @ ys'"
    "n \<le> n'"
proof -
  consider "ys = []" | q m zs where "ys = (q, m) # zs" "bp + HSIZE * n = q" | q m zs where "ys = (q, m) # zs" "bp + HSIZE * n < q"
    using assms(5) by (cases ys) force+
  then have "apart ((bp, n') # ys') \<and> 0 < n' \<and> set ys' \<subseteq> set ys \<and> blk (bp, n') \<union> bytes (set ys') = blk (bp, n) \<union> bytes (set ys) \<and> (\<exists>us. ys = us @ ys') \<and> n \<le> n'"
  proof cases
    case 2
    then have j: "n' = n + m" "ys' = zs" using assms(1) by auto
    have "apart ((bp, n + m) # zs)" using assms(2) 2 by (cases zs) (auto simp: algebra_simps)
    then show ?thesis using j 2 assms(4) by (auto simp: blk_join)
  qed (use assms in auto)
  then show "apart ((bp, n') # ys')" "0 < n'" "set ys' \<subseteq> set ys" "blk (bp, n') \<union> bytes (set ys') = blk (bp, n) \<union> bytes (set ys)" "\<exists>us. ys = us @ ys'"
    "n \<le> n'" by simp_all
qed

lemma links_Cons: "links h (p # map fst ys @ [base]) \<longleftrightarrow> hptr (h p) = succ_addr base ys \<and> links h (map fst ys @ [base])"
  by (cases ys) (simp_all add: succ_addr_def)

lemma insert_block_list:
  assumes fl: "free_list base (xs @ (p, k) # ys) h" and bp: "p < bp" "\<forall>y \<in> set ys. bp < fst y" "0 < n"
    and room: "p + HSIZE * k \<le> bp" "ys = [] \<or> bp + HSIZE * n \<le> fst (hd ys)" and j: "join_up bp n ys = (n', ys')"
  defines "r \<equiv> succ_addr base ys'"
  defines "h' \<equiv> h(bp := \<lparr>hptr = r, hsize = n'\<rparr>, p := if p + HSIZE * k = bp then \<lparr>hptr = r, hsize = k + n'\<rparr> else \<lparr>hptr = bp, hsize = k\<rparr>)"
  shows "free_list base (insert_block bp n xs p k ys) h'"
    and "bytes (set (insert_block bp n xs p k ys)) = bytes (set (xs @ (p, k) # ys)) \<union> blk (bp, n)"
    and "p \<in> fst ` set (insert_block bp n xs p k ys)"
proof -
  note F = free_listD [OF fl]
  have A: "apart (xs @ [(p, k)])" "apart ((p, k) # ys)" using F(2) apart_append [of xs "(p, k)" ys] by auto
  have "0 < snd y" if "y \<in> set ys" for y using F(5) [of "fst y" "snd y"] that by (cases xs) auto
  then have pos: "\<forall>y \<in> set ys. 0 < snd y" by blast
  note J = join_up_facts [OF j apart_tl [OF A(2)] pos bp(3) room(2)]
  have lo: "a < p" if "a \<in> fst ` set xs" for a using apart_before [OF A(1)] that by fastforce
  have hi: "bp < a" if "a \<in> fst ` set ys'" for a using J(3) bp(2) that by auto
  obtain us where us: "ys = us @ ys'" using J(5) by blast
  have L: "links h (map fst xs @ [p])" "links h (map fst ys @ [base])"
    using F(1) links_append [of h "map fst xs" p "map fst ys @ [base]"] links_Cons [of h p ys base] by auto
  have L': "links h (map fst ys' @ [base])"
    using L(2) us links_append [of h "map fst us" "fst (hd ys')" "map fst (tl ys') @ [base]"] by (cases ys') simp_all
  have b: "base \<le> p" using base_least [OF fl, of p] by simp
  have nin: "bp \<notin> fst ` set xs" "p \<notin> fst ` set xs" "bp \<notin> fst ` set ys'" "p \<notin> fst ` set ys'"
    using lo [of bp] lo [of p] hi [of bp] hi [of p] bp(1) by auto
  have keep: "links h' (map fst xs @ [p])" "links h' (map fst ys' @ [base])"
    using L(1) L' nin by (simp_all add: h'_def links_upd)
  have sz: "hsize (h' a) = m" if "(a, m) \<in> set xs \<union> set ys'" for a m
  proof -
    have "a \<in> fst ` set xs \<or> a \<in> fst ` set ys'" using that by force
    then have "a \<noteq> p" "a \<noteq> bp" using nin by auto
    then show ?thesis using that F(4) [of a m] J(3) by (auto simp: h'_def)
  qed
  have up: "0 < m" if "(a, m) \<in> set ys'" for a m using that pos J(3) by fastforce
  show "p \<in> fst ` set (insert_block bp n xs p k ys)" by (simp add: insert_block_def j)
  have s: "bytes (set (xs @ (p, k) # ys)) \<union> blk (bp, n) = bytes (set xs) \<union> blk (p, k) \<union> (blk (bp, n') \<union> bytes (set ys'))"
    unfolding J(4) by auto
  show "bytes (set (insert_block bp n xs p k ys)) = bytes (set (xs @ (p, k) # ys)) \<union> blk (bp, n)"
    unfolding s using blk_join [of p k n'] by (auto simp: insert_block_def j)
  show "free_list base (insert_block bp n xs p k ys) h'"
  proof (cases "p + HSIZE * k = bp")
    case True
    then have "xs \<noteq> []" using F(3) bp(1) by (cases xs) auto
    moreover have "apart (xs @ (p, k + n') # ys')" using A(1) apart_last [of xs p k "k + n'"] J(1) True apart_append [of xs "(p, k + n')" ys']
      by (cases ys') (auto simp: algebra_simps)
    moreover have "links h' (map fst (xs @ (p, k + n') # ys') @ [base])"
      using keep True links_append [of h' "map fst xs" p "map fst ys' @ [base]"] by (simp add: links_Cons h'_def r_def)
    ultimately show ?thesis using True F(3,5) sz up J(2) unfolding free_list_def insert_block_def j
      by (cases xs) (auto simp: h'_def)
  next
    case False
    then have "apart (xs @ (p, k) # (bp, n') # ys')" using A(1) J(1) room(1) apart_append [of xs "(p, k)" "(bp, n') # ys'"] by auto
    moreover have "links h' (map fst (xs @ (p, k) # (bp, n') # ys') @ [base])"
      using keep False bp(1) links_append [of h' "map fst xs" p "map fst ((bp, n') # ys') @ [base]"] by (simp add: links_Cons h'_def r_def)
    ultimately show ?thesis using False F(3,4,5) sz up J(2) bp(1) unfolding free_list_def insert_block_def j
      by (cases xs) (auto simp: h'_def)
  qed
qed

lemma place_exists:
  assumes "free_list base fl h" "base < bp" "bp \<notin> fst ` set fl"
  shows "\<exists>p. place fl bp p"
proof -
  let ?P = "{a \<in> fst ` set fl. a < bp}"
  have f: "finite ?P" "?P \<noteq> {}" using assms(2) free_listD(6) [OF assms(1)] by auto
  then have "Max ?P \<in> ?P" by (rule Max_in)
  moreover have "a \<le> Max ?P \<or> bp < a" if "a \<in> fst ` set fl" for a
    using Max_ge [OF f(1), of a] that assms(3) by (cases "a < bp") (auto simp: not_less order_le_less)
  ultimately have "place fl bp (Max ?P)" unfolding place_def by blast
  then show ?thesis ..
qed

lemma blk_bound: "blk (a, n) \<subseteq> {..<b} \<Longrightarrow> 0 < n \<Longrightarrow> a + HSIZE * n \<le> b"
proof -
  assume "blk (a, n) \<subseteq> {..<b}" "0 < n"
  moreover have "0 < n \<Longrightarrow> a + HSIZE * n - 1 \<in> blk (a, n)" by (simp add: blk_def)
  ultimately show ?thesis by force
qed

text \<open>\<^verbatim>\<open>free\<close> of a block that overlaps no free block: it returns, and the free bytes are those of before and those of the block.\<close>

lemma free_run:
  assumes fl: "free_list base fl (heap s)" "freep s \<in> fst ` set fl" "bytes (set fl) \<subseteq> {..<brk s}"
    and b: "base < bp" "0 < n" "units s bp = n" "blk (bp, n) \<subseteq> {..<brk s}" "blk (bp, n) \<inter> bytes (set fl) = {}"
    and lim: "0 < base" "brk s \<le> 2 ^ 36"
  shows "\<exists>s' fl'. free (bp + HSIZE) s = Some s' \<and> free_list base fl' (heap s') \<and> freep s' \<in> fst ` set fl' \<and>
    bytes (set fl') = bytes (set fl) \<union> blk (bp, n) \<and> (\<exists>(a, m) \<in> set fl'. n \<le> m) \<and> brk s' = brk s \<and> (\<forall>a. a \<notin> insert bp (fst ` set fl) \<longrightarrow> heap s' a = heap s a)"
proof -
  have tl: "x \<in> set (tl fl)" if "x \<in> set fl" "fst x \<noteq> base" for x using that free_listD(3) [OF fl(1)] by (metis fst_conv set_ConsD)
  have dis: "bp + HSIZE * n \<le> fst y \<or> fst y + HSIZE * snd y \<le> bp" if y: "y \<in> set fl" "fst y \<noteq> base" for y
  proof -
    have "0 < snd y" using free_listD(5) [OF fl(1), of "fst y" "snd y"] tl [OF y] by simp
    moreover have "blk (bp, n) \<inter> blk y = {}" using b(5) y(1) by auto
    then have "max bp (fst y) \<notin> blk (bp, n) \<inter> blk y" by simp
    ultimately show ?thesis using b(2) by (auto simp: blk_def max_def split: if_splits)
  qed
  have "bp \<noteq> fst y" if "y \<in> set fl" for y
    using dis [OF that] b(1,2) free_listD(5) [OF fl(1), of "fst y" "snd y"] tl [OF that] by (cases "fst y = base") auto
  then obtain p where p: "place fl bp p" using place_exists [OF fl(1) b(1)] by force
  then obtain xs k ys where x: "fl = xs @ (p, k) # ys" by (force simp: place_def dest: split_list)
  have A: "apart ((p, k) # ys)" using free_listD(2) [OF fl(1)] apart_append [of xs "(p, k)" ys] x by simp
  have "bp < fst y" if "y \<in> set ys" for y using apart_after [OF A that] p that x by (force simp: place_def)
  then have q: "p < bp" "\<forall>y \<in> set ys. bp < fst y" using p by (auto simp: place_def)
  have base: "base \<le> p" using base_least [OF fl(1), of p] x by simp
  have room: "p + HSIZE * k \<le> bp"
  proof (cases "p = base")
    case True
    then have "k = 0" using x free_listD(3) [OF fl(1)] apart_distinct [OF free_listD(2) [OF fl(1)]] by (cases xs) auto
    then show ?thesis using q(1) by simp
  qed (use dis [of "(p, k)"] x q(1) b(2) in auto)
  have up: "ys = [] \<or> bp + HSIZE * n \<le> fst (hd ys)"
    using dis [of "hd ys"] q x base by (cases ys) force+
  obtain n' ys' where j: "join_up bp n ys = (n', ys')" by force
  note I = insert_block_list [OF fl(1) [unfolded x] q b(2) room up j]
  have pos: "\<forall>y \<in> set ys. 0 < snd y" using free_listD(5) [OF fl(1)] x by (cases xs) force+
  note J = join_up_facts [OF j apart_tl [OF A] pos b(2) up]
  have "blk (bp, n') \<subseteq> blk (bp, n) \<union> bytes (set ys)" using J(4) by blast
  also have "\<dots> \<subseteq> {..<brk s}" using b(4) fl(3) x by auto
  finally have "blk (bp, n') \<subseteq> {..<brk s}" .
  then have "bp + HSIZE * n' \<le> brk s" using J(2) by (rule blk_bound)
  then have "16 * k + 16 * n' < brk s" using room base lim(1) by linarith
  then have "k + n' < 2 ^ 32" using lim(2) by simp
  then have e: "free_link bp p s = s\<lparr>heap := (heap s)(bp := \<lparr>hptr = succ_addr base ys', hsize = n'\<rparr>,
      p := if p + HSIZE * k = bp then \<lparr>hptr = succ_addr base ys', hsize = k + n'\<rparr> else \<lparr>hptr = bp, hsize = k\<rparr>), freep := p\<rparr>"
    using free_link_heap [OF fl(1) [unfolded x] q b(3)] j by (simp add: Let_def)
  have "free (bp + HSIZE) s = Some (free_link bp p s)" using search_finds [OF fl(1) p fl(2)] by (simp add: free_def)
  moreover have "free_list base (insert_block bp n xs p k ys) (heap (free_link bp p s))" using I(1) unfolding e by simp
  moreover have "freep (free_link bp p s) \<in> fst ` set (insert_block bp n xs p k ys)" using I(3) unfolding e by simp
  moreover have "bytes (set (insert_block bp n xs p k ys)) = bytes (set fl) \<union> blk (bp, n)" using I(2) unfolding x by simp
  moreover have "heap (free_link bp p s) a = heap s a" if "a \<notin> insert bp (fst ` set fl)" for a using that unfolding e x by simp
  moreover have "brk (free_link bp p s) = brk s" unfolding e by simp
  moreover have "\<exists>(a, m) \<in> set (insert_block bp n xs p k ys). n \<le> m" using J(6) by (simp add: insert_block_def j)
  ultimately show ?thesis by blast
qed

section \<open>Taking a block\<close>

lemma apart_disjoint:
  assumes "apart (xs @ y # ys)" "z \<in> set xs \<union> set ys"
  shows "blk z \<inter> blk y = {}"
proof -
  have a: "apart (xs @ [y])" "apart (y # ys)" using assms(1) apart_append by blast+
  then have "fst z + HSIZE * snd z < fst y \<or> fst y + HSIZE * snd y < fst z" using assms(2) apart_before [OF a(1), of z] apart_after [OF a(2), of z] by blast
  then show ?thesis by (auto simp: blk_def)
qed

text \<open>The effect of \<open>cut\<close>: one block of \<open>n\<close> units leaves the free bytes.\<close>

definition takes :: "nat \<Rightarrow> (nat \<times> nat) list \<Rightarrow> nat \<Rightarrow> um \<Rightarrow> nat \<Rightarrow> um \<Rightarrow> bool" where
  "takes base fl n s bp s' \<longleftrightarrow> (\<exists>fl'. free_list base fl' (heap s') \<and> freep s' \<in> fst ` set fl' \<and>
     bytes (set fl) = bytes (set fl') \<union> blk (bp, n) \<and> bytes (set fl') \<inter> blk (bp, n) = {}) \<and>
     units s' bp = n \<and> brk s' = brk s \<and> (\<forall>a. a \<notin> fst ` set fl \<union> bytes (set fl) \<longrightarrow> heap s' a = heap s a)"

lemma cut_exact:
  assumes fl: "free_list base fl (heap s)" "fl = xs @ (p, k) # (q, n) # ys"
  shows "\<exists>s'. cut n p q s = (q + HSIZE, s') \<and> takes base fl n s q s'"
proof -
  note F = free_listD [OF fl(1)]
  let ?fl = "xs @ (p, k) # ys" and ?s = "(set_ptr p (nxt s q) s)\<lparr>freep := p\<rparr>"
  have u: "units s q = n" using F(4) [of q n] fl(2) by simp
  have d: "distinct (map fst fl)" using apart_distinct [OF F(2)] .
  have A: "apart (xs @ [(p, k)])" "apart ((p, k) # (q, n) # ys)" using F(2) apart_append [of xs "(p, k)" "(q, n) # ys"] fl(2) by auto
  have nq: "nxt s q = succ_addr base ys" using next_in_list [OF F(1), of "xs @ [(p, k)]" q n ys] fl(2) by (simp add: succ_addr_def)
  have L: "links (heap s) (map fst xs @ [p])" "links (heap s) (map fst ys @ [base])"
    using F(1) fl(2) links_append [of "heap s" "map fst xs" p "q # map fst ys @ [base]"] links_Cons [of "heap s" q ys base] by auto
  have "apart ((p, k) # ys)" using A(2) by (cases ys) auto
  then have "apart ?fl" using A(1) apart_append [of xs "(p, k)" ys] by blast
  moreover have "links (heap ?s) (map fst ?fl @ [base])"
    using L nq d fl(2) links_append [of "heap ?s" "map fst xs" p "map fst ys @ [base]"] by (simp add: set_ptr_def links_upd links_Cons)
  moreover have "hsize (heap ?s a) = m" if "(a, m) \<in> set ?fl" for a m using that F(4) [of a m] fl(2) by (auto simp: set_ptr_def)
  moreover have "hd ?fl = (base, 0)" using F(3) fl(2) by (cases xs) simp_all
  ultimately have "free_list base ?fl (heap ?s)" using F(5) fl(2) by (cases xs) (auto simp: free_list_def)
  moreover have "bytes (set fl) = bytes (set ?fl) \<union> blk (q, n)" using fl(2) by auto
  moreover have "bytes (set ?fl) \<inter> blk (q, n) = {}" using apart_disjoint [of "xs @ [(p, k)]" "(q, n)" ys] F(2) fl(2) by force
  moreover have "p \<noteq> q" using d fl(2) by auto
  ultimately show ?thesis using u fl(2) unfolding takes_def
    by (intro exI [of _ ?s] conjI exI [of _ ?fl]) (auto simp: cut_def set_ptr_def)
qed

lemma cut_split:
  assumes fl: "free_list base fl (heap s)" "fl = xs @ (q, m) # ys" "q \<noteq> base" and n: "0 < n" "n < m" and p: "p \<in> fst ` set fl"
  shows "\<exists>s'. cut n p q s = (q + HSIZE * (m - n) + HSIZE, s') \<and> takes base fl n s (q + HSIZE * (m - n)) s'"
proof -
  note F = free_listD [OF fl(1)]
  let ?bp = "q + HSIZE * (m - n)" and ?fl = "xs @ (q, m - n) # ys"
  let ?s = "(set_size ?bp n (set_size q (m - n) s))\<lparr>freep := p\<rparr>"
  have u: "units s q = m" using F(4) [of q m] fl(2) by simp
  have A: "apart (xs @ [(q, m)])" "apart ((q, m) # ys)" using F(2) apart_append [of xs "(q, m)" ys] fl(2) by auto
  have lo: "a < q" if "(a, k) \<in> set xs" for a k using apart_before [OF A(1) that] by simp
  have hi: "q + HSIZE * m < a" if "(a, k) \<in> set ys" for a k using apart_after [OF A(2) that] by simp
  have bp: "q < ?bp" "?bp < q + HSIZE * m" "?bp + HSIZE * n = q + HSIZE * m" using n by (auto simp: algebra_simps)
  have "apart ((q, m - n) # ys)" using A(2) bp(2) by (cases ys) auto
  then have "apart ?fl" using A(1) apart_append [of xs "(q, m - n)" ys] apart_last [of xs q m "m - n"] by blast
  moreover have "links (heap ?s) (map fst ?fl @ [base])" using F(1) fl(2) by (simp add: set_size_def links_hsize)
  moreover have "hsize (heap ?s a) = k" if k: "(a, k) \<in> set ?fl" for a k
  proof -
    consider "a = q" "k = m - n" | "(a, k) \<in> set xs" | "(a, k) \<in> set ys" using k by auto
    then show ?thesis
    proof cases
      case 2 then show ?thesis using lo [OF 2] bp F(4) [of a k] fl(2) by (auto simp: set_size_def)
    next
      case 3 then show ?thesis using hi [OF 3] bp F(4) [of a k] fl(2) by (auto simp: set_size_def)
    qed (use bp in \<open>simp add: set_size_def\<close>)
  qed
  moreover have "xs \<noteq> []" using F(3) fl(2,3) by (cases xs) auto
  ultimately have "free_list base ?fl (heap ?s)" using F(3,5) fl(2) n by (cases xs) (auto simp: free_list_def)
  moreover have b: "blk (q, m) = blk (q, m - n) \<union> blk (?bp, n)" using blk_join [of q "m - n" n] n by simp
  then have "bytes (set fl) = bytes (set ?fl) \<union> blk (?bp, n)" using fl(2) by auto
  moreover have "bytes (set ?fl) \<inter> blk (?bp, n) = {}"
  proof -
    have "blk z \<inter> blk (q, m) = {}" if "z \<in> set xs \<union> set ys" for z using apart_disjoint [of xs "(q, m)" ys z] F(2) fl(2) that by simp
    moreover have "blk (q, m - n) \<inter> blk (?bp, n) = {}" by (auto simp: blk_def)
    ultimately show ?thesis using b by auto
  qed
  moreover have "freep ?s \<in> fst ` set ?fl" using p fl(2) by auto
  moreover have "cut n p q s = (?bp + HSIZE, ?s)" using u n(2) by (simp add: cut_def set_size_def Let_def)
  moreover have "heap ?s a = heap s a" if "a \<notin> fst ` set fl \<union> bytes (set fl)" for a
  proof -
    have "?bp \<in> bytes (set fl)" using bp(1,2) fl(2) by (auto simp: blk_def)
    then have "a \<noteq> ?bp" "a \<noteq> q" using that fl(2) by auto
    then show ?thesis by (simp add: set_size_def)
  qed
  moreover have "units ?s ?bp = n" "brk ?s = brk s" by (simp_all add: set_size_def)
  ultimately show ?thesis unfolding takes_def by blast
qed

lemma cut_run:
  assumes fl: "free_list base fl (heap s)" and p: "p \<in> fst ` set fl" "q \<in> fst ` set fl" "nxt s p = q" and n: "0 < n" "n \<le> units s q"
  shows "\<exists>bp s'. cut n p q s = (bp + HSIZE, s') \<and> takes base fl n s bp s'"
proof -
  note F = free_listD [OF fl]
  obtain m where m: "(q, m) \<in> set fl" using p(2) by auto
  then have u: "units s q = m" using F(4) by blast
  have "q \<noteq> base" using F(4) [of base 0] F(3) n by (metis list.set_intros(1) not_le)
  show ?thesis
  proof (cases "m = n")
    case True
    obtain xs k ys where x: "fl = xs @ (p, k) # ys" using p(1) by (force dest: split_list)
    have "hptr (heap s p) = (case ys of [] \<Rightarrow> base | y # _ \<Rightarrow> fst y)" by (rule next_in_list [OF F(1) x])
    then obtain y zs where y: "ys = y # zs" "fst y = q" using p(3) \<open>q \<noteq> base\<close> by (cases ys) auto
    then have "y = (q, n)" using F(4) [of q "snd y"] x u True by (cases y) auto
    then show ?thesis using cut_exact [OF fl, of xs p k q n zs] x y by blast
  next
    case False
    obtain xs ys where "fl = xs @ (q, m) # ys" using m by (meson split_list)
    then show ?thesis using cut_split [OF fl, of xs q m ys n p] \<open>q \<noteq> base\<close> False n u p(1) by fastforce
  qed
qed

section \<open>The state of the allocator\<close>

text \<open>
  \<open>um_inv base R A s\<close>: the bytes in \<open>R\<close> are those that \<^verbatim>\<open>malloc\<close> got from \<^verbatim>\<open>sbrk\<close>, \<open>A\<close> the blocks in use, each with its size in its header. Blocks in
  use do not overlap; \<open>R\<close> is made up of them and of the free blocks, which do not overlap them either, and each two of which have something in between.
\<close>

definition um_inv :: "nat \<Rightarrow> nat set \<Rightarrow> (nat \<times> nat) set \<Rightarrow> um \<Rightarrow> bool" where
  "um_inv base R A s \<longleftrightarrow> 0 < base \<and> base + HSIZE \<le> brk s \<and> brk s \<le> 2 ^ 36 \<and> R \<subseteq> {base + HSIZE..<brk s} \<and>
     (\<forall>(a, n) \<in> A. 0 < n \<and> units s a = n) \<and> (\<forall>x \<in> A. \<forall>y \<in> A. x \<noteq> y \<longrightarrow> blk x \<inter> blk y = {}) \<and>
     (if freep s = 0 then A = {} \<and> R = {}
      else \<exists>fl. free_list base fl (heap s) \<and> freep s \<in> fst ` set fl \<and> bytes (set fl) \<inter> bytes A = {} \<and> bytes (set fl) \<union> bytes A = R)"

text \<open>
  What \<^verbatim>\<open>malloc\<close> relies on in \<^verbatim>\<open>sbrk\<close>: it moves the break up by what it is asked for, and a process has far less memory than \<open>2 ^ 36\<close> bytes.
\<close>

definition grants :: "(nat \<Rightarrow> int \<Rightarrow> nat option) \<Rightarrow> bool" where
  "grants sbrk \<longleftrightarrow> (\<forall>b n b'. sbrk b n = Some b' \<longrightarrow> 0 < n \<longrightarrow> b' = b + nat n \<and> b' \<le> 2 ^ 36)"

lemma addrs_bytes:
  assumes "free_list base fl h"
  shows "fst ` set fl \<subseteq> insert base (bytes (set fl))"
proof
  fix a assume "a \<in> fst ` set fl"
  then obtain n where n: "(a, n) \<in> set fl" by auto
  have "(a, n) = (base, 0) \<or> (a, n) \<in> set (tl fl)" using n free_listD(3) [OF assms] by (metis set_ConsD)
  then have "a = base \<or> a \<in> blk (a, n)" using free_listD(5) [OF assms, of a n] by (auto simp: blk_def)
  then show "a \<in> insert base (bytes (set fl))" using n by auto
qed

lemma morecore_run:
  assumes fl: "free_list base fl (heap s)" "freep s \<in> fst ` set fl" "bytes (set fl) \<subseteq> {base + HSIZE..<brk s}" "0 < base" "base + HSIZE \<le> brk s"
    and sb: "grants sbrk" "HSIZE * n < 2 ^ 31" "sbrk (brk s) (int (HSIZE * max n 4096)) = Some b"
  shows "\<exists>s' fl'. morecore sbrk n s = Some (freep s', s') \<and> free_list base fl' (heap s') \<and> freep s' \<in> fst ` set fl' \<and>
    bytes (set fl') = bytes (set fl) \<union> {brk s..<b} \<and> (\<exists>(a, m) \<in> set fl'. n \<le> m) \<and> brk s' = b \<and> brk s \<le> b \<and> b \<le> 2 ^ 36 \<and>
    (\<forall>a. a \<notin> insert (brk s) (fst ` set fl) \<longrightarrow> heap s' a = heap s a)"
proof -
  let ?nu = "max n 4096"
  have "0 < int (HSIZE * ?nu)" by simp
  then have "b = brk s + nat (int (HSIZE * ?nu))" "b \<le> 2 ^ 36" using sb(1,3) unfolding grants_def by blast+
  then have b: "b = brk s + HSIZE * ?nu" "b \<le> 2 ^ 36" by (simp_all only: nat_int)
  let ?s = "set_size (brk s) ?nu (s\<lparr>brk := b\<rparr>)"
  have n: "(if n < 4096 then 4096 else n) = ?nu" by simp
  have "to_int32 (?nu * HSIZE) = int (HSIZE * ?nu)" using sb(2) by (simp add: to_int32_def max_def)
  then have m: "morecore sbrk n s = Option.bind (free (brk s + HSIZE) ?s) (\<lambda>s. Some (freep s, s))"
    using sb(3) unfolding morecore_def n Let_def by simp
  have "brk s \<notin> insert base (bytes (set fl))" using fl(3,5) by force
  then have ne: "brk s \<notin> fst ` set fl" using addrs_bytes [OF fl(1)] by blast
  have k: "blk (brk s, ?nu) = {brk s..<b}" using b(1) by (simp add: blk_def)
  have h: "heap ?s = (heap s)(brk s := (heap s (brk s))\<lparr>hsize := ?nu\<rparr>)" "freep ?s = freep s" "brk ?s = b" by (simp_all add: set_size_def)
  have "\<forall>(a, m) \<in> set fl. hsize (heap ?s a) = m"
  proof clarify
    fix a m assume "(a, m) \<in> set fl"
    moreover then have "a \<noteq> brk s" using ne by force
    ultimately show "hsize (heap ?s a) = m" using free_listD(4) [OF fl(1)] by (simp add: h(1))
  qed
  then have l: "free_list base fl (heap ?s)" using fl(1) unfolding free_list_def h(1) by (simp add: links_hsize)
  have f: "bytes (set fl) \<subseteq> {..<brk ?s}" "blk (brk s, ?nu) \<subseteq> {..<brk ?s}" "blk (brk s, ?nu) \<inter> bytes (set fl) = {}"
  proof -
    have "{base + HSIZE..<brk s} \<subseteq> {..<b}" "{brk s..<b} \<inter> {base + HSIZE..<brk s} = {}" using b(1) by auto
    then show "bytes (set fl) \<subseteq> {..<brk ?s}" "blk (brk s, ?nu) \<inter> bytes (set fl) = {}" using fl(3) unfolding k h(3) by blast+
    show "blk (brk s, ?nu) \<subseteq> {..<brk ?s}" unfolding k h(3) by auto
  qed
  have g: "base < brk s" "0 < ?nu" "units ?s (brk s) = ?nu" "brk ?s \<le> 2 ^ 36" using fl(5) b(2) unfolding h by simp_all
  have e: "freep ?s \<in> fst ` set fl" using fl(2) unfolding h(2) .
  note r = free_run [OF l e f(1) g(1-3) f(2,3) fl(4) g(4), unfolded k]
  obtain s' fl' where s': "free (brk s + HSIZE) ?s = Some s'" "free_list base fl' (heap s')" "freep s' \<in> fst ` set fl'"
      "bytes (set fl') = bytes (set fl) \<union> {brk s..<b}" "\<exists>(a, m) \<in> set fl'. ?nu \<le> m" "brk s' = brk ?s"
      "\<forall>a. a \<notin> insert (brk s) (fst ` set fl) \<longrightarrow> heap s' a = heap ?s a"
    using r by (elim exE conjE) (rule that)
  have "\<exists>(a, m) \<in> set fl'. n \<le> m" using s'(5) by fastforce
  then show ?thesis using m s' b by (intro exI [of _ s'] exI [of _ fl']) (simp add: set_size_def)
qed

lemma morecore_fails:
  assumes "HSIZE * n < 2 ^ 31" "sbrk (brk s) (int (HSIZE * max n 4096)) = None"
  shows "morecore sbrk n s = Some (0, s)"
proof -
  have "(if n < 4096 then 4096 else n) = max n 4096" "to_int32 (max n 4096 * HSIZE) = int (HSIZE * max n 4096)"
    using assms(1) by (simp_all add: to_int32_def max_def)
  then show ?thesis using assms(2) unfolding morecore_def Let_def by (simp only: option.case)
qed

text \<open>The loop of \<^verbatim>\<open>malloc\<close> returns, after one lap or, with new memory, after two.\<close>

lemma malloc_loop_run:
  assumes fl: "free_list base fl (heap s)" "freep s \<in> fst ` set fl" "bytes (set fl) \<subseteq> {base + HSIZE..<brk s}" "0 < base" "base + HSIZE \<le> brk s"
    and sb: "grants sbrk" "HSIZE * n < 2 ^ 31" and n: "0 < n" and lim: "brk s \<le> 2 ^ 36"
  shows "(\<exists>bp s1 fl1 s'. malloc_loop sbrk n (freep s) (nxt s (freep s)) s = Some (bp + HSIZE, s') \<and> free_list base fl1 (heap s1) \<and> takes base fl1 n s1 bp s' \<and>
      bytes (set fl1) = bytes (set fl) \<union> {brk s..<brk s1} \<and> brk s \<le> brk s1 \<and> brk s1 \<le> 2 ^ 36 \<and>
      (\<forall>a. a \<notin> insert (brk s) (fst ` set fl) \<longrightarrow> heap s1 a = heap s a)) \<or>
    malloc_loop sbrk n (freep s) (nxt s (freep s)) s = Some (0, s) \<and> sbrk (brk s) (int (HSIZE * max n 4096)) = None"
    (is "?found \<or> ?failed")
  using malloc_lap [OF fl(1,2), of n sbrk]
proof
  assume "\<exists>prevp q. prevp \<in> fst ` set fl \<and> q \<in> fst ` set fl \<and> nxt s prevp = q \<and> n \<le> units s q \<and>
      malloc_loop sbrk n (freep s) (nxt s (freep s)) s = Some (cut n prevp q s)"
  then obtain p q where q: "p \<in> fst ` set fl" "q \<in> fst ` set fl" "nxt s p = q" "n \<le> units s q"
      "malloc_loop sbrk n (freep s) (nxt s (freep s)) s = Some (cut n p q s)" by blast
  obtain bp s' where c: "cut n p q s = (bp + HSIZE, s')" "takes base fl n s bp s'" using cut_run [OF fl(1) q(1-3) n q(4)] by blast
  show ?thesis by (intro disjI1 exI [of _ bp] exI [of _ s] exI [of _ fl] exI [of _ s']) (use q(5) c fl(1) lim in simp)
next
  assume "(\<forall>a \<in> fst ` set fl. units s a < n) \<and> malloc_loop sbrk n (freep s) (nxt s (freep s)) s =
    Option.bind (morecore sbrk n s) (\<lambda>(p, s). if p = 0 then Some (0, s) else malloc_loop sbrk n p (nxt s p) s)"
  then have m: "malloc_loop sbrk n (freep s) (nxt s (freep s)) s =
    Option.bind (morecore sbrk n s) (\<lambda>(p, s). if p = 0 then Some (0, s) else malloc_loop sbrk n p (nxt s p) s)" ..
  show ?thesis
  proof (cases "sbrk (brk s) (int (HSIZE * max n 4096))")
    case None
    then show ?thesis using m morecore_fails [of n sbrk s, OF sb(2) None] by simp
  next
    case (Some b)
    obtain s1 fl1 where s1: "morecore sbrk n s = Some (freep s1, s1)" "free_list base fl1 (heap s1)" "freep s1 \<in> fst ` set fl1"
        "bytes (set fl1) = bytes (set fl) \<union> {brk s..<b}" "\<exists>(a, m) \<in> set fl1. n \<le> m" "brk s1 = b" "brk s \<le> b" "b \<le> 2 ^ 36"
        "\<forall>a. a \<notin> insert (brk s) (fst ` set fl) \<longrightarrow> heap s1 a = heap s a"
      using morecore_run [of base fl s sbrk n b, OF fl sb Some] by (elim exE conjE) (rule that)
    obtain a k where a: "(a, k) \<in> set fl1" "n \<le> k" using s1(5) by blast
    have "freep s1 \<noteq> 0" using base_least [OF s1(2,3)] fl(4) by simp
    then have m1: "malloc_loop sbrk n (freep s) (nxt s (freep s)) s = malloc_loop sbrk n (freep s1) (nxt s1 (freep s1)) s1" using m s1(1) by simp
    have "\<not> (\<forall>a \<in> fst ` set fl1. units s1 a < n)" using a free_listD(4) [OF s1(2) a(1)] by force
    then obtain p q where q: "p \<in> fst ` set fl1" "q \<in> fst ` set fl1" "nxt s1 p = q" "n \<le> units s1 q"
        "malloc_loop sbrk n (freep s1) (nxt s1 (freep s1)) s1 = Some (cut n p q s1)" using malloc_lap [OF s1(2,3), of n sbrk] by blast
    obtain bp s' where c: "cut n p q s1 = (bp + HSIZE, s')" "takes base fl1 n s1 bp s'" using cut_run [OF s1(2) q(1-3) n q(4)] by blast
    show ?thesis by (intro disjI1 exI [of _ bp] exI [of _ s1] exI [of _ fl1] exI [of _ s']) (use m1 q(5) c s1 in simp)
  qed
qed

lemma um_invD:
  assumes "um_inv base R A s"
  shows "0 < base" "base + HSIZE \<le> brk s" "brk s \<le> 2 ^ 36" "R \<subseteq> {base + HSIZE..<brk s}"
    "\<And>a n. (a, n) \<in> A \<Longrightarrow> 0 < n \<and> units s a = n" "\<And>x y. x \<in> A \<Longrightarrow> y \<in> A \<Longrightarrow> x \<noteq> y \<Longrightarrow> blk x \<inter> blk y = {}"
    "freep s \<noteq> 0 \<Longrightarrow> \<exists>fl. free_list base fl (heap s) \<and> freep s \<in> fst ` set fl \<and> bytes (set fl) \<inter> bytes A = {} \<and> bytes (set fl) \<union> bytes A = R"
    "freep s = 0 \<Longrightarrow> A = {} \<and> R = {}"
  using assms unfolding um_inv_def by (auto split: if_splits)

lemma init_base_inv:
  assumes "um_inv base R A s" "freep s = 0"
  shows "um_inv base R A (init_base base s)" "freep (init_base base s) \<noteq> 0" "brk (init_base base s) = brk s"
proof -
  note D = um_invD [OF assms(1)]
  have "free_list base [(base, 0)] (heap (init_base base s))" by (simp add: free_list_def init_base_def set_ptr_def set_size_def)
  then show "um_inv base R A (init_base base s)" using D(1-4) D(8) [OF assms(2)]
    by (auto simp: um_inv_def init_base_def set_ptr_def set_size_def blk_def intro!: exI [of _ "[(base, 0)]"])
qed (use um_invD(1) [OF assms(1)] in \<open>simp_all add: init_base_def set_ptr_def set_size_def\<close>)

text \<open>A block in use starts neither at a free block nor inside one.\<close>

lemma used_elsewhere:
  assumes "free_list base fl h" "bytes (set fl) \<inter> bytes A = {}" "bytes A \<subseteq> {base + HSIZE..}" "(a, n) \<in> A" "0 < n"
  shows "a \<in> bytes A" "a \<notin> bytes (set fl)" "a \<notin> fst ` set fl"
proof -
  have "a \<in> blk (a, n)" using assms(5) by (simp add: blk_def)
  then show "a \<in> bytes A" using assms(4) by blast
  then show "a \<notin> bytes (set fl)" using assms(2) by blast
  moreover have "a \<noteq> base" using \<open>a \<in> bytes A\<close> assms(3) by force
  ultimately show "a \<notin> fst ` set fl" using addrs_bytes [OF assms(1)] by blast
qed

lemma inv_take:
  assumes I: "um_inv base R A s" and fl: "free_list base fl (heap s)" "bytes (set fl) \<inter> bytes A = {}" "bytes (set fl) \<union> bytes A = R"
    and s1: "free_list base fl1 (heap s1)" "takes base fl1 n s1 bp s'" "bytes (set fl1) = bytes (set fl) \<union> {brk s..<brk s1}" "brk s \<le> brk s1"
      "brk s1 \<le> 2 ^ 36" "\<forall>a. a \<notin> insert (brk s) (fst ` set fl) \<longrightarrow> heap s1 a = heap s a" and n: "0 < n"
  shows "um_inv base (R \<union> {brk s..<brk s'}) (insert (bp, n) A) s'" "blk (bp, n) \<inter> bytes A = {}"
proof -
  note D = um_invD [OF I]
  obtain fl' where f: "free_list base fl' (heap s')" "freep s' \<in> fst ` set fl'" "bytes (set fl1) = bytes (set fl') \<union> blk (bp, n)" "bytes (set fl') \<inter> blk (bp, n) = {}"
    and t: "units s' bp = n" "brk s' = brk s1" "\<forall>a. a \<notin> fst ` set fl1 \<union> bytes (set fl1) \<longrightarrow> heap s' a = heap s1 a"
    using s1(2) unfolding takes_def by (elim exE conjE) (rule that)
  have A: "bytes A \<subseteq> {base + HSIZE..<brk s}" using D(4) fl(3) by blast
  moreover have "{brk s..<brk s1} \<inter> {base + HSIZE..<brk s} = {}" by auto
  ultimately have new: "{brk s..<brk s1} \<inter> bytes A = {}" by blast
  then have dis: "bytes (set fl1) \<inter> bytes A = {}" using fl(2) s1(3) by blast
  then show b: "blk (bp, n) \<inter> bytes A = {}" using f(3) by blast
  have "0 < m \<and> units s' a = m" if "(a, m) \<in> A" for a m
  proof -
    have m: "0 < m" "units s a = m" using D(5) [OF that] by auto
    have A': "bytes A \<subseteq> {base + HSIZE..}" using A by (rule subset_trans) auto
    note u = used_elsewhere [OF fl(1,2) A' that m(1)] and v = used_elsewhere [OF s1(1) dis A' that m(1)]
    have "a \<in> {base + HSIZE..<brk s}" using u(1) A by blast
    then have "a \<noteq> brk s" by simp
    then show ?thesis using m u v s1(6) t(3) by simp
  qed
  moreover have "blk x \<inter> blk y = {}" if "x \<in> insert (bp, n) A" "y \<in> insert (bp, n) A" "x \<noteq> y" for x y
    using that D(6) b by blast
  moreover have "freep s' \<noteq> 0" using base_least [OF f(1,2)] D(1) by simp
  moreover have "{base + HSIZE..<brk s} \<union> {brk s..<brk s'} \<subseteq> {base + HSIZE..<brk s'}" using D(2) s1(4) t(2) by auto
  then have "R \<union> {brk s..<brk s'} \<subseteq> {base + HSIZE..<brk s'}" using D(4) by blast
  moreover have "bytes (set fl') \<union> bytes (insert (bp, n) A) = R \<union> {brk s..<brk s'}" using f(3) s1(3) fl(3) t(2) by auto
  moreover have "bytes (set fl') \<inter> bytes (insert (bp, n) A) = {}" using f(3,4) dis by auto
  ultimately show "um_inv base (R \<union> {brk s..<brk s'}) (insert (bp, n) A) s'"
    using D(1,2) f(1,2) t(1,2) n s1(4,5) unfolding um_inv_def by auto
qed

section \<open>Correctness\<close>

lemma nunits_bounds: "0 < nunits nbytes" "unat nbytes + HSIZE \<le> HSIZE * nunits nbytes" "HSIZE * nunits nbytes \<le> unat nbytes + 31"
  by (simp_all add: nunits_def)

text \<open>
  C11. \<^verbatim>\<open>malloc\<close> returns for every state of the allocator and every size below two gigabytes. Either it gives a block of which at least \<open>nbytes\<close> bytes follow the
  header, and that overlaps no block in use; all bytes that \<^verbatim>\<open>sbrk\<close> ever gave, with those it gave now, are in the blocks in use and in the merged
  free ones. Or it returns zero; then \<^verbatim>\<open>sbrk\<close> has refused, and no block has changed.
\<close>
theorem malloc_correct:
  assumes I: "um_inv base R A s" and sb: "grants sbrk" and nb: "unat nbytes < 2 ^ 31 - 31"
  shows "\<exists>r s'. malloc sbrk base nbytes s = Some (r, s') \<and>
    (if r = 0 then um_inv base R A s' \<and> brk s' = brk s \<and> sbrk (brk s) (int (HSIZE * max (nunits nbytes) 4096)) = None
     else um_inv base (R \<union> {brk s..<brk s'}) (insert (r - HSIZE, nunits nbytes) A) s' \<and> blk (r - HSIZE, nunits nbytes) \<inter> bytes A = {} \<and>
       {r..<r + unat nbytes} \<subseteq> blk (r - HSIZE, nunits nbytes))"
proof -
  let ?n = "nunits nbytes"
  define t where "t = (if freep s = 0 then init_base base s else s)"
  have T: "um_inv base R A t" "freep t \<noteq> 0" "brk t = brk s" using I init_base_inv [OF I] by (auto simp: t_def)
  note D = um_invD [OF T(1)]
  obtain fl where fl: "free_list base fl (heap t)" "freep t \<in> fst ` set fl" "bytes (set fl) \<inter> bytes A = {}" "bytes (set fl) \<union> bytes A = R"
    using D(7) [OF T(2)] by blast
  have sz: "HSIZE * ?n < 2 ^ 31" using nunits_bounds(3) [of nbytes] nb by simp
  have "bytes (set fl) \<subseteq> {base + HSIZE..<brk t}" using fl(4) D(4) by blast
  note run = malloc_loop_run [OF fl(1,2) this D(1,2) sb sz nunits_bounds(1) D(3)]
  have m: "malloc sbrk base nbytes s = malloc_loop sbrk ?n (freep t) (nxt t (freep t)) t" by (simp add: malloc_def t_def Let_def)
  from run show ?thesis
  proof
    assume "malloc_loop sbrk ?n (freep t) (nxt t (freep t)) t = Some (0, t) \<and> sbrk (brk t) (int (HSIZE * max ?n 4096)) = None"
    then show ?thesis using m T by simp
  next
    assume "\<exists>bp s1 fl1 s'. malloc_loop sbrk ?n (freep t) (nxt t (freep t)) t = Some (bp + HSIZE, s') \<and> free_list base fl1 (heap s1) \<and> takes base fl1 ?n s1 bp s' \<and>
      bytes (set fl1) = bytes (set fl) \<union> {brk t..<brk s1} \<and> brk t \<le> brk s1 \<and> brk s1 \<le> 2 ^ 36 \<and>
      (\<forall>a. a \<notin> insert (brk t) (fst ` set fl) \<longrightarrow> heap s1 a = heap t a)"
    then obtain bp s1 fl1 s' where r: "malloc_loop sbrk ?n (freep t) (nxt t (freep t)) t = Some (bp + HSIZE, s')"
        and s1: "free_list base fl1 (heap s1)" "takes base fl1 ?n s1 bp s'" "bytes (set fl1) = bytes (set fl) \<union> {brk t..<brk s1}" "brk t \<le> brk s1"
        "brk s1 \<le> 2 ^ 36" "\<forall>a. a \<notin> insert (brk t) (fst ` set fl) \<longrightarrow> heap s1 a = heap t a"
      by (elim exE conjE) (rule that)
    note inv = inv_take [OF T(1) fl(1,3,4) s1 nunits_bounds(1)]
    have "{bp + HSIZE..<bp + HSIZE + unat nbytes} \<subseteq> blk (bp, ?n)" using nunits_bounds(2) [of nbytes] by (auto simp: blk_def)
    then show ?thesis using m r inv T(3) by (intro exI [of _ "bp + HSIZE"] exI [of _ s']) simp
  qed
qed

text \<open>
  C13. \<^verbatim>\<open>free\<close> of a block in use always finds its place in the list and returns; the block is then free and merged with the free blocks that touch it, every other
  block in use keeps its place and its header, and no byte is lost.
\<close>
theorem free_correct:
  assumes I: "um_inv base R A s" and b: "(bp, n) \<in> A"
  shows "\<exists>s'. free (bp + HSIZE) s = Some s' \<and> um_inv base R (A - {(bp, n)}) s' \<and> brk s' = brk s"
proof -
  note D = um_invD [OF I]
  have "freep s \<noteq> 0" using D(8) b by blast
  then obtain fl where fl: "free_list base fl (heap s)" "freep s \<in> fst ` set fl" "bytes (set fl) \<inter> bytes A = {}" "bytes (set fl) \<union> bytes A = R"
    using D(7) by blast
  have n: "0 < n" "units s bp = n" using D(5) [OF b] by auto
  have A: "bytes A \<subseteq> {base + HSIZE..<brk s}" "bytes (set fl) \<subseteq> {base + HSIZE..<brk s}" using D(4) fl(4) by blast+
  have A': "bytes A \<subseteq> {base + HSIZE..}" and lt: "{base + HSIZE..<brk s} \<subseteq> {..<brk s}" using A(1) by (rule subset_trans, auto)
  have bp: "bp \<in> {base + HSIZE..<brk s}" using used_elsewhere(1) [OF fl(1,3) A' b n(1)] A(1) by blast
  have B: "blk (bp, n) \<subseteq> {..<brk s}" "bytes (set fl) \<subseteq> {..<brk s}" "blk (bp, n) \<inter> bytes (set fl) = {}" using b A lt fl(3) by blast+
  have lb: "base < bp" using bp by simp
  obtain s' fl' where s': "free (bp + HSIZE) s = Some s'" "free_list base fl' (heap s')" "freep s' \<in> fst ` set fl'"
      "bytes (set fl') = bytes (set fl) \<union> blk (bp, n)" "brk s' = brk s" "\<forall>a. a \<notin> insert bp (fst ` set fl) \<longrightarrow> heap s' a = heap s a"
    using free_run [OF fl(1,2) B(2) lb n B(1,3) D(1,3)] by (elim exE conjE) (rule that)
  have un: "bytes A = blk (bp, n) \<union> bytes (A - {(bp, n)})" using b by blast
  have dis: "blk (bp, n) \<inter> bytes (A - {(bp, n)}) = {}" using D(6) [OF b] by blast
  have "0 < m \<and> units s' a = m" if "(a, m) \<in> A - {(bp, n)}" for a m
  proof -
    have m: "(a, m) \<in> A" "0 < m" "units s a = m" using that D(5) [of a m] by auto
    have "a \<in> blk (a, m)" "bp \<in> blk (bp, n)" using m(2) n(1) by (simp_all add: blk_def)
    then have "a \<noteq> bp" using dis that by blast
    then show ?thesis using m s'(6) used_elsewhere(3) [OF fl(1,3) A' m(1,2)] by simp
  qed
  moreover have "freep s' \<noteq> 0" using base_least [OF s'(2,3)] D(1) by simp
  moreover have "bytes (set fl') \<inter> bytes (A - {(bp, n)}) = {}" using s'(4) fl(3) dis by blast
  moreover have "bytes (set fl') \<union> bytes (A - {(bp, n)}) = R" using s'(4) fl(4) un by blast
  ultimately have "um_inv base R (A - {(bp, n)}) s'" using D(1-4,6) s'(2,3,5) unfolding um_inv_def by auto
  then show ?thesis using s'(1,5) by blast
qed

text \<open>
  C14. A request of \<open>2 ^ 32 - 1\<close> bytes on a fresh allocator: the number of bytes for \<^verbatim>\<open>sbrk\<close> does not fit in its \<^verbatim>\<open>int\<close> argument and becomes 16. When the process gets these,
  \<^verbatim>\<open>malloc\<close> returns a pointer to the very end of the memory of the process as if it were a block of that size.
\<close>
theorem malloc_truncates_request:
  assumes "freep s = 0" "0 < base" "base < brk s" "sbrk (brk s) 16 = Some (brk s + 16)"
  shows "\<exists>s'. malloc sbrk base 0xFFFFFFFF s = Some (brk s', s') \<and> brk s' = brk s + 16"
proof -
  let ?n = "2 ^ 28 + 1 :: nat" and ?t = "init_base base s"
  have n: "nunits 0xFFFFFFFF = ?n" by (simp add: nunits_def)
  have t: "freep ?t = base" "nxt ?t base = base" "units ?t base = 0" "brk ?t = brk s" by (simp_all add: init_base_def set_ptr_def set_size_def)
  let ?u = "set_size (brk s) ?n (?t\<lparr>brk := brk s + 16\<rparr>)"
  have u: "freep ?u = base" "nxt ?u base = base" "units ?u base = 0" "units ?u (brk s) = ?n" "brk ?u = brk s + 16" using t assms(3) by (simp_all add: set_size_def)
  have "free_search ?u (brk s) base = Some base" using u assms(3) by (subst free_search.simps) (simp add: stops_def)
  moreover have f: "free_link (brk s) base ?u = (set_ptr base (brk s) (set_ptr (brk s) base ?u))\<lparr>freep := base\<rparr>"
    using u assms(2,3) by (simp add: free_link_def set_ptr_def)
  ultimately have fr: "free (brk s + HSIZE) ?u = Some ((set_ptr base (brk s) (set_ptr (brk s) base ?u))\<lparr>freep := base\<rparr>)" using u(1) by (simp add: free_def Let_def)
  define v where "v = (set_ptr base (brk s) (set_ptr (brk s) base ?u))\<lparr>freep := base\<rparr>"
  have v: "freep v = base" "nxt v base = brk s" "units v (brk s) = ?n" "brk v = brk s + 16" using u assms(3) by (simp_all add: v_def set_ptr_def)
  have "morecore sbrk ?n ?t = Some (base, v)"
    using fr [folded v_def] assms(4) t(4) v(1) by (simp add: morecore_def to_int32_def Let_def)
  then have "malloc_loop sbrk ?n base base ?t = malloc_loop sbrk ?n base (brk s) v"
    using t v(2) assms(2) by (subst malloc_loop.simps) simp
  also have "\<dots> = Some (cut ?n base (brk s) v)" using v(3) by (subst malloc_loop.simps) simp
  also have "cut ?n base (brk s) v = (brk s + HSIZE, (set_ptr base (nxt v (brk s)) v)\<lparr>freep := base\<rparr>)" using v(3) by (simp add: cut_def)
  finally have "malloc_loop sbrk ?n base base ?t = Some (brk s + HSIZE, (set_ptr base (nxt v (brk s)) v)\<lparr>freep := base\<rparr>)" .
  then show ?thesis using assms(1) t v(4) n by (simp add: malloc_def set_ptr_def)
qed

section \<open>Witnesses\<close>

definition demo_um :: um where
  "demo_um = \<lparr>heap = (\<lambda>_. \<lparr>hptr = 0, hsize = 0\<rparr>), freep = 0, brk = 8192\<rparr>"

definition demo_sbrk :: "nat \<Rightarrow> int \<Rightarrow> nat option" where
  "demo_sbrk b n = (if 0 \<le> n \<and> b + nat n \<le> 2 ^ 27 then Some (b + nat n) else None)"

lemma demo_um_facts: "um_inv 4096 {} {} demo_um" "grants demo_sbrk"
  by (simp_all add: um_inv_def demo_um_def grants_def demo_sbrk_def)

theorem malloc_correct_witness:
  "\<exists>r s'. malloc demo_sbrk 4096 100 demo_um = Some (r, s') \<and> r \<noteq> 0 \<and> um_inv 4096 {8192..<brk s'} {(r - 16, 8)} s'"
proof -
  have n: "nunits 100 = 8" by (simp add: nunits_def)
  have "demo_sbrk 8192 65536 \<noteq> None" "brk demo_um = 8192" by (simp_all add: demo_sbrk_def demo_um_def)
  then show ?thesis using malloc_correct [OF demo_um_facts, of 100] by (force simp: n split: if_splits)
qed

definition demo_used :: um where
  "demo_used = \<lparr>heap = (\<lambda>_. \<lparr>hptr = 0, hsize = 0\<rparr>)(4096 := \<lparr>hptr = 4096, hsize = 0\<rparr>, 8192 := \<lparr>hptr = 0, hsize = 4\<rparr>), freep = 4096, brk = 8256\<rparr>"

theorem free_correct_witness:
  "\<exists>s'. free (8192 + 16) demo_used = Some s' \<and> um_inv 4096 {8192..<8256} {} s'"
proof -
  have "free_list 4096 [(4096, 0)] (heap demo_used)" by (simp add: free_list_def demo_used_def)
  then have "um_inv 4096 {8192..<8256} {(8192, 4)} demo_used"
    by (auto simp: um_inv_def demo_used_def blk_def intro!: exI [of _ "[(4096, 0)]"])
  then show ?thesis using free_correct [of 4096 "{8192..<8256}" "{(8192, 4)}" demo_used 8192 4] by auto
qed

theorem malloc_truncates_request_witness:
  "\<exists>s'. malloc demo_sbrk 4096 0xFFFFFFFF demo_um = Some (8208, s') \<and> brk s' = 8208"
  using malloc_truncates_request [of demo_um 4096 demo_sbrk] by (auto simp: demo_um_def demo_sbrk_def)

end
