(* ===== verification/Ulib.thy ===== *)
theory Ulib
  imports CString Kprintf
begin

text \<open>
  The library of user programs: \<^verbatim>\<open>user/ulib.c\<close> and \<^verbatim>\<open>user/printf.c\<close>. \<^verbatim>\<open>read\<close> from the standard input takes the next byte of a list, \<^verbatim>\<open>write\<close> of
  a character appends it to the output. A string loop that need not stop is an optional result. Plain \<^verbatim>\<open>char\<close> is unsigned on RISC-V; \<^verbatim>\<open>int\<close>
  arithmetic of \<^verbatim>\<open>atoi\<close> wraps around in 32 bits. The loops of \<^verbatim>\<open>memset\<close>, \<^verbatim>\<open>strlen\<close> and \<^verbatim>\<open>memcmp\<close> are those of the kernel's library.

  Shown here: \<^verbatim>\<open>strcpy\<close>, \<^verbatim>\<open>strcmp\<close>, \<^verbatim>\<open>strchr\<close> and \<^verbatim>\<open>gets\<close> on the contents of strings; \<^verbatim>\<open>printint\<close> stays in its buffer, and \<^verbatim>\<open>atoi\<close> reads back what it prints.
\<close>

section \<open>Definitions\<close>

subsection \<open>Strings\<close>

text \<open>\<^verbatim>\<open>while((*s++ = *t++) != 0);\<close>\<close>

partial_function (option) strcpy :: "mem \<Rightarrow> u64 \<Rightarrow> u64 \<Rightarrow> mem option" where
  "strcpy m s t = (if m t = 0 then Some (m(s := m t)) else strcpy (m(s := m t)) (s + 1) (t + 1))"

partial_function (option) strcmp :: "mem \<Rightarrow> u64 \<Rightarrow> u64 \<Rightarrow> int option" where
  "strcmp m p q = (if m p \<noteq> 0 \<and> m p = m q then strcmp m (p + 1) (q + 1) else Some (uint (m p) - uint (m q)))"

partial_function (option) strchr :: "mem \<Rightarrow> u64 \<Rightarrow> u8 \<Rightarrow> u64 option" where
  "strchr m s c = (if m s = 0 then Some 0 else if m s = c then Some s else strchr m (s + 1) c)"

text \<open>The user's \<^verbatim>\<open>memmove\<close> chooses the direction by the order of the two addresses alone; the count is an \<^verbatim>\<open>int\<close>.\<close>

definition umemmove :: "mem \<Rightarrow> u64 \<Rightarrow> u64 \<Rightarrow> int \<Rightarrow> mem" where
  "umemmove m dst src n =
     (if src > dst then copy_forward m dst src (nat n)
      else copy_backward m (dst + of_int n) (src + of_int n) (nat n))"

definition umemcpy :: "mem \<Rightarrow> u64 \<Rightarrow> u64 \<Rightarrow> u32 \<Rightarrow> mem" where
  "umemcpy m dst src n = umemmove m dst src (sint n)"

subsection \<open>Input\<close>

text \<open>\<open>left\<close> is how many more characters the loop of \<^verbatim>\<open>gets\<close> may store; the rest of the input is returned.\<close>

fun gets_loop :: "mem \<Rightarrow> u64 \<Rightarrow> nat \<Rightarrow> u8 list \<Rightarrow> mem \<times> u8 list" where
  "gets_loop m p 0 inp = (m(p := 0), inp)"
| "gets_loop m p (Suc k) [] = (m(p := 0), [])"
| "gets_loop m p (Suc k) (c # inp) =
     (if c = 10 \<or> c = 13 then (m(p := c, p + 1 := 0), inp) else gets_loop (m(p := c)) (p + 1) k inp)"

definition ugets :: "mem \<Rightarrow> u64 \<Rightarrow> int \<Rightarrow> u8 list \<Rightarrow> mem \<times> u8 list" where
  "ugets m buf mx inp = gets_loop m buf (nat (mx - 1)) inp"

partial_function (option) atoi_loop :: "mem \<Rightarrow> u64 \<Rightarrow> u32 \<Rightarrow> u32 option" where
  "atoi_loop m s n = (if 48 \<le> m s \<and> m s \<le> 57 then atoi_loop m (s + 1) (n * 10 + ucast (m s) - 48) else Some n)"

definition atoi :: "mem \<Rightarrow> u64 \<Rightarrow> int option" where
  "atoi m s = map_option sint (atoi_loop m s 0)"

subsection \<open>Output\<close>

definition udigits :: "nat \<Rightarrow> u8" where
  "udigits k = (if k < 10 then of_nat (48 + k) else of_nat (55 + k))"

text \<open>The characters of \<^verbatim>\<open>printint\<close>; more than fit in \<^verbatim>\<open>buf[16]\<close> are undefined behaviour.\<close>

definition uprintint :: "u32 \<Rightarrow> nat \<Rightarrow> bool \<Rightarrow> u8 list result" where
  "uprintint xx base sg =
     (let neg = (sg \<and> sint xx < 0);
          x = (if neg then - xx else xx);
          buf = map udigits (digits_rev base (unat x)) @ (if neg then [45] else [])
      in if length buf > 16 then Inl Undefined else Inr (rev buf))"

definition uprintptr :: "u64 \<Rightarrow> u8 list" where
  "uprintptr x = [48, 120] @ map (\<lambda>i. udigits (unat (drop_bit 60 (push_bit (4 * i) x)))) [0..<16]"

text \<open>\<open>pct\<close> is the state of the loop: whether the last character was a percent sign that starts a directive.\<close>

fun vprintf :: "bool \<Rightarrow> u8 list \<Rightarrow> fmt_arg list \<Rightarrow> u8 list result" where
  "vprintf pct [] args = Inr []"
| "vprintf False (c # cs) args =
     (if c = 37 then vprintf True cs args else andthen (vprintf False cs args) (\<lambda>out. Inr (c # out)))"
| "vprintf True (c # cs) args =
     (let emit = (\<lambda>r as. andthen r (\<lambda>o1. andthen (vprintf False cs as) (\<lambda>o2. Inr (o1 @ o2)))) in
      if c = 100 then (case args of ArgInt x # as \<Rightarrow> emit (uprintint x 10 True) as | _ \<Rightarrow> Inl Undefined)
      else if c = 108 then (case args of ArgPtr x # as \<Rightarrow> emit (uprintint (ucast x) 10 False) as | _ \<Rightarrow> Inl Undefined)
      else if c = 120 then (case args of ArgInt x # as \<Rightarrow> emit (uprintint x 16 False) as | _ \<Rightarrow> Inl Undefined)
      else if c = 112 then (case args of ArgPtr x # as \<Rightarrow> emit (Inr (uprintptr x)) as | _ \<Rightarrow> Inl Undefined)
      else if c = 115 then
        (case args of
           ArgStr str # as \<Rightarrow> emit (Inr (case str of None \<Rightarrow> [40, 110, 117, 108, 108, 41] | Some bs \<Rightarrow> bs)) as
         | _ \<Rightarrow> Inl Undefined)
      else if c = 99 then (case args of ArgInt x # as \<Rightarrow> emit (Inr [ucast x]) as | _ \<Rightarrow> Inl Undefined)
      else if c = 37 then emit (Inr [c]) args
      else emit (Inr [37, c]) args)"

text \<open>\<^verbatim>\<open>printf\<close> and \<^verbatim>\<open>fprintf\<close>: what is written on the file descriptor.\<close>

definition uprintf :: "u8 list \<Rightarrow> fmt_arg list \<Rightarrow> u8 list result" where
  "uprintf fmt args = vprintf False fmt args"

section \<open>Strings\<close>

lemma strcmp_diff: "cstr_at m p xs \<Longrightarrow> cstr_at m q ys \<Longrightarrow> strcmp m p q = Some (str_diff xs ys)"
proof (induction xs ys arbitrary: p q rule: str_diff.induct)
  case (4 x xs y ys)
  then show ?case by (subst strcmp.simps) auto
qed (subst strcmp.simps, auto)+

lemma strchr_first:
  assumes "cstr_at m p xs" "c \<noteq> 0"
  shows "strchr m p c = Some (if c \<in> set xs then p + of_nat (length (takeWhile (\<lambda>x. x \<noteq> c) xs)) else 0)"
  using assms
proof (induction xs arbitrary: p)
  case (Cons x xs) then show ?case by (subst strchr.simps) (auto simp: algebra_simps)
qed (subst strchr.simps, auto)

text \<open>The user's \<^verbatim>\<open>memmove\<close> and that of the kernel, with their different tests, do the same.\<close>

lemma umemmove_memmove:
  assumes "unat n < 2 ^ 31" "unat src + unat n < 2 ^ 64" "unat dst + unat n \<le> 2 ^ 64"
  shows "umemmove m dst src (int (unat n)) = memmove m dst src n"
proof
  fix x
  have u: "unat (a + of_nat i :: u64) = unat a + i" if "unat a + unat n \<le> 2 ^ 64" "i < unat n" for a i
    using that by (simp add: unat_add_u64)
  have eq: "unat dst + j = unat src + i" if "dst + of_nat j = src + of_nat i" "i < unat n" "j < unat n" for i j
    using that u [OF assms(3) that(3)] u [OF less_imp_le [OF assms(2)] that(2)] by auto
  show "umemmove m dst src (int (unat n)) x = memmove m dst src n x"
  proof (cases "src > dst")
    case True
    then have "copy_forward m dst src (unat n) x = (if in_range dst (unat n) x then m (src + (x - dst)) else m x)"
      using eq by (intro copy_forward_apply) (auto simp: word_less_nat_alt dest!: eq)
    then show ?thesis using True memmove_apply [OF assms(2,3), of m x] by (simp add: umemmove_def)
  next
    case False
    then have "copy_backward m (dst + of_nat (unat n)) (src + of_nat (unat n)) (unat n) x = (if in_range dst (unat n) x then m (src + (x - dst)) else m x)"
      by (intro copy_backward_apply) (auto simp: word_less_nat_alt dest!: eq)
    then show ?thesis using False memmove_apply [OF assms(2,3), of m x] by (simp add: umemmove_def)
  qed
qed

text \<open>The string that \<^verbatim>\<open>gets\<close> leaves: the input up to and with its first line end, cut off at the size of the buffer.\<close>

fun first_line :: "u8 list \<Rightarrow> u8 list" where
  "first_line [] = []"
| "first_line (c # cs) = (if c = 10 \<or> c = 13 then [c] else c # first_line cs)"

lemma strcpy_copies:
  assumes "cstr_at m t xs" "length xs < 2 ^ 64" "\<forall>i \<le> length xs. \<forall>j \<le> length xs. s + of_nat i \<noteq> t + of_nat j"
  shows "\<exists>m'. strcpy m s t = Some m' \<and> cstr_at m' s xs \<and> (\<forall>a. \<not> in_range s (Suc (length xs)) a \<longrightarrow> m' a = m a)"
  using assms
proof (induction xs arbitrary: m s t)
  case Nil
  then show ?case by (subst strcpy.simps) (auto simp: in_range_def)
next
  case (Cons x xs)
  let ?m = "m(s := x)"
  have a: "s \<noteq> t + of_nat j" if "j \<le> Suc (length xs)" for j using Cons.prems(3) [rule_format, of 0 j] that by simp
  have A: "cstr_at ?m (t + 1) xs"
  proof (rule cstr_at_upd)
    show "cstr_at m (t + 1) xs" using Cons.prems(1) by simp
    show "s \<noteq> t + 1 + of_nat j" if "j \<le> length xs" for j using a [of "Suc j"] that by (simp add: algebra_simps)
  qed
  have B: "\<forall>i \<le> length xs. \<forall>j \<le> length xs. (s + 1) + of_nat i \<noteq> (t + 1) + of_nat j"
  proof (intro allI impI)
    fix i j assume "i \<le> length xs" "j \<le> length xs"
    then show "(s + 1) + of_nat i \<noteq> (t + 1) + of_nat j" using Cons.prems(3) [rule_format, of "Suc i" "Suc j"] by (simp add: algebra_simps)
  qed
  have l: "length xs < 2 ^ 64" using Cons.prems(2) by simp
  obtain m' where m': "strcpy ?m (s + 1) (t + 1) = Some m'" "cstr_at m' (s + 1) xs" "\<And>a. \<not> in_range (s + 1) (Suc (length xs)) a \<Longrightarrow> m' a = ?m a"
    using Cons.IH [OF A l B] by blast
  have r: "in_range s (Suc (Suc (length xs))) a \<longleftrightarrow> a = s \<or> in_range (s + 1) (Suc (length xs)) a" for a
    using Cons.prems(2) by (intro in_range_Suc) simp
  have "\<not> in_range (s + 1) (Suc (length xs)) s" using Cons.prems(2) by (simp add: in_range_def unsigned_minus_1_eq_mask mask_eq_exp_minus_1)
  then have "cstr_at m' s (x # xs)" using m' Cons.prems(1) by auto
  then show ?case using m' Cons.prems(1) r by (subst strcpy.simps) auto
qed

section \<open>Input and output\<close>

text \<open>\<^verbatim>\<open>gets\<close> writes the line and its terminator, and nothing beyond.\<close>

lemma gets_loop_spec:
  assumes "k < 2 ^ 64 - 1"
  shows "bytes_at (fst (gets_loop m p k inp)) p (length (take k (first_line inp))) = take k (first_line inp) \<and>
    fst (gets_loop m p k inp) (p + of_nat (length (take k (first_line inp)))) = 0 \<and>
    snd (gets_loop m p k inp) = drop (length (take k (first_line inp))) inp \<and>
    (\<forall>a. \<not> in_range p (Suc k) a \<longrightarrow> fst (gets_loop m p k inp) a = m a)"
  using assms
proof (induction k arbitrary: m p inp)
  case 0 then show ?case by (auto simp: in_range_def)
next
  case (Suc k)
  show ?case
  proof (cases inp)
    case Nil then show ?thesis by (auto simp: in_range_def)
  next
    case (Cons c cs)
    have r: "in_range p (Suc (Suc k)) a \<longleftrightarrow> a = p \<or> in_range (p + 1) (Suc k) a" for a using Suc.prems by (intro in_range_Suc) simp
    show ?thesis
    proof (cases "c = 10 \<or> c = 13")
      case True
      have "in_range (p + 1) (Suc k) (p + 1)" by (simp add: in_range_def)
      then show ?thesis using True Cons r by auto
    next
      case False
      have o: "\<not> in_range (p + 1) (Suc k) p" using Suc.prems by (simp add: in_range_def unsigned_minus_1_eq_mask mask_eq_exp_minus_1)
      define n where "n = m(p := c)"
      define g where "g = gets_loop n (p + 1) k cs"
      have g: "bytes_at (fst g) (p + 1) (length (take k (first_line cs))) = take k (first_line cs)" "fst g (p + 1 + of_nat (length (take k (first_line cs)))) = 0"
        "snd g = drop (length (take k (first_line cs))) cs" "\<And>a. \<not> in_range (p + 1) (Suc k) a \<Longrightarrow> fst g a = n a"
        unfolding g_def using Suc.IH [of n "p + 1" cs] Suc.prems by auto
      have e: "gets_loop m p (Suc k) inp = g" using False Cons by (simp add: g_def n_def)
      show ?thesis unfolding e using g g(4) [OF o] False Cons r by (auto simp: algebra_simps n_def)
    qed
  qed
qed

lemma digits_rev_digits: "1 < base \<Longrightarrow> \<forall>d \<in> set (digits_rev base x). d < base"
  by (induction base x rule: digits_rev.induct) (subst digits_rev.simps, auto)

lemma digits_rev_value: "1 < base \<Longrightarrow> foldr (\<lambda>d n. n * base + d) (digits_rev base x) 0 = x"
  by (induction base x rule: digits_rev.induct) (subst digits_rev.simps, auto)

lemma digits_rev_length: "1 < base \<Longrightarrow> 0 < k \<Longrightarrow> x < base ^ k \<Longrightarrow> length (digits_rev base x) \<le> k"
proof (induction base x arbitrary: k rule: digits_rev.induct)
  case (1 base x)
  show ?case
  proof (cases "x < base")
    case True then show ?thesis using 1 by (subst digits_rev.simps) simp
  next
    case False
    then obtain j where k: "k = Suc j" "0 < j" using 1 by (cases k; cases "k - 1") auto
    then have "x div base < base ^ j" using 1 by (simp add: less_mult_imp_div_less mult.commute)
    then show ?thesis using 1 False k by (subst digits_rev.simps) auto
  qed
qed

text \<open>\<^verbatim>\<open>printint\<close> never writes beyond its buffer of sixteen characters.\<close>

lemma uprintint_fits:
  assumes "base \<in> {10, 16}"
  shows "\<exists>cs. uprintint xx base sg = Inr cs \<and> length cs \<le> 11"
proof -
  have l: "length (digits_rev base (unat x)) \<le> 10" for x :: u32
  proof (rule digits_rev_length)
    have "unat x < 2 ^ 32" using unsigned_less [of x, where 'a = nat] by simp
    also have "2 ^ 32 \<le> base ^ 10" using assms by auto
    finally show "unat x < base ^ 10" .
  qed (use assms in auto)
  show ?thesis unfolding uprintint_def Let_def using l [of xx] l [of "- xx"] by auto
qed

text \<open>Reading decimal digits.\<close>

lemma atoi_digits:
  assumes "cstr_at m p (map udigits ds)" "\<forall>d \<in> set ds. d < 10"
  shows "atoi_loop m p n = Some (foldl (\<lambda>n d. n * 10 + of_nat d) n ds)"
  using assms
proof (induction ds arbitrary: p n)
  case (Cons d ds)
  have d: "m p = of_nat (48 + d)" "d < 10" using Cons.prems by (auto simp: udigits_def)
  have u: "unat (of_nat (48 + d) :: u8) = 48 + d" unfolding unat_of_nat using d(2) by simp
  have "48 \<le> m p" "m p \<le> 57" unfolding d(1) word_le_nat_alt u using d(2) by simp_all
  moreover have "(ucast (m p) :: u32) = of_nat (48 + d)" unfolding d(1)
    using d(2) unfolding word_unat_eq_iff unsigned_ucast_eq u unat_of_nat by (simp add: take_bit_nat_eq_self)
  ultimately show ?case using Cons by (subst atoi_loop.simps) (auto simp: algebra_simps)
qed (subst atoi_loop.simps, simp)

lemma fold_digits_word: "foldl (\<lambda>n d. n * 10 + of_nat d) (0 :: u32) (rev ds) = of_nat (foldr (\<lambda>d n. n * 10 + d) ds 0)"
  by (induction ds) simp_all

section \<open>Properties\<close>

text \<open>
  C31. \<^verbatim>\<open>atoi\<close> reads back what \<^verbatim>\<open>printf("%d")\<close> prints: for every \<^verbatim>\<open>int\<close> the output stays in the buffer of \<^verbatim>\<open>printint\<close>, and \<^verbatim>\<open>atoi\<close> on it returns the number,
  down to the largest ones; the output for a negative number, whose sign \<^verbatim>\<open>atoi\<close> does not know, reads as zero.
\<close>
theorem printf_atoi_roundtrip:
  "\<exists>cs. uprintf [37, 100] [ArgInt n] = Inr cs \<and> (\<forall>m p. cstr_at m p cs \<longrightarrow> atoi m p = Some (if 0 \<le> sint n then sint n else 0))"
proof -
  obtain cs where cs: "uprintint n 10 True = Inr cs" using uprintint_fits [of 10 n True] by auto
  have "uprintf [37, 100] [ArgInt n] = Inr cs" by (simp add: uprintf_def cs)
  moreover have "atoi m p = Some (if 0 \<le> sint n then sint n else 0)" if s: "cstr_at m p cs" for m p
  proof (cases "0 \<le> sint n")
    case True
    let ?ds = "rev (digits_rev 10 (unat n))"
    have c: "cs = map udigits ?ds" using cs True by (auto simp: uprintint_def Let_def rev_map split: if_splits)
    have d: "\<forall>d \<in> set ?ds. d < 10" using digits_rev_digits [of 10 "unat n"] by simp
    have "foldl (\<lambda>n d. n * 10 + of_nat d) (0 :: u32) ?ds = of_nat (foldr (\<lambda>d n. n * 10 + d) (digits_rev 10 (unat n)) 0)"
      by (rule fold_digits_word)
    also have "\<dots> = n" by (simp add: digits_rev_value)
    finally show ?thesis using atoi_digits [OF s [unfolded c] d, of 0] True by (simp add: atoi_def)
  next
    case False
    then have "\<exists>ds. cs = 45 # ds" using cs by (auto simp: uprintint_def Let_def split: if_splits)
    then have "m p = 45" using s by auto
    then show ?thesis using False by (subst atoi_def, subst atoi_loop.simps) simp
  qed
  ultimately show ?thesis by blast
qed

definition demo_text :: mem where
  "demo_text = (\<lambda>_. 0)(100 := 52, 101 := 50)"

theorem printf_atoi_roundtrip_witness: "cstr_at demo_text 100 [52, 50] \<and> atoi demo_text 100 = Some 42"
proof -
  have "digits_rev 10 42 = [2, 4]" by (simp add: digits_rev.simps)
  then have "uprintf [37, 100] [ArgInt 42] = Inr [52, 50]" by (simp add: uprintf_def uprintint_def udigits_def)
  moreover have "cstr_at demo_text 100 [52, 50]" by (simp add: demo_text_def)
  ultimately show ?thesis using printf_atoi_roundtrip [of 42] by auto
qed

text \<open>The directive \<^verbatim>\<open>%l\<close> for 64-bit numbers prints their low 32 bits.\<close>

lemma printf_l_truncates: "uprintf [37, 108] [ArgPtr (x + 2 ^ 32)] = uprintf [37, 108] [ArgPtr x]"
proof -
  have "(ucast (x + 2 ^ 32) :: u32) = ucast x"
    unfolding word_unat_eq_iff unsigned_ucast_eq unat_word_ariths by (simp add: take_bit_eq_mod mod_mod_cancel)
  then show ?thesis by (simp add: uprintf_def)
qed

end
