(* ===== verification/Sh.thy ===== *)
theory Sh
  imports Xv6_Prelude
begin

text \<open>
  The parser of the shell, \<^verbatim>\<open>user/sh.c\<close>. A command line is the list of the characters of the C string; pointers into it are indices, and an
  access at its end reads the terminating zero. Arguments and file names are pairs of a start and an end index, as \<^verbatim>\<open>argv\<close> and \<^verbatim>\<open>eargv\<close>
  are, until \<^verbatim>\<open>nulterminate\<close> writes zeros into the line. \<^verbatim>\<open>panic\<close> ends the process: it is a failure of the parser.
\<close>

section \<open>Definitions\<close>

abbreviation (input) MAXARGS :: nat where "MAXARGS \<equiv> 10"

abbreviation (input) O_RDONLY :: u32 where "O_RDONLY \<equiv> 0x000"
abbreviation (input) O_WRONLY :: u32 where "O_WRONLY \<equiv> 0x001"
abbreviation (input) O_CREATE :: u32 where "O_CREATE \<equiv> 0x200"
abbreviation (input) O_TRUNC :: u32 where "O_TRUNC \<equiv> 0x400"

type_synonym token = "nat \<times> nat"

datatype 't command =
    EXEC "'t list"
  | REDIR "'t command" 't u32 nat
  | PIPE "'t command" "'t command"
  | LIST "'t command" "'t command"
  | BACK "'t command"

type_synonym cmd = "token command"

datatype parse_fault = SyntaxError string | NoFuel

type_synonym 'a parse = "parse_fault + 'a"

definition char_at :: "string \<Rightarrow> nat \<Rightarrow> char" where
  "char_at line i = (if i < length line then line ! i else CHR 0x00)"

definition whitespace :: string where
  "whitespace = [CHR '' '', CHR 0x09, CHR 0x0D, CHR 0x0A, CHR 0x0B]"

definition symbols :: string where
  "symbols = ''<|>&;()''"

text \<open>\<^verbatim>\<open>while(s < es && strchr(whitespace, *s)) s++;\<close> and the loop over a word\<close>

function skip_while :: "(char \<Rightarrow> bool) \<Rightarrow> string \<Rightarrow> nat \<Rightarrow> nat" where
  "skip_while P line s = (if s < length line \<and> P (line ! s) then skip_while P line (Suc s) else s)"
  by pat_completeness auto
termination
  by (relation "measure (\<lambda>(P, line, s). length line - s)") auto

declare skip_while.simps [simp del]

definition skip_space :: "string \<Rightarrow> nat \<Rightarrow> nat" where
  "skip_space = skip_while (\<lambda>c. c \<in> set whitespace)"

definition skip_word :: "string \<Rightarrow> nat \<Rightarrow> nat" where
  "skip_word = skip_while (\<lambda>c. c \<notin> set whitespace \<and> c \<notin> set symbols)"

text \<open>It returns the kind of the token, its start and end, and the new position.\<close>

definition gettoken :: "string \<Rightarrow> nat \<Rightarrow> char \<times> nat \<times> nat \<times> nat" where
  "gettoken line ps =
     (let q = skip_space line ps;
          c = char_at line q;
          (ret, eq) =
            (if c = CHR 0x00 then (c, q)
             else if c \<in> set ''|();&<'' then (c, q + 1)
             else if c = CHR ''>'' then
               (if char_at line (q + 1) = CHR ''>'' then (CHR ''+'', q + 2) else (c, q + 1))
             else (CHR ''a'', skip_word line q))
      in (ret, q, eq, skip_space line eq))"

definition peek :: "string \<Rightarrow> nat \<Rightarrow> string \<Rightarrow> bool \<times> nat" where
  "peek line ps toks =
     (let s = skip_space line ps; c = char_at line s in (c \<noteq> CHR 0x00 \<and> c \<in> set toks, s))"

subsection \<open>Progress of the scanner\<close>

lemma skip_while_ge: "s \<le> skip_while P line s"
proof (induction P line s rule: skip_while.induct)
  case (1 P line s)
  show ?case
  proof (cases "s < length line \<and> P (line ! s)")
    case True then show ?thesis using 1 [OF True] by (simp add: skip_while.simps [of P line s])
  qed (auto simp: skip_while.simps [of P line s])
qed

lemma skip_while_le: "s \<le> length line \<Longrightarrow> skip_while P line s \<le> length line"
proof (induction P line s rule: skip_while.induct)
  case (1 P line s)
  show ?case
  proof (cases "s < length line \<and> P (line ! s)")
    case True then show ?thesis using "1.IH" [OF True] by (simp add: skip_while.simps [of P line s])
  qed (auto simp: skip_while.simps [of P line s] "1.prems")
qed

lemma skip_while_all: "s \<le> i \<Longrightarrow> i < skip_while P line s \<Longrightarrow> P (line ! i)"
proof (induction P line s rule: skip_while.induct)
  case (1 P line s)
  show ?case
  proof (cases "s < length line \<and> P (line ! s)")
    case True
    show ?thesis
    proof (cases "i = s")
      case False then show ?thesis using "1.IH" [OF True] "1.prems" True by (simp add: skip_while.simps [of P line s])
    qed (use True in simp)
  next
    case False then show ?thesis using "1.prems" by (simp add: skip_while.simps [of P line s] split: if_splits)
  qed
qed

lemma skip_while_stop: "skip_while P line s < length line \<Longrightarrow> \<not> P (line ! skip_while P line s)"
proof (induction P line s rule: skip_while.induct)
  case (1 P line s)
  show ?case
  proof (cases "s < length line \<and> P (line ! s)")
    case True then show ?thesis using "1.IH" [OF True] "1.prems" by (simp add: skip_while.simps [of P line s])
  next
    case False then show ?thesis using "1.prems" by (auto simp: skip_while.simps [of P line s] split: if_splits)
  qed
qed

lemma skip_while_first: "s < length line \<Longrightarrow> P (line ! s) \<Longrightarrow> s < skip_while P line s"
  using skip_while_ge [of "Suc s" P line] by (simp add: skip_while.simps [of P line s])

lemmas skip_space_facts = skip_while_ge [of _ "\<lambda>c. c \<in> set whitespace", folded skip_space_def]
  skip_while_le [of _ _ "\<lambda>c. c \<in> set whitespace", folded skip_space_def]

definition ordinary :: "char \<Rightarrow> bool" where
  "ordinary c \<longleftrightarrow> c \<notin> set whitespace \<and> c \<notin> set symbols"

text \<open>A token that \<^verbatim>\<open>gettoken\<close> returned with kind \<^verbatim>\<open>'a'\<close>: a maximal word of the line.\<close>

definition token_ok :: "string \<Rightarrow> token \<Rightarrow> bool" where
  "token_ok line t \<longleftrightarrow>
     (case t of (q, eq) \<Rightarrow>
        q < eq \<and> eq \<le> length line \<and> (\<forall>i \<in> {q..<eq}. ordinary (line ! i)) \<and>
        (eq < length line \<longrightarrow> \<not> ordinary (line ! eq)))"

lemma char_at_nonzero: "char_at line i \<noteq> CHR 0x00 \<Longrightarrow> i < length line"
  by (auto simp: char_at_def split: if_splits)

lemma skip_space_stop: "skip_space line s < length line \<Longrightarrow> line ! skip_space line s \<notin> set whitespace"
  unfolding skip_space_def by (rule skip_while_stop)

lemma skip_word_token:
  assumes "q < length line" "ordinary (line ! q)"
  shows "token_ok line (q, skip_word line q)"
proof -
  let ?P = "\<lambda>c. c \<notin> set whitespace \<and> c \<notin> set symbols"
  have "q < skip_while ?P line q" using assms by (intro skip_while_first) (auto simp: ordinary_def)
  moreover have "skip_while ?P line q \<le> length line" using assms by (intro skip_while_le) simp
  ultimately show ?thesis using skip_while_all [of q _ ?P line] skip_while_stop [of ?P line q]
    by (auto simp: token_ok_def skip_word_def ordinary_def)
qed

lemma gettoken_word:
  assumes "gettoken line s = (CHR ''a'', q, eq, s')"
  shows "token_ok line (q, eq)" "s' = skip_space line eq"
proof -
  let ?q = "skip_space line s"
  have c: "char_at line ?q \<noteq> CHR 0x00" "char_at line ?q \<notin> set ''|();&<>''" "q = ?q" "eq = skip_word line ?q"
    "s' = skip_space line eq"
    using assms by (auto simp: gettoken_def Let_def split: if_splits)
  have l: "?q < length line" using c(1) by (rule char_at_nonzero)
  have "ordinary (line ! ?q)"
    using c(2) l skip_space_stop [OF l] by (simp add: ordinary_def symbols_def char_at_def)
  then show "token_ok line (q, eq)" "s' = skip_space line eq" using l c by (simp_all add: skip_word_token)
qed

lemma gettoken_bounds:
  assumes "gettoken line s = (tok, q, eq, s')" "s \<le> length line"
  shows "s \<le> s'" "s' \<le> length line" "tok \<noteq> CHR 0x00 \<Longrightarrow> s < s'"
proof -
  let ?q = "skip_space line s"
  have q: "s \<le> ?q" "?q \<le> length line" using skip_space_facts assms(2) by auto
  have s': "s' = skip_space line eq" using assms(1) by (auto simp: gettoken_def Let_def split: if_splits)
  have e: "?q \<le> eq \<and> eq \<le> length line \<and> (tok \<noteq> CHR 0x00 \<longrightarrow> ?q < eq)"
  proof (cases "tok = CHR ''a''")
    case True
    have "q = ?q" using assms(1) by (auto simp: gettoken_def Let_def split: if_splits)
    then show ?thesis using gettoken_word(1) assms(1) True by (fastforce simp: token_ok_def)
  next
    case False
    then show ?thesis using assms(1) q char_at_nonzero [of line ?q] char_at_nonzero [of line "?q + 1"]
      by (auto simp: gettoken_def Let_def Suc_le_eq split: if_splits)
  qed
  then show "s \<le> s'" "s' \<le> length line" "tok \<noteq> CHR 0x00 \<Longrightarrow> s < s'"
    using s' q skip_space_facts(1) [of eq line] skip_space_facts(2) [of eq line] by linarith+
qed

lemma peek_bounds:
  assumes "peek line s toks = (b, s')" "s \<le> length line"
  shows "s \<le> s'" "s' \<le> length line"
  using assms skip_space_facts by (auto simp: peek_def Let_def)

lemma peek_found: "peek line s toks = (True, s') \<Longrightarrow> s' < length line \<and> line ! s' \<in> set toks \<and> line ! s' \<notin> set whitespace"
  using skip_space_stop by (auto simp: peek_def Let_def char_at_def split: if_splits)

text \<open>a token of a kind that \<^verbatim>\<open>peek\<close> has seen is not the end of the line\<close>

lemma skip_space_id: "s < length line \<Longrightarrow> line ! s \<notin> set whitespace \<Longrightarrow> skip_space line s = s"
  by (simp add: skip_space_def skip_while.simps)

lemma gettoken_after_peek:
  assumes "peek line s toks = (True, s1)" "gettoken line s1 = (tok, q, eq, s2)"
  shows "tok \<noteq> CHR 0x00"
  using assms(2) peek_found [OF assms(1)] assms(1)
  by (auto simp: gettoken_def Let_def skip_space_id peek_def char_at_def split: if_splits)

text \<open>
  The parsers pass the position \<^verbatim>\<open>*ps\<close> on and return the new one beside the command.
\<close>

definition parse_bind :: "'a parse \<Rightarrow> ('a \<Rightarrow> 'b parse) \<Rightarrow> 'b parse" where
  "parse_bind p f = (case p of Inl e \<Rightarrow> Inl e | Inr x \<Rightarrow> f x)"

definition redirect :: "char \<Rightarrow> cmd \<Rightarrow> token \<Rightarrow> cmd" where
  "redirect tok c t =
     (if tok = CHR ''<'' then REDIR c t O_RDONLY 0
      else if tok = CHR ''>'' then REDIR c t (O_WRONLY OR O_CREATE OR O_TRUNC) 1
      else if tok = CHR ''+'' then REDIR c t (O_WRONLY OR O_CREATE) 1
      else c)"

function parseredirs :: "string \<Rightarrow> cmd \<Rightarrow> nat \<Rightarrow> (cmd \<times> nat) parse" where
  "parseredirs line c s =
     (case peek line s ''<>'' of (found, s1) \<Rightarrow>
        if \<not> found then Inr (c, s1)
        else (case gettoken line s1 of (tok, _, _, s2) \<Rightarrow>
          (case gettoken line s2 of (tok2, q, eq, s3) \<Rightarrow>
             if tok2 \<noteq> CHR ''a'' then Inl (SyntaxError ''missing file for redirection'')
             else parseredirs line (redirect tok c (q, eq)) s3)))"
  by pat_completeness auto
termination
proof (relation "measure (\<lambda>(line, c, s). length line - s)", goal_cases)
  case (2 line c s found s1 tok y q1 z e1 s2 tok2 y' q z' eq s3)
  have p: "peek line s ''<>'' = (True, s1)" using 2 by simp
  have s1: "s \<le> s1" "s1 < length line"
    using peek_found [OF p] p skip_space_facts(1) [of s line] by (auto simp: peek_def Let_def)
  have s2: "s1 < s2" "s2 \<le> length line"
    using gettoken_bounds [of line s1 tok q1 e1 s2] gettoken_after_peek [OF p, of tok q1 e1 s2] s1 2 by auto
  have "s2 \<le> s3" "s3 \<le> length line" using gettoken_bounds [of line s2 tok2 q eq s3] s2 2 by auto
  then show ?case using s1 s2 by simp
qed simp

declare parseredirs.simps [simp del]

text \<open>
  \<^verbatim>\<open>cmd->argv[argc] = q\<close> in \<^verbatim>\<open>parseexec\<close>: the \<^verbatim>\<open>execcmd\<close> it allocated stays reachable below the redirections that have been wrapped around it.
\<close>

primrec add_arg :: "'t \<Rightarrow> 't command \<Rightarrow> 't command" where
  "add_arg t (EXEC ts) = EXEC (ts @ [t])"
| "add_arg t (REDIR c f m fd) = REDIR (add_arg t c) f m fd"
| "add_arg t (PIPE l r) = PIPE l r"
| "add_arg t (LIST l r) = LIST l r"
| "add_arg t (BACK c) = BACK c"

function parseexec_args :: "string \<Rightarrow> cmd \<Rightarrow> nat \<Rightarrow> nat \<Rightarrow> (cmd \<times> nat) parse" where
  "parseexec_args line c argc s =
     (case peek line s ''|)&;'' of (found, s1) \<Rightarrow>
        if found then Inr (c, s1)
        else (case gettoken line s1 of (tok, q, eq, s2) \<Rightarrow>
          if tok = CHR 0x00 then Inr (c, s2)
          else if tok \<noteq> CHR ''a'' then Inl (SyntaxError ''syntax'')
          else if argc + 1 \<ge> MAXARGS then Inl (SyntaxError ''too many args'')
          else parse_bind (parseredirs line (add_arg (q, eq) c) s2)
            (\<lambda>(c', s3). parseexec_args line c' (argc + 1) s3)))"
  by pat_completeness auto
termination
  by (relation "measure (\<lambda>(line, c, argc, s). MAXARGS - argc)") auto

declare parseexec_args.simps [simp del]

text \<open>\<^verbatim>\<open>while(peek(ps, es, "&")){ gettoken(ps, es, 0, 0); cmd = backcmd(cmd); }\<close>\<close>

function parse_backs :: "string \<Rightarrow> cmd \<Rightarrow> nat \<Rightarrow> cmd \<times> nat" where
  "parse_backs line c s =
     (case peek line s ''&'' of (found, s1) \<Rightarrow>
        if \<not> found then (c, s1)
        else (case gettoken line s1 of (_, _, _, s2) \<Rightarrow> parse_backs line (BACK c) s2))"
  by pat_completeness auto
termination
proof (relation "measure (\<lambda>(line, c, s). length line - s)", goal_cases)
  case (2 line c s found s1 tok y q z e s2)
  have p: "peek line s ''&'' = (True, s1)" using 2 by simp
  have s1: "s \<le> s1" "s1 < length line"
    using peek_found [OF p] p skip_space_facts(1) [of s line] by (auto simp: peek_def Let_def)
  have "s1 < s2" "s2 \<le> length line"
    using gettoken_bounds [of line s1 tok q e s2] gettoken_after_peek [OF p, of tok q e s2] s1 2 by auto
  then show ?case using s1 by simp
qed simp

declare parse_backs.simps [simp del]

text \<open>
  The four parsers call each other; the fuel bounds the depth of the calls and \<open>parsecmd\<close> passes enough for any line.
\<close>

fun parseline :: "nat \<Rightarrow> string \<Rightarrow> nat \<Rightarrow> (cmd \<times> nat) parse"
and parsepipe :: "nat \<Rightarrow> string \<Rightarrow> nat \<Rightarrow> (cmd \<times> nat) parse"
and parseblock :: "nat \<Rightarrow> string \<Rightarrow> nat \<Rightarrow> (cmd \<times> nat) parse"
and parseexec :: "nat \<Rightarrow> string \<Rightarrow> nat \<Rightarrow> (cmd \<times> nat) parse" where
  "parseline 0 line s = Inl NoFuel"
| "parseline (Suc n) line s =
     parse_bind (parsepipe n line s) (\<lambda>(c, s1).
       (case parse_backs line c s1 of (c', s2) \<Rightarrow>
         (case peek line s2 '';'' of (found, s3) \<Rightarrow>
            if \<not> found then Inr (c', s3)
            else (case gettoken line s3 of (_, _, _, s4) \<Rightarrow>
              parse_bind (parseline n line s4) (\<lambda>(r, s5). Inr (LIST c' r, s5))))))"
| "parsepipe 0 line s = Inl NoFuel"
| "parsepipe (Suc n) line s =
     parse_bind (parseexec n line s) (\<lambda>(c, s1).
       (case peek line s1 ''|'' of (found, s2) \<Rightarrow>
          if \<not> found then Inr (c, s2)
          else (case gettoken line s2 of (_, _, _, s3) \<Rightarrow>
            parse_bind (parsepipe n line s3) (\<lambda>(r, s4). Inr (PIPE c r, s4)))))"
| "parseblock 0 line s = Inl NoFuel"
| "parseblock (Suc n) line s =
     (case peek line s ''('' of (found, s1) \<Rightarrow>
        if \<not> found then Inl (SyntaxError ''parseblock'')
        else (case gettoken line s1 of (_, _, _, s2) \<Rightarrow>
          parse_bind (parseline n line s2) (\<lambda>(c, s3).
            (case peek line s3 '')'' of (closed, s4) \<Rightarrow>
               if \<not> closed then Inl (SyntaxError ''syntax - missing )'')
               else (case gettoken line s4 of (_, _, _, s5) \<Rightarrow> parseredirs line c s5)))))"
| "parseexec 0 line s = Inl NoFuel"
| "parseexec (Suc n) line s =
     (case peek line s ''('' of (found, s1) \<Rightarrow>
        if found then parseblock n line s1
        else parse_bind (parseredirs line (EXEC []) s1) (\<lambda>(c, s2). parseexec_args line c 0 s2))"

definition parse_fuel :: "string \<Rightarrow> nat" where
  "parse_fuel line = 4 * length line + 4"

text \<open>\<^verbatim>\<open>nulterminate\<close> writes a zero at the end of every counted string of the command.\<close>

definition put_zero :: "token \<Rightarrow> string \<Rightarrow> string" where
  "put_zero t buf = buf[snd t := CHR 0x00]"

primrec nulterminate :: "cmd \<Rightarrow> string \<Rightarrow> string" where
  "nulterminate (EXEC ts) buf = fold put_zero ts buf"
| "nulterminate (REDIR c f m fd) buf = put_zero f (nulterminate c buf)"
| "nulterminate (PIPE l r) buf = nulterminate r (nulterminate l buf)"
| "nulterminate (LIST l r) buf = nulterminate r (nulterminate l buf)"
| "nulterminate (BACK c) buf = nulterminate c buf"

text \<open>The argument is the zero-terminated buffer; the result is the command and the buffer as \<^verbatim>\<open>nulterminate\<close> leaves it.\<close>

definition parsecmd :: "string \<Rightarrow> (cmd \<times> string) parse" where
  "parsecmd buf =
     (let line = takeWhile (\<lambda>c. c \<noteq> CHR 0x00) buf in
      parse_bind (parseline (parse_fuel line) line 0) (\<lambda>(c, s).
        (case peek line s [] of (_, s1) \<Rightarrow>
           if s1 \<noteq> length line then Inl (SyntaxError ''syntax'') else Inr (c, nulterminate c buf))))"

section \<open>Well-formed commands\<close>

text \<open>
  What the parser promises of a command: every token is a word of the line and an \<^verbatim>\<open>execcmd\<close> has room for the null pointer behind its arguments.
\<close>

primrec cmd_ok :: "string \<Rightarrow> cmd \<Rightarrow> bool" where
  "cmd_ok line (EXEC ts) \<longleftrightarrow> length ts < MAXARGS \<and> list_all (token_ok line) ts"
| "cmd_ok line (REDIR c f m fd) \<longleftrightarrow> cmd_ok line c \<and> token_ok line f"
| "cmd_ok line (PIPE l r) \<longleftrightarrow> cmd_ok line l \<and> cmd_ok line r"
| "cmd_ok line (LIST l r) \<longleftrightarrow> cmd_ok line l \<and> cmd_ok line r"
| "cmd_ok line (BACK c) \<longleftrightarrow> cmd_ok line c"

primrec cmd_tokens :: "'t command \<Rightarrow> 't list" where
  "cmd_tokens (EXEC ts) = ts"
| "cmd_tokens (REDIR c f m fd) = cmd_tokens c @ [f]"
| "cmd_tokens (PIPE l r) = cmd_tokens l @ cmd_tokens r"
| "cmd_tokens (LIST l r) = cmd_tokens l @ cmd_tokens r"
| "cmd_tokens (BACK c) = cmd_tokens c"

primrec argc_of :: "'t command \<Rightarrow> nat" where
  "argc_of (EXEC ts) = length ts"
| "argc_of (REDIR c f m fd) = argc_of c"
| "argc_of (PIPE l r) = 0"
| "argc_of (LIST l r) = 0"
| "argc_of (BACK c) = 0"

lemma add_arg_ok:
  "cmd_ok line c \<Longrightarrow> token_ok line t \<Longrightarrow> argc_of c + 1 < MAXARGS \<Longrightarrow> cmd_ok line (add_arg t c)"
  "argc_of (add_arg t c) \<le> argc_of c + 1"
  by (induction c) auto

lemma redirect_ok [simp]:
  "cmd_ok line c \<Longrightarrow> token_ok line t \<Longrightarrow> cmd_ok line (redirect tok c t)" "argc_of (redirect tok c t) = argc_of c"
  by (auto simp: redirect_def)

definition good :: "string \<Rightarrow> nat \<Rightarrow> (cmd \<times> nat) parse \<Rightarrow> bool" where
  "good line s p \<longleftrightarrow>
     (case p of Inl e \<Rightarrow> e \<noteq> NoFuel
      | Inr (c, s') \<Rightarrow> s \<le> s' \<and> s' \<le> length line \<and> cmd_ok line c)"

lemma good_simps [simp]:
  "good line s (Inl e) \<longleftrightarrow> e \<noteq> NoFuel"
  "good line s (Inr (c, s')) \<longleftrightarrow> s \<le> s' \<and> s' \<le> length line \<and> cmd_ok line c"
  by (simp_all add: good_def)

lemma good_bind:
  assumes "good line s p" "\<And>c s1. p = Inr (c, s1) \<Longrightarrow> s \<le> s1 \<Longrightarrow> s1 \<le> length line \<Longrightarrow> cmd_ok line c \<Longrightarrow> good line s (f (c, s1))"
  shows "good line s (parse_bind p f)"
  using assms by (auto simp: parse_bind_def split: sum.splits)

lemma good_mono: "good line s' p \<Longrightarrow> s \<le> s' \<Longrightarrow> good line s p"
  by (auto simp: good_def split: sum.splits)

lemma peek_gettoken:
  assumes "peek line s toks = (True, s1)" "gettoken line s1 = (tok, q, eq, s2)" "s \<le> length line"
  shows "s < s2 \<and> s2 \<le> length line"
  using gettoken_bounds [OF assms(2)] gettoken_after_peek [OF assms(1,2)] peek_bounds [OF assms(1,3)] by auto

lemma parseredirs_good:
  "cmd_ok line c \<Longrightarrow> s \<le> length line \<Longrightarrow>
   good line s (parseredirs line c s) \<and> (\<forall>c' s'. parseredirs line c s = Inr (c', s') \<longrightarrow> argc_of c' = argc_of c)"
proof (induction line c s rule: parseredirs.induct)
  case (1 line c s)
  obtain found s1 where p: "peek line s ''<>'' = (found, s1)" by fastforce
  obtain tok q1 e1 s2 where g1: "gettoken line s1 = (tok, q1, e1, s2)" by (cases "gettoken line s1")
  obtain tok2 q eq s3 where g2: "gettoken line s2 = (tok2, q, eq, s3)" by (cases "gettoken line s2")
  show ?case
  proof (cases "found \<and> tok2 = CHR ''a''")
    case True
    have s2: "s < s2" "s2 \<le> length line" using peek_gettoken [of line s _ s1] p g1 True "1.prems"(2) by auto
    have t: "token_ok line (q, eq)" "s2 \<le> s3" "s3 \<le> length line"
      using gettoken_word(1) gettoken_bounds(1,2) [OF g2] g2 True s2 by auto
    have ih: "good line s3 (parseredirs line (redirect tok c (q, eq)) s3) \<and>
      (\<forall>c' s'. parseredirs line (redirect tok c (q, eq)) s3 = Inr (c', s') \<longrightarrow> argc_of c' = argc_of (redirect tok c (q, eq)))"
      using "1.IH" [OF p [symmetric] _ g1 [symmetric] refl refl g2 [symmetric] refl refl] True "1.prems"(1) t by auto
    then show ?thesis using True p g1 g2 good_mono s2 t
      by (auto simp: parseredirs.simps [of line c s] intro: good_mono)
  next
    case False
    then show ?thesis using p g1 g2 "1.prems" peek_bounds [OF p]
      by (auto simp: parseredirs.simps [of line c s])
  qed
qed

lemma parseexec_args_good:
  "cmd_ok line c \<Longrightarrow> s \<le> length line \<Longrightarrow> argc_of c \<le> argc \<Longrightarrow> good line s (parseexec_args line c argc s)"
proof (induction line c argc s rule: parseexec_args.induct)
  case (1 line c argc s)
  obtain found s1 where p: "peek line s ''|)&;'' = (found, s1)" by fastforce
  obtain tok q eq s2 where g: "gettoken line s1 = (tok, q, eq, s2)" by (cases "gettoken line s1")
  have s1: "s \<le> s1" "s1 \<le> length line" using peek_bounds [OF p "1.prems"(2)] .
  have s2: "s1 \<le> s2" "s2 \<le> length line" using gettoken_bounds(1,2) [OF g s1(2)] .
  show ?case
  proof (cases "\<not> found \<and> tok = CHR ''a'' \<and> \<not> argc + 1 \<ge> MAXARGS")
    case True
    have t: "token_ok line (q, eq)" using gettoken_word(1) g True by blast
    have c: "cmd_ok line (add_arg (q, eq) c)" using add_arg_ok(1) [OF "1.prems"(1) t] "1.prems"(3) True by linarith
    have "good line s (parse_bind (parseredirs line (add_arg (q, eq) c) s2) (\<lambda>(c', s3). parseexec_args line c' (argc + 1) s3))"
    proof (rule good_bind)
      show "good line s (parseredirs line (add_arg (q, eq) c) s2)"
        using parseredirs_good [OF c s2(2)] s1 s2 by (auto intro: good_mono)
      fix c' s3 assume r: "parseredirs line (add_arg (q, eq) c) s2 = Inr (c', s3)" "s \<le> s3" "s3 \<le> length line" "cmd_ok line c'"
      have "argc_of c' \<le> argc + 1"
        using parseredirs_good [OF c s2(2)] r(1) add_arg_ok(2) [of "(q, eq)" c] "1.prems"(3) by auto
      then have "good line s3 (parseexec_args line c' (argc + 1) s3)"
        using "1.IH" [OF p [symmetric] _ g [symmetric] refl refl, of c' s3] True r by auto
      then show "good line s (case (c', s3) of (c', s3) \<Rightarrow> parseexec_args line c' (argc + 1) s3)"
        using r(2) by (auto intro: good_mono)
    qed
    then show ?thesis using True p g by (simp add: parseexec_args.simps [of line c argc s])
  next
    case False
    then show ?thesis using p g s1 s2 "1.prems"(1) by (auto simp: parseexec_args.simps [of line c argc s])
  qed
qed

lemma parse_backs_good:
  "cmd_ok line c \<Longrightarrow> s \<le> length line \<Longrightarrow> parse_backs line c s = (c', s') \<Longrightarrow> s \<le> s' \<and> s' \<le> length line \<and> cmd_ok line c'"
proof (induction line c s rule: parse_backs.induct)
  case (1 line c s)
  obtain found s1 where p: "peek line s ''&'' = (found, s1)" by fastforce
  obtain tok q eq s2 where g: "gettoken line s1 = (tok, q, eq, s2)" by (cases "gettoken line s1")
  show ?case
  proof (cases found)
    case True
    have s2: "s < s2" "s2 \<le> length line" using peek_gettoken [of line s _ s1] p g True "1.prems"(2) by auto
    have "s2 \<le> s' \<and> s' \<le> length line \<and> cmd_ok line c'"
      using "1.IH" [OF p [symmetric] _ g [symmetric] refl refl] True "1.prems" p g s2
      by (auto simp: parse_backs.simps [of line c s])
    then show ?thesis using s2 by simp
  next
    case False
    then show ?thesis using p g "1.prems" peek_bounds [OF p] by (auto simp: parse_backs.simps [of line c s])
  qed
qed

text \<open>
  The parsers with enough fuel: each level of parsing consumes a character after at most four calls.
\<close>

lemma peek_then_gettoken:
  assumes "peek line s toks = (found, s1)" "s \<le> length line"
    and "\<not> found \<Longrightarrow> s \<le> s1 \<Longrightarrow> s1 \<le> length line \<Longrightarrow> good line s0 A"
    and "\<And>s2. found \<Longrightarrow> s < s2 \<Longrightarrow> s2 \<le> length line \<Longrightarrow> good line s0 (B s2)"
  shows "good line s0 (if \<not> found then A else (case gettoken line s1 of (_, _, _, s2) \<Rightarrow> B s2))"
proof (cases found)
  case True
  obtain tok q eq s2 where g: "gettoken line s1 = (tok, q, eq, s2)" by (cases "gettoken line s1")
  then show ?thesis using assms(4) peek_gettoken [of line s toks s1] assms(1,2) True by auto
qed (use assms(1-3) peek_bounds in auto)

lemma parse_good:
  "4 * (length line - s) + 3 \<le> n \<Longrightarrow> s \<le> length line \<Longrightarrow> good line s (parseline n line s)"
  "4 * (length line - s) + 2 \<le> n \<Longrightarrow> s \<le> length line \<Longrightarrow> good line s (parsepipe n line s)"
  "4 * (length line - s) \<le> n \<Longrightarrow> s < length line \<Longrightarrow> good line s (parseblock n line s)"
  "4 * (length line - s) + 1 \<le> n \<Longrightarrow> s \<le> length line \<Longrightarrow> good line s (parseexec n line s)"
proof (induction n arbitrary: s)
  case (Suc n)
  {
    case 1
    show ?case unfolding parseline.simps
    proof (rule good_bind, goal_cases)
      case 1 show ?case using Suc.IH(2) "1.prems" by simp
    next
      case c: (2 c s1)
      obtain c' s2 where b: "parse_backs line c s1 = (c', s2)" by fastforce
      have b': "s1 \<le> s2" "s2 \<le> length line" "cmd_ok line c'" using parse_backs_good [OF c(4,3) b] by auto
      obtain found s3 where p: "peek line s2 '';'' = (found, s3)" by fastforce
      show ?case unfolding prod.case b p
      proof (rule peek_then_gettoken [OF p b'(2)], goal_cases)
        case 1 then show ?case using b' c by simp
      next
        case r: (2 s4)
        have "good line s (parseline n line s4)" using Suc.IH(1) [of s4] "1.prems" r b' c good_mono by fastforce
        then show ?case using b'(3) by (intro good_bind) auto
      qed
    qed
  next
    case 2
    show ?case unfolding parsepipe.simps
    proof (rule good_bind, goal_cases)
      case 1 show ?case using Suc.IH(4) "2.prems" by simp
    next
      case c: (2 c s1)
      obtain found s2 where p: "peek line s1 ''|'' = (found, s2)" by fastforce
      show ?case unfolding prod.case p
      proof (rule peek_then_gettoken [OF p c(3)], goal_cases)
        case 1 then show ?case using c by simp
      next
        case r: (2 s3)
        have "good line s (parsepipe n line s3)" using Suc.IH(2) [of s3] "2.prems" r c good_mono by fastforce
        then show ?case using c by (intro good_bind) auto
      qed
    qed
  next
    case 3
    obtain found s1 where p: "peek line s ''('' = (found, s1)" by fastforce
    have sl: "s \<le> length line" using "3.prems" by simp
    show ?case unfolding parseblock.simps p prod.case
    proof (rule peek_then_gettoken [OF p sl], goal_cases)
      case r: (2 s2)
      show ?case
      proof (rule good_bind, goal_cases)
        case 1 show ?case using Suc.IH(1) [of s2] "3.prems" r good_mono by fastforce
      next
        case c: (2 c s3)
        obtain closed s4 where p': "peek line s3 '')'' = (closed, s4)" by fastforce
        show ?case unfolding prod.case p'
        proof (rule peek_then_gettoken [OF p' c(3)], goal_cases)
          case r': (2 s5)
          then show ?case using parseredirs_good [OF c(4), of s5] c good_mono by fastforce
        qed simp
      qed
    qed simp
  next
    case 4
    obtain found s1 where p: "peek line s ''('' = (found, s1)" by fastforce
    have s1: "s \<le> s1" "s1 \<le> length line" using peek_bounds [OF p] "4.prems" by auto
    show ?case
    proof (cases found)
      case True
      have "good line s1 (parseblock n line s1)" using Suc.IH(3) [of s1] peek_found p True "4.prems" s1 by auto
      then show ?thesis using p True s1 by (auto intro: good_mono)
    next
      case False
      have "good line s (parse_bind (parseredirs line (EXEC []) s1) (\<lambda>(c, s2). parseexec_args line c 0 s2))"
      proof (rule good_bind, goal_cases)
        case 1 show ?case using parseredirs_good [of line "EXEC []" s1] s1 by (auto intro: good_mono)
      next
        case c: (2 c s2)
        have "argc_of c = 0" using parseredirs_good [of line "EXEC []" s1] s1 c(1) by auto
        then show ?case using parseexec_args_good [OF c(4,3)] c(2) by (auto intro: good_mono)
      qed
      then show ?thesis using p False by simp
    qed
  }
qed auto

section \<open>Terminated strings\<close>

lemma fold_put_zero_nth:
  "length (fold put_zero ts buf) = length buf"
  "i < length buf \<Longrightarrow> fold put_zero ts buf ! i = (if i \<in> snd ` set ts then CHR 0x00 else buf ! i)"
  by (induction ts arbitrary: buf) (auto simp: put_zero_def nth_list_update)

lemma nulterminate_eq_fold: "nulterminate c buf = fold put_zero (cmd_tokens c) buf"
  by (induction c arbitrary: buf) auto

lemma cmd_ok_tokens: "cmd_ok line c \<Longrightarrow> t \<in> set (cmd_tokens c) \<Longrightarrow> token_ok line t"
  by (induction c) (auto simp: list_all_iff)

text \<open>No other token ends inside a token, so the zeros that are written leave it whole.\<close>

lemma token_ends_outside:
  assumes "token_ok line (q, eq)" "token_ok line (q', eq')" "q \<le> eq'"
  shows "eq \<le> eq'"
  using assms by (fastforce simp: token_ok_def)

lemma length_until_zero: "x \<in> set xs \<Longrightarrow> length (takeWhile (\<lambda>c. c \<noteq> x) xs) < length xs"
  by (induction xs) auto

lemma nulterminate_string:
  fixes buf defines "line \<equiv> takeWhile (\<lambda>c. c \<noteq> CHR 0x00) buf"
  assumes z: "CHR 0x00 \<in> set buf" and c: "cmd_ok line c" and t: "(q, eq) \<in> set (cmd_tokens c)"
  shows "takeWhile (\<lambda>c. c \<noteq> CHR 0x00) (drop q (nulterminate c buf)) = take (eq - q) (drop q buf)"
proof -
  let ?b = "nulterminate c buf" and ?P = "\<lambda>c. c \<noteq> CHR 0x00"
  have ok: "token_ok line (q, eq)" using cmd_ok_tokens [OF c t] .
  then have q: "q < eq" "eq \<le> length line" by (auto simp: token_ok_def)
  have ll: "length line < length buf" unfolding line_def using z by (rule length_until_zero)
  have nth: "?b ! i = (if i \<in> snd ` set (cmd_tokens c) then CHR 0x00 else buf ! i)" if "i < length buf" for i
    using that by (simp add: nulterminate_eq_fold fold_put_zero_nth)
  have len: "length ?b = length buf" by (simp add: nulterminate_eq_fold fold_put_zero_nth)
  have inside: "?b ! i = buf ! i \<and> buf ! i \<noteq> CHR 0x00" if i: "q \<le> i" "i < eq" for i
  proof -
    have "i \<notin> snd ` set (cmd_tokens c)" using token_ends_outside [OF ok] cmd_ok_tokens [OF c] i by fastforce
    moreover have "buf ! i \<noteq> CHR 0x00"
      using i q nth_mem [of i line] takeWhile_nth [of i ?P buf] by (auto simp: line_def dest!: set_takeWhileD)
    ultimately show ?thesis using nth i q ll by simp
  qed
  have "drop q ?b = take (eq - q) (drop q ?b) @ drop eq ?b" using q by (metis append_take_drop_id drop_drop le_add_diff_inverse2 less_imp_le)
  moreover have "take (eq - q) (drop q ?b) = take (eq - q) (drop q buf)"
    using inside len q ll by (intro nth_equalityI) auto
  moreover have "\<forall>x \<in> set (take (eq - q) (drop q buf)). ?P x" using inside q ll by (auto simp: in_set_conv_nth)
  moreover have "drop eq ?b = CHR 0x00 # drop (Suc eq) ?b"
    using nth [of eq] t q ll len by (subst Cons_nth_drop_Suc [symmetric]) (auto simp: image_iff intro!: bexI [of _ "(q, eq)"])
  ultimately show ?thesis by (simp add: takeWhile_append)
qed

lemma parsecmd_good:
  assumes "parsecmd buf = Inr (c, buf')"
  shows "cmd_ok (takeWhile (\<lambda>c. c \<noteq> CHR 0x00) buf) c" "buf' = nulterminate c buf"
proof -
  let ?line = "takeWhile (\<lambda>c. c \<noteq> CHR 0x00) buf"
  have "good ?line 0 (parseline (parse_fuel ?line) ?line 0)" by (rule parse_good(1)) (simp_all add: parse_fuel_def)
  then show "cmd_ok ?line c" "buf' = nulterminate c buf"
    using assms by (auto simp: parsecmd_def Let_def parse_bind_def good_def split: sum.splits prod.splits if_splits)
qed

section \<open>Properties\<close>

text \<open>
  C37. The shell's parser terminates on every line: the fuel \<^verbatim>\<open>parsecmd\<close> is given, four calls for each character, never runs out, so a
  line is either parsed or rejected with one of the parser's own syntax errors.
\<close>
theorem parsecmd_terminates:
  "(\<exists>c buf'. parsecmd buf = Inr (c, buf')) \<or> (\<exists>e. parsecmd buf = Inl (SyntaxError e))"
proof -
  let ?line = "takeWhile (\<lambda>c. c \<noteq> CHR 0x00) buf"
  have "good ?line 0 (parseline (parse_fuel ?line) ?line 0)" by (rule parse_good(1)) (simp_all add: parse_fuel_def)
  then have "parsecmd buf \<noteq> Inl NoFuel"
    by (auto simp: parsecmd_def Let_def parse_bind_def good_def split: sum.splits prod.splits)
  then show ?thesis by (cases "parsecmd buf") (auto intro: parse_fault.exhaust)
qed

text \<open>
  C36. Of a parsed command, every argument and file name is a maximal word of the line without white space or symbols, an \<^verbatim>\<open>execcmd\<close> has
  fewer than \<^verbatim>\<open>MAXARGS\<close> arguments (so the null pointer behind them is inside \<^verbatim>\<open>argv\<close>), and after \<^verbatim>\<open>nulterminate\<close> the C string at
  each token's start is exactly the token: no zero written for one token cuts another.
\<close>
theorem parsecmd_strings:
  assumes "CHR 0x00 \<in> set buf" "parsecmd buf = Inr (c, buf')"
  shows "cmd_ok (takeWhile (\<lambda>c. c \<noteq> CHR 0x00) buf) c \<and> length buf' = length buf \<and>
    list_all (\<lambda>(q, eq). takeWhile (\<lambda>c. c \<noteq> CHR 0x00) (drop q buf') = take (eq - q) (drop q buf)) (cmd_tokens c)"
  using parsecmd_good [OF assms(2)] nulterminate_string [OF assms(1)]
  by (auto simp: list_all_iff nulterminate_eq_fold fold_put_zero_nth)

definition demo_line :: string where
  "demo_line = ''ls -l>f | (wc;x)&'' @ [CHR 0x0A, CHR 0x00]"

lemma demo_line_parsed:
  "parsecmd demo_line = Inr (BACK (PIPE (REDIR (EXEC [(0, 2), (3, 5)]) (6, 7) 1537 1) (LIST (EXEC [(11, 13)]) (EXEC [(14, 15)]))),
     demo_line[2 := CHR 0x00, 5 := CHR 0x00, 7 := CHR 0x00, 13 := CHR 0x00, 15 := CHR 0x00])"
  by code_simp

lemma parsecmd_strings_witness:
  "\<exists>c buf'. parsecmd demo_line = Inr (c, buf') \<and> cmd_tokens c = [(0, 2), (3, 5), (6, 7), (11, 13), (14, 15)] \<and>
     list_all (\<lambda>(q, eq). takeWhile (\<lambda>c. c \<noteq> CHR 0x00) (drop q buf') = take (eq - q) (drop q demo_line)) (cmd_tokens c)"
proof -
  have "CHR 0x00 \<in> set demo_line" by (simp add: demo_line_def)
  from parsecmd_strings [OF this demo_line_parsed] show ?thesis using demo_line_parsed by auto
qed

end
