(* ===== verification/Sh_Print.thy ===== *)
theory Sh_Print
  imports Sh
begin

section \<open>Printing\<close>

text \<open>
  Commands over strings instead of tokens, and their text. A command is printed at the level of the parser that is to read it
  (\<^verbatim>\<open>parseline\<close> 0, its operands 1, \<^verbatim>\<open>parsepipe\<close> 2, \<^verbatim>\<open>parseexec\<close> 3) and put in parentheses where that parser would not read it.
\<close>

definition word_ok :: "string \<Rightarrow> bool" where
  "word_ok w \<longleftrightarrow> w \<noteq> [] \<and> list_all (\<lambda>c. ordinary c \<and> c \<noteq> CHR 0x00) w"

definition redir_text :: "u32 \<Rightarrow> nat \<Rightarrow> string" where
  "redir_text m fd = (if fd = 0 then ''<'' else if m = O_WRONLY OR O_CREATE OR O_TRUNC then ''>'' else ''>>'')"

primrec printable :: "string command \<Rightarrow> bool" where
  "printable (EXEC ws) \<longleftrightarrow> length ws < MAXARGS \<and> list_all word_ok ws"
| "printable (REDIR c f m fd) \<longleftrightarrow> printable c \<and> word_ok f \<and>
     (m, fd) \<in> {(O_RDONLY, 0), (O_WRONLY OR O_CREATE OR O_TRUNC, 1), (O_WRONLY OR O_CREATE, 1)}"
| "printable (PIPE l r) \<longleftrightarrow> printable l \<and> printable r"
| "printable (LIST l r) \<longleftrightarrow> printable l \<and> printable r"
| "printable (BACK c) \<longleftrightarrow> printable c"

definition parens :: "bool \<Rightarrow> string \<Rightarrow> string" where
  "parens b t = (if b then ''( '' @ t @ '') '' else t)"

primrec print_cmd :: "nat \<Rightarrow> string command \<Rightarrow> string" where
  "print_cmd p (EXEC ws) = concat (map (\<lambda>w. w @ '' '') ws)"
| "print_cmd p (REDIR c f m fd) = print_cmd 3 c @ redir_text m fd @ '' '' @ f @ '' ''"
| "print_cmd p (PIPE l r) = parens (p > 2) (print_cmd 3 l @ ''| '' @ print_cmd 2 r)"
| "print_cmd p (BACK c) = parens (p > 1) (print_cmd 1 c @ ''& '')"
| "print_cmd p (LIST l r) = parens (p > 0) (print_cmd 1 l @ ''; '' @ print_cmd 0 r)"

definition tok_text :: "string \<Rightarrow> token \<Rightarrow> string" where
  "tok_text line t = (case t of (q, eq) \<Rightarrow> take (eq - q) (drop q line))"

text \<open>What is left of the line at a position, and that it does not begin with white space or a zero\<close>

definition rest_at :: "string \<Rightarrow> nat \<Rightarrow> string \<Rightarrow> bool" where
  "rest_at line s r \<longleftrightarrow> (\<exists>pre. line = pre @ r \<and> length pre = s)"

definition starts :: "string \<Rightarrow> string \<Rightarrow> bool" where
  "starts toks r \<longleftrightarrow> r = [] \<or> hd r \<in> set toks"

definition clean :: "string \<Rightarrow> bool" where
  "clean r \<longleftrightarrow> r = [] \<or> hd r \<notin> set whitespace"

lemma rest_at_advance:
  assumes "rest_at line s (t @ r)"
  shows "rest_at line (s + length t) r"
proof -
  obtain pre where "line = pre @ t @ r" "length pre = s" using assms by (auto simp: rest_at_def)
  then show ?thesis unfolding rest_at_def by (intro exI [of _ "pre @ t"]) simp
qed

lemma rest_at_cons: "rest_at line s (c # r) \<Longrightarrow> s < length line \<and> line ! s = c \<and> rest_at line (Suc s) r"
  using rest_at_advance [of line s "[c]" r] by (auto simp: rest_at_def nth_append)

lemma rest_at_nil: "rest_at line s [] \<Longrightarrow> s = length line"
  by (auto simp: rest_at_def)

lemma rest_at_char: "rest_at line s r \<Longrightarrow> char_at line s = (if r = [] then CHR 0x00 else hd r)"
  using rest_at_cons rest_at_nil by (cases r) (auto simp: char_at_def)

lemma rest_skip_space:
  assumes "rest_at line s r" "clean r"
  shows "skip_space line s = s"
proof (cases r)
  case Nil
  then show ?thesis using rest_at_nil assms(1) by (simp add: skip_space_def skip_while.simps [of _ line s])
next
  case (Cons c t)
  then show ?thesis using rest_at_cons [of line s c t] assms by (intro skip_space_id) (auto simp: clean_def)
qed

lemma rest_skip_blank: "rest_at line s ('' '' @ r) \<Longrightarrow> clean r \<Longrightarrow> skip_space line s = Suc s"
  using rest_at_cons [of line s "CHR '' ''" r] rest_skip_space [of line "Suc s" r]
  by (simp add: skip_space_def skip_while.simps [of _ line s] whitespace_def)

lemma rest_peek: "rest_at line s r \<Longrightarrow> clean r \<Longrightarrow>
  peek line s toks = (r \<noteq> [] \<and> hd r \<noteq> CHR 0x00 \<and> hd r \<in> set toks, s)"
  by (auto simp: peek_def Let_def rest_skip_space rest_at_char)

lemma rest_gettoken_symbol:
  assumes "rest_at line s (c # '' '' @ r)" "c \<in> set ''|();&<>''" "clean r"
  shows "gettoken line s = (c, s, s + 1, s + 2)"
proof -
  have 1: "rest_at line (Suc s) ('' '' @ r)" "line ! s = c" "s < length line" using rest_at_cons assms(1) by auto
  have 2: "skip_space line (Suc s) = Suc (Suc s)" using rest_skip_blank [OF 1(1) assms(3)] .
  have 3: "skip_space line s = s" using assms(2) 1 by (intro rest_skip_space [OF assms(1)]) (auto simp: clean_def whitespace_def)
  have 4: "char_at line (s + 1) = CHR '' ''" using rest_at_char [OF 1(1)] by simp
  show ?thesis using assms(2) 1 2 3 4 by (auto simp: gettoken_def char_at_def)
qed

lemma rest_gettoken_append:
  assumes "rest_at line s (''>> '' @ r)" "clean r"
  shows "gettoken line s = (CHR ''+'', s, s + 2, s + 3)"
proof -
  have 1: "rest_at line (Suc s) (''> '' @ r)" "line ! s = CHR ''>''" "s < length line" using rest_at_cons assms(1) by auto
  have 2: "rest_at line (Suc (Suc s)) ('' '' @ r)" using rest_at_cons 1(1) by auto
  have 3: "skip_space line s = s" using 1 by (intro rest_skip_space [OF assms(1)]) (auto simp: clean_def whitespace_def)
  show ?thesis using rest_skip_blank [OF 2 assms(2)] rest_at_char [OF 1(1)] 1 3 by (auto simp: gettoken_def char_at_def numeral_3_eq_3)
qed

lemma skip_word_rest: "rest_at line s (w @ '' '' @ r) \<Longrightarrow> list_all ordinary w \<Longrightarrow> skip_word line s = s + length w"
proof (induction w arbitrary: s)
  case Nil
  then show ?case using rest_at_cons [of line s "CHR '' ''" r]
    by (simp add: skip_word_def skip_while.simps [of _ line s] whitespace_def)
next
  case (Cons c w)
  have "line ! s = c" "s < length line" "rest_at line (Suc s) (w @ '' '' @ r)" using rest_at_cons Cons.prems(1) by auto
  then show ?case using Cons.IH [of "Suc s"] Cons.prems(2)
    by (simp add: skip_word_def skip_while.simps [of _ line s] ordinary_def)
qed

lemma rest_gettoken_word:
  assumes "rest_at line s (w @ '' '' @ r)" "word_ok w" "clean r"
  shows "gettoken line s = (CHR ''a'', s, s + length w, s + length w + 1)" "tok_text line (s, s + length w) = w"
proof -
  obtain c v where w: "w = c # v" "ordinary c" "c \<noteq> CHR 0x00" using assms(2) by (cases w) (auto simp: word_ok_def)
  have 1: "line ! s = c" "s < length line" using rest_at_cons assms(1) w(1) by auto
  have 2: "skip_space line s = s" using w by (intro rest_skip_space [OF assms(1)]) (auto simp: clean_def ordinary_def)
  have 3: "skip_word line s = s + length w" using assms(1,2) by (intro skip_word_rest) (auto simp: word_ok_def list_all_iff)
  have 4: "skip_space line (s + length w) = Suc (s + length w)" using rest_skip_blank [OF rest_at_advance [OF assms(1)] assms(3)] .
  show "gettoken line s = (CHR ''a'', s, s + length w, s + length w + 1)"
    using 1 2 3 4 w(2,3) by (auto simp: gettoken_def char_at_def ordinary_def symbols_def)
  show "tok_text line (s, s + length w) = w" using assms(1) by (auto simp: tok_text_def rest_at_def)
qed

section \<open>The parsers on printed text\<close>

text \<open>
  The loops of the parser go on after the text they are given: what the parsers return is stated by the loop that is still to run there.
\<close>

primrec simple :: "'t command \<Rightarrow> bool" where
  "simple (EXEC ts) \<longleftrightarrow> True"
| "simple (REDIR c f m fd) \<longleftrightarrow> simple c"
| "simple (PIPE l r) \<longleftrightarrow> False"
| "simple (LIST l r) \<longleftrightarrow> False"
| "simple (BACK c) \<longleftrightarrow> False"

lemma map_command_shape [simp]: "simple (map_command f c) = simple c" "argc_of (map_command f c) = argc_of c"
  by (induction c) auto

definition exec_cont :: "string \<Rightarrow> cmd \<Rightarrow> nat \<Rightarrow> (cmd \<times> nat) parse" where
  "exec_cont line c s =
     (if simple c then parse_bind (parseredirs line c s) (\<lambda>(c', s'). parseexec_args line c' (argc_of c) s')
      else parseredirs line c s)"

lemma starts_clean: "starts toks r \<Longrightarrow> set toks \<subseteq> set ''<>|)&;(''  \<Longrightarrow> clean r \<and> (r \<noteq> [] \<longrightarrow> hd r \<noteq> CHR 0x00)"
  by (auto simp: starts_def clean_def whitespace_def)

lemma parseredirs_stop: "rest_at line s r \<Longrightarrow> clean r \<Longrightarrow> r = [] \<or> hd r \<notin> set ''<>'' \<Longrightarrow> parseredirs line c s = Inr (c, s)"
  by (auto simp: parseredirs.simps [of line c s] rest_peek)

lemma parse_backs_stop: "rest_at line s r \<Longrightarrow> clean r \<Longrightarrow> r = [] \<or> hd r \<noteq> CHR ''&'' \<Longrightarrow> parse_backs line c s = (c, s)"
  by (auto simp: parse_backs.simps [of line c s] rest_peek)

lemma parseexec_args_stop:
  assumes "rest_at line s r" "starts ''|)&;'' r"
  shows "parseexec_args line c argc s = Inr (c, s)"
proof (cases r)
  case Nil
  then have "gettoken line s = (CHR 0x00, s, s, s)"
    using assms(1) rest_skip_space [of line s r] rest_at_char [of line s r] by (auto simp: gettoken_def clean_def)
  then show ?thesis using Nil rest_peek [OF assms(1)] by (simp add: parseexec_args.simps [of line c argc s] clean_def)
next
  case (Cons x t)
  then show ?thesis using rest_peek [OF assms(1)] starts_clean [OF assms(2)] assms(2)
    by (auto simp: parseexec_args.simps [of line c argc s] starts_def)
qed

lemma exec_cont_stop:
  assumes "rest_at line s r" "starts ''|)&;'' r"
  shows "exec_cont line c s = Inr (c, s)"
proof -
  have "parseredirs line c s = Inr (c, s)"
    using starts_clean [OF assms(2)] assms(2) by (intro parseredirs_stop [OF assms(1)]) (auto simp: starts_def)
  then show ?thesis using parseexec_args_stop [OF assms] by (simp add: exec_cont_def parse_bind_def)
qed

text \<open>What each parser does with a text that a command is printed as\<close>

definition reads3 :: "string \<Rightarrow> string command \<Rightarrow> bool" where
  "reads3 T c \<longleftrightarrow> (\<forall>line s post n.
     rest_at line s (T @ post) \<longrightarrow> starts ''<>|)&;'' post \<longrightarrow> 4 * (length line - s) + 1 \<le> n \<longrightarrow>
     (\<exists>c'. map_command (tok_text line) c' = c \<and> parseexec n line s = exec_cont line c' (s + length T)))"

definition reads2 :: "string \<Rightarrow> string command \<Rightarrow> bool" where
  "reads2 T c \<longleftrightarrow> (\<forall>line s post n.
     rest_at line s (T @ post) \<longrightarrow> starts '')&;'' post \<longrightarrow> 4 * (length line - s) + 2 \<le> n \<longrightarrow>
     (\<exists>c'. map_command (tok_text line) c' = c \<and> parsepipe n line s = Inr (c', s + length T)))"

definition reads1 :: "string \<Rightarrow> string command \<Rightarrow> bool" where
  "reads1 T c \<longleftrightarrow> (\<forall>line s post n.
     rest_at line s (T @ post) \<longrightarrow> starts '')&;'' post \<longrightarrow> 4 * (length line - s) + 2 \<le> n \<longrightarrow>
     (\<exists>c' c0 s0. map_command (tok_text line) c' = c \<and> parsepipe n line s = Inr (c0, s0) \<and>
        parse_backs line c0 s0 = parse_backs line c' (s + length T)))"

definition reads0 :: "string \<Rightarrow> string command \<Rightarrow> bool" where
  "reads0 T c \<longleftrightarrow> (\<forall>line s post n.
     rest_at line s (T @ post) \<longrightarrow> starts '')'' post \<longrightarrow> 4 * (length line - s) + 3 \<le> n \<longrightarrow>
     (\<exists>c'. map_command (tok_text line) c' = c \<and> parseline n line s = Inr (c', s + length T)))"

lemma reads3D:
  "reads3 T c \<Longrightarrow> rest_at line s (T @ post) \<Longrightarrow> starts ''<>|)&;'' post \<Longrightarrow> 4 * (length line - s) + 1 \<le> n \<Longrightarrow>
   \<exists>c'. map_command (tok_text line) c' = c \<and> parseexec n line s = exec_cont line c' (s + length T)"
  by (simp add: reads3_def)

lemma reads2D:
  "reads2 T c \<Longrightarrow> rest_at line s (T @ post) \<Longrightarrow> starts '')&;'' post \<Longrightarrow> 4 * (length line - s) + 2 \<le> n \<Longrightarrow>
   \<exists>c'. map_command (tok_text line) c' = c \<and> parsepipe n line s = Inr (c', s + length T)"
  by (simp add: reads2_def)

lemma reads1D:
  "reads1 T c \<Longrightarrow> rest_at line s (T @ post) \<Longrightarrow> starts '')&;'' post \<Longrightarrow> 4 * (length line - s) + 2 \<le> n \<Longrightarrow>
   \<exists>c' c0 s0. map_command (tok_text line) c' = c \<and> parsepipe n line s = Inr (c0, s0) \<and>
     parse_backs line c0 s0 = parse_backs line c' (s + length T)"
  by (simp add: reads1_def)

lemma reads0D:
  "reads0 T c \<Longrightarrow> rest_at line s (T @ post) \<Longrightarrow> starts '')'' post \<Longrightarrow> 4 * (length line - s) + 3 \<le> n \<Longrightarrow>
   \<exists>c'. map_command (tok_text line) c' = c \<and> parseline n line s = Inr (c', s + length T)"
  by (simp add: reads0_def)

lemma starts_mono: "starts toks r \<Longrightarrow> set toks \<subseteq> set toks' \<Longrightarrow> starts toks' r"
  by (auto simp: starts_def)

lemma reads3_reads2:
  assumes "reads3 T c"
  shows "reads2 T c"
  unfolding reads2_def
proof (intro allI impI)
  fix line s post n assume a: "rest_at line s (T @ post)" "starts '')&;'' post" "4 * (length line - s) + 2 \<le> n"
  obtain m where n: "n = Suc m" using a(3) by (cases n) auto
  have post: "rest_at line (s + length T) post" using rest_at_advance a(1) by blast
  obtain c' where c': "map_command (tok_text line) c' = c" "parseexec m line s = exec_cont line c' (s + length T)"
    using reads3D [OF assms a(1) starts_mono [OF a(2)]] a(3) n by auto
  have "parseexec m line s = Inr (c', s + length T)"
    using c'(2) exec_cont_stop [OF post] starts_mono [OF a(2), of "''|)&;''"] by simp
  moreover have "peek line (s + length T) ''|'' = (False, s + length T)"
    using rest_peek [OF post] starts_clean [OF a(2)] a(2) by (auto simp: starts_def)
  ultimately show "\<exists>c'. map_command (tok_text line) c' = c \<and> parsepipe n line s = Inr (c', s + length T)"
    using c'(1) n by (auto simp: parse_bind_def)
qed

lemma reads2_reads1: "reads2 T c \<Longrightarrow> reads1 T c"
  unfolding reads1_def reads2_def by metis

lemma reads1_reads0:
  assumes "reads1 T c"
  shows "reads0 T c"
  unfolding reads0_def
proof (intro allI impI)
  fix line s post n assume a: "rest_at line s (T @ post)" "starts '')'' post" "4 * (length line - s) + 3 \<le> n"
  obtain m where n: "n = Suc m" using a(3) by (cases n) auto
  have post: "rest_at line (s + length T) post" using rest_at_advance a(1) by blast
  have cl: "clean post" using starts_clean [OF a(2)] by simp
  obtain c' c0 s0 where c': "map_command (tok_text line) c' = c" "parsepipe m line s = Inr (c0, s0)"
    "parse_backs line c0 s0 = parse_backs line c' (s + length T)"
    using reads1D [OF assms a(1) starts_mono [OF a(2)], of m] a(3) n by auto
  have b: "parse_backs line c' (s + length T) = (c', s + length T)"
    using a(2) by (intro parse_backs_stop [OF post cl]) (auto simp: starts_def)
  have "peek line (s + length T) '';'' = (False, s + length T)"
    using rest_peek [OF post cl] a(2) by (auto simp: starts_def)
  then show "\<exists>c'. map_command (tok_text line) c' = c \<and> parseline n line s = Inr (c', s + length T)"
    using c' b n by (auto simp: parse_bind_def)
qed

text \<open>a command in parentheses, read by \<^verbatim>\<open>parseblock\<close>\<close>

lemma reads0_reads3:
  assumes "reads0 T c" "\<not> simple c" "clean T"
  shows "reads3 (''( '' @ T @ '') '') c"
  unfolding reads3_def
proof (intro allI impI)
  fix line s post n
  assume a: "rest_at line s ((''( '' @ T @ '') '') @ post)" "starts ''<>|)&;'' post" "4 * (length line - s) + 1 \<le> n"
  have r0: "rest_at line s (CHR ''('' # '' '' @ T @ '') '' @ post)" using a(1) by simp
  have sl: "s < length line" using rest_at_cons [OF r0] by simp
  obtain m where n: "n = Suc (Suc m)" using a(3) sl by (cases n; cases "n - 1") auto
  have cl: "clean (T @ '') '' @ post)" using assms(3) by (cases T) (auto simp: clean_def whitespace_def)
  have r1: "rest_at line (s + 2) (T @ '') '' @ post)" using rest_at_advance [of line s "''( ''"] a(1) by simp
  have p1: "peek line s ''('' = (True, s)" using rest_peek [OF r0] by (auto simp: clean_def whitespace_def)
  have g1: "gettoken line s = (CHR ''('', s, s + 1, s + 2)" using rest_gettoken_symbol [OF r0 _ cl] by simp
  have st: "starts '')'' ('') '' @ post)" by (simp add: starts_def)
  have "4 * (length line - (s + 2)) + 3 \<le> m" using a(3) n sl by linarith
  then obtain c' where c': "map_command (tok_text line) c' = c" "parseline m line (s + 2) = Inr (c', s + 2 + length T)"
    using reads0D [OF assms(1) r1 st] by blast
  have r2: "rest_at line (s + 2 + length T) (CHR '')'' # '' '' @ post)" using rest_at_advance [OF r1] by simp
  have cp: "clean post" using starts_clean [OF a(2)] by simp
  have p2: "peek line (s + 2 + length T) '')'' = (True, s + 2 + length T)"
    using rest_peek [OF r2] by (auto simp: clean_def whitespace_def)
  have g2: "gettoken line (s + 2 + length T) = (CHR '')'', s + 2 + length T, s + 2 + length T + 1, s + 2 + length T + 2)"
    using rest_gettoken_symbol [OF r2 _ cp] by simp
  have "simple c' = simple c" using c'(1) by auto
  then have "parseexec n line s = exec_cont line c' (s + length (''( '' @ T @ '') ''))"
    using n p1 g1 c'(2) p2 g2 assms(2) by (simp add: parse_bind_def exec_cont_def)
  then show "\<exists>c'. map_command (tok_text line) c' = c \<and> parseexec n line s = exec_cont line c' (s + length (''( '' @ T @ '') ''))"
    using c'(1) by blast
qed

lemma word_head:
  assumes "word_ok w"
  shows "clean (w @ r) \<and> hd w \<notin> set symbols \<and> w \<noteq> []"
  using assms by (cases w) (auto simp: word_ok_def clean_def ordinary_def)

lemma clean_words:
  assumes "list_all word_ok ws" "starts ''<>|)&;'' r"
  shows "clean (concat (map (\<lambda>w. w @ '' '') ws) @ r) \<and>
    (ws = [] \<or> hd (concat (map (\<lambda>w. w @ '' '') ws) @ r) \<notin> set symbols)"
proof (cases ws)
  case (Cons w ws')
  then show ?thesis using word_head [of w "'' '' @ concat (map (\<lambda>w. w @ '' '') ws') @ r"] assms(1) by auto
qed (use starts_clean [OF assms(2)] in simp)

lemma exec_cont_words:
  "list_all word_ok ws \<Longrightarrow> rest_at line s (concat (map (\<lambda>w. w @ '' '') ws) @ post) \<Longrightarrow> starts ''<>|)&;'' post \<Longrightarrow>
   length ts + length ws < MAXARGS \<Longrightarrow>
   \<exists>us. map (tok_text line) us = ws \<and>
     exec_cont line (EXEC ts) s = exec_cont line (EXEC (ts @ us)) (s + length (concat (map (\<lambda>w. w @ '' '') ws)))"
proof (induction ws arbitrary: s ts)
  case (Cons w ws)
  let ?r = "concat (map (\<lambda>w. w @ '' '') ws) @ post"
  have w: "word_ok w" using Cons.prems(1) by simp
  have r: "rest_at line s (w @ '' '' @ ?r)" using Cons.prems(2) by simp
  have cl: "clean ?r" using clean_words Cons.prems(1,3) by simp
  note h = word_head [OF w, of "'' '' @ ?r"] and g = rest_gettoken_word [OF r w cl]
  have p1: "parseredirs line (EXEC ts) s = Inr (EXEC ts, s)" using parseredirs_stop [OF r] h by (auto simp: symbols_def)
  have p2: "peek line s ''|)&;'' = (False, s)" using rest_peek [OF r] h by (auto simp: symbols_def)
  let ?t = "(s, s + length w)" and ?s = "s + length w + 1"
  have step: "exec_cont line (EXEC ts) s = exec_cont line (EXEC (ts @ [?t])) ?s"
    using p1 p2 g Cons.prems(4) by (simp add: exec_cont_def parse_bind_def parseexec_args.simps [of line "EXEC ts"])
  have r': "rest_at line ?s ?r" using rest_at_advance [of line s "w @ '' ''"] r by simp
  obtain us where us: "map (tok_text line) us = ws"
    "exec_cont line (EXEC (ts @ [?t])) ?s = exec_cont line (EXEC ((ts @ [?t]) @ us)) (?s + length (concat (map (\<lambda>w. w @ '' '') ws)))"
    using Cons.IH [OF _ r' Cons.prems(3), of "ts @ [?t]"] Cons.prems(1,4) by auto
  show ?case by (rule exI [of _ "?t # us"]) (use us step g(2) in \<open>simp add: add.assoc\<close>)
qed auto

lemma reads3_words:
  assumes "length ws < MAXARGS" "list_all word_ok ws"
  shows "reads3 (concat (map (\<lambda>w. w @ '' '') ws)) (EXEC ws)"
  unfolding reads3_def
proof (intro allI impI)
  let ?T = "concat (map (\<lambda>w. w @ '' '') ws)"
  fix line s post n assume a: "rest_at line s (?T @ post)" "starts ''<>|)&;'' post" "4 * (length line - s) + 1 \<le> n"
  obtain m where n: "n = Suc m" using a(3) by (cases n) auto
  have "peek line s ''('' = (False, s)"
    using rest_peek [OF a(1)] clean_words [OF assms(2) a(2)] a(2) by (auto simp: symbols_def starts_def)
  then have "parseexec n line s = exec_cont line (EXEC []) s" using n by (simp add: exec_cont_def)
  moreover obtain us where "map (tok_text line) us = ws" "exec_cont line (EXEC []) s = exec_cont line (EXEC us) (s + length ?T)"
    using exec_cont_words [OF assms(2) a(1,2), of "[]"] assms(1) by auto
  ultimately show "\<exists>c'. map_command (tok_text line) c' = EXEC ws \<and> parseexec n line s = exec_cont line c' (s + length ?T)"
    by (intro exI [of _ "EXEC us"]) simp
qed

definition redir_ok :: "u32 \<Rightarrow> nat \<Rightarrow> bool" where
  "redir_ok m fd \<longleftrightarrow> (m, fd) \<in> {(O_RDONLY, 0), (O_WRONLY OR O_CREATE OR O_TRUNC, 1), (O_WRONLY OR O_CREATE, 1)}"

lemma parseredirs_step:
  assumes r: "rest_at line s (redir_text m fd @ '' '' @ f @ '' '' @ post)" and f: "word_ok f" and m: "redir_ok m fd" and p: "clean post"
  shows "\<exists>t. tok_text line t = f \<and>
    parseredirs line c s = parseredirs line (REDIR c t m fd) (s + length (redir_text m fd @ '' '' @ f @ '' ''))"
proof -
  let ?T = "redir_text m fd @ '' ''"
  let ?s = "s + length ?T"
  have cl: "clean (f @ '' '' @ post)" using word_head [OF f] by blast
  have r2: "rest_at line ?s (f @ '' '' @ post)" using rest_at_advance [of line s ?T] r by simp
  have pk: "peek line s ''<>'' = (True, s)"
    using rest_peek [OF r] m by (auto simp: redir_text_def redir_ok_def clean_def whitespace_def)
  obtain tok where g1: "fst (gettoken line s) = tok" "snd (snd (snd (gettoken line s))) = ?s" "redirect tok c t = REDIR c t m fd" for c t
  proof -
    consider "redir_text m fd = ''<''" "m = O_RDONLY" "fd = 0" | "redir_text m fd = ''>''" "m = O_WRONLY OR O_CREATE OR O_TRUNC" "fd = 1"
      | "redir_text m fd = ''>>''" "m = O_WRONLY OR O_CREATE" "fd = 1"
      using m by (auto simp: redir_ok_def redir_text_def)
    then show ?thesis
    proof cases
      case 1 then show ?thesis using that [of "CHR ''<''"] rest_gettoken_symbol [of line s "CHR ''<''", OF _ _ cl] r by (simp add: redirect_def)
    next
      case 2 then show ?thesis using that [of "CHR ''>''"] rest_gettoken_symbol [of line s "CHR ''>''", OF _ _ cl] r by (simp add: redirect_def)
    next
      case 3 then show ?thesis using that [of "CHR ''+''"] rest_gettoken_append [of line s, OF _ cl] r by (simp add: redirect_def)
    qed
  qed
  note g2 = rest_gettoken_word [OF r2 f p]
  show ?thesis
    by (rule exI [of _ "(?s, ?s + length f)"])
      (use g1 g2 pk in \<open>auto simp: parseredirs.simps [of line c s] add.assoc split: prod.splits\<close>)
qed

lemma reads3_redir:
  assumes "reads3 T c" "word_ok f" "redir_ok m fd"
  shows "reads3 (T @ redir_text m fd @ '' '' @ f @ '' '') (REDIR c f m fd)"
  unfolding reads3_def
proof (intro allI impI)
  let ?R = "redir_text m fd @ '' '' @ f @ '' ''"
  fix line s post n assume a: "rest_at line s ((T @ ?R) @ post)" "starts ''<>|)&;'' post" "4 * (length line - s) + 1 \<le> n"
  have r: "rest_at line s (T @ redir_text m fd @ '' '' @ f @ '' '' @ post)" using a(1) by simp
  have st: "starts ''<>|)&;'' (redir_text m fd @ '' '' @ f @ '' '' @ post)" by (auto simp: starts_def redir_text_def)
  obtain c' where c': "map_command (tok_text line) c' = c" "parseexec n line s = exec_cont line c' (s + length T)"
    using reads3D [OF assms(1) r st a(3)] by blast
  have "clean post" using starts_clean [OF a(2)] by simp
  then obtain t where t: "tok_text line t = f"
    "parseredirs line c' (s + length T) = parseredirs line (REDIR c' t m fd) (s + length T + length ?R)"
    using parseredirs_step [OF rest_at_advance [OF r] assms(2,3)] by blast
  show "\<exists>c'. map_command (tok_text line) c' = REDIR c f m fd \<and> parseexec n line s = exec_cont line c' (s + length (T @ ?R))"
    by (rule exI [of _ "REDIR c' t m fd"]) (use c' t in \<open>simp add: exec_cont_def add.assoc\<close>)
qed

lemma reads2_pipe:
  assumes "reads3 T l" "reads2 U r" "clean U"
  shows "reads2 (T @ ''| '' @ U) (PIPE l r)"
  unfolding reads2_def
proof (intro allI impI)
  fix line s post n assume a: "rest_at line s ((T @ ''| '' @ U) @ post)" "starts '')&;'' post" "4 * (length line - s) + 2 \<le> n"
  obtain m where n: "n = Suc m" using a(3) by (cases n) auto
  have r: "rest_at line s (T @ CHR ''|'' # '' '' @ U @ post)" using a(1) by simp
  have st: "starts ''<>|)&;'' (CHR ''|'' # '' '' @ U @ post)" "starts ''|)&;'' (CHR ''|'' # '' '' @ U @ post)" by (auto simp: starts_def)
  obtain l' where l': "map_command (tok_text line) l' = l" "parseexec m line s = exec_cont line l' (s + length T)"
    using reads3D [OF assms(1) r st(1), of m] a(3) n by auto
  have r1: "rest_at line (s + length T) (CHR ''|'' # '' '' @ U @ post)" using rest_at_advance [OF r] .
  have cl: "clean (U @ post)" using assms(3) starts_clean [OF a(2)] by (cases U) (auto simp: clean_def)
  have p: "peek line (s + length T) ''|'' = (True, s + length T)" using rest_peek [OF r1] by (auto simp: clean_def whitespace_def)
  have g: "gettoken line (s + length T) = (CHR ''|'', s + length T, s + length T + 1, s + length T + 2)"
    using rest_gettoken_symbol [OF r1 _ cl] by simp
  have r2: "rest_at line (s + length T + 2) (U @ post)" using rest_at_advance [of line "s + length T" "''| ''"] r1 by simp
  have "4 * (length line - (s + length T + 2)) + 2 \<le> m" using a(3) n rest_at_cons [OF r1] by linarith
  then obtain r' where r': "map_command (tok_text line) r' = r" "parsepipe m line (s + length T + 2) = Inr (r', s + length T + 2 + length U)"
    using reads2D [OF assms(2) r2 a(2)] by blast
  show "\<exists>c'. map_command (tok_text line) c' = PIPE l r \<and> parsepipe n line s = Inr (c', s + length (T @ ''| '' @ U))"
    by (rule exI [of _ "PIPE l' r'"])
      (use n l' r' p g exec_cont_stop [OF r1 st(2)] in \<open>simp add: parse_bind_def add.assoc\<close>)
qed

lemma reads1_back:
  assumes "reads1 T c"
  shows "reads1 (T @ ''& '') (BACK c)"
  unfolding reads1_def
proof (intro allI impI)
  fix line s post n assume a: "rest_at line s ((T @ ''& '') @ post)" "starts '')&;'' post" "4 * (length line - s) + 2 \<le> n"
  have r: "rest_at line s (T @ CHR ''&'' # '' '' @ post)" using a(1) by simp
  have st: "starts '')&;'' (CHR ''&'' # '' '' @ post)" by (simp add: starts_def)
  obtain c' c0 s0 where c': "map_command (tok_text line) c' = c" "parsepipe n line s = Inr (c0, s0)"
    "parse_backs line c0 s0 = parse_backs line c' (s + length T)"
    using reads1D [OF assms r st a(3)] by blast
  have r1: "rest_at line (s + length T) (CHR ''&'' # '' '' @ post)" using rest_at_advance [OF r] .
  have p: "peek line (s + length T) ''&'' = (True, s + length T)" using rest_peek [OF r1] by (auto simp: clean_def whitespace_def)
  have g: "gettoken line (s + length T) = (CHR ''&'', s + length T, s + length T + 1, s + length T + 2)"
    using rest_gettoken_symbol [OF r1] starts_clean [OF a(2)] by simp
  have "parse_backs line c' (s + length T) = parse_backs line (BACK c') (s + length T + 2)"
    using p g by (simp add: parse_backs.simps [of line c'])
  then show "\<exists>c' c0 s0. map_command (tok_text line) c' = BACK c \<and> parsepipe n line s = Inr (c0, s0) \<and>
      parse_backs line c0 s0 = parse_backs line c' (s + length (T @ ''& ''))"
    using c' by (intro exI [of _ "BACK c'"] exI [of _ c0] exI [of _ s0]) (simp add: add.assoc)
qed

lemma reads0_list:
  assumes "reads1 T l" "reads0 U r" "clean U"
  shows "reads0 (T @ ''; '' @ U) (LIST l r)"
  unfolding reads0_def
proof (intro allI impI)
  fix line s post n assume a: "rest_at line s ((T @ ''; '' @ U) @ post)" "starts '')'' post" "4 * (length line - s) + 3 \<le> n"
  obtain m where n: "n = Suc m" using a(3) by (cases n) auto
  have r: "rest_at line s (T @ CHR '';'' # '' '' @ U @ post)" using a(1) by simp
  have st: "starts '')&;'' (CHR '';'' # '' '' @ U @ post)" by (auto simp: starts_def)
  obtain l' c0 s0 where l': "map_command (tok_text line) l' = l" "parsepipe m line s = Inr (c0, s0)"
    "parse_backs line c0 s0 = parse_backs line l' (s + length T)"
    using reads1D [OF assms(1) r st, of m] a(3) n by auto
  have r1: "rest_at line (s + length T) (CHR '';'' # '' '' @ U @ post)" using rest_at_advance [OF r] .
  have b: "parse_backs line l' (s + length T) = (l', s + length T)"
    using parse_backs_stop [OF r1] by (simp add: clean_def whitespace_def)
  have cl: "clean (U @ post)" using assms(3) starts_clean [OF a(2)] by (cases U) (auto simp: clean_def)
  have p: "peek line (s + length T) '';'' = (True, s + length T)" using rest_peek [OF r1] by (auto simp: clean_def whitespace_def)
  have g: "gettoken line (s + length T) = (CHR '';'', s + length T, s + length T + 1, s + length T + 2)"
    using rest_gettoken_symbol [OF r1 _ cl] by simp
  have r2: "rest_at line (s + length T + 2) (U @ post)" using rest_at_advance [of line "s + length T" "''; ''"] r1 by simp
  have "4 * (length line - (s + length T + 2)) + 3 \<le> m" using a(3) n rest_at_cons [OF r1] by linarith
  then obtain r' where r': "map_command (tok_text line) r' = r" "parseline m line (s + length T + 2) = Inr (r', s + length T + 2 + length U)"
    using reads0D [OF assms(2) r2 a(2)] by blast
  show "\<exists>c'. map_command (tok_text line) c' = LIST l r \<and> parseline n line s = Inr (c', s + length (T @ ''; '' @ U))"
    by (rule exI [of _ "LIST l' r'"]) (use n l' r' b p g in \<open>simp add: parse_bind_def add.assoc\<close>)
qed

lemma clean_print: "printable c \<Longrightarrow> clean (print_cmd p c)"
proof (induction c arbitrary: p)
  case (EXEC ws)
  then show ?case using clean_words [of ws "[]"] by (simp add: starts_def)
qed (auto simp: clean_def parens_def whitespace_def redir_text_def hd_append split: if_splits)

lemma print_reads:
  "printable c \<Longrightarrow> reads0 (print_cmd 0 c) c \<and> reads1 (print_cmd 1 c) c \<and> reads2 (print_cmd 2 c) c \<and> reads3 (print_cmd 3 c) c"
proof (induction c)
  case (EXEC ws)
  then show ?case using reads3_words by (simp add: reads3_reads2 reads2_reads1 reads1_reads0)
next
  case (REDIR c f m fd)
  then have "reads3 (print_cmd 3 (REDIR c f m fd)) (REDIR c f m fd)" using reads3_redir by (simp add: redir_ok_def)
  then show ?case by (simp add: reads3_reads2 reads2_reads1 reads1_reads0)
next
  case (PIPE l r)
  then have 2: "reads2 (print_cmd 2 (PIPE l r)) (PIPE l r)" using reads2_pipe clean_print [of r 2] by (simp add: parens_def)
  then have 0: "reads0 (print_cmd 0 (PIPE l r)) (PIPE l r)" using reads1_reads0 [OF reads2_reads1 [OF 2]] by (simp add: parens_def)
  show ?case using 2 0 reads2_reads1 [OF 2] reads0_reads3 [OF 0 _ clean_print] PIPE.prems by (simp add: parens_def)
next
  case (LIST l r)
  then have 0: "reads0 (print_cmd 0 (LIST l r)) (LIST l r)" using reads0_list clean_print [of r 0] by (simp add: parens_def)
  have 3: "reads3 (print_cmd 3 (LIST l r)) (LIST l r)" using reads0_reads3 [OF 0 _ clean_print] LIST.prems by (simp add: parens_def)
  show ?case using 0 3 reads3_reads2 [OF 3] reads2_reads1 [OF reads3_reads2 [OF 3]] by (simp add: parens_def)
next
  case (BACK c)
  then have 1: "reads1 (print_cmd 1 (BACK c)) (BACK c)" using reads1_back by (simp add: parens_def)
  have 0: "reads0 (print_cmd 0 (BACK c)) (BACK c)" using reads1_reads0 [OF 1] by (simp add: parens_def)
  have 3: "reads3 (print_cmd 3 (BACK c)) (BACK c)" using reads0_reads3 [OF 0 _ clean_print] BACK.prems by (simp add: parens_def)
  show ?case using 0 1 3 reads3_reads2 [OF 3] by (simp add: parens_def)
qed

lemma print_no_zero: "printable c \<Longrightarrow> CHR 0x00 \<notin> set (print_cmd p c)"
  by (induction c arbitrary: p) (auto simp: parens_def redir_text_def word_ok_def list_all_iff)

section \<open>Properties\<close>

lemma map_command_cong_tokens: "(\<And>t. t \<in> set (cmd_tokens c) \<Longrightarrow> f t = g t) \<Longrightarrow> map_command f c = map_command g c"
  by (induction c) auto

text \<open>the C string that starts at a token\<close>

definition cstring_at :: "string \<Rightarrow> token \<Rightarrow> string" where
  "cstring_at buf t = takeWhile (\<lambda>c. c \<noteq> CHR 0x00) (drop (fst t) buf)"

text \<open>
  C10. Every command that can be written down is read back as it is: for a command whose words are made of ordinary characters, whose
  argument vectors fit in \<^verbatim>\<open>MAXARGS\<close> and whose redirections are one of \<^verbatim>\<open><\<close>, \<^verbatim>\<open>>\<close> and \<^verbatim>\<open>>>\<close>, \<^verbatim>\<open>parsecmd\<close> of the printed
  line succeeds, and the parsed command, its tokens read as the C strings that \<^verbatim>\<open>nulterminate\<close> leaves in the buffer, is that command: pipes
  nest to the right and bind tighter than \<^verbatim>\<open>&\<close>, which binds tighter than \<^verbatim>\<open>;\<close>, and parentheses group.
\<close>
theorem parsecmd_print:
  assumes "printable c"
  shows "\<exists>c' buf'. parsecmd (print_cmd 0 c @ [CHR 0x00]) = Inr (c', buf') \<and> map_command (cstring_at buf') c' = c"
proof -
  let ?line = "print_cmd 0 c" let ?buf = "?line @ [CHR 0x00]"
  have tw: "takeWhile (\<lambda>c. c \<noteq> CHR 0x00) ?buf = ?line" using print_no_zero [OF assms] by (subst takeWhile_append2) auto
  have r: "rest_at ?line 0 (?line @ [])" by (simp add: rest_at_def)
  obtain c' where c': "map_command (tok_text ?line) c' = c" "parseline (parse_fuel ?line) ?line 0 = Inr (c', length ?line)"
    using reads0D [OF _ r, of c "parse_fuel ?line"] print_reads [OF assms] by (auto simp: starts_def parse_fuel_def)
  have "peek ?line (length ?line) [] = (False, length ?line)"
    by (auto simp: peek_def skip_space_def skip_while.simps [of _ ?line])
  then have p: "parsecmd ?buf = Inr (c', nulterminate c' ?buf)" using c'(2) tw by (simp add: parsecmd_def parse_bind_def)
  have "cstring_at (nulterminate c' ?buf) t = tok_text ?line t" if t: "t \<in> set (cmd_tokens c')" for t
  proof -
    obtain q eq where t': "t = (q, eq)" by (cases t)
    have ok: "cmd_ok ?line c'" using parsecmd_good(1) [OF p] tw by simp
    have "eq \<le> length ?line" using cmd_ok_tokens [OF ok t] t' by (simp add: token_ok_def)
    then show ?thesis using nulterminate_string [of ?buf c' q eq] ok t t' tw by (simp add: cstring_at_def tok_text_def)
  qed
  then have "map_command (cstring_at (nulterminate c' ?buf)) c' = c" using c'(1) map_command_cong_tokens by metis
  then show ?thesis using p by blast
qed

definition demo_cmd :: "string command" where
  "demo_cmd = LIST (BACK (PIPE (REDIR (EXEC [''grep'', ''-v'', ''x'']) ''in'' O_RDONLY 0) (LIST (EXEC [''wc'']) (EXEC [''ls'']))))
     (REDIR (EXEC [''echo'', ''a'']) ''out'' (O_WRONLY OR O_CREATE) 1)"

lemma parsecmd_print_witness:
  "print_cmd 0 demo_cmd = ''grep -v x < in | ( wc ; ls ) & ; echo a >> out '' \<and>
   (\<exists>c' buf'. parsecmd (print_cmd 0 demo_cmd @ [CHR 0x00]) = Inr (c', buf') \<and> map_command (cstring_at buf') c' = demo_cmd)"
proof
  show "print_cmd 0 demo_cmd = ''grep -v x < in | ( wc ; ls ) & ; echo a >> out ''" by code_simp
  have "printable demo_cmd" by code_simp
  then show "\<exists>c' buf'. parsecmd (print_cmd 0 demo_cmd @ [CHR 0x00]) = Inr (c', buf') \<and> map_command (cstring_at buf') c' = demo_cmd"
    by (rule parsecmd_print)
qed

end
