(* ===== verification/Ring.thy ===== *)
theory Ring
  imports Xv6_Prelude
begin

text \<open>
  Ring buffers of \<open>N\<close> entries with counters that are never reduced, as the console and the serial line have them: the part of the ring from a
  counter on, and what a store behind its end does to it.
\<close>

definition arc :: "nat \<Rightarrow> 'b list \<Rightarrow> nat \<Rightarrow> nat \<Rightarrow> 'b list" where
  "arc N buf a n = map (\<lambda>k. buf ! ((a + k) mod N)) [0..<n]"

lemma length_arc [simp]: "length (arc N buf a n) = n"
  by (simp add: arc_def)

lemma arc_0 [simp]: "arc N buf a 0 = []"
  by (simp add: arc_def)

lemma arc_snoc: "arc N buf a (Suc n) = arc N buf a n @ [buf ! ((a + n) mod N)]"
  by (simp add: arc_def)

lemma arc_append: "arc N buf a (m + n) = arc N buf a m @ arc N buf (a + m) n"
  by (induction n) (simp_all add: arc_snoc add.assoc)

lemma arc_Cons: "arc N buf a (Suc n) = buf ! (a mod N) # arc N buf (Suc a) n"
  using arc_append [of N buf a 1 n] by (simp add: arc_def)

lemma arc_mod:
  assumes "a mod N = b mod N"
  shows "arc N buf a n = arc N buf b n"
proof -
  have "(a + k) mod N = (b + k) mod N" for k using assms by (rule mod_add_cong) simp
  then show ?thesis by (simp add: arc_def)
qed

lemma ring_distinct_nat:
  assumes "j < N" "k < N" "(r + j) mod N = (r + k) mod (N :: nat)"
  shows "j = k"
proof -
  have "(int r + int j) mod int N = (int r + int k) mod int N" using assms(3) by (metis of_nat_add of_nat_mod)
  then have "int j mod int N = int k mod int N" by (simp add: mod_eq_dvd_iff)
  then show ?thesis using assms(1,2) by simp
qed

lemma arc_store:
  assumes "n < N" "length buf = N"
  shows "arc N (buf[(a + n) mod N := c]) a n = arc N buf a n"
    "arc N (buf[(a + n) mod N := c]) a (Suc n) = arc N buf a n @ [c]"
proof -
  have "(buf[(a + n) mod N := c]) ! ((a + k) mod N) = buf ! ((a + k) mod N)" if "k < n" for k
    using ring_distinct_nat [of n N k a] assms that by (auto simp: nth_list_update)
  then show 1: "arc N (buf[(a + n) mod N := c]) a n = arc N buf a n" by (simp add: arc_def)
  show "arc N (buf[(a + n) mod N := c]) a (Suc n) = arc N buf a n @ [c]"
    unfolding arc_snoc 1 using assms by simp
qed

text \<open>Counters of 32 and of 64 bits\<close>

lemma unat_add_mod:
  fixes a :: "'a::len word"
  assumes "N dvd 2 ^ LENGTH('a)"
  shows "unat (a + of_nat k) mod N = (unat a + k) mod N"
proof -
  have "unat (a + of_nat k) = (unat a + k) mod 2 ^ LENGTH('a)" by (simp add: unat_word_ariths unat_of_nat mod_add_right_eq)
  then show ?thesis using assms by (simp add: mod_mod_cancel)
qed

lemma counter_mod:
  fixes r w :: "'a::len word"
  assumes "N dvd 2 ^ LENGTH('a)"
  shows "unat w mod N = (unat r + unat (w - r)) mod N"
  using unat_add_mod [OF assms, of r "unat (w - r)"] by simp

lemma counter_succ:
  fixes r w :: "'a::len word"
  assumes "unat (w - r) < N" "N < 2 ^ LENGTH('a)"
  shows "unat (w + 1 - r) = Suc (unat (w - r))"
proof -
  have "unat ((w - r) + 1) = unat (w - r) + 1" using assms by (subst unat_add_lem [THEN iffD1]) (auto simp: unat_word_ariths)
  then show ?thesis by (simp add: algebra_simps)
qed

lemma counter_split:
  fixes r w e :: "'a::len word"
  assumes "unat (w - r) \<le> unat (e - r)"
  shows "unat (e - r) = unat (w - r) + unat (e - w)"
proof -
  have "unat ((e - r) - (w - r)) = unat (e - r) - unat (w - r)" using assms by (intro unat_sub) (simp add: word_le_nat_alt)
  moreover have "(e - r) - (w - r) = e - w" by simp
  ultimately have "unat (e - w) = unat (e - r) - unat (w - r)" by metis
  then show ?thesis using assms by simp
qed

end
