(* ===== verification/Console_Spec.thy ===== *)
theory Console_Spec
  imports Console Fs_Spec Ring
begin

text \<open>
  The console as a line editor. Abstractly it has the characters of finished lines that wait for a reader and the line that is being typed;
  \<open>edit_line\<close> is what a typed character does to them. \<^verbatim>\<open>consoleintr\<close> implements it on the ring buffer with the three
  counters \<^verbatim>\<open>r\<close>, \<^verbatim>\<open>w\<close> and \<^verbatim>\<open>e\<close>, which may wrap around. At the end, the transmit buffer of the serial line as a queue.
\<close>

section \<open>The line editor\<close>

type_synonym line_view = "u8 list \<times> u8 list"

definition edit_line :: "int \<Rightarrow> line_view \<Rightarrow> line_view" where
  "edit_line c v =
     (case v of (d, e) \<Rightarrow>
      if c = 21 then (d, [])
      else if c = 8 \<or> c = 127 then (d, butlast e)
      else if c = 0 \<or> length d + length e \<ge> INPUT_BUF_SIZE then (d, e)
      else let c = (if c = 13 then 10 else c); e = e @ [of_int c] in
        if c = 10 \<or> c = 4 \<or> length d + length e = INPUT_BUF_SIZE then (d @ e, []) else (d, e))"

definition cons_view :: "'z consst_scheme \<Rightarrow> line_view" where
  "cons_view s =
     (arc INPUT_BUF_SIZE (cons_buf s) (unat (cons_r s)) (unat (cons_w s - cons_r s)),
      arc INPUT_BUF_SIZE (cons_buf s) (unat (cons_w s)) (unat (cons_e s - cons_w s)))"

definition cons_inv :: "'z consst_scheme \<Rightarrow> bool" where
  "cons_inv s \<longleftrightarrow>
     length (cons_buf s) = INPUT_BUF_SIZE \<and> unat (cons_w s - cons_r s) \<le> unat (cons_e s - cons_r s) \<and>
     unat (cons_e s - cons_r s) \<le> INPUT_BUF_SIZE \<and> 10 \<notin> set (snd (cons_view s))"

section \<open>Output\<close>

text \<open>how often the device will still answer that it is idle\<close>

definition idle_count :: "bool list \<Rightarrow> nat" where
  "idle_count l = length (filter id l)"

lemma dropWhile_idle: "idle_count l = Suc k \<Longrightarrow> \<exists>m. dropWhile (\<lambda>i. \<not> i) l = True # m \<and> idle_count m = k"
  by (induction l) (auto simp: idle_count_def split: if_splits)

lemma wait_tx_idle_run:
  assumes "idle_count (uart_lsr s) = Suc k"
  shows "\<exists>l. wait_tx_idle s = Inr ((), s\<lparr>uart_lsr := l\<rparr>) \<and> idle_count l = k"
proof -
  obtain m where "dropWhile (\<lambda>i. \<not> i) (uart_lsr s) = True # m" "idle_count m = k" using dropWhile_idle [OF assms] by blast
  then show ?thesis by (intro exI [of _ m]) (simp add: wait_tx_idle_def)
qed

text \<open>inside a critical section\<close>

definition can_print :: "nat \<Rightarrow> 'z uartst_scheme \<Rightarrow> bool" where
  "can_print k s \<longleftrightarrow> \<not> panicked s \<and> cpu_ok (kcpu s) \<and> noff (kcpu s) \<noteq> 0 \<and> k \<le> idle_count (uart_lsr s)"

lemma after_section_nested: "noff c \<noteq> 0 \<Longrightarrow> after_section c = c"
  by (simp add: after_section_def)

lemma uartputc_sync_run:
  assumes "can_print (Suc k) s"
  shows "\<exists>l w. uartputc_sync c s = Inr ((), s\<lparr>uart_lsr := l, uart_writes := w\<rparr>) \<and> can_print k (s\<lparr>uart_lsr := l, uart_writes := w\<rparr>)"
proof -
  let ?s = "s\<lparr>kcpu := push_off (kcpu s)\<rparr>"
  obtain j where j: "idle_count (uart_lsr s) = Suc j" "k \<le> j" using assms by (cases "idle_count (uart_lsr s)") (auto simp: can_print_def)
  obtain l where l: "wait_tx_idle ?s = Inr ((), ?s\<lparr>uart_lsr := l\<rparr>)" "idle_count l = j" using wait_tx_idle_run [of ?s j] j(1) by auto
  have c: "kcpu s\<lparr>intena := intena (kcpu s)\<rparr> = kcpu s" by simp
  show ?thesis
    by (rule exI [of _ l], rule exI [of _ "uart_writes s @ [(0, c)]"])
      (use assms l j(2) c in \<open>auto simp: uartputc_sync_def run_simps WriteReg_def run_def pop_off_push_off can_print_def\<close>)
qed

lemma consputc_run:
  assumes "can_print (3 + k) s"
  shows "\<exists>l w. consputc c s = Inr ((), s\<lparr>uart_lsr := l, uart_writes := w\<rparr>) \<and> can_print k (s\<lparr>uart_lsr := l, uart_writes := w\<rparr>)"
proof -
  have weak: "can_print k t" if "can_print j t" "k \<le> j" for j :: nat and t :: "'a uartst_scheme" using that by (simp add: can_print_def)
  obtain l1 w1 where 1: "uartputc_sync 8 s = Inr ((), s\<lparr>uart_lsr := l1, uart_writes := w1\<rparr>)" "can_print (Suc (Suc k)) (s\<lparr>uart_lsr := l1, uart_writes := w1\<rparr>)"
    using uartputc_sync_run [of "Suc (Suc k)" s 8] assms by (auto simp: numeral_3_eq_3)
  obtain l2 w2 where 2: "uartputc_sync 32 (s\<lparr>uart_lsr := l1, uart_writes := w1\<rparr>) = Inr ((), s\<lparr>uart_lsr := l2, uart_writes := w2\<rparr>)" "can_print (Suc k) (s\<lparr>uart_lsr := l2, uart_writes := w2\<rparr>)"
    using uartputc_sync_run [OF 1(2), of 32] by auto
  obtain l3 w3 where 3: "uartputc_sync 8 (s\<lparr>uart_lsr := l2, uart_writes := w2\<rparr>) = Inr ((), s\<lparr>uart_lsr := l3, uart_writes := w3\<rparr>)" "can_print k (s\<lparr>uart_lsr := l3, uart_writes := w3\<rparr>)"
    using uartputc_sync_run [OF 2(2), of 8] by auto
  obtain l4 w4 where 4: "uartputc_sync (of_int c) s = Inr ((), s\<lparr>uart_lsr := l4, uart_writes := w4\<rparr>)" "can_print (Suc (Suc k)) (s\<lparr>uart_lsr := l4, uart_writes := w4\<rparr>)"
    using uartputc_sync_run [of "Suc (Suc k)" s "of_int c"] assms by (auto simp: numeral_3_eq_3)
  show ?thesis using 1 2 3 4 weak [OF 4(2)] by (cases "c = BACKSPACE") (auto simp: consputc_def run_simps)
qed

section \<open>The ring buffer\<close>

lemma cons_mod: "unat (a mod 128 :: u32) = unat a mod 128" "(128 :: nat) dvd 2 ^ LENGTH(32)"
  by (simp_all add: unat_mod)

lemma view_total:
  assumes "unat (cons_w s - cons_r s) \<le> unat (cons_e s - cons_r s)"
  shows "fst (cons_view s) @ snd (cons_view s) = arc INPUT_BUF_SIZE (cons_buf s) (unat (cons_r s)) (unat (cons_e s - cons_r s))"
proof -
  have "unat (cons_w s) mod 128 = (unat (cons_r s) + unat (cons_w s - cons_r s)) mod 128" by (rule counter_mod) (rule cons_mod)
  then have "arc 128 (cons_buf s) (unat (cons_w s)) (unat (cons_e s - cons_w s)) =
      arc 128 (cons_buf s) (unat (cons_r s) + unat (cons_w s - cons_r s)) (unat (cons_e s - cons_w s))" by (rule arc_mod)
  then show ?thesis using counter_split [OF assms] by (simp add: cons_view_def arc_append)
qed

lemma length_view [simp]:
  "length (fst (cons_view s)) = unat (cons_w s - cons_r s)" "length (snd (cons_view s)) = unat (cons_e s - cons_w s)"
  by (simp_all add: cons_view_def)

text \<open>the view is determined by the whole and the length of its first part\<close>

lemma view_eqI:
  assumes "unat (cons_w t - cons_r t) \<le> unat (cons_e t - cons_r t)" "unat (cons_w t - cons_r t) = length d"
    "arc INPUT_BUF_SIZE (cons_buf t) (unat (cons_r t)) (unat (cons_e t - cons_r t)) = d @ e"
  shows "cons_view t = (d, e)"
proof -
  have "fst (cons_view t) @ snd (cons_view t) = d @ e" using view_total [OF assms(1)] assms(3) by simp
  then have "fst (cons_view t) = d \<and> snd (cons_view t) = e" using assms(2) by (simp add: append_eq_append_conv)
  then show ?thesis by (metis prod.collapse)
qed

lemma cons_store_view:
  assumes "cons_inv s" "unat (cons_e s - cons_r s) < INPUT_BUF_SIZE"
  shows "cons_view (cons_store c s) = (fst (cons_view s), snd (cons_view s) @ [c])"
    "unat (cons_e (cons_store c s) - cons_r s) = Suc (unat (cons_e s - cons_r s))"
proof -
  let ?n = "unat (cons_e s - cons_r s)"
  show n: "unat (cons_e (cons_store c s) - cons_r s) = Suc ?n"
    using counter_succ [OF assms(2)] by (simp add: cons_store_def)
  have i: "unat (cons_e s mod 128) = (unat (cons_r s) + ?n) mod 128"
    using counter_mod [OF cons_mod(2), of "cons_e s" "cons_r s"] by (simp add: cons_mod)
  have "arc 128 (cons_buf (cons_store c s)) (unat (cons_r s)) (Suc ?n) = arc 128 (cons_buf s) (unat (cons_r s)) ?n @ [c]"
    unfolding cons_store_def i using assms by (simp add: arc_store cons_inv_def i)
  then show "cons_view (cons_store c s) = (fst (cons_view s), snd (cons_view s) @ [c])"
    using n assms(1) view_total [of s] by (intro view_eqI) (simp_all add: cons_inv_def cons_store_def)
qed

lemma cons_commit_view:
  assumes "unat (cons_w s - cons_r s) \<le> unat (cons_e s - cons_r s)"
  shows "cons_view (s\<lparr>cons_w := cons_e s\<rparr>) = (fst (cons_view s) @ snd (cons_view s), [])"
  using view_total [OF assms] by (intro view_eqI) simp_all

lemma cons_erase_view:
  assumes "cons_inv s" "cons_e s \<noteq> cons_w s"
  shows "cons_view (s\<lparr>cons_e := cons_e s - 1\<rparr>) = (fst (cons_view s), butlast (snd (cons_view s)))"
    "cons_inv (s\<lparr>cons_e := cons_e s - 1\<rparr>)" "cons_buf s ! unat ((cons_e s - 1) mod 128) \<noteq> 10"
    "unat (cons_e s - 1 - cons_w s) = unat (cons_e s - cons_w s) - 1" "0 < unat (cons_e s - cons_w s)"
proof -
  let ?t = "s\<lparr>cons_e := cons_e s - 1\<rparr>"
  have le: "unat (cons_w s - cons_r s) \<le> unat (cons_e s - cons_r s)" using assms(1) by (simp add: cons_inv_def)
  show pos: "0 < unat (cons_e s - cons_w s)" using assms(2) by (simp add: unat_gt_0)
  then have lt: "unat (cons_w s - cons_r s) < unat (cons_e s - cons_r s)" using counter_split [OF le] by simp
  then have "cons_e s - cons_r s \<noteq> 0" by auto
  then have n: "unat (cons_e s - 1 - cons_r s) = unat (cons_e s - cons_r s) - 1" using unat_minus_one [of "cons_e s - cons_r s"] by (simp add: algebra_simps)
  show m: "unat (cons_e s - 1 - cons_w s) = unat (cons_e s - cons_w s) - 1"
    using unat_minus_one [of "cons_e s - cons_w s"] assms(2) by (simp add: algebra_simps)
  have le': "unat (cons_w ?t - cons_r ?t) \<le> unat (cons_e ?t - cons_r ?t)" using n lt by simp
  obtain k where k: "unat (cons_e s - cons_r s) = Suc k" using lt by (cases "unat (cons_e s - cons_r s)") auto
  have i: "unat ((cons_e s - 1) mod 128) = (unat (cons_r s) + k) mod 128"
    using counter_mod [OF cons_mod(2), of "cons_e s - 1" "cons_r s"] n k by (simp add: cons_mod)
  have tot: "fst (cons_view s) @ snd (cons_view s) = arc 128 (cons_buf s) (unat (cons_r s)) k @ [cons_buf s ! ((unat (cons_r s) + k) mod 128)]"
    using view_total [OF le] k by (simp add: arc_snoc)
  have ne: "snd (cons_view s) \<noteq> []" using pos by (metis length_view(2) length_greater_0_conv)
  then have bl: "fst (cons_view s) @ butlast (snd (cons_view s)) = arc 128 (cons_buf s) (unat (cons_r s)) k"
    "last (snd (cons_view s)) = cons_buf s ! ((unat (cons_r s) + k) mod 128)"
    using arg_cong [OF tot, of butlast] arg_cong [OF tot, of last] by (simp_all add: butlast_append)
  show v: "cons_view ?t = (fst (cons_view s), butlast (snd (cons_view s)))"
    using le' bl(1) n k by (intro view_eqI) simp_all
  show "cons_inv ?t" using assms(1) v le' n by (auto simp: cons_inv_def dest: in_set_butlastD)
  show "cons_buf s ! unat ((cons_e s - 1) mod 128) \<noteq> 10"
    using bl(2) i ne assms(1) last_in_set [OF ne] by (auto simp: cons_inv_def)
qed

section \<open>The interrupt handler\<close>

lemma cons_inv_uart [simp]:
  "cons_inv (s\<lparr>uart_lsr := l, uart_writes := w\<rparr>) = cons_inv s" "cons_view (s\<lparr>uart_lsr := l, uart_writes := w\<rparr>) = cons_view s"
  by (simp_all add: cons_inv_def cons_view_def)

lemma kill_line_run:
  "cons_inv s \<Longrightarrow> unat (cons_e s - cons_w s) = n \<Longrightarrow> can_print (3 * n + k) s \<Longrightarrow>
   \<exists>l w. kill_line (Suc n) s = Inr ((), s\<lparr>cons_e := cons_w s, uart_lsr := l, uart_writes := w\<rparr>)"
proof (induction n arbitrary: s)
  case 0
  then have "cons_e s = cons_w s" by (simp add: unat_eq_0)
  then show ?case by (intro exI [of _ "uart_lsr s"] exI [of _ "uart_writes s"]) (simp add: run_simps)
next
  case (Suc n)
  let ?s = "s\<lparr>cons_e := cons_e s - 1\<rparr>"
  have ne: "cons_e s \<noteq> cons_w s" using Suc.prems(2) by auto
  note e = cons_erase_view [OF Suc.prems(1) ne]
  have "can_print (3 + (3 * n + k)) ?s" using Suc.prems(3) by (simp add: can_print_def algebra_simps)
  then obtain l w where c: "consputc BACKSPACE ?s = Inr ((), ?s\<lparr>uart_lsr := l, uart_writes := w\<rparr>)"
    "can_print (3 * n + k) (?s\<lparr>uart_lsr := l, uart_writes := w\<rparr>)" using consputc_run by blast
  let ?t = "?s\<lparr>uart_lsr := l, uart_writes := w\<rparr>"
  have "cons_inv ?t" "unat (cons_e ?t - cons_w ?t) = n" using e(2,4) Suc.prems(2) by (simp_all only: cons_inv_uart) simp
  from Suc.IH [OF this c(2)] obtain l' w' where "kill_line (Suc n) ?t = Inr ((), ?t\<lparr>cons_e := cons_w ?t, uart_lsr := l', uart_writes := w'\<rparr>)" by blast
  then have "kill_line (Suc (Suc n)) s = Inr ((), s\<lparr>cons_e := cons_w s, uart_lsr := l', uart_writes := w'\<rparr>)"
    using ne e(3) c(1) by (subst kill_line.simps(2)) (simp add: run_simps del: kill_line.simps)
  then show ?case by blast
qed

text \<open>the handler between \<^verbatim>\<open>acquire\<close> and \<^verbatim>\<open>release\<close>\<close>

definition cons_body :: "int \<Rightarrow> ('z consst_scheme, unit) kroutine" where
  "cons_body c =
     (if c = 21 then bind (gets (\<lambda>s. Suc (unat (cons_e s - cons_w s)))) kill_line
      else if c = 8 \<or> c = 127 then
        bind (gets id) (\<lambda>s.
        whenever (cons_e s \<noteq> cons_w s)
          (bind (modify (\<lambda>s. s\<lparr>cons_e := cons_e s - 1\<rparr>)) (\<lambda>_. consputc BACKSPACE)))
      else
        bind (gets id) (\<lambda>s.
        whenever (c \<noteq> 0 \<and> unat (cons_e s - cons_r s) < INPUT_BUF_SIZE)
          (let c = (if c = 13 then 10 else c) in
           bind (consputc c) (\<lambda>_.
           bind (modify (cons_store (of_int c))) (\<lambda>_.
           bind (gets id) (\<lambda>s.
           whenever (c = 10 \<or> c = 4 \<or> unat (cons_e s - cons_r s) = INPUT_BUF_SIZE)
             (bind (modify (\<lambda>s. s\<lparr>cons_w := cons_e s\<rparr>)) (\<lambda>_.
              run (wakeup ConsChan)))))))))"

lemma consoleintr_eq: "c \<noteq> 16 \<Longrightarrow> consoleintr c = with_cons (cons_body c)"
  by (simp add: consoleintr_def cons_body_def)

text \<open>What the handler leaves behind: only the console's buffer, the output and the processes change.\<close>

definition cons_done :: "int \<Rightarrow> 'z consst_scheme \<Rightarrow> 'z consst_scheme \<Rightarrow> bool" where
  "cons_done c s t \<longleftrightarrow>
     cons_inv t \<and> cons_view t = edit_line c (cons_view s) \<and> pinv t \<and> kcpu t = kcpu s \<and> cons_lock t = cons_lock s \<and>
     procs t = (if fst (cons_view t) = fst (cons_view s) then procs s else wake_from ConsChan (curproc s) 0 (procs s))"

lemma cons_body_erase:
  assumes "cons_inv s" "can_print (3 * (length (snd (cons_view s)) + 1)) s" "pinv s" "c \<in> {21, 8, 127}"
  shows "\<exists>t. cons_body c s = Inr ((), t) \<and> cons_done c s t"
proof (cases "c = 21")
  case True
  have "can_print (3 * unat (cons_e s - cons_w s) + 3) s" using assms(2) by (simp add: can_print_def)
  then obtain l w where r: "kill_line (Suc (unat (cons_e s - cons_w s))) s = Inr ((), s\<lparr>cons_e := cons_w s, uart_lsr := l, uart_writes := w\<rparr>)"
    using kill_line_run [OF assms(1) refl] by blast
  have le: "unat (cons_w s - cons_r s) \<le> unat (cons_e s - cons_r s)" "unat (cons_e s - cons_r s) \<le> 128" using assms(1) by (simp_all add: cons_inv_def)
  have v: "cons_view (s\<lparr>cons_e := cons_w s\<rparr>) = (fst (cons_view s), [])" by (simp add: cons_view_def)
  have "cons_inv (s\<lparr>cons_e := cons_w s\<rparr>)" using assms(1) le v by (simp add: cons_inv_def)
  then have "cons_done c s (s\<lparr>cons_e := cons_w s, uart_lsr := l, uart_writes := w\<rparr>)"
    using v assms(3) True by (simp add: cons_done_def edit_line_def pinv_def split: prod.splits)
  then show ?thesis using r True by (auto simp: cons_body_def run_simps simp del: kill_line.simps)
next
  case False
  then have c: "c = 8 \<or> c = 127" using assms(4) by auto
  show ?thesis
  proof (cases "cons_e s = cons_w s")
    case True
    then have "snd (cons_view s) = []" by (simp add: cons_view_def)
    then have "cons_done c s s" using assms c by (auto simp: cons_done_def edit_line_def split: prod.splits)
    then show ?thesis using True c by (auto simp: cons_body_def run_simps)
  next
    case ne: False
    let ?s = "s\<lparr>cons_e := cons_e s - 1\<rparr>"
    have "can_print (3 + 0) ?s" using assms(2) by (simp add: can_print_def)
    then obtain l w where r: "consputc BACKSPACE ?s = Inr ((), ?s\<lparr>uart_lsr := l, uart_writes := w\<rparr>)" using consputc_run by blast
    have "cons_done c s (?s\<lparr>uart_lsr := l, uart_writes := w\<rparr>)"
      using cons_erase_view(1,2) [OF assms(1) ne] assms(3) c by (auto simp: cons_done_def edit_line_def pinv_def split: prod.splits)
    then show ?thesis using ne r c by (auto simp: cons_body_def run_simps)
  qed
qed

lemma byte_newline: "0 \<le> c \<Longrightarrow> c < 256 \<Longrightarrow> (of_int c :: u8) = 10 \<longleftrightarrow> c = 10"
  using word_of_int_eq_iff [where ?'a = 8, of c 10] by (simp add: take_bit_int_eq_self)

lemma cons_body_type:
  assumes "cons_inv s" "can_print 3 s" "pinv s" "c \<notin> {16, 21, 8, 127}" "0 \<le> c" "c < 256"
  shows "\<exists>t. cons_body c s = Inr ((), t) \<and> cons_done c s t"
proof -
  obtain d e where v: "cons_view s = (d, e)" by (cases "cons_view s")
  have le: "unat (cons_w s - cons_r s) \<le> unat (cons_e s - cons_r s)" using assms(1) by (simp add: cons_inv_def)
  have len: "length d + length e = unat (cons_e s - cons_r s)" using arg_cong [OF view_total [OF le], of length] v by simp
  show ?thesis
  proof (cases "c = 0 \<or> unat (cons_e s - cons_r s) \<ge> INPUT_BUF_SIZE")
    case True
    then have "cons_done c s s" using assms(1,3,4) v len by (auto simp: cons_done_def edit_line_def)
    then show ?thesis using True assms(4) by (auto simp: cons_body_def run_simps)
  next
    case False
    let ?c = "if c = 13 then 10 else c"
    obtain l w where p: "consputc ?c s = Inr ((), s\<lparr>uart_lsr := l, uart_writes := w\<rparr>)" using consputc_run [of 0 s ?c] assms(2) by auto
    let ?s1 = "s\<lparr>uart_lsr := l, uart_writes := w\<rparr>"
    let ?s2 = "cons_store (of_int ?c) ?s1"
    have i1: "cons_inv ?s1" using assms(1) by simp
    have r1: "unat (cons_e ?s1 - cons_r ?s1) < INPUT_BUF_SIZE" using False by simp
    have v2: "cons_view ?s2 = (d, e @ [of_int ?c])" "unat (cons_e ?s2 - cons_r ?s2) = Suc (unat (cons_e s - cons_r s))"
      using cons_store_view [OF i1 r1, of "of_int ?c"] v by (simp_all add: cons_store_def)
    have f2: "kcpu ?s2 = kcpu s" "procs ?s2 = procs s" "curproc ?s2 = curproc s" "cons_lock ?s2 = cons_lock s" "pinv ?s2" "length (cons_buf ?s2) = 128" "cons_w ?s2 = cons_w s" "cons_r ?s2 = cons_r s"
      using assms(1,3) by (simp_all add: cons_store_def pinv_def cons_inv_def)
    have n2: "length d + length (e @ [of_int ?c]) = unat (cons_e ?s2 - cons_r ?s2)" using v2(2) len by simp
    have le2: "unat (cons_w ?s2 - cons_r ?s2) \<le> unat (cons_e ?s2 - cons_r ?s2)" using le v2(2) f2(7,8) by simp
    let ?full = "?c = 10 \<or> ?c = 4 \<or> unat (cons_e ?s2 - cons_r ?s2) = INPUT_BUF_SIZE"
    have ed: "edit_line c (d, e) = (if ?full then (d @ e @ [of_int ?c], []) else (d, e @ [of_int ?c]))"
      using False assms(4) len n2 by (auto simp: edit_line_def Let_def)
    have step: "cons_body c s = (if ?full then run (wakeup ConsChan) (?s2\<lparr>cons_w := cons_e ?s2\<rparr>) else Inr ((), ?s2))"
      using False assms(4) p by (auto simp: cons_body_def run_simps Let_def)
    show ?thesis
    proof (cases ?full)
      case True
      let ?s3 = "?s2\<lparr>cons_w := cons_e ?s2\<rparr>"
      let ?s4 = "?s3\<lparr>procs := wake_from ConsChan (curproc s) 0 (procs s), kcpu := kcpu s\<rparr>"
      have p3: "pinv ?s3" using f2(5) by (simp add: pinv_def)
      have ns: "after_section (kcpu s) = kcpu s" using assms(2) after_section_nested by (simp add: can_print_def)
      have w: "run (wakeup ConsChan) ?s3 = Inr ((), ?s4)" using wakeup_eq [OF p3, of ConsChan] f2 ns by (simp add: run_def)
      have "pinv ?s4" using pinv_wakeup [OF p3, of ConsChan "curproc s" 0] f2 ns by simp
      moreover have v4: "cons_view ?s4 = (d @ e @ [of_int ?c], [])"
        using cons_commit_view [OF le2] v2(1) by (simp add: cons_view_def)
      moreover have "cons_inv ?s4" using v4 f2(6) v2(2) False by (simp add: cons_inv_def)
      ultimately have "cons_done c s ?s4" using ed True v f2 by (simp add: cons_done_def)
      then show ?thesis using step True w by auto
    next
      case nf: False
      have "10 \<notin> set (e @ [of_int ?c])" using assms(1,5,6) v nf byte_newline [of ?c] by (auto simp: cons_inv_def)
      then have "cons_inv ?s2" using v2 f2(6) le2 False by (simp add: cons_inv_def)
      then have "cons_done c s ?s2" using ed nf v v2(1) f2 by (simp add: cons_done_def)
      then show ?thesis using step nf by auto
    qed
  qed
qed

section \<open>Properties\<close>

text \<open>
  C12. \<^verbatim>\<open>consoleintr\<close> refines a line editor. With the finished lines that wait for a reader and the line that is being typed read from the ring
  buffer, wherever its 32-bit counters stand: a character is appended to the line (a carriage return as a newline) unless the 128 bytes are used
  up, a newline, control-D or the last free byte finishes the line, backspace takes the last character of the line back and control-U the
  whole line, never anything of a finished one. The handler returns as long as the serial line becomes idle often enough for the echo, and readers are
  woken exactly when a line was finished. (Control-P, which prints the process table, is left out.)
\<close>
theorem consoleintr_refines:
  assumes "cons_inv s" "pinv s" "\<not> locked (cons_lock s)" "\<not> panicked s" "c \<noteq> 16" "0 \<le> c" "c < 256"
    "3 * (length (snd (cons_view s)) + 1) \<le> idle_count (uart_lsr s)"
  shows "\<exists>t. consoleintr c s = Inr ((), t) \<and> cons_inv t \<and> cons_view t = edit_line c (cons_view s) \<and> pinv t \<and> \<not> locked (cons_lock t) \<and>
    procs t = (if fst (cons_view t) = fst (cons_view s) then procs s else wake_from ConsChan (curproc s) 0 (procs s))"
proof -
  let ?s = "s\<lparr>kcpu := push_off (kcpu s), cons_lock := held (cons_lock s) (kcpu s)\<rparr>"
  have ok: "cpu_ok (kcpu s)" using assms(2) by (simp add: pinv_def)
  have nz: "noff (push_off (kcpu s)) \<noteq> 0" using ok by (simp add: cpu_ok_def)
  have v: "cons_view ?s = cons_view s" by (simp add: cons_view_def)
  have i: "cons_inv ?s" using assms(1) v by (simp add: cons_inv_def)
  have p: "pinv ?s" using assms(2) ok push_off_ok by (simp add: pinv_def)
  have cp: "can_print (3 * (length (snd (cons_view ?s)) + 1)) ?s" using assms(4,8) ok push_off_ok nz v by (simp add: can_print_def)
  then have cp3: "can_print 3 ?s" by (simp add: can_print_def)
  have "\<exists>t. cons_body c ?s = Inr ((), t) \<and> cons_done c ?s t"
  proof (cases "c \<in> {21, 8, 127}")
    case True then show ?thesis using cons_body_erase [OF i cp p] by blast
  next
    case False then show ?thesis using cons_body_type [OF i cp3 p] assms(5-7) by blast
  qed
  then obtain t where t: "cons_body c ?s = Inr ((), t)" "cons_done c ?s t" by blast
  let ?t = "t\<lparr>kcpu := after_section (kcpu s), cons_lock := freed (cons_lock s)\<rparr>"
  have "consoleintr c s = Inr ((), ?t)"
    unfolding consoleintr_eq [OF assms(5)]
    by (subst critical_free [where t = t and r = "()"]) (use assms(3) ok t in \<open>simp_all add: cons_done_def\<close>)
  moreover have v': "cons_view ?t = cons_view t" by (simp add: cons_view_def)
  moreover have "procs ?t = procs t" "cons_inv ?t = cons_inv t" "pinv t \<Longrightarrow> pinv ?t" using v' ok by (simp_all add: cons_inv_def pinv_def)
  moreover have "procs ?s = procs s" "curproc ?s = curproc s" by simp_all
  ultimately show ?thesis using t(2) v unfolding cons_done_def by (intro exI [of _ ?t]) simp
qed

definition demo_cons :: consst where
  "demo_cons = fsst.extend demo_fs
     \<lparr>uart_tx_lock = initlock ''uart'', uart_tx_buf = replicate 32 0, uart_tx_w = 0, uart_tx_r = 0, panicked = False,
      uart_rx = [], uart_lsr = replicate 9 True, uart_writes = [], pr_lock = initlock ''pr'', pr_locking = True,
      cons_lock = initlock ''cons'', cons_buf = replicate 126 0 @ [104, 105], cons_r = - 2, cons_w = - 2, cons_e = 0,
      devsw = replicate 10 None\<rparr>"

lemma demo_cons_facts:
  "cons_lock demo_cons = initlock ''cons''" "\<not> panicked demo_cons" "uart_lsr demo_cons = replicate 9 True" "procs demo_cons = procs demo_fs"
  "kcpu demo_cons = boot_cpu" "cons_buf demo_cons = replicate 126 0 @ [104, 105]" "cons_r demo_cons = - 2" "cons_w demo_cons = - 2" "cons_e demo_cons = 0"
  using demo_fs_facts(4) by (simp_all add: demo_cons_def fsst.defs)

lemma demo_cons_view: "cons_view demo_cons = ([], [104, 105])"
proof -
  have "unat (- 2 :: u32) = 4294967294" by (simp add: unat_word_ariths)
  moreover have "[0..<2] = [0, 1 :: nat]" by (simp add: upt_rec)
  ultimately show ?thesis by (simp add: cons_view_def demo_cons_facts arc_def nth_append)
qed

lemma demo_cons_pinv: "pinv demo_cons"
proof -
  have "pinv demo_fs" using demo_fs_txn by (auto simp: in_txn_def cache_rel_def log_open_def)
  then show ?thesis by (simp add: pinv_def demo_cons_facts)
qed

lemma consoleintr_refines_witness:
  "\<exists>t. consoleintr 13 demo_cons = Inr ((), t) \<and> cons_view t = ([104, 105, 10], [])"
proof -
  have "cons_inv demo_cons" by (simp add: cons_inv_def demo_cons_view) (simp add: demo_cons_facts)
  then show ?thesis
    using consoleintr_refines [of demo_cons 13] demo_cons_pinv by (auto simp: demo_cons_facts demo_cons_view edit_line_def idle_count_def initlock_def)
qed

end
