(* ===== verification/Uart_Spec.thy ===== *)
theory Uart_Spec
  imports Console_Spec
begin

text \<open>
  The transmit side of the serial line, \<^verbatim>\<open>kernel/uart.c\<close>: the buffer is a bounded queue, and the characters reach the device in the order in
  which \<^verbatim>\<open>uartputc\<close> was called.
\<close>

section \<open>The transmit buffer of the serial line\<close>

definition tx_ok :: "'z uartst_scheme \<Rightarrow> bool" where
  "tx_ok s \<longleftrightarrow> length (uart_tx_buf s) = UART_TX_BUF_SIZE \<and> unat (uart_tx_w s - uart_tx_r s) \<le> UART_TX_BUF_SIZE"

definition tx_contents :: "'z uartst_scheme \<Rightarrow> u8 list" where
  "tx_contents s = arc UART_TX_BUF_SIZE (uart_tx_buf s) (unat (uart_tx_r s)) (unat (uart_tx_w s - uart_tx_r s))"

lemma tx_mod: "unat (a mod 32 :: u64) = unat a mod 32" "(32 :: nat) dvd 2 ^ LENGTH(64)"
  by (simp_all add: unat_mod)

lemma tx_put_contents:
  assumes "tx_ok s" "unat (uart_tx_w s - uart_tx_r s) < UART_TX_BUF_SIZE"
  shows "tx_ok (tx_put c s) \<and> tx_contents (tx_put c s) = tx_contents s @ [c]"
proof -
  let ?n = "unat (uart_tx_w s - uart_tx_r s)"
  have i: "unat (uart_tx_w s mod 32) = (unat (uart_tx_r s) + ?n) mod 32"
    using counter_mod [OF tx_mod(2), of "uart_tx_w s" "uart_tx_r s"] by (simp add: tx_mod)
  have n: "unat (uart_tx_w s + 1 - uart_tx_r s) = Suc ?n" using counter_succ [OF assms(2)] by simp
  then show ?thesis using assms by (simp add: tx_ok_def tx_contents_def tx_put_def n i arc_store)
qed

lemma tx_get_contents:
  assumes "tx_ok s" "uart_tx_w s \<noteq> uart_tx_r s" "tx_get s = (c, t)"
  shows "tx_ok t \<and> tx_contents s = c # tx_contents t"
proof -
  obtain n where n: "unat (uart_tx_w s - uart_tx_r s) = Suc n"
    using assms(2) by (cases "unat (uart_tx_w s - uart_tx_r s)") (auto simp: unat_eq_0)
  have m: "unat (uart_tx_w s - (uart_tx_r s + 1)) = n"
    using unat_minus_one [of "uart_tx_w s - uart_tx_r s"] assms(2) n by (simp add: algebra_simps)
  have r: "unat (uart_tx_r s + 1) mod 32 = Suc (unat (uart_tx_r s)) mod 32" using unat_add_mod [OF tx_mod(2), of "uart_tx_r s" 1] by simp
  have t: "c = uart_tx_buf s ! (unat (uart_tx_r s) mod 32)" "t = s\<lparr>uart_tx_r := uart_tx_r s + 1\<rparr>" using assms(3) by (auto simp: tx_get_def tx_mod)
  have "arc 32 (uart_tx_buf s) (Suc (unat (uart_tx_r s))) n = arc 32 (uart_tx_buf s) (unat (uart_tx_r s + 1)) n"
    by (rule arc_mod) (rule r [symmetric])
  then show ?thesis using assms(1) n m t by (simp add: tx_ok_def tx_contents_def arc_Cons)
qed

interpretation txq: bounded_fifo tx_put tx_get tx_full tx_empty tx_contents UART_TX_BUF_SIZE tx_ok
proof
  fix s :: "'z uartst_scheme" assume ok: "tx_ok s"
  have "uart_tx_w s = uart_tx_r s + 32 \<longleftrightarrow> uart_tx_w s - uart_tx_r s = 32" by (auto simp: algebra_simps)
  also have "\<dots> \<longleftrightarrow> unat (uart_tx_w s - uart_tx_r s) = 32" by (simp add: word_unat_eq_iff)
  finally show f: "tx_full s \<longleftrightarrow> length (tx_contents s) = UART_TX_BUF_SIZE" by (simp add: tx_full_def tx_contents_def)
  show e: "tx_empty s \<longleftrightarrow> tx_contents s = []" by (simp add: tx_empty_def tx_contents_def arc_def unat_eq_0)
  show "length (tx_contents s) \<le> UART_TX_BUF_SIZE" using ok by (simp add: tx_ok_def tx_contents_def)
  show "tx_ok (tx_put c s) \<and> tx_contents (tx_put c s) = tx_contents s @ [c]" if "\<not> tx_full s" for c
    using tx_put_contents [OF ok] that f ok by (simp add: tx_contents_def tx_ok_def)
  show "tx_ok t \<and> tx_contents s = c # tx_contents t" if "\<not> tx_empty s" "tx_get s = (c, t)" for c t
    using tx_get_contents [OF ok _ that(2)] that(1) by (simp add: tx_empty_def)
qed

text \<open>the characters that have been written to the transmit register \<^verbatim>\<open>THR\<close>\<close>

definition sent :: "'z uartst_scheme \<Rightarrow> u8 list" where
  "sent s = map snd (filter (\<lambda>(r, v). r = 0) (uart_writes s))"

lemma uartstart_loop_run:
  "tx_ok s \<Longrightarrow> pinv s \<Longrightarrow> noff (kcpu s) \<noteq> 0 \<Longrightarrow>
   \<exists>t. uartstart_loop (uart_lsr s) s = Inr ((), t) \<and> tx_ok t \<and> pinv t \<and> sent t @ tx_contents t = sent s @ tx_contents s \<and>
     kcpu t = kcpu s \<and> uart_tx_lock t = uart_tx_lock s \<and> length (tx_contents t) \<le> length (tx_contents s) \<and>
     (uart_lsr s \<noteq> [] \<longrightarrow> hd (uart_lsr s) \<longrightarrow> tx_contents s \<noteq> [] \<longrightarrow> length (tx_contents t) < length (tx_contents s))"
proof (induction "uart_lsr s" arbitrary: s)
  case Nil
  show ?case unfolding Nil.hyps [symmetric] using Nil.prems by simp
next
  case (Cons b l)
  note lsr = Cons.hyps(2) [symmetric]
  show ?case
  proof (cases "tx_empty s \<or> \<not> b")
    case True
    show ?thesis
    proof (cases "tx_empty s")
      case True then show ?thesis using Cons.prems lsr txq.empty_iff [OF Cons.prems(1)] by simp
    next
      case False
      then have "\<not> b" using True by simp
      let ?t = "s\<lparr>uart_lsr := l\<rparr>"
      have "uartstart_loop (uart_lsr s) s = Inr ((), ?t)" using False \<open>\<not> b\<close> lsr by (simp add: tx_idle_def run_simps)
      then show ?thesis using Cons.prems lsr \<open>\<not> b\<close> by (simp add: tx_ok_def tx_contents_def sent_def pinv_def)
    qed
  next
    case False
    obtain c s1 where g: "tx_get (s\<lparr>uart_lsr := l\<rparr>) = (c, s1)" by fastforce
    have ok0: "tx_ok (s\<lparr>uart_lsr := l\<rparr>)" "tx_contents (s\<lparr>uart_lsr := l\<rparr>) = tx_contents s" using Cons.prems(1) by (simp_all add: tx_ok_def tx_contents_def)
    have s1: "s1 = s\<lparr>uart_lsr := l, uart_tx_r := uart_tx_r s + 1\<rparr>" using g by (auto simp: tx_get_def)
    have c: "tx_ok s1" "tx_contents s = c # tx_contents s1"
      using tx_get_contents [OF ok0(1) _ g] False ok0(2) by (auto simp: tx_empty_def)
    have p1: "pinv s1" using Cons.prems(2) s1 by (simp add: pinv_def)
    let ?s2 = "s1\<lparr>procs := wake_from UartChan (curproc s1) 0 (procs s1), kcpu := after_section (kcpu s1), uart_writes := uart_writes s1 @ [(0, c)]\<rparr>"
    have st: "uartstart_loop (uart_lsr s) s = uartstart_loop (uart_lsr ?s2) ?s2"
      using False lsr g s1 wakeup_eq [OF p1, of UartChan] by (simp add: tx_idle_def run_simps WriteReg_def run_def)
    have k: "kcpu s1 = kcpu s" "after_section (kcpu s) = kcpu s" using s1 Cons.prems(3) after_section_nested by simp_all
    have i2: "tx_ok ?s2" "pinv ?s2" "noff (kcpu ?s2) \<noteq> 0" "l = uart_lsr ?s2"
      using c(1) pinv_wakeup [OF p1, of UartChan "curproc s1" 0] Cons.prems(3) k s1 by (simp_all add: tx_ok_def pinv_def)
    have e2: "tx_contents ?s2 = tx_contents s1" "sent ?s2 = sent s @ [c]" "uart_tx_lock ?s2 = uart_tx_lock s" "kcpu ?s2 = kcpu s"
      using s1 k by (simp_all add: tx_contents_def sent_def)
    obtain t where t: "uartstart_loop (uart_lsr ?s2) ?s2 = Inr ((), t)" "tx_ok t" "pinv t" "sent t @ tx_contents t = sent ?s2 @ tx_contents ?s2"
      "kcpu t = kcpu ?s2" "uart_tx_lock t = uart_tx_lock ?s2" "length (tx_contents t) \<le> length (tx_contents ?s2)"
      using Cons.hyps(1) [OF i2(4,1,2,3)] by blast
    show ?thesis by (intro exI [of _ t] conjI) (use t st e2 c(2) in auto)
  qed
qed

section \<open>Properties\<close>

text \<open>
  C21. \<^verbatim>\<open>uartputc\<close> delivers in order: on a transmit buffer with room it returns, and the characters written to the device's
  transmit register so far, followed by those in the 32-byte ring, are what they were with the new character at the end: none is lost, repeated or
  overtaken, however often the device said that it was ready, and wherever the 64-bit counters stand. On a full buffer the caller goes to sleep.
\<close>
theorem uartputc_in_order:
  assumes "tx_ok s" "pinv s" "\<not> locked (uart_tx_lock s)" "\<not> panicked s"
  shows "(length (tx_contents s) = UART_TX_BUF_SIZE \<longrightarrow> uartputc c s = Inl (Sleep UartChan)) \<and>
    (length (tx_contents s) < UART_TX_BUF_SIZE \<longrightarrow>
      (\<exists>t. uartputc c s = Inr ((), t) \<and> tx_ok t \<and> pinv t \<and> \<not> locked (uart_tx_lock t) \<and>
         sent t @ tx_contents t = sent s @ tx_contents s @ [c] \<and>
         (uart_lsr s \<noteq> [] \<and> hd (uart_lsr s) \<longrightarrow> length (tx_contents t) \<le> length (tx_contents s))))"
proof -
  let ?s = "s\<lparr>kcpu := push_off (kcpu s), uart_tx_lock := held (uart_tx_lock s) (kcpu s)\<rparr>"
  have ok: "cpu_ok (kcpu s)" using assms(2) by (simp add: pinv_def)
  have i: "tx_ok ?s" "tx_contents ?s = tx_contents s" "sent ?s = sent s" "tx_full ?s = tx_full s" using assms(1) by (simp_all add: tx_ok_def tx_contents_def sent_def tx_full_def)
  have p: "pinv ?s" using assms(2) ok push_off_ok by (simp add: pinv_def)
  have full: "uartputc c s = Inl (Sleep UartChan)" if "length (tx_contents s) = 32"
  proof -
    have "tx_full s" using that txq.full_iff [OF assms(1)] by simp
    then show ?thesis unfolding uartputc_def by (intro critical_fault) (use assms(3,4) i(4) in \<open>simp_all add: run_simps\<close>)
  qed
  have room: "\<exists>t. uartputc c s = Inr ((), t) \<and> tx_ok t \<and> pinv t \<and> \<not> locked (uart_tx_lock t) \<and>
      sent t @ tx_contents t = sent s @ tx_contents s @ [c] \<and>
      (uart_lsr s \<noteq> [] \<and> hd (uart_lsr s) \<longrightarrow> length (tx_contents t) \<le> length (tx_contents s))" if r: "length (tx_contents s) < 32"
  proof -
    have nf: "\<not> tx_full s" using r txq.full_iff [OF assms(1)] by simp
    let ?s1 = "tx_put c ?s"
    have q: "tx_ok ?s1" "tx_contents ?s1 = tx_contents s @ [c]" using txq.put_contents [OF i(1)] i(2,4) nf by auto
    have f1: "pinv ?s1" "sent ?s1 = sent s" "kcpu ?s1 = push_off (kcpu s)" "uart_tx_lock ?s1 = held (uart_tx_lock s) (kcpu s)" "uart_lsr ?s1 = uart_lsr s"
      using p i(3) by (simp_all add: tx_put_def pinv_def sent_def)
    have nz: "noff (kcpu ?s1) \<noteq> 0" using ok f1(3) by (simp add: cpu_ok_def)
    obtain t where t: "uartstart_loop (uart_lsr ?s1) ?s1 = Inr ((), t)" "tx_ok t" "pinv t" "sent t @ tx_contents t = sent s @ tx_contents s @ [c]"
      "kcpu t = push_off (kcpu s)" "uart_tx_lock t = held (uart_tx_lock s) (kcpu s)"
      "uart_lsr s \<noteq> [] \<and> hd (uart_lsr s) \<longrightarrow> length (tx_contents t) < length (tx_contents s @ [c])"
      using uartstart_loop_run [OF q(1) f1(1) nz] f1 q(2) by auto
    let ?t = "t\<lparr>kcpu := after_section (kcpu s), uart_tx_lock := freed (uart_tx_lock s)\<rparr>"
    have "uartputc c s = Inr ((), ?t)" unfolding uartputc_def
      by (subst critical_free [where t = t and r = "()"]) (use assms(3,4) ok t nf i(4) in \<open>simp_all add: run_simps uartstart_def\<close>)
    moreover have "tx_ok ?t = tx_ok t" "tx_contents ?t = tx_contents t" "sent ?t = sent t" "pinv ?t" using t(3) ok by (simp_all add: tx_ok_def tx_contents_def sent_def pinv_def)
    ultimately show ?thesis using t by (intro exI [of _ ?t]) auto
  qed
  show ?thesis using full room by blast
qed

lemma uartputc_in_order_witness:
  "\<exists>t. uartputc 65 demo_cons = Inr ((), t) \<and> sent t @ tx_contents t = [65]"
proof -
  have d: "uart_tx_lock demo_cons = initlock ''uart''" "uart_tx_w demo_cons = 0" "uart_tx_r demo_cons = 0" "length (uart_tx_buf demo_cons) = 32" "uart_writes demo_cons = []"
    by (simp_all add: demo_cons_def fsst.defs)
  have "tx_ok demo_cons" by (simp add: tx_ok_def d)
  moreover have "tx_contents demo_cons = []" "sent demo_cons = []" by (simp_all add: tx_contents_def sent_def d)
  ultimately show ?thesis using uartputc_in_order [of demo_cons 65] demo_cons_pinv demo_cons_facts d by (auto simp: initlock_def)
qed

end
