(* ===== verification/Virtio_Spec.thy ===== *)
theory Virtio_Spec
  imports Virtio Fs_Spec
begin

text \<open>
  The disk driver carries out what the buffer cache asks for. One request, from \<^verbatim>\<open>virtio_disk_rw\<close> to the wait, through the device and the interrupt
  handler, to the end of \<^verbatim>\<open>virtio_disk_rw\<close>, has the effect of \<open>disk_rw\<close>, by which the cache is modelled, and gives its descriptors back.
  The device is a parameter; what the driver relies on is that it serves a chain of three descriptors as the specification of virtio
  block devices says (\<open>serves\<close>).
\<close>

section \<open>What the device does\<close>

text \<open>
  \<open>completed i b write n s\<close>: the request whose first descriptor is \<open>i\<close> has been carried out on buffer \<open>b\<close> and block \<open>n\<close>, its status byte is zero
  and it is in the used ring.
\<close>

definition completed :: "nat \<Rightarrow> nat \<Rightarrow> bool \<Rightarrow> u32 \<Rightarrow> 'z vdst_scheme \<Rightarrow> 'z vdst_scheme" where
  "completed i b write n s =
     (let s = (if write then s\<lparr>disk := (disk s)(n := bdata (bufs s ! b)), writes := writes s @ [(n, bdata (bufs s ! b))]\<rparr>
               else upd_buf b (\<lambda>x. x\<lparr>bdata := disk s n\<rparr>) s)
      in s\<lparr>info_status := (info_status s)[i := 0], used_ring := (used_ring s)[unat (used_count s mod 8) := of_nat i], used_count := used_count s + 1\<rparr>)"

text \<open>
  The request at the end of the ring of available ones: a header, a buffer, and a status byte. A sector is half a block.
\<close>

definition pending :: "nat \<Rightarrow> nat \<Rightarrow> bool \<Rightarrow> u32 \<Rightarrow> 'z vdst_scheme \<Rightarrow> bool" where
  "pending i b write n s \<longleftrightarrow>
     (let d0 = descs s ! i; d1 = descs s ! unat (vd_next d0); d2 = descs s ! unat (vd_next d1) in
      i < NUM \<and> b < length (bufs s) \<and> avail_idx s = used_count s + 1 \<and> avail_ring s ! unat (used_count s mod 8) = of_nat i \<and>
      vd_addr d0 = OpsPtr i \<and> vd_len d0 = 16 \<and> vd_flags d0 = VRING_DESC_F_NEXT \<and>
      vd_addr d1 = DataPtr b \<and> vd_len d1 = of_nat BSIZE \<and> vd_flags d1 = (if write then 0 else VRING_DESC_F_WRITE) OR VRING_DESC_F_NEXT \<and>
      vd_addr d2 = StatusPtr i \<and> vd_len d2 = 1 \<and> vd_flags d2 = VRING_DESC_F_WRITE \<and>
      req_type (ops s ! i) = (if write then 1 else 0) \<and> req_sector (ops s ! i) = 2 * ucast n)"

definition serves :: "('z vdst_scheme \<Rightarrow> 'z vdst_scheme) \<Rightarrow> bool" where
  "serves dev \<longleftrightarrow> (\<forall>i b write n s. pending i b write n s \<longrightarrow> dev s = completed i b write n s)"

text \<open>
  \<^verbatim>\<open>virtio_disk_rw\<close> with the device and its interrupt where the process sleeps; \<^verbatim>\<open>sleep\<close> gives the lock up and takes it again.
\<close>

definition virtio_request :: "('z vdst_scheme \<Rightarrow> 'z vdst_scheme) \<Rightarrow> u32 \<Rightarrow> nat \<Rightarrow> bool \<Rightarrow> ('z vdst_scheme, unit) kroutine" where
  "virtio_request dev st b write =
     bind (virtio_disk_submit b write) (\<lambda>i0.
     bind release_vdisk (\<lambda>_.
     bind (modify dev) (\<lambda>_.
     bind (virtio_disk_intr st) (\<lambda>_.
     bind acquire_vdisk (\<lambda>_.
     virtio_disk_finish b i0)))))"

section \<open>Descriptors\<close>

definition free_count :: "bool list \<Rightarrow> nat" where
  "free_count l = length (filter id l)"

lemma free_count_update: "i < length l \<Longrightarrow> l ! i \<Longrightarrow> free_count (l[i := False]) + 1 = free_count l"
proof (induction l arbitrary: i)
  case (Cons b l) then show ?case by (cases i) (auto simp: free_count_def)
qed simp

lemma find_free:
  assumes "Suc k \<le> free_count l"
  shows "\<exists>i. find_index (\<lambda>f. f) l = Some i \<and> i < length l \<and> l ! i \<and> k \<le> free_count (l[i := False])"
proof -
  have "filter id l \<noteq> []" using assms by (auto simp: free_count_def)
  then have "\<exists>x \<in> set l. x" by (simp add: filter_empty_conv)
  then have "find_index (\<lambda>f. f) l \<noteq> None" using find_index_None [of "\<lambda>f. f" l] by simp
  then obtain i where i: "find_index (\<lambda>f. f) l = Some i" by blast
  have "i < length l" "l ! i" using find_index_SomeD [OF i] by auto
  then show ?thesis using i free_count_update [of i l] assms by auto
qed

lemma alloc3_desc_run:
  assumes "3 \<le> free_count (desc_free s)"
  shows "\<exists>i0 i1 i2. alloc3_desc s = Inr (Some (i0, i1, i2), s\<lparr>desc_free := (desc_free s)[i0 := False, i1 := False, i2 := False]\<rparr>) \<and>
    distinct [i0, i1, i2] \<and> {i0, i1, i2} \<subseteq> {..<length (desc_free s)} \<and> desc_free s ! i0 \<and> desc_free s ! i1 \<and> desc_free s ! i2"
proof -
  let ?l = "desc_free s"
  obtain i0 where 0: "find_index (\<lambda>f. f) ?l = Some i0" "i0 < length ?l" "?l ! i0" "2 \<le> free_count (?l[i0 := False])"
    using find_free [of 2 ?l] assms by auto
  obtain i1 where 1: "find_index (\<lambda>f. f) (?l[i0 := False]) = Some i1" "i1 < length ?l" "?l[i0 := False] ! i1" "1 \<le> free_count (?l[i0 := False, i1 := False])"
    using find_free [of 1 "?l[i0 := False]"] 0(4) by auto
  obtain i2 where 2: "find_index (\<lambda>f. f) (?l[i0 := False, i1 := False]) = Some i2" "i2 < length ?l" "?l[i0 := False, i1 := False] ! i2"
    using find_free [of 0 "?l[i0 := False, i1 := False]"] 1(4) by auto
  have d: "i1 \<noteq> i0" "?l ! i1" using 0(2) 1(3) by (auto simp: nth_list_update split: if_splits)
  have e: "i2 \<noteq> i0" "i2 \<noteq> i1" "?l ! i2" using 0(2) 1(2) 2(3) by (auto simp: nth_list_update split: if_splits)
  let ?s0 = "s\<lparr>desc_free := ?l[i0 := False]\<rparr>" and ?s1 = "s\<lparr>desc_free := ?l[i0 := False, i1 := False]\<rparr>"
  have "alloc_desc s = Inr (Some i0, ?s0)" unfolding alloc_desc_def 0(1) by simp
  moreover have "alloc_desc ?s0 = Inr (Some i1, ?s1)" unfolding alloc_desc_def by (simp add: 1(1))
  moreover have "alloc_desc ?s1 = Inr (Some i2, s\<lparr>desc_free := ?l[i0 := False, i1 := False, i2 := False]\<rparr>)"
    unfolding alloc_desc_def by (simp add: 2(1))
  ultimately have "alloc3_desc s = Inr (Some (i0, i1, i2), s\<lparr>desc_free := ?l[i0 := False, i1 := False, i2 := False]\<rparr>)"
    unfolding alloc3_desc_def bind_def by (simp add: ret_def)
  then show ?thesis using d e 0(2,3) 1(2) 2(2) by (intro exI [of _ i0] exI [of _ i1] exI [of _ i2] conjI) auto
qed

text \<open>The lists that driver and device share have their lengths.\<close>

definition rings_ok :: "'z vdst_scheme \<Rightarrow> bool" where
  "rings_ok s \<longleftrightarrow> length (descs s) = NUM \<and> length (avail_ring s) = NUM \<and> length (used_ring s) = NUM \<and> length (desc_free s) = NUM \<and>
     length (info_b s) = NUM \<and> length (info_status s) = NUM \<and> length (ops s) = NUM"

text \<open>What freeing descriptors leaves as it is.\<close>

definition kept :: "'z vdst_scheme \<Rightarrow> 'z vdst_scheme \<Rightarrow> bool" where
  "kept s t \<longleftrightarrow> pinv t \<and> kcpu t = kcpu s \<and> vdisk_lock t = vdisk_lock s \<and> bufs t = bufs s \<and> disk t = disk s \<and> writes t = writes s \<and>
     used_idx t = used_idx s \<and> used_count t = used_count s \<and> avail_idx t = avail_idx s \<and> rings_ok t = rings_ok s"

lemma free_desc_run:
  assumes "i < NUM" "\<not> desc_free s ! i" "pinv s" "noff (kcpu s) \<noteq> 0"
  shows "\<exists>t. free_desc i s = Inr ((), t) \<and> kept s t \<and> descs t = (descs s)[i := blank_desc] \<and> desc_free t = (desc_free s)[i := True]"
proof -
  let ?s = "s\<lparr>descs := (descs s)[i := blank_desc], desc_free := (desc_free s)[i := True]\<rparr>"
  have p: "pinv ?s" using assms(3) by (simp add: pinv_def)
  have a: "after_section (kcpu s) = kcpu s" using assms(4) by (simp add: after_section_def)
  let ?t = "?s\<lparr>procs := wake_from DescChan (curproc ?s) 0 (procs ?s), kcpu := after_section (kcpu ?s)\<rparr>"
  have "free_desc i s = Inr ((), ?t)" using assms(1,2) wakeup_eq [OF p, of DescChan] by (simp add: free_desc_def run_simps run_def)
  moreover have "pinv ?t" by (rule pinv_wakeup [OF p])
  ultimately show ?thesis using a by (intro exI [of _ ?t]) (simp add: kept_def rings_ok_def)
qed

lemma free_chain_step:
  assumes "i < NUM" "free_desc i s = Inr ((), t)"
  shows "vd_flags (descs s ! i) AND VRING_DESC_F_NEXT \<noteq> 0 \<Longrightarrow> vd_next (descs s ! i) = of_nat j \<Longrightarrow> j < NUM \<Longrightarrow>
      free_chain (Suc k) i s = free_chain k j t"
    and "vd_flags (descs s ! i) AND VRING_DESC_F_NEXT = 0 \<Longrightarrow> free_chain (Suc k) i s = Inr ((), t)"
  using assms by (simp_all add: run_simps unat_of_nat)

text \<open>A chain of three is given back whole.\<close>

lemma free_chain_run:
  assumes "i0 < NUM" "i1 < NUM" "i2 < NUM" "distinct [i0, i1, i2]" "pinv s" "noff (kcpu s) \<noteq> 0"
    and "\<not> desc_free s ! i0" "\<not> desc_free s ! i1" "\<not> desc_free s ! i2"
    and "vd_flags (descs s ! i0) AND VRING_DESC_F_NEXT \<noteq> 0" "vd_next (descs s ! i0) = of_nat i1"
    and "vd_flags (descs s ! i1) AND VRING_DESC_F_NEXT \<noteq> 0" "vd_next (descs s ! i1) = of_nat i2"
    and "vd_flags (descs s ! i2) AND VRING_DESC_F_NEXT = 0"
  shows "\<exists>t. free_chain (Suc NUM) i0 s = Inr ((), t) \<and> kept s t \<and> desc_free t = (desc_free s)[i0 := True, i1 := True, i2 := True]"
proof -
  obtain t0 where t0: "free_desc i0 s = Inr ((), t0)" "kept s t0" "descs t0 = (descs s)[i0 := blank_desc]" "desc_free t0 = (desc_free s)[i0 := True]"
    using free_desc_run [OF assms(1,7,5,6)] by blast
  have a: "\<not> desc_free t0 ! i1" "pinv t0" "noff (kcpu t0) \<noteq> 0" using t0 assms by (auto simp: kept_def)
  obtain t1 where t1: "free_desc i1 t0 = Inr ((), t1)" "kept t0 t1" "descs t1 = (descs t0)[i1 := blank_desc]" "desc_free t1 = (desc_free t0)[i1 := True]"
    using free_desc_run [OF assms(2) a] by blast
  have b: "\<not> desc_free t1 ! i2" "pinv t1" "noff (kcpu t1) \<noteq> 0" using t0 t1 assms by (auto simp: kept_def)
  obtain t2 where t2: "free_desc i2 t1 = Inr ((), t2)" "kept t1 t2" "desc_free t2 = (desc_free t1)[i2 := True]"
    using free_desc_run [OF assms(3) b] by blast
  have d: "descs t0 ! i1 = descs s ! i1" "descs t1 ! i2 = descs s ! i2" using t0(3) t1(3) assms(4) by auto
  have "free_chain (Suc NUM) i0 s = free_chain 8 i1 t0" using free_chain_step(1) [OF assms(1) t0(1) assms(10,11,2)] .
  also have "\<dots> = free_chain (Suc 7) i1 t0" by simp
  also have "\<dots> = free_chain 7 i2 t1" using free_chain_step(1) [OF assms(2) t1(1) _ _ assms(3), of 7] assms(12,13) d(1) by simp
  also have "\<dots> = free_chain (Suc 6) i2 t1" by simp
  also have "\<dots> = Inr ((), t2)" using free_chain_step(2) [OF assms(3) t2(1), of 6] assms(14) d(2) by simp
  finally show ?thesis using t0(2,4) t1(2,4) t2(2,3) by (intro exI [of _ t2] conjI) (simp_all add: kept_def)
qed

section \<open>One request\<close>

text \<open>The request of buffer \<open>b\<close> has the chain \<open>i0, i1, i2\<close>.\<close>

definition chained :: "nat \<Rightarrow> nat \<Rightarrow> nat \<Rightarrow> nat \<Rightarrow> 'z vdst_scheme \<Rightarrow> bool" where
  "chained i0 i1 i2 b s \<longleftrightarrow> rings_ok s \<and> i0 < NUM \<and> i1 < NUM \<and> i2 < NUM \<and> distinct [i0, i1, i2] \<and> info_b s ! i0 = Some b \<and>
     vd_flags (descs s ! i0) AND VRING_DESC_F_NEXT \<noteq> 0 \<and> vd_next (descs s ! i0) = of_nat i1 \<and>
     vd_flags (descs s ! i1) AND VRING_DESC_F_NEXT \<noteq> 0 \<and> vd_next (descs s ! i1) = of_nat i2 \<and>
     vd_flags (descs s ! i2) AND VRING_DESC_F_NEXT = 0"

lemma unat_widen: "unat (ucast (n :: u32) :: u64) = unat n"
proof -
  have "unat n < 2 ^ 64" using unsigned_less [of n, where 'a = nat] by (rule less_trans) simp
  then show ?thesis by (simp add: unsigned_ucast_eq take_bit_nat_eq_self)
qed

lemma sector_of:
  assumes "unat (n :: u32) < 2 ^ 31"
  shows "(ucast (n * 2) :: u64) = 2 * ucast n"
proof -
  have "unat (n * 2) = unat n * 2" using assms unat_mult_lem [of n 2] by simp
  moreover have "unat (2 * ucast n :: u64) = 2 * unat n" using assms unat_mult_lem [of 2 "ucast n :: u64"] by (simp add: unat_widen)
  ultimately show ?thesis by (intro word_unat_eq_iff [THEN iffD2]) (simp only: unat_widen mult.commute)
qed

lemma vdisk_lock_run:
  assumes "clean (vdisk_lock s)" "cpu_ok (kcpu s)"
  shows "acquire_vdisk s = Inr ((), s\<lparr>kcpu := push_off (kcpu s), vdisk_lock := held (vdisk_lock s) (kcpu s)\<rparr>)"
    and "vdisk_lock t = held (vdisk_lock s) (kcpu s) \<Longrightarrow> kcpu t = push_off (kcpu s) \<Longrightarrow>
      release_vdisk t = Inr ((), t\<lparr>kcpu := after_section (kcpu s), vdisk_lock := vdisk_lock s\<rparr>)"
proof -
  show "acquire_vdisk s = Inr ((), s\<lparr>kcpu := push_off (kcpu s), vdisk_lock := held (vdisk_lock s) (kcpu s)\<rparr>)"
    using assms by (simp add: acquire_vdisk_def run_def acquire_free held_def)
  assume t: "vdisk_lock t = held (vdisk_lock s) (kcpu s)" "kcpu t = push_off (kcpu s)"
  have "freed (vdisk_lock s) = vdisk_lock s" using assms(1) by simp
  then show "release_vdisk t = Inr ((), t\<lparr>kcpu := after_section (kcpu s), vdisk_lock := vdisk_lock s\<rparr>)"
    using assms(2) t by (simp add: release_vdisk_def run_def release_acquired held_def freed_def)
qed

lemma submit_run:
  assumes "pinv s" "clean (vdisk_lock s)" "rings_ok s" "3 \<le> free_count (desc_free s)"
    and "avail_idx s = used_count s" "b < length (bufs s)" "unat (blockno (bufs s ! b)) < 2 ^ 31"
  shows "\<exists>i0 i1 i2 t. virtio_disk_submit b write s = Inr (i0, t) \<and> chained i0 i1 i2 b t \<and>
    desc_free t = (desc_free s)[i0 := False, i1 := False, i2 := False] \<and> desc_free s ! i0 \<and> desc_free s ! i1 \<and> desc_free s ! i2 \<and>
    pending i0 b write (blockno (bufs s ! b)) t \<and> bufs t = (bufs s)[b := (bufs s ! b)\<lparr>bdisk := True\<rparr>] \<and>
    disk t = disk s \<and> writes t = writes s \<and> used_idx t = used_idx s \<and> used_count t = used_count s \<and>
    procs t = procs s \<and> vdisk_lock t = held (vdisk_lock s) (kcpu s) \<and> kcpu t = push_off (kcpu s)"
proof -
  have cpu: "cpu_ok (kcpu s)" using assms(1) by (simp add: pinv_def)
  let ?s0 = "s\<lparr>kcpu := push_off (kcpu s), vdisk_lock := held (vdisk_lock s) (kcpu s)\<rparr>"
  obtain i0 i1 i2 where i: "alloc3_desc ?s0 = Inr (Some (i0, i1, i2), ?s0\<lparr>desc_free := (desc_free s)[i0 := False, i1 := False, i2 := False]\<rparr>)"
      "distinct [i0, i1, i2]" "{i0, i1, i2} \<subseteq> {..<NUM}" "desc_free s ! i0" "desc_free s ! i1" "desc_free s ! i2"
    using alloc3_desc_run [of ?s0] assms(3,4) by (auto simp: rings_ok_def)
  let ?s1 = "?s0\<lparr>desc_free := (desc_free s)[i0 := False, i1 := False, i2 := False]\<rparr>"
  define t where "t = (\<lambda>x. x\<lparr>mmio := mmio x @ [(0x050, 0)]\<rparr>) (publish_request b i0 (format_request b write (i0, i1, i2) ?s1))"
  have run: "virtio_disk_submit b write s = Inr (i0, t)"
    using i(1) vdisk_lock_run(1) [OF assms(2) cpu] by (simp add: virtio_disk_submit_def run_simps mmio_write_def t_def)
  note t = t_def format_request_def publish_request_def upd_buf_def Let_def
  have f: "desc_free t = (desc_free s)[i0 := False, i1 := False, i2 := False]" "bufs t = (bufs s)[b := (bufs s ! b)\<lparr>bdisk := True\<rparr>]"
    "disk t = disk s" "writes t = writes s" "used_idx t = used_idx s" "used_count t = used_count s" "procs t = procs s"
    "vdisk_lock t = held (vdisk_lock s) (kcpu s)" "kcpu t = push_off (kcpu s)"
    by (simp_all add: t)
  have m: "unat (used_count s mod 8) < 8" by (simp add: unat_mod)
  have u: "unat (of_nat i1 :: u16) = i1" "unat (of_nat i2 :: u16) = i2" using i(3) by (simp_all add: unat_of_nat)
  have "chained i0 i1 i2 b t" using assms(3) i(2,3) by (auto simp: chained_def rings_ok_def t)
  moreover have "pending i0 b write (blockno (bufs s ! b)) t"
    using assms(3,5-7) i(2,3) m u by (auto simp: pending_def rings_ok_def sector_of t)
  ultimately show ?thesis using run f i(4-6) by blast
qed

text \<open>The interrupt handler finds the one finished request, and its buffer is no longer the disk's.\<close>

definition one_used :: "nat \<Rightarrow> nat \<Rightarrow> 'z vdst_scheme \<Rightarrow> bool" where
  "one_used i b s \<longleftrightarrow> i < NUM \<and> used_count s = used_idx s + 1 \<and> used_ring s ! unat (used_idx s mod 8) = of_nat i \<and>
     info_status s ! i = 0 \<and> info_b s ! i = Some b"

lemma drain_used_done: "used_idx s = used_count s \<Longrightarrow> drain_used k s = Inr ((), s)"
  by (subst drain_used.simps) simp

lemma drain_used_one:
  assumes "one_used i b s" "pinv s" "noff (kcpu s) \<noteq> 0"
  shows "drain_used (Suc k) s =
    Inr ((), s\<lparr>procs := wake_from (DiskChan b) (curproc s) 0 (procs s), bufs := (bufs s)[b := (bufs s ! b)\<lparr>bdisk := False\<rparr>], used_idx := used_idx s + 1\<rparr>)"
proof -
  have u: "unat (of_nat i :: u32) = i" using assms(1) by (simp add: one_used_def unat_of_nat)
  have ne: "used_idx s \<noteq> used_count s" using assms(1) by (simp add: one_used_def)
  let ?s = "upd_buf b (\<lambda>x. x\<lparr>bdisk := False\<rparr>) s"
  have p: "pinv ?s" using assms(2) by (simp add: pinv_def upd_buf_def)
  have a: "after_section (kcpu s) = kcpu s" using assms(3) by (simp add: after_section_def)
  show ?thesis using assms(1) u ne a wakeup_eq [OF p, of "DiskChan b"]
    by (subst drain_used.simps) (simp add: one_used_def Let_def run_simps run_def upd_buf_def drain_used_done)
qed

lemma intr_run:
  assumes "one_used i b s" "pinv s" "clean (vdisk_lock s)"
  shows "\<exists>t. virtio_disk_intr st s = Inr ((), t) \<and> pinv t \<and> bufs t = (bufs s)[b := (bufs s ! b)\<lparr>bdisk := False\<rparr>] \<and>
    disk t = disk s \<and> writes t = writes s \<and> descs t = descs s \<and> desc_free t = desc_free s \<and> info_b t = info_b s \<and>
    used_idx t = used_count t \<and> used_count t = used_count s \<and> avail_idx t = avail_idx s \<and> rings_ok t = rings_ok s \<and>
    vdisk_lock t = vdisk_lock s \<and> kcpu t = after_section (kcpu s)"
proof -
  have cpu: "cpu_ok (kcpu s)" using assms(2) by (simp add: pinv_def)
  let ?s0 = "s\<lparr>kcpu := push_off (kcpu s), vdisk_lock := held (vdisk_lock s) (kcpu s)\<rparr>"
  let ?s1 = "?s0\<lparr>mmio := mmio s @ [(0x064, st AND 0x3)]\<rparr>"
  let ?t = "?s1\<lparr>procs := wake_from (DiskChan b) (curproc s) 0 (procs s), bufs := (bufs s)[b := (bufs s ! b)\<lparr>bdisk := False\<rparr>], used_idx := used_idx s + 1\<rparr>"
  let ?u = "?t\<lparr>kcpu := after_section (kcpu s), vdisk_lock := freed (vdisk_lock s)\<rparr>"
  have o: "one_used i b ?s1" using assms(1) by (simp add: one_used_def)
  have p: "pinv ?s1" "noff (kcpu ?s1) \<noteq> 0" using assms(2) cpu by (auto simp: pinv_def cpu_ok_def)
  have "unat (used_count s - used_idx s) = Suc 0" using assms(1) by (simp add: one_used_def)
  then have b: "bind (mmio_write 0x064 (st AND 0x3)) (\<lambda>_. bind (gets (\<lambda>s. unat (used_count s - used_idx s))) drain_used) ?s0 = Inr ((), ?t)"
    using drain_used_one [OF o p, of 0] by (simp add: mmio_write_def run_simps del: drain_used.simps)
  have run: "virtio_disk_intr st s = Inr ((), ?u)" unfolding virtio_disk_intr_def
    by (rule critical_free) (use assms cpu b in simp_all)
  have "pinv (s\<lparr>procs := wake_from (DiskChan b) (curproc s) 0 (procs s), kcpu := after_section (kcpu s)\<rparr>)" by (rule pinv_wakeup [OF assms(2)])
  then have "pinv ?u" by (simp add: pinv_def)
  then show ?thesis using run assms(1,3) by (intro exI [of _ ?u]) (simp add: one_used_def rings_ok_def)
qed

text \<open>The end of \<^verbatim>\<open>virtio_disk_rw\<close>, with the lock taken again.\<close>

lemma finish_run:
  assumes "chained i0 i1 i2 b s" "pinv s" "clean (vdisk_lock s)" "\<not> bdisk (bufs s ! b)"
    and "\<not> desc_free s ! i0" "\<not> desc_free s ! i1" "\<not> desc_free s ! i2"
  shows "\<exists>t. bind acquire_vdisk (\<lambda>_. virtio_disk_finish b i0) s = Inr ((), t) \<and> pinv t \<and> bufs t = bufs s \<and> disk t = disk s \<and> writes t = writes s \<and>
    desc_free t = (desc_free s)[i0 := True, i1 := True, i2 := True] \<and> rings_ok t \<and>
    used_idx t = used_idx s \<and> used_count t = used_count s \<and> avail_idx t = avail_idx s \<and> vdisk_lock t = vdisk_lock s \<and> kcpu t = after_section (kcpu s)"
proof -
  have cpu: "cpu_ok (kcpu s)" using assms(2) by (simp add: pinv_def)
  let ?s0 = "s\<lparr>kcpu := push_off (kcpu s), vdisk_lock := held (vdisk_lock s) (kcpu s)\<rparr>"
  let ?s1 = "?s0\<lparr>info_b := (info_b s)[i0 := None]\<rparr>"
  have "pinv ?s1" "noff (kcpu ?s1) \<noteq> 0" using assms(2) cpu by (auto simp: pinv_def cpu_ok_def)
  then obtain t where t: "free_chain (Suc NUM) i0 ?s1 = Inr ((), t)" "kept ?s1 t" "desc_free t = (desc_free s)[i0 := True, i1 := True, i2 := True]"
    using free_chain_run [of i0 i1 i2 ?s1] assms(1,5-7) by (auto simp: chained_def)
  let ?u = "t\<lparr>kcpu := after_section (kcpu s), vdisk_lock := vdisk_lock s\<rparr>"
  have "release_vdisk t = Inr ((), ?u)" using t(2) vdisk_lock_run(2) [OF assms(3) cpu, of t] by (simp add: kept_def)
  then have "bind acquire_vdisk (\<lambda>_. virtio_disk_finish b i0) s = Inr ((), ?u)"
    using vdisk_lock_run(1) [OF assms(3) cpu] assms(4) t(1) by (simp add: virtio_disk_finish_def run_simps del: free_chain.simps)
  moreover have "pinv ?u" using t(2) assms(2) by (simp add: kept_def pinv_def)
  moreover have "rings_ok ?u" using t(2) assms(1) by (simp add: kept_def chained_def rings_ok_def)
  ultimately show ?thesis using t(2,3) by (intro exI [of _ ?u]) (simp add: kept_def)
qed

section \<open>A request is one transfer\<close>

definition idle :: "'z vdst_scheme \<Rightarrow> bool" where
  "idle s \<longleftrightarrow> pinv s \<and> clean (vdisk_lock s) \<and> rings_ok s \<and> used_idx s = used_count s \<and> avail_idx s = used_count s"

text \<open>After the device: the request is in the used ring, the driver's own data is untouched.\<close>

lemma completed_run:
  fixes w :: bool and n :: u32
  assumes "chained i0 i1 i2 b s" "b < length (bufs s)" "used_idx s = used_count s"
  defines "t \<equiv> completed i0 b w n s"
  shows "chained i0 i1 i2 b t" "one_used i0 b t" "desc_free t = desc_free s" "kcpu t = kcpu s" "vdisk_lock t = vdisk_lock s" "procs t = procs s"
    "avail_idx t = avail_idx s" "used_count t = used_count s + 1"
    "bufs t = (if w then bufs s else (bufs s)[b := (bufs s ! b)\<lparr>bdata := disk s n\<rparr>])"
    "disk t = (if w then (disk s)(n := bdata (bufs s ! b)) else disk s)"
    "writes t = (if w then writes s @ [(n, bdata (bufs s ! b))] else writes s)"
proof -
  have m: "unat (used_count s mod 8) < 8" by (simp add: unat_mod)
  note t = t_def completed_def upd_buf_def Let_def
  show "chained i0 i1 i2 b t" using assms(1) by (simp add: t chained_def rings_ok_def)
  show "one_used i0 b t" using assms(1,3) m by (simp add: t chained_def one_used_def rings_ok_def)
  show "desc_free t = desc_free s" "kcpu t = kcpu s" "vdisk_lock t = vdisk_lock s" "procs t = procs s"
    "avail_idx t = avail_idx s" "used_count t = used_count s + 1"
    "bufs t = (if w then bufs s else (bufs s)[b := (bufs s ! b)\<lparr>bdata := disk s n\<rparr>])"
    "disk t = (if w then (disk s)(n := bdata (bufs s ! b)) else disk s)"
    "writes t = (if w then writes s @ [(n, bdata (bufs s ! b))] else writes s)" by (simp_all add: t)
qed

lemma restore_three: "l ! i \<Longrightarrow> l ! j \<Longrightarrow> l ! k \<Longrightarrow> l[i := False, j := False, k := False, i := True, j := True, k := True] = l"
  by (rule nth_equalityI) (auto simp: nth_update_cases)

lemma bdisk_off: "b < length bs \<Longrightarrow> \<not> bdisk (bs ! b) \<Longrightarrow> bs[b := (bs ! b)\<lparr>bdisk := False\<rparr>] = bs"
  "\<not> bdisk x \<Longrightarrow> x\<lparr>bdata := d, bdisk := False\<rparr> = x\<lparr>bdata := d\<rparr>"
  by (simp_all add: list_update_same_conv)

lemma pending_unlocked: "pending i b write n (s\<lparr>kcpu := c, vdisk_lock := l\<rparr>) = pending i b write n s"
  and chained_unlocked: "chained i0 i1 i2 b (s\<lparr>kcpu := c, vdisk_lock := l\<rparr>) = chained i0 i1 i2 b s"
  by (simp_all add: pending_def chained_def rings_ok_def)

text \<open>
  C18. A disk request does what the buffer cache takes it to do. With a device that serves chains of three descriptors, from a state with no request under
  way and three free descriptors, \<^verbatim>\<open>virtio_disk_rw\<close> with the interrupt in between returns without a panic; the buffers, the disk and the blocks
  written are as after one transfer \<open>disk_rw\<close>, all three descriptors are free again, the lock is free and no request is under way.
\<close>
theorem virtio_request_refines:
  assumes dev: "serves dev" and s: "idle s" "3 \<le> free_count (desc_free s)"
    and b: "b < length (bufs s)" "\<not> bdisk (bufs s ! b)" "unat (blockno (bufs s ! b)) < 2 ^ 31"
  shows "\<exists>t u. virtio_request dev st b write s = Inr ((), t) \<and> disk_rw b write s = Inr ((), u) \<and>
    bufs t = bufs u \<and> disk t = disk u \<and> writes t = writes u \<and> desc_free t = desc_free s \<and> idle t"
proof -
  let ?n = "blockno (bufs s ! b)" and ?x = "bufs s ! b"
  have I: "pinv s" "clean (vdisk_lock s)" "rings_ok s" "used_idx s = used_count s" "avail_idx s = used_count s" and cpu: "cpu_ok (kcpu s)"
    using s(1) by (simp_all add: idle_def pinv_def)
  obtain i0 i1 i2 s1 where s1: "virtio_disk_submit b write s = Inr (i0, s1)" "chained i0 i1 i2 b s1"
      "desc_free s1 = (desc_free s)[i0 := False, i1 := False, i2 := False]" "desc_free s ! i0" "desc_free s ! i1" "desc_free s ! i2"
      "pending i0 b write ?n s1" "bufs s1 = (bufs s)[b := ?x\<lparr>bdisk := True\<rparr>]"
      "disk s1 = disk s" "writes s1 = writes s" "used_idx s1 = used_idx s" "used_count s1 = used_count s"
      "procs s1 = procs s" "vdisk_lock s1 = held (vdisk_lock s) (kcpu s)" "kcpu s1 = push_off (kcpu s)"
    using submit_run [OF I(1-3) s(2) I(5) b(1,3), of "write"] by blast
  define s2 where "s2 = s1\<lparr>kcpu := after_section (kcpu s), vdisk_lock := vdisk_lock s\<rparr>"
  have r: "release_vdisk s1 = Inr ((), s2)" unfolding s2_def by (rule vdisk_lock_run(2) [OF I(2) cpu s1(14,15)])
  define s3 where "s3 = completed i0 b write ?n s2"
  have "pending i0 b write ?n s2" using s1(7) by (simp add: s2_def pending_unlocked)
  then have d: "dev s2 = s3" using dev unfolding serves_def s3_def by blast
  have "chained i0 i1 i2 b s2" "b < length (bufs s2)" "used_idx s2 = used_count s2"
    using s1(2,8,11,12) I(4) b(1) by (simp_all add: s2_def chained_unlocked)
  note c = completed_run [OF this, of "write" ?n, folded s3_def]
  have "pinv s3" "clean (vdisk_lock s3)" using I(1,2) c(4-6) s1(13) cpu by (simp_all add: pinv_def s2_def)
  then obtain s4 where s4: "virtio_disk_intr st s3 = Inr ((), s4)" "pinv s4" "bufs s4 = (bufs s3)[b := (bufs s3 ! b)\<lparr>bdisk := False\<rparr>]"
      "disk s4 = disk s3" "writes s4 = writes s3" "descs s4 = descs s3" "desc_free s4 = desc_free s3" "info_b s4 = info_b s3"
      "used_idx s4 = used_count s4" "used_count s4 = used_count s3" "avail_idx s4 = avail_idx s3" "rings_ok s4 = rings_ok s3"
      "vdisk_lock s4 = vdisk_lock s3" "kcpu s4 = after_section (kcpu s3)"
    using intr_run [OF c(2), of st] by blast
  have l: "length (bufs s3) = length (bufs s)" using c(9) s1(8) by (simp add: s2_def)
  have "chained i0 i1 i2 b s4" "\<not> bdisk (bufs s4 ! b)" "clean (vdisk_lock s4)"
    using c(1,5) s4 b(1) l I(2) by (auto simp: chained_def s2_def)
  moreover have "\<not> desc_free s4 ! i0" "\<not> desc_free s4 ! i1" "\<not> desc_free s4 ! i2"
    using s4(7) c(3) s1(2,3) I(3) by (auto simp: s2_def chained_def rings_ok_def)
  ultimately obtain t where t: "bind acquire_vdisk (\<lambda>_. virtio_disk_finish b i0) s4 = Inr ((), t)" "pinv t" "bufs t = bufs s4" "disk t = disk s4" "writes t = writes s4"
      "desc_free t = (desc_free s4)[i0 := True, i1 := True, i2 := True]" "rings_ok t" "used_idx t = used_idx s4" "used_count t = used_count s4"
      "avail_idx t = avail_idx s4" "vdisk_lock t = vdisk_lock s4"
    using finish_run [of i0 i1 i2 b s4] s4(2) by blast
  have run: "virtio_request dev st b write s = Inr ((), t)" using s1(1) r d s4(1) t(1) by (simp add: virtio_request_def run_simps)
  have "idle t" using t s4(9-13) c(5,7,8) s1(7,12) I(2) by (simp add: idle_def s2_def pending_def Let_def)
  moreover have "desc_free t = desc_free s" using t(6) s4(7) c(3) s1(3-6) by (simp add: s2_def restore_three)
  moreover have "bufs t = (if write then bufs s else (bufs s)[b := ?x\<lparr>bdata := disk s ?n\<rparr>])" "disk t = (if write then (disk s)(?n := bdata ?x) else disk s)"
      "writes t = (if write then writes s @ [(?n, bdata ?x)] else writes s)"
    using t(3-5) s4(3-5) c(9-11) s1(8-10) b(1,2) by (simp_all add: s2_def bdisk_off)
  ultimately show ?thesis using run by (simp add: disk_rw_def run_simps upd_buf_def Let_def)
qed

section \<open>A device\<close>

text \<open>A device that serves requests: it follows the chain from the ring of available requests.\<close>

definition ideal_device :: "'z vdst_scheme \<Rightarrow> 'z vdst_scheme" where
  "ideal_device s =
     (let i = unat (avail_ring s ! unat (used_count s mod 8)); d1 = descs s ! unat (vd_next (descs s ! i))
      in case vd_addr d1 of
        DataPtr b \<Rightarrow> completed i b (req_type (ops s ! i) = 1) (ucast (drop_bit 1 (req_sector (ops s ! i)))) s
      | _ \<Rightarrow> s)"

lemma sector_back:
  "(ucast (drop_bit 1 (2 * ucast (n :: u32) :: u64)) :: u32) = n"
proof -
  have n: "unat n < 2 ^ 63" using unsigned_less [of n, where 'a = nat] by (rule less_trans) simp
  have "unat (2 * ucast n :: u64) = 2 * unat n" using n unat_mult_lem [of 2 "ucast n :: u64"] by (simp add: unat_widen)
  then have "unat (drop_bit 1 (2 * ucast n :: u64)) = unat n" by (simp add: drop_bit_eq_div unat_div)
  then show ?thesis using unsigned_less [of n, where 'a = nat] by (simp add: word_unat_eq_iff unsigned_ucast_eq take_bit_nat_eq_self)
qed

lemma ideal_device_serves: "serves ideal_device"
  unfolding serves_def
proof (intro allI impI)
  fix i b "write" n and s :: "'z vdst_scheme"
  assume p: "pending i b write n s"
  then have i: "unat (avail_ring s ! unat (used_count s mod 8)) = i" by (simp add: pending_def Let_def unat_of_nat)
  show "ideal_device s = completed i b write n s" using p sector_back [of n] unfolding ideal_device_def i Let_def pending_def by simp
qed

definition demo_disk :: vdst where
  "demo_disk = pst.extend demo_pst \<lparr>pipes = \<lambda>_. undefined, bcache_lock = initlock ''bcache'',
     bufs = [\<lparr>bvalid = False, bdisk = False, bdev = 1, blockno = 7, blk = initsleeplock ''buffer'', refcnt = 1, bprev = 0, bnext = 0, bdata = [1]\<rparr>],
     disk = (\<lambda>_. [5]), writes = [], descs = replicate 8 blank_desc, avail_ring = replicate 8 0, avail_idx = 0, used_ring = replicate 8 0,
     used_count = 0, desc_free = replicate 8 True, used_idx = 0, info_b = replicate 8 None, info_status = replicate 8 0,
     ops = replicate 8 \<lparr>req_type = 0, req_reserved = 0, req_sector = 0\<rparr>, vdisk_lock = initlock ''virtio_disk'', mmio = []\<rparr>"

theorem virtio_request_refines_witness:
  "\<exists>t. virtio_request ideal_device 1 0 True demo_disk = Inr ((), t) \<and> disk t 7 = [1] \<and> disk t 8 = [5] \<and> writes t = [(7, [1])]"
proof -
  have f: "bufs demo_disk = [\<lparr>bvalid = False, bdisk = False, bdev = 1, blockno = 7, blk = initsleeplock ''buffer'', refcnt = 1, bprev = 0, bnext = 0, bdata = [1]\<rparr>]"
    "procs demo_disk = procs demo_pst" "kcpu demo_disk = kcpu demo_pst" "disk demo_disk = (\<lambda>_. [5])" "writes demo_disk = []"
    "desc_free demo_disk = replicate 8 True"
    by (simp_all add: demo_disk_def pst.defs)
  have "idle demo_disk" using demo_pinv f(2,3) by (simp add: idle_def pinv_def rings_ok_def) (simp add: demo_disk_def pst.defs)
  moreover have "3 \<le> free_count (desc_free demo_disk)" by (simp add: f free_count_def)
  ultimately show ?thesis using virtio_request_refines [OF ideal_device_serves, of demo_disk 0 1 True]
    by (auto simp: f disk_rw_def run_simps Let_def)
qed

end
