(* ===== verification/Monitor.thy ===== *)
theory Monitor
  imports Interfaces
begin

text \<open>
  Programs of POSIX threads that share variables under one mutex and wait on one condition variable, as the exercises on condition
  variables do. What a thread does from the moment it gets the mutex until it gives it up (in \<^verbatim>\<open>pthread_mutex_unlock\<close>
  or in \<^verbatim>\<open>pthread_cond_wait\<close>) is a region; the shared variables are only used inside regions, so that a region is one step. A program is the
  function that runs the region of a thread: it gives the new shared variables, whether the condition was signalled, and how the
  region was left. As POSIX allows, a signal wakes any one of the waiting threads, and a waiting thread may wake up on its own.
\<close>

section \<open>Definitions\<close>

text \<open>A thread wants the mutex at a place of its program, waits on the condition variable, or has returned.\<close>

datatype 'p loc = At 'p | Asleep 'p | Finished

datatype wake = NoWake | Signal | Broadcast

text \<open>\<open>Abandon\<close>: the thread returns, or loops for ever, with the mutex held.\<close>

datatype 'p after = Wait 'p | Goto 'p | Exit | Abandon

record ('s, 'p) monitor =
  shared :: 's
  locked :: bool
  locs :: "'p loc list"

type_synonym ('s, 'p) region = "nat \<Rightarrow> 'p \<Rightarrow> 's \<Rightarrow> 's \<times> wake \<times> 'p after"

fun awake :: "'p loc \<Rightarrow> 'p loc" where
  "awake (Asleep p) = At p"
| "awake l = l"

fun after_loc :: "'p after \<Rightarrow> 'p loc" where
  "after_loc (Wait p) = Asleep p"
| "after_loc (Goto p) = At p"
| "after_loc Exit = Finished"
| "after_loc Abandon = Finished"

inductive wakes :: "wake \<Rightarrow> 'p loc list \<Rightarrow> 'p loc list \<Rightarrow> bool" where
  wake_none: "wakes NoWake ls ls"
| wake_all: "wakes Broadcast ls (map awake ls)"
| wake_one: "u < length ls \<Longrightarrow> ls ! u = Asleep p \<Longrightarrow> wakes Signal ls (ls[u := At p])"
| wake_nobody: "\<forall>p. Asleep p \<notin> set ls \<Longrightarrow> wakes Signal ls ls"

inductive_cases wakesE: "wakes w ls ls'"

inductive mon_run :: "('s, 'p) region \<Rightarrow> ('s, 'p) monitor \<Rightarrow> ('s, 'p) monitor \<Rightarrow> bool" for R where
  run: "\<not> locked m \<Longrightarrow> t < length (locs m) \<Longrightarrow> locs m ! t = At p \<Longrightarrow> R t p (shared m) = (s', w, a) \<Longrightarrow>
    wakes w (locs m) ls \<Longrightarrow> mon_run R m \<lparr>shared = s', locked = (a = Abandon), locs = ls[t := after_loc a]\<rparr>"

inductive mon_step :: "('s, 'p) region \<Rightarrow> ('s, 'p) monitor \<Rightarrow> ('s, 'p) monitor \<Rightarrow> bool" for R where
  ran: "mon_run R m m' \<Longrightarrow> mon_step R m m'"
| spurious: "t < length (locs m) \<Longrightarrow> locs m ! t = Asleep p \<Longrightarrow> mon_step R m (m\<lparr>locs := (locs m)[t := At p]\<rparr>)"

inductive_cases mon_runE: "mon_run R m m'"
inductive_cases mon_stepE: "mon_step R m m'"

text \<open>All threads start at the same place.\<close>

definition mon_init :: "'s \<Rightarrow> 'p \<Rightarrow> nat \<Rightarrow> ('s, 'p) monitor \<Rightarrow> bool" where
  "mon_init s p n m \<longleftrightarrow> m = \<lparr>shared = s, locked = False, locs = replicate n (At p)\<rparr>"

section \<open>Lemmas\<close>

lemma wakes_length: "wakes w ls ls' \<Longrightarrow> length ls' = length ls"
  by (auto elim: wakesE)

lemma awake_cases: "awake l = l \<or> (\<exists>p. l = Asleep p \<and> awake l = At p)"
  by (cases l) auto

lemma wakes_nth:
  assumes "wakes w ls ls'" "i < length ls"
  shows "ls' ! i = ls ! i \<or> (\<exists>p. ls ! i = Asleep p \<and> ls' ! i = At p)"
  using assms(1)
proof (cases rule: wakes.cases)
  case wake_all then show ?thesis using awake_cases [of "ls ! i"] assms(2) by auto
next
  case (wake_one u p) then show ?thesis by (cases "i = u") (use assms(2) in auto)
qed auto

lemma wakes_exists: "\<exists>ls'. wakes w ls ls'"
proof (cases w)
  case NoWake then show ?thesis using wake_none [of ls] by (intro exI) simp
next
  case Signal
  show ?thesis
  proof (cases "\<exists>p. Asleep p \<in> set ls")
    case True
    then obtain p i where "i < length ls" "ls ! i = Asleep p" by (auto simp: in_set_conv_nth)
    then have "wakes Signal ls (ls[i := At p])" by (rule wake_one)
    then show ?thesis using Signal by (intro exI) simp
  next
    case False
    then have "wakes Signal ls ls" by (intro wake_nobody) blast
    then show ?thesis using Signal by (intro exI [of _ ls]) simp
  qed
next
  case Broadcast then show ?thesis using wake_all [of ls] by (intro exI) simp
qed

text \<open>A thread that wants the mutex can run unless the mutex was abandoned.\<close>

lemma mon_stuck:
  assumes "\<And>m'. \<not> mon_run R m m'" "\<not> locked m" "t < length (locs m)"
  shows "locs m ! t = Finished \<or> (\<exists>p. locs m ! t = Asleep p)"
proof (cases "locs m ! t")
  case (At p)
  obtain s' w a where r: "R t p (shared m) = (s', w, a)" by (cases "R t p (shared m)")
  obtain ls where "wakes w (locs m) ls" using wakes_exists by blast
  then show ?thesis using mon_run.run [of m t p R, OF assms(2,3) At r] assms(1) by blast
qed auto

lemma mon_step_length: "mon_step R m m' \<Longrightarrow> length (locs m') = length (locs m)"
  by (auto elim!: mon_stepE mon_runE dest: wakes_length)

section \<open>Executions that come to an end\<close>

text \<open>
  The contract of a system whose every step makes a variant smaller and which stops only in final states: an execution from a state
  with the invariant has at most as many steps as the variant says, and ends in a final state.
\<close>

locale progress_system =
  fixes step :: "'s \<Rightarrow> 's \<Rightarrow> bool"
    and inv :: "'s \<Rightarrow> bool"
    and variant :: "'s \<Rightarrow> nat"
    and final :: "'s \<Rightarrow> bool"
  assumes step_inv: "inv s \<Longrightarrow> step s t \<Longrightarrow> inv t"
    and step_variant: "inv s \<Longrightarrow> step s t \<Longrightarrow> variant t < variant s"
    and stuck_final: "inv s \<Longrightarrow> \<not> final s \<Longrightarrow> \<exists>t. step s t"
begin

lemma steps_bounded: "(step ^^ k) s t \<Longrightarrow> inv s \<Longrightarrow> k + variant t \<le> variant s \<and> inv t"
proof (induction k arbitrary: t)
  case (Suc k)
  then obtain u where u: "(step ^^ k) s u" "step u t" by auto
  then have "k + variant u \<le> variant s" "inv u" using Suc.IH Suc.prems(2) by auto
  then show ?case using step_variant [OF _ u(2)] step_inv [OF _ u(2)] by auto
qed simp

lemma reaches_final: "inv s \<Longrightarrow> \<exists>t. step\<^sup>*\<^sup>* s t \<and> final t"
proof (induction "variant s" arbitrary: s rule: less_induct)
  case less
  show ?case
  proof (cases "final s")
    case False
    then obtain u where u: "step s u" using stuck_final less.prems by blast
    then obtain t where "step\<^sup>*\<^sup>* u t" "final t" using less.hyps step_variant step_inv less.prems by blast
    then show ?thesis using u by (meson converse_rtranclp_into_rtranclp)
  qed blast
qed

end

text \<open>Variants are sums of weights over the threads.\<close>

definition weight :: "('p loc \<Rightarrow> nat) \<Rightarrow> 'p loc list \<Rightarrow> nat" where
  "weight w ls = sum_list (map w ls)"

lemma weight_update: "t < length ls \<Longrightarrow> weight w (ls[t := x]) + w (ls ! t) = weight w ls + w x"
proof (induction ls arbitrary: t)
  case (Cons l ls)
  then show ?case by (cases t) (auto simp: weight_def)
qed simp

lemma weight_le: "(\<And>l. w l \<le> k) \<Longrightarrow> weight w ls \<le> k * length ls"
  by (induction ls) (auto simp: weight_def add_mono)

lemma weight_replicate: "weight w (replicate n l) = n * w l"
  by (simp add: weight_def sum_list_replicate)

section \<open>Running a given schedule\<close>

text \<open>the turn of thread \<open>t\<close>, if it wants the mutex and no choice of a thread to wake is involved\<close>

definition turn :: "('s, 'p) region \<Rightarrow> nat \<Rightarrow> ('s, 'p) monitor \<Rightarrow> ('s, 'p) monitor option" where
  "turn R t m =
     (if locked m \<or> length (locs m) \<le> t then None
      else case locs m ! t of
        At p \<Rightarrow> (case R t p (shared m) of (s', w, a) \<Rightarrow>
          if w = Signal then None
          else Some \<lparr>shared = s', locked = (a = Abandon),
                 locs = (if w = Broadcast then map awake (locs m) else locs m)[t := after_loc a]\<rparr>)
      | _ \<Rightarrow> None)"

fun turns :: "('s, 'p) region \<Rightarrow> nat list \<Rightarrow> ('s, 'p) monitor \<Rightarrow> ('s, 'p) monitor option" where
  "turns R [] m = Some m"
| "turns R (t # ts) m = (case turn R t m of None \<Rightarrow> None | Some m' \<Rightarrow> turns R ts m')"

lemma turn_run:
  assumes "turn R t m = Some m'"
  shows "mon_run R m m'"
proof -
  obtain p where p: "\<not> locked m" "t < length (locs m)" "locs m ! t = At p" using assms by (auto simp: turn_def split: if_splits loc.splits)
  obtain s' w a where r: "R t p (shared m) = (s', w, a)" by (cases "R t p (shared m)")
  let ?ls = "if w = Broadcast then map awake (locs m) else locs m"
  have "wakes w (locs m) ?ls" using assms p r wake_none wake_all by (cases w) (auto simp: turn_def)
  from mon_run.run [of m t p R, OF p r this] show ?thesis using assms p r by (auto simp: turn_def split: if_splits)
qed

lemma turns_reachable:
  "turns R ts m = Some m' \<Longrightarrow> reachable init (mon_step R) m \<Longrightarrow> reachable init (mon_step R) m'"
proof (induction ts arbitrary: m)
  case (Cons t ts)
  then obtain m1 where m1: "turn R t m = Some m1" "turns R ts m1 = Some m'" by (auto split: option.splits)
  have "reachable init (mon_step R) m1" using Cons.prems(2) ran [OF turn_run [OF m1(1)]] by (rule reachable_step)
  then show ?case using Cons.IH m1(2) by blast
qed simp

end
