(* ===== verification/Inorder.thy ===== *)
theory Inorder
  imports Monitor
begin

text \<open>
  \<^verbatim>\<open>condvar_basics/inorder.c\<close>: threads with the numbers 1 to n, in any order, pass one after the other in the order of their numbers. The
  shared variable is \<^verbatim>\<open>threadNext\<close>; a thread waits until it is its turn.

  Shown here: the threads pass in order, and every execution comes to an end with all threads finished.
\<close>

section \<open>Definitions\<close>

text \<open>The function \<^verbatim>\<open>thread\<close>: there is one place, before the test of the loop, with the mutex to be taken.\<close>

definition inorder_thread :: "nat list \<Rightarrow> (nat, unit) region" where
  "inorder_thread nums t p threadNext =
     (if threadNext \<noteq> nums ! t then (threadNext, NoWake, Wait p)
      else (threadNext + 1, Broadcast, Exit))"

text \<open>\<^verbatim>\<open>main\<close>\<close>

definition inorder_nums :: "nat list" where "inorder_nums = [2, 1, 4, 3]"

definition inorder_init :: "nat list \<Rightarrow> (nat, unit) monitor \<Rightarrow> bool" where
  "inorder_init nums = mon_init 1 () (length nums)"

abbreviation (input) inorder_step :: "nat list \<Rightarrow> (nat, unit) monitor \<Rightarrow> (nat, unit) monitor \<Rightarrow> bool" where
  "inorder_step nums \<equiv> mon_step (inorder_thread nums)"

section \<open>Lemmas\<close>

text \<open>
  The threads that have finished are those whose number has been passed; nobody sleeps whose turn it is.
\<close>

definition inorder_inv :: "nat list \<Rightarrow> (nat, unit) monitor \<Rightarrow> bool" where
  "inorder_inv nums m \<longleftrightarrow>
     \<not> locked m \<and> length (locs m) = length nums \<and> 1 \<le> shared m \<and> shared m \<le> length nums + 1 \<and>
     (\<forall>t < length nums. (locs m ! t = Finished \<longleftrightarrow> nums ! t < shared m) \<and> (locs m ! t = Asleep () \<longrightarrow> nums ! t \<noteq> shared m))"

definition in_turn :: "nat list \<Rightarrow> bool" where
  "in_turn nums \<longleftrightarrow> distinct nums \<and> set nums = {1..length nums}"

lemma inorder_run_cases:
  assumes "mon_run (inorder_thread nums) m m'" "\<not> locked m"
  obtains (wait) t where "t < length (locs m)" "locs m ! t = At ()" "shared m \<noteq> nums ! t" "m' = m\<lparr>locs := (locs m)[t := Asleep ()]\<rparr>"
  | (pass) t where "t < length (locs m)" "locs m ! t = At ()" "shared m = nums ! t"
      "m' = m\<lparr>shared := shared m + 1, locs := (map awake (locs m))[t := Finished]\<rparr>"
  using assms by (auto elim!: mon_runE wakesE simp: inorder_thread_def split: if_splits)

lemma inorder_inv_run:
  assumes "in_turn nums" "inorder_inv nums m" "mon_run (inorder_thread nums) m m'"
  shows "inorder_inv nums m'"
proof -
  have l: "\<not> locked m" using assms(2) by (simp add: inorder_inv_def)
  from assms(3) l show ?thesis
  proof (cases rule: inorder_run_cases)
    case (wait t)
    then show ?thesis using assms(2) by (auto simp: inorder_inv_def nth_list_update)
  next
    case (pass t)
    have t: "t < length nums" "nums ! t \<in> {1..length nums}" using assms pass(1) nth_mem [of t nums] by (auto simp: inorder_inv_def in_turn_def)
    have d: "i = t" if "i < length nums" "nums ! i = nums ! t" for i
      using assms(1) that t(1) by (simp add: in_turn_def nth_eq_iff_index_eq)
    have "awake (locs m ! i) \<noteq> Asleep () \<and> (awake (locs m ! i) = Finished \<longleftrightarrow> locs m ! i = Finished)" for i
      by (cases "locs m ! i") auto
    then show ?thesis using assms(2) pass t d by (auto simp: inorder_inv_def nth_list_update less_Suc_eq)
  qed
qed

interpretation io: invariant_system "\<lambda>m. inorder_init nums m \<and> in_turn nums" "inorder_step nums" "\<lambda>m. inorder_inv nums m \<and> in_turn nums"
  for nums
proof unfold_locales
  fix m assume "inorder_init nums m \<and> in_turn nums"
  then show "inorder_inv nums m \<and> in_turn nums"
    by (force simp: inorder_init_def mon_init_def inorder_inv_def in_turn_def dest: nth_mem)
next
  fix m m' assume i: "inorder_inv nums m \<and> in_turn nums" and s: "inorder_step nums m m'"
  from s show "inorder_inv nums m' \<and> in_turn nums"
  proof (cases rule: mon_step.cases)
    case ran then show ?thesis using inorder_inv_run i by blast
  next
    case (spurious t p) then show ?thesis using i by (auto simp: inorder_inv_def nth_list_update)
  qed
qed

subsection \<open>Progress\<close>

definition inorder_variant :: "nat list \<Rightarrow> (nat, unit) monitor \<Rightarrow> nat" where
  "inorder_variant nums m =
     (length nums + 1 - shared m) * (length nums + 1) + weight (\<lambda>l. if l = At () then 1 else 0) (locs m)"

definition inorder_final :: "nat list \<Rightarrow> (nat, unit) monitor \<Rightarrow> bool" where
  "inorder_final nums m \<longleftrightarrow> shared m = length nums + 1 \<and> set (locs m) \<subseteq> {Finished}"

lemma inorder_run_variant:
  assumes "in_turn nums" "inorder_inv nums m" "mon_run (inorder_thread nums) m m'"
  shows "inorder_variant nums m' < inorder_variant nums m"
proof -
  let ?w = "\<lambda>l. if l = At () then 1 else 0 :: nat" and ?n = "length nums"
  have l: "\<not> locked m" "length (locs m) = ?n" using assms(2) by (simp_all add: inorder_inv_def)
  from assms(3) l(1) show ?thesis
  proof (cases rule: inorder_run_cases)
    case (wait t)
    then show ?thesis using weight_update [of t "locs m" ?w "Asleep ()"] by (simp add: inorder_variant_def)
  next
    case (pass t)
    let ?ls = "(map awake (locs m))[t := Finished]"
    have "nums ! t \<in> {1..?n}" using assms(1) pass(1) l(2) nth_mem [of t nums] by (auto simp: in_turn_def)
    then have "?n + 1 - shared m = Suc (?n + 1 - (shared m + 1))" using pass(3) by auto
    then have "(?n + 1 - shared m) * (?n + 1) = (?n + 1 - (shared m + 1)) * (?n + 1) + (?n + 1)" by simp
    moreover have "weight ?w ?ls \<le> 1 * ?n" using weight_le [of ?w 1 ?ls] l(2) by simp
    ultimately show ?thesis using pass(4) by (simp add: inorder_variant_def)
  qed
qed

lemma inorder_stuck_final:
  assumes "in_turn nums" "inorder_inv nums m" "\<not> inorder_final nums m"
  shows "\<exists>m'. mon_run (inorder_thread nums) m m'"
proof (rule ccontr)
  assume "\<not> ?thesis"
  then have stuck: "locs m ! t = Finished \<or> locs m ! t = Asleep ()" if "t < length nums" for t
    using mon_stuck [of "inorder_thread nums" m t] that assms(2) by (auto simp: inorder_inv_def)
  show False
  proof (cases "shared m \<le> length nums")
    case True
    then have "shared m \<in> set nums" using assms(1,2) by (auto simp: in_turn_def inorder_inv_def)
    then obtain t where "t < length nums" "nums ! t = shared m" by (auto simp: in_set_conv_nth)
    then show False using stuck [of t] assms(2) by (auto simp: inorder_inv_def)
  next
    case False
    then have s: "shared m = length nums + 1" using assms(2) by (simp add: inorder_inv_def)
    moreover have "nums ! t < shared m" if "t < length nums" for t
      using assms(1) nth_mem [OF that] s by (auto simp: in_turn_def)
    ultimately have "inorder_final nums m" using assms(2) by (auto simp: inorder_final_def inorder_inv_def in_set_conv_nth)
    then show False using assms(3) by simp
  qed
qed

interpretation iop: progress_system "mon_run (inorder_thread nums)" "\<lambda>m. inorder_inv nums m \<and> in_turn nums" "inorder_variant nums" "inorder_final nums"
  for nums
  using inorder_inv_run inorder_run_variant inorder_stuck_final by unfold_locales blast+

section \<open>Properties\<close>

text \<open>
  C38. The threads of \<^verbatim>\<open>inorder.c\<close>, with any numbering by 1 to n, pass in the order of their numbers and all of them pass: in every reachable
  state, whatever the schedule and the spurious wake-ups so far, the threads that have passed are exactly those numbered below
  \<^verbatim>\<open>threadNext\<close>; from there the program can go on until every thread has returned, and it cannot do anything else for more than
  \<open>(n + 1) * (n + 1)\<close> turns at the mutex: there is no deadlock and no lost wake-up.
\<close>
theorem inorder_all_pass:
  assumes "in_turn nums" "reachable (inorder_init nums) (inorder_step nums) m"
  shows "(\<forall>t < length nums. locs m ! t = Finished \<longleftrightarrow> nums ! t < shared m) \<and>
    (\<exists>m'. (mon_run (inorder_thread nums))\<^sup>*\<^sup>* m m' \<and> inorder_final nums m') \<and>
    (\<forall>k m'. (mon_run (inorder_thread nums) ^^ k) m m' \<longrightarrow>
       k \<le> (length nums + 1) * (length nums + 1) \<and> ((\<forall>m''. \<not> mon_run (inorder_thread nums) m' m'') \<longrightarrow> inorder_final nums m'))"
proof -
  have "reachable (\<lambda>m. inorder_init nums m \<and> in_turn nums) (inorder_step nums) m"
    using assms(2,1) by (induction rule: reachable.induct) (auto intro: reachable.intros)
  then have inv: "inorder_inv nums m \<and> in_turn nums" by (rule io.reachable_inv)
  have v: "inorder_variant nums m \<le> (length nums + 1) * (length nums + 1)"
  proof -
    have "weight (\<lambda>l. if l = At () then 1 else 0) (locs m) \<le> 1 * length nums"
      using weight_le [of "\<lambda>l. if l = At () then 1 else 0" 1 "locs m"] inv by (simp add: inorder_inv_def)
    moreover have "(length nums + 1 - shared m) * (length nums + 1) \<le> length nums * (length nums + 1)"
      using inv by (intro mult_right_mono) (auto simp: inorder_inv_def)
    ultimately show ?thesis by (simp add: inorder_variant_def)
  qed
  have "k \<le> (length nums + 1) * (length nums + 1) \<and> ((\<forall>m''. \<not> mon_run (inorder_thread nums) m' m'') \<longrightarrow> inorder_final nums m')"
    if "(mon_run (inorder_thread nums) ^^ k) m m'" for k m'
    using iop.steps_bounded [OF that inv] v iop.stuck_final [of nums m'] by auto
  then show ?thesis using inv iop.reaches_final [OF inv] by (auto simp: inorder_inv_def)
qed

lemma inorder_all_pass_witness:
  "\<exists>m'. (mon_run (inorder_thread inorder_nums))\<^sup>*\<^sup>* \<lparr>shared = 1, locked = False, locs = replicate 4 (At ())\<rparr> m' \<and> inorder_final inorder_nums m'"
proof -
  have "in_turn inorder_nums" by (auto simp: in_turn_def inorder_nums_def)
  moreover have "reachable (inorder_init inorder_nums) (inorder_step inorder_nums) \<lparr>shared = 1, locked = False, locs = replicate 4 (At ())\<rparr>"
    by (rule reachable_init) (simp add: inorder_init_def mon_init_def inorder_nums_def numeral_eq_Suc)
  ultimately show ?thesis using inorder_all_pass by blast
qed

end
