(* ===== verification/Jobs.thy ===== *)
theory Jobs
  imports Monitor
begin

text \<open>
  \<^verbatim>\<open>exam2/problem3/two_person_jobs.c\<close>: jobs that two workers do together. A worker takes the first job that nobody has taken and
  waits for a helper, or helps at the first job whose worker waits; afterwards the first of the two to finish marks the job
  \<^verbatim>\<open>PARTIALLY\<close> done and the second one \<^verbatim>\<open>DONE\<close>.

  Shown here: with two workers for each job, every worker finds a job, the program ends and then every job is done.
\<close>

section \<open>Definitions\<close>

abbreviation (input) JOBNUM :: nat where "JOBNUM \<equiv> 4"

datatype job = UNSTARTED | STARTED | DONE | WAITING | PARTIALLY

text \<open>
  The places of \<^verbatim>\<open>worker\<close> where it wants the mutex: at the start, in \<^verbatim>\<open>pthread_cond_wait\<close> for the helper, and after the work on job \<open>i\<close>.
\<close>

datatype worker_pc = Grab | Help nat | Work nat

text \<open>The loop over the jobs finds the first one that is \<^verbatim>\<open>UNSTARTED\<close> or \<^verbatim>\<open>WAITING\<close>.\<close>

fun scan :: "job list \<Rightarrow> nat \<Rightarrow> nat option" where
  "scan [] i = None"
| "scan (j # js) i = (if j = UNSTARTED \<or> j = WAITING then Some i else scan js (Suc i))"

fun worker :: "(job list, worker_pc) region" where
  "worker t Grab jobs =
     (case scan jobs 0 of
        None \<Rightarrow> (jobs, NoWake, Abandon)
      | Some i \<Rightarrow> if jobs ! i = UNSTARTED then (jobs[i := WAITING], NoWake, Wait (Help i))
                 else (jobs[i := STARTED], Signal, Goto (Work i)))"
| "worker t (Help i) jobs =
     (if jobs ! i = WAITING then (jobs, NoWake, Wait (Help i)) else (jobs, NoWake, Goto (Work i)))"
| "worker t (Work i) jobs =
     (if jobs ! i = STARTED then (jobs[i := PARTIALLY], NoWake, Exit)
      else if jobs ! i = PARTIALLY then (jobs[i := DONE], NoWake, Exit)
      else (jobs, NoWake, Exit))"

text \<open>\<^verbatim>\<open>main\<close>, for any number of jobs\<close>

definition jobs_init :: "nat \<Rightarrow> (job list, worker_pc) monitor \<Rightarrow> bool" where
  "jobs_init n = mon_init (replicate n UNSTARTED) Grab (2 * n)"

section \<open>Lemmas\<close>

definition cnt :: "worker_pc \<Rightarrow> worker_pc loc list \<Rightarrow> nat" where
  "cnt p ls = weight (\<lambda>l. if l = At p \<or> l = Asleep p then 1 else 0) ls"

lemma cnt_update: "t < length ls \<Longrightarrow>
  cnt p (ls[t := x]) + (if ls ! t = At p \<or> ls ! t = Asleep p then 1 else 0) = cnt p ls + (if x = At p \<or> x = Asleep p then 1 else 0)"
  unfolding cnt_def by (rule weight_update)

text \<open>how many workers at a job are waiting for their helper or working, by the state of the job\<close>

fun job_ok :: "job \<Rightarrow> nat \<Rightarrow> nat \<Rightarrow> bool" where
  "job_ok UNSTARTED h w \<longleftrightarrow> h = 0 \<and> w = 0"
| "job_ok WAITING h w \<longleftrightarrow> h = 1 \<and> w = 0"
| "job_ok STARTED h w \<longleftrightarrow> h + w = 2"
| "job_ok PARTIALLY h w \<longleftrightarrow> h + w = 1"
| "job_ok DONE h w \<longleftrightarrow> h = 0 \<and> w = 0"

text \<open>jobs are taken in order, and at most the first that is not started has a worker that waits\<close>

definition frontier :: "job list \<Rightarrow> nat \<Rightarrow> bool" where
  "frontier js k \<longleftrightarrow> k \<le> length js \<and> (\<forall>i < k. js ! i \<notin> {UNSTARTED, WAITING}) \<and>
     (\<forall>i < length js. k < i \<longrightarrow> js ! i = UNSTARTED) \<and> (k < length js \<longrightarrow> js ! k \<in> {UNSTARTED, WAITING})"

fun taken :: "job \<Rightarrow> nat" where
  "taken UNSTARTED = 0"
| "taken WAITING = 1"
| "taken _ = 2"

text \<open>a worker sleeps only at a job that has no helper yet\<close>

fun loc_ok :: "job list \<Rightarrow> worker_pc loc \<Rightarrow> bool" where
  "loc_ok js (Asleep (Help i)) \<longleftrightarrow> i < length js \<and> js ! i = WAITING"
| "loc_ok js (Asleep p) \<longleftrightarrow> False"
| "loc_ok js (At (Help i)) \<longleftrightarrow> i < length js"
| "loc_ok js (At (Work i)) \<longleftrightarrow> i < length js"
| "loc_ok js (At Grab) \<longleftrightarrow> True"
| "loc_ok js Finished \<longleftrightarrow> True"

definition jobs_inv :: "nat \<Rightarrow> (job list, worker_pc) monitor \<Rightarrow> bool" where
  "jobs_inv n m \<longleftrightarrow>
     \<not> locked m \<and> length (shared m) = n \<and> length (locs m) = 2 * n \<and> (\<exists>k. frontier (shared m) k) \<and>
     cnt Grab (locs m) + sum_list (map taken (shared m)) = 2 * n \<and>
     (\<forall>i < n. job_ok (shared m ! i) (cnt (Help i) (locs m)) (cnt (Work i) (locs m))) \<and>
     (\<forall>t < 2 * n. loc_ok (shared m) (locs m ! t))"

lemma scan_frontier:
  assumes "frontier js k"
  shows "scan js j = (if k < length js then Some (j + k) else None)"
  using assms
proof (induction js arbitrary: j k)
  case (Cons x js)
  show ?case
  proof (cases k)
    case 0 then show ?thesis using Cons.prems by (auto simp: frontier_def)
  next
    case (Suc l)
    have "frontier js l" using Cons.prems Suc by (fastforce simp: frontier_def)
    then show ?thesis using Cons.IH [of l "Suc j"] Cons.prems Suc by (auto simp: frontier_def)
  qed
qed (simp add: frontier_def)

lemma frontier_update:
  assumes "frontier js k"
  shows "k < length js \<Longrightarrow> frontier (js[k := WAITING]) k"
    "k < length js \<Longrightarrow> frontier (js[k := STARTED]) (Suc k)"
    "i < length js \<Longrightarrow> js ! i \<notin> {UNSTARTED, WAITING} \<Longrightarrow> j \<notin> {UNSTARTED, WAITING} \<Longrightarrow> frontier (js[i := j]) k"
proof -
  show "k < length js \<Longrightarrow> frontier (js[k := WAITING]) k" using assms by (auto simp: frontier_def nth_list_update)
  show "k < length js \<Longrightarrow> frontier (js[k := STARTED]) (Suc k)" using assms by (auto simp: frontier_def nth_list_update less_Suc_eq)
  assume "i < length js" "js ! i \<notin> {UNSTARTED, WAITING}" "j \<notin> {UNSTARTED, WAITING}"
  then show "frontier (js[i := j]) k" using assms by (auto simp: frontier_def nth_list_update)
qed

lemma frontier_waiting: "frontier js k \<Longrightarrow> i < length js \<Longrightarrow> js ! i = WAITING \<Longrightarrow> i = k"
  by (fastforce simp: frontier_def not_less_iff_gr_or_eq)

lemma taken_update: "i < length js \<Longrightarrow> sum_list (map taken (js[i := j])) + taken (js ! i) = sum_list (map taken js) + taken j"
proof (induction js arbitrary: i)
  case (Cons x js) then show ?case by (cases i) auto
qed simp

lemma taken_all: "frontier js (length js) \<Longrightarrow> sum_list (map taken js) = 2 * length js"
proof -
  assume f: "frontier js (length js)"
  have "taken (js ! i) = 2" if "i < length js" for i using f that by (cases "js ! i") (auto simp: frontier_def)
  then have "map taken js = replicate (length js) 2" by (intro nth_equalityI) auto
  then show ?thesis by (simp add: sum_list_replicate)
qed

lemma cnt_pos: "t < length ls \<Longrightarrow> ls ! t = At p \<or> ls ! t = Asleep p \<Longrightarrow> 1 \<le> cnt p ls"
  using cnt_update [of t ls p Finished] by (auto split: if_splits)

lemma cnt_two:
  assumes "t < length ls" "u < length ls" "t \<noteq> u" "ls ! t = At p \<or> ls ! t = Asleep p" "ls ! u = At p \<or> ls ! u = Asleep p"
  shows "2 \<le> cnt p ls"
  using cnt_update [of t ls p Finished] cnt_pos [of u "ls[t := Finished]" p] assms by (auto split: if_splits)

lemma cnt_awake: "t < length ls \<Longrightarrow> ls ! t = Asleep q \<Longrightarrow> cnt p (ls[t := At q]) = cnt p ls"
  using cnt_update [of t ls p "At q"] by (auto split: if_splits)

subsection \<open>Every region keeps the invariant\<close>

lemma jobs_invI:
  assumes "length js = n" "length ls = 2 * n" "frontier js k" "cnt Grab ls + sum_list (map taken js) = 2 * n"
    "\<And>i. i < n \<Longrightarrow> job_ok (js ! i) (cnt (Help i) ls) (cnt (Work i) ls)" "\<And>t. t < 2 * n \<Longrightarrow> loc_ok js (ls ! t)"
  shows "jobs_inv n \<lparr>shared = js, locked = False, locs = ls\<rparr>"
  using assms by (auto simp: jobs_inv_def)

lemma jobs_invD:
  assumes "jobs_inv n m"
  shows "length (shared m) = n" "length (locs m) = 2 * n" "\<exists>k. frontier (shared m) k"
    "cnt Grab (locs m) + sum_list (map taken (shared m)) = 2 * n"
    "i < n \<Longrightarrow> job_ok (shared m ! i) (cnt (Help i) (locs m)) (cnt (Work i) (locs m))"
    "t < 2 * n \<Longrightarrow> loc_ok (shared m) (locs m ! t)"
  using assms by (simp_all add: jobs_inv_def)

lemma loc_ok_mono:
  assumes "loc_ok js l" "length js' = length js" "\<And>i. i < length js \<Longrightarrow> js ! i = WAITING \<Longrightarrow> js' ! i = WAITING"
  shows "loc_ok js' l"
  using assms by (cases "(js, l)" rule: loc_ok.cases) auto

lemma jobs_take:
  assumes inv: "jobs_inv n m" and t: "t < length (locs m)" "locs m ! t = At Grab"
    and k: "scan (shared m) 0 = Some i" "shared m ! i = UNSTARTED"
  shows "jobs_inv n \<lparr>shared = (shared m)[i := WAITING], locked = False, locs = (locs m)[t := Asleep (Help i)]\<rparr>"
proof -
  note m = jobs_invD [OF inv]
  obtain k where f: "frontier (shared m) k" using m(3) by blast
  have i: "i = k" "i < n" using scan_frontier [OF f, of 0] k(1) m(1) by (auto split: if_splits)
  note c = cnt_update [OF t(1), where x = "Asleep (Help i)"]
  show ?thesis
  proof (rule jobs_invI)
    show "frontier ((shared m)[i := WAITING]) k" using frontier_update(1) [OF f] i m(1) by simp
    show "cnt Grab ((locs m)[t := Asleep (Help i)]) + sum_list (map taken ((shared m)[i := WAITING])) = 2 * n"
      using c [of Grab] taken_update [of i "shared m" WAITING] i m(1,4) k(2) t(2) by simp
    show "job_ok ((shared m)[i := WAITING] ! j) (cnt (Help j) ((locs m)[t := Asleep (Help i)])) (cnt (Work j) ((locs m)[t := Asleep (Help i)]))"
      if "j < n" for j using m(5) [OF that] c [of "Help j"] c [of "Work j"] t(2) k(2) that m(1) by (auto simp: nth_list_update split: if_splits)
    show "loc_ok ((shared m)[i := WAITING]) ((locs m)[t := Asleep (Help i)] ! u)" if "u < 2 * n" for u
    proof (cases "u = t")
      case False
      have "loc_ok ((shared m)[i := WAITING]) (locs m ! u)"
        by (rule loc_ok_mono [OF m(6) [OF that]]) (use i m(1) in \<open>auto simp: nth_list_update\<close>)
      then show ?thesis using False by simp
    qed (use i m(1,2) that in simp)
  qed (use m(1,2) in simp_all)
qed

lemma jobs_help:
  assumes inv: "jobs_inv n m" and t: "t < length (locs m)" "locs m ! t = At Grab"
    and k: "scan (shared m) 0 = Some i" "shared m ! i \<noteq> UNSTARTED" and w: "wakes Signal (locs m) ls"
  shows "jobs_inv n \<lparr>shared = (shared m)[i := STARTED], locked = False, locs = ls[t := At (Work i)]\<rparr>"
proof -
  note m = jobs_invD [OF inv]
  obtain k where f: "frontier (shared m) k" using m(3) by blast
  have i: "i = k" "i < n" using scan_frontier [OF f, of 0] k(1) m(1) by (auto split: if_splits)
  have wt: "shared m ! i = WAITING" using f i k(2) m(1) by (auto simp: frontier_def)
  have asleep: "p = Help i" if "locs m ! u = Asleep p" "u < 2 * n" for u p
    using m(6) [OF that(2)] that(1) frontier_waiting [OF f] i by (cases p) auto
  have one: "u = v" if "locs m ! u = Asleep p" "locs m ! v = Asleep q" "u < 2 * n" "v < 2 * n" for u v p q
    using cnt_two [of u "locs m" v "Help i"] asleep that m(2) m(5) [OF i(2)] wt by fastforce
  have ls: "length ls = 2 * n" "\<And>p. cnt p ls = cnt p (locs m)" "ls ! t = At Grab"
    "\<And>u. u < 2 * n \<Longrightarrow> ls ! u = locs m ! u \<and> (\<forall>p. locs m ! u \<noteq> Asleep p) \<or> (locs m ! u = Asleep (Help i) \<and> ls ! u = At (Help i))"
  proof -
    show "length ls = 2 * n" using wakes_length [OF w] m(2) by simp
    show "cnt p ls = cnt p (locs m)" for p using w cnt_awake by (cases rule: wakes.cases) auto
    show "ls ! t = At Grab" using wakes_nth [OF w t(1)] t(2) by auto
    show "ls ! u = locs m ! u \<and> (\<forall>p. locs m ! u \<noteq> Asleep p) \<or> (locs m ! u = Asleep (Help i) \<and> ls ! u = At (Help i))" if u: "u < 2 * n" for u
      using w
    proof (cases rule: wakes.cases)
      case (wake_one v p)
      show ?thesis
      proof (cases "u = v")
        case True then show ?thesis using wake_one asleep [of u p] u by auto
      next
        case False then show ?thesis using wake_one one [of u _ v p] u m(2) by auto
      qed
    next
      case wake_nobody
      then have "locs m ! u \<noteq> Asleep p" for p using nth_mem [of u "locs m"] u m(2) by metis
      then show ?thesis using wake_nobody by simp
    qed
  qed
  have tl: "t < length ls" using t(1) m(2) ls(1) by simp
  note c = cnt_update [OF tl, where x = "At (Work i)"]
  show ?thesis
  proof (rule jobs_invI)
    show "frontier ((shared m)[i := STARTED]) (Suc k)" using frontier_update(2) [OF f] i m(1) by simp
    show "cnt Grab (ls[t := At (Work i)]) + sum_list (map taken ((shared m)[i := STARTED])) = 2 * n"
      using c [of Grab] taken_update [of i "shared m" STARTED] i m(1,4) wt ls by simp
    show "job_ok ((shared m)[i := STARTED] ! j) (cnt (Help j) (ls[t := At (Work i)])) (cnt (Work j) (ls[t := At (Work i)]))"
      if "j < n" for j using m(5) [OF that] c [of "Help j"] c [of "Work j"] wt ls(2,3) that m(1) by (auto simp: nth_list_update split: if_splits)
    show "loc_ok ((shared m)[i := STARTED]) (ls[t := At (Work i)] ! u)" if u: "u < 2 * n" for u
    proof (cases "u = t")
      case False
      show ?thesis
      proof (cases "locs m ! u")
        case (At p) then show ?thesis using ls(4) [OF u] m(6) [OF u] False by (cases p) (auto simp: nth_list_update)
      next
        case (Asleep p) then show ?thesis using ls(4) [OF u] i m(1) False by (auto simp: nth_list_update)
      next
        case Finished then show ?thesis using ls(4) [OF u] False by (auto simp: nth_list_update)
      qed
    qed (use i m(1) tl in simp)
  qed (use m(1) ls(1) in simp_all)
qed

text \<open>The regions after the first one leave the frontier alone: they change one thread and at most the job it works at.\<close>

lemma jobs_later:
  assumes inv: "jobs_inv n m" and t: "t < length (locs m)" and p: "locs m ! t = At p \<or> locs m ! t = Asleep p" "p \<noteq> Grab"
    and x: "x \<noteq> At Grab" "x \<noteq> Asleep Grab" "loc_ok ((shared m)[i := j]) x"
    and i: "i < n" "taken (shared m ! i) = taken j" "shared m ! i \<notin> {UNSTARTED, WAITING} \<and> j \<notin> {UNSTARTED, WAITING} \<or> j = shared m ! i"
    and ok: "\<And>k. k < n \<Longrightarrow> job_ok ((shared m)[i := j] ! k) (cnt (Help k) ((locs m)[t := x])) (cnt (Work k) ((locs m)[t := x]))"
  shows "jobs_inv n \<lparr>shared = (shared m)[i := j], locked = False, locs = (locs m)[t := x]\<rparr>"
proof -
  note m = jobs_invD [OF inv]
  obtain k where f: "frontier (shared m) k" using m(3) by blast
  show ?thesis
  proof (rule jobs_invI)
    show "frontier ((shared m)[i := j]) k"
      using i(3)
    proof
      assume "shared m ! i \<notin> {UNSTARTED, WAITING} \<and> j \<notin> {UNSTARTED, WAITING}"
      then show ?thesis using frontier_update(3) [OF f] i(1) m(1) by blast
    qed (use f in simp)
    show "cnt Grab ((locs m)[t := x]) + sum_list (map taken ((shared m)[i := j])) = 2 * n"
      using cnt_update [OF t, of Grab x] taken_update [of i "shared m" j] m(1,4) i p x by (auto split: if_splits)
    show "loc_ok ((shared m)[i := j]) ((locs m)[t := x] ! u)" if u: "u < 2 * n" for u
    proof (cases "u = t")
      case False
      have "loc_ok ((shared m)[i := j]) (locs m ! u)"
        by (rule loc_ok_mono [OF m(6) [OF u]]) (use i m(1) in \<open>auto simp: nth_list_update\<close>)
      then show ?thesis using False by simp
    qed (use x t in simp)
  qed (use m(1,2) ok in simp_all)
qed

lemma jobs_helped:
  assumes inv: "jobs_inv n m" and t: "t < length (locs m)" and p: "locs m ! t = At (Help i) \<or> locs m ! t = Asleep (Help i)"
  shows "jobs_inv n (m\<lparr>locs := (locs m)[t := At (Help i)]\<rparr>)"
    "shared m ! i = WAITING \<Longrightarrow> jobs_inv n (m\<lparr>locs := (locs m)[t := Asleep (Help i)]\<rparr>)"
    "shared m ! i \<noteq> WAITING \<Longrightarrow> jobs_inv n (m\<lparr>locs := (locs m)[t := At (Work i)]\<rparr>)"
proof -
  note m = jobs_invD [OF inv]
  have i: "i < n" using m(6) [of t] t p m(1,2) by auto
  have l: "m = \<lparr>shared = (shared m)[i := shared m ! i], locked = False, locs = locs m\<rparr>" using inv by (simp add: jobs_inv_def)
  have c: "cnt q ((locs m)[t := x]) + (if q = Help i then 1 else 0) = cnt q (locs m) + (if x = At q \<or> x = Asleep q then 1 else 0)" for q x
    using cnt_update [OF t, of q x] p by (auto split: if_splits)
  have go: "jobs_inv n (m\<lparr>locs := (locs m)[t := x]\<rparr>)"
    if x: "x = At (Help i) \<or> x = Asleep (Help i) \<and> shared m ! i = WAITING \<or> x = At (Work i) \<and> shared m ! i \<noteq> WAITING" for x
  proof -
    have "job_ok (shared m ! k) (cnt (Help k) ((locs m)[t := x])) (cnt (Work k) ((locs m)[t := x]))" if k: "k < n" for k
    proof (cases "k = i \<and> x = At (Work i)")
      case True
      then show ?thesis using c [of "Help i" x] c [of "Work i" x] m(5) [OF k] x by (cases "shared m ! i") auto
    next
      case False
      then have "cnt (Help k) ((locs m)[t := x]) = cnt (Help k) (locs m)" "cnt (Work k) ((locs m)[t := x]) = cnt (Work k) (locs m)"
        using c [of "Help k" x] c [of "Work k" x] x by (auto split: if_splits)
      then show ?thesis using m(5) [OF k] by simp
    qed
    then have "jobs_inv n \<lparr>shared = (shared m)[i := shared m ! i], locked = False, locs = (locs m)[t := x]\<rparr>"
      using x i m(1) by (intro jobs_later [OF inv t p]) auto
    then show ?thesis by (subst l) simp
  qed
  show "jobs_inv n (m\<lparr>locs := (locs m)[t := At (Help i)]\<rparr>)" using go by simp
  show "shared m ! i = WAITING \<Longrightarrow> jobs_inv n (m\<lparr>locs := (locs m)[t := Asleep (Help i)]\<rparr>)" using go by simp
  show "shared m ! i \<noteq> WAITING \<Longrightarrow> jobs_inv n (m\<lparr>locs := (locs m)[t := At (Work i)]\<rparr>)" using go by simp
qed

lemma jobs_worked:
  assumes inv: "jobs_inv n m" and t: "t < length (locs m)" "locs m ! t = At (Work i)"
    and r: "worker t (Work i) (shared m) = (js, w, a)"
  shows "jobs_inv n \<lparr>shared = js, locked = False, locs = (locs m)[t := Finished]\<rparr>" "w = NoWake" "a = Exit"
proof -
  note m = jobs_invD [OF inv]
  have i: "i < n" using m(6) [of t] t m(1,2) by auto
  have c: "cnt q ((locs m)[t := Finished]) + (if q = Work i then 1 else 0) = cnt q (locs m)" for q
    using cnt_update [OF t(1), of q Finished] t(2) by (auto split: if_splits)
  have "1 \<le> cnt (Work i) (locs m)" using cnt_pos [OF t(1)] t(2) by blast
  then obtain j where j: "js = (shared m)[i := j]" "shared m ! i = STARTED \<and> j = PARTIALLY \<or> shared m ! i = PARTIALLY \<and> j = DONE"
    using m(5) [OF i] r by (cases "shared m ! i") auto
  have ok: "job_ok ((shared m)[i := j] ! k) (cnt (Help k) ((locs m)[t := Finished])) (cnt (Work k) ((locs m)[t := Finished]))" if k: "k < n" for k
    using m(5) [OF k] c [of "Help k"] c [of "Work k"] j(2) m(1) k by (auto simp: nth_list_update split: if_splits)
  show "jobs_inv n \<lparr>shared = js, locked = False, locs = (locs m)[t := Finished]\<rparr>"
    unfolding j(1) using i j(2) t(2) ok by (intro jobs_later [OF inv t(1), of "Work i"]) auto
  show "w = NoWake" "a = Exit" using r by (auto split: if_splits)
qed

text \<open>With two workers for each job, no worker is left without one.\<close>

lemma jobs_found:
  assumes inv: "jobs_inv n m" and t: "t < length (locs m)" "locs m ! t = At Grab"
  shows "scan (shared m) 0 \<noteq> None"
proof
  assume "scan (shared m) 0 = None"
  moreover obtain k where f: "frontier (shared m) k" using jobs_invD(3) [OF inv] by blast
  ultimately have "k = length (shared m)" using scan_frontier [OF f, of 0] by (auto simp: frontier_def split: if_splits)
  then have "sum_list (map taken (shared m)) = 2 * n" using taken_all f jobs_invD(1) [OF inv] by simp
  then show False using jobs_invD(4) [OF inv] cnt_pos [OF t(1), of Grab] t(2) by simp
qed

lemma jobs_run_cases:
  assumes "jobs_inv n m" "mon_run worker m m'"
  obtains (begin_job) t i where "t < length (locs m)" "locs m ! t = At Grab" "scan (shared m) 0 = Some i" "shared m ! i = UNSTARTED"
      "m' = \<lparr>shared = (shared m)[i := WAITING], locked = False, locs = (locs m)[t := Asleep (Help i)]\<rparr>"
  | (join) t i ls where "t < length (locs m)" "locs m ! t = At Grab" "scan (shared m) 0 = Some i" "shared m ! i \<noteq> UNSTARTED"
      "wakes Signal (locs m) ls" "m' = \<lparr>shared = (shared m)[i := STARTED], locked = False, locs = ls[t := At (Work i)]\<rparr>"
  | (again) t i where "t < length (locs m)" "locs m ! t = At (Help i)" "shared m ! i = WAITING" "m' = m\<lparr>locs := (locs m)[t := Asleep (Help i)]\<rparr>"
  | (helped) t i where "t < length (locs m)" "locs m ! t = At (Help i)" "shared m ! i \<noteq> WAITING" "m' = m\<lparr>locs := (locs m)[t := At (Work i)]\<rparr>"
  | (worked) t i js w a where "t < length (locs m)" "locs m ! t = At (Work i)" "worker t (Work i) (shared m) = (js, w, a)"
      "m' = \<lparr>shared = js, locked = False, locs = (locs m)[t := Finished]\<rparr>"
  using assms(2)
proof (cases rule: mon_run.cases)
  case (run t p s' w a ls)
  have l: "\<not> locked m" using assms(1) by (simp add: jobs_inv_def)
  have nw: "ls = locs m" if "w = NoWake" using run(6) that by (auto elim: wakesE)
  show ?thesis
  proof (cases p)
    case Grab
    then obtain i where i: "scan (shared m) 0 = Some i" using jobs_found [OF assms(1) run(3)] run(4) by auto
    show ?thesis
    proof (cases "shared m ! i = UNSTARTED")
      case True then show ?thesis using begin_job [of t i] run i Grab nw by auto
    next
      case False then show ?thesis using join [of t i ls] run i Grab by auto
    qed
  next
    case (Help i)
    show ?thesis
    proof (cases "shared m ! i = WAITING")
      case True then show ?thesis using again [of t i] run Help nw l by auto
    next
      case False then show ?thesis using helped [of t i] run Help nw l by auto
    qed
  next
    case (Work i)
    then show ?thesis using worked [of t i s' w a] jobs_worked(2,3) [OF assms(1) run(3), of i s' w a] run nw by auto
  qed
qed

lemma jobs_inv_run:
  assumes "jobs_inv n m" "mon_run worker m m'"
  shows "jobs_inv n m'"
  using assms
proof (cases rule: jobs_run_cases)
  case begin_job then show ?thesis using jobs_take assms(1) by blast
next
  case join then show ?thesis using jobs_help assms(1) by blast
next
  case again then show ?thesis using jobs_helped(2) assms(1) by blast
next
  case helped then show ?thesis using jobs_helped(3) assms(1) by blast
next
  case worked then show ?thesis using jobs_worked(1) assms(1) by blast
qed

interpretation jb: invariant_system "jobs_init n" "mon_step worker" "jobs_inv n" for n
proof unfold_locales
  fix m assume "jobs_init n m"
  then have m: "m = \<lparr>shared = replicate n UNSTARTED, locked = False, locs = replicate (2 * n) (At Grab)\<rparr>"
    by (simp add: jobs_init_def mon_init_def)
  show "jobs_inv n m" unfolding m
    by (rule jobs_invI [where k = 0]) (auto simp: frontier_def cnt_def weight_replicate sum_list_replicate)
next
  fix m m' assume inv: "jobs_inv n m" and s: "mon_step worker m m'"
  from s show "jobs_inv n m'"
  proof (cases rule: mon_step.cases)
    case ran then show ?thesis using jobs_inv_run inv by blast
  next
    case (spurious t p)
    then obtain i where "p = Help i" using jobs_invD(2,6) [OF inv] by (cases p) (fastforce dest: spec)+
    then show ?thesis using spurious jobs_helped(1) [OF inv, of t i] by simp
  qed
qed

subsection \<open>Progress\<close>

fun job_weight :: "worker_pc loc \<Rightarrow> nat" where
  "job_weight (At Grab) = 6"
| "job_weight (At (Help i)) = 3"
| "job_weight (Asleep p) = 2"
| "job_weight (At (Work i)) = 1"
| "job_weight Finished = 0"

definition jobs_variant :: "(job list, worker_pc) monitor \<Rightarrow> nat" where
  "jobs_variant m = weight job_weight (locs m)"

definition jobs_final :: "nat \<Rightarrow> (job list, worker_pc) monitor \<Rightarrow> bool" where
  "jobs_final n m \<longleftrightarrow> shared m = replicate n DONE \<and> locs m = replicate (2 * n) Finished"

lemma weight_signal:
  assumes "jobs_inv n m" "wakes Signal (locs m) ls"
  shows "weight job_weight ls \<le> weight job_weight (locs m) + 1"
  using assms(2)
proof (cases rule: wakes.cases)
  case (wake_one u p)
  then obtain i where "p = Help i" using jobs_invD(2,6) [OF assms(1)] by (cases p) (fastforce dest: spec)+
  then show ?thesis using wake_one weight_update [of u "locs m" job_weight "At p"] by simp
qed simp

lemma jobs_run_variant:
  assumes "jobs_inv n m" "mon_run worker m m'"
  shows "jobs_variant m' < jobs_variant m"
  using assms
proof (cases rule: jobs_run_cases)
  case (begin_job t i) then show ?thesis using weight_update [of t "locs m" job_weight "Asleep (Help i)"] by (simp add: jobs_variant_def)
next
  case (join t i ls)
  have "ls ! t = At Grab" "t < length ls" using wakes_nth [OF join(5,1)] wakes_length [OF join(5)] join(1,2) by auto
  then show ?thesis using join weight_update [of t ls job_weight "At (Work i)"] weight_signal [OF assms(1) join(5)] by (simp add: jobs_variant_def)
next
  case (again t i) then show ?thesis using weight_update [of t "locs m" job_weight "Asleep (Help i)"] by (simp add: jobs_variant_def)
next
  case (helped t i) then show ?thesis using weight_update [of t "locs m" job_weight "At (Work i)"] by (simp add: jobs_variant_def)
next
  case (worked t i) then show ?thesis using weight_update [of t "locs m" job_weight Finished] by (simp add: jobs_variant_def)
qed

lemma cnt_zero: "(\<And>t. t < length ls \<Longrightarrow> ls ! t \<noteq> At p \<and> ls ! t \<noteq> Asleep p) \<Longrightarrow> cnt p ls = 0"
  by (auto simp: cnt_def weight_def in_set_conv_nth)

lemma taken_le: "sum_list (map taken js) \<le> 2 * length js"
proof (induction js)
  case (Cons j js) then show ?case by (cases j) auto
qed simp

lemma taken_all_conv: "sum_list (map taken js) = 2 * length js \<Longrightarrow> j \<in> set js \<Longrightarrow> taken j = 2"
proof (induction js)
  case (Cons k js)
  have "taken k \<le> 2" by (cases k) auto
  then have "taken k = 2" "sum_list (map taken js) = 2 * length js" using Cons.prems(1) taken_le [of js] by auto
  then show ?case using Cons by auto
qed simp

lemma jobs_stuck_final:
  assumes inv: "jobs_inv n m" and nf: "\<not> jobs_final n m"
  shows "\<exists>m'. mon_run worker m m'"
proof (rule ccontr)
  assume "\<not> ?thesis"
  then have stuck: "locs m ! t = Finished \<or> (\<exists>p. locs m ! t = Asleep p)" if "t < 2 * n" for t
    using mon_stuck [of worker m t] that inv by (auto simp: jobs_inv_def)
  note m = jobs_invD [OF inv]
  have "cnt Grab (locs m) = 0" using stuck m(2,6) by (intro cnt_zero) fastforce
  then have tk: "taken (shared m ! i) = 2" if "i < n" for i using taken_all_conv [of "shared m"] m(1,4) that by simp
  have fin: "locs m ! t = Finished" if t: "t < 2 * n" for t
  proof (rule ccontr)
    assume "locs m ! t \<noteq> Finished"
    then obtain p where p: "locs m ! t = Asleep p" using stuck [OF t] by auto
    then obtain i where "p = Help i" "i < n" "shared m ! i = WAITING" using m(1) m(6) [OF t] by (cases p) auto
    then show False using tk [of i] by simp
  qed
  have "cnt q (locs m) = 0" for q using fin m(2) by (intro cnt_zero) simp
  then have "shared m ! i = DONE" if "i < n" for i using m(5) [OF that] tk [OF that] by (cases "shared m ! i") auto
  then have "jobs_final n m" using fin m(1,2) by (auto simp: jobs_final_def intro!: nth_equalityI)
  then show False using nf by simp
qed

interpretation jbp: progress_system "mon_run worker" "jobs_inv n" jobs_variant "jobs_final n" for n
  using jobs_inv_run jobs_run_variant jobs_stuck_final by unfold_locales blast+

section \<open>Properties\<close>

text \<open>
  C15. The workers of \<^verbatim>\<open>two_person_jobs.c\<close>, two for each of n jobs: in every reachable state, whatever the schedule, the choice of the thread that
  \<^verbatim>\<open>pthread_cond_signal\<close> wakes and the spurious wake-ups so far, no worker has been left without a job (the branch that prints
  \<^verbatim>\<open>Something bad has happened\<close> and returns with the mutex held is never taken) and no job has more than two workers; from there
  the program can go on until all jobs are \<^verbatim>\<open>DONE\<close> and all workers have returned, it does so within \<open>12 * n\<close> turns at the mutex, and it stops nowhere else.
\<close>
theorem jobs_all_done:
  assumes "reachable (jobs_init n) (mon_step worker) m"
  shows "\<not> locked m \<and> (\<forall>i < n. cnt (Help i) (locs m) + cnt (Work i) (locs m) \<le> 2) \<and>
    (\<exists>m'. (mon_run worker)\<^sup>*\<^sup>* m m' \<and> jobs_final n m') \<and>
    (\<forall>k m'. (mon_run worker ^^ k) m m' \<longrightarrow> k \<le> 12 * n \<and> ((\<forall>m''. \<not> mon_run worker m' m'') \<longrightarrow> jobs_final n m'))"
proof -
  have inv: "jobs_inv n m" using assms by (rule jb.reachable_inv)
  have v: "jobs_variant m \<le> 12 * n"
  proof -
    have "job_weight l \<le> 6" for l by (cases l rule: job_weight.cases) auto
    then show ?thesis using weight_le [of job_weight 6 "locs m"] jobs_invD(2) [OF inv] by (simp add: jobs_variant_def)
  qed
  have "cnt (Help i) (locs m) + cnt (Work i) (locs m) \<le> 2" if "i < n" for i
    using jobs_invD(5) [OF inv that] by (cases "shared m ! i") auto
  moreover have "k \<le> 12 * n \<and> ((\<forall>m''. \<not> mon_run worker m' m'') \<longrightarrow> jobs_final n m')" if "(mon_run worker ^^ k) m m'" for k m'
    using jbp.steps_bounded [OF that inv] v jbp.stuck_final [of n m'] by auto
  ultimately show ?thesis using inv jbp.reaches_final [OF inv] by (auto simp: jobs_inv_def)
qed

lemma jobs_all_done_witness:
  "\<exists>m'. (mon_run worker)\<^sup>*\<^sup>* \<lparr>shared = replicate JOBNUM UNSTARTED, locked = False, locs = replicate (2 * JOBNUM) (At Grab)\<rparr> m' \<and>
     jobs_final JOBNUM m'"
proof -
  have "reachable (jobs_init JOBNUM) (mon_step worker)
    \<lparr>shared = replicate JOBNUM UNSTARTED, locked = False, locs = replicate (2 * JOBNUM) (At Grab)\<rparr>"
    by (rule reachable_init) (simp add: jobs_init_def mon_init_def)
  then show ?thesis using jobs_all_done by blast
qed

end
