(* ===== verification/Priority.thy ===== *)
theory Priority
  imports Monitor
begin

text \<open>
  \<^verbatim>\<open>condvar_challenge/priority.c\<close>: a critical section for one thread at a time, which the waiting thread of the highest priority is
  to enter next. A thread that arrives when the section is empty but others still wait is not counted in \<^verbatim>\<open>waiting\<close>; it takes the
  place of one that was, and the count becomes negative. It is shown that this lets a thread into the occupied section.
\<close>

section \<open>Definitions\<close>

record prio =
  waiting :: int
  inCrit :: int
  highestPriority :: int

text \<open>The places of \<^verbatim>\<open>thread\<close> where it wants the mutex: at the start, in the inner loop, and at the end of the section.\<close>

datatype prio_pc = Arrive | Inner | Leave

abbreviation (input) prio_enter :: "prio \<Rightarrow> prio \<times> wake \<times> prio_pc after" where
  "prio_enter s \<equiv> (s\<lparr>inCrit := inCrit s + 1\<rparr>, NoWake, Goto Leave)"

definition must_wait :: "int \<Rightarrow> prio \<Rightarrow> bool" where
  "must_wait num s \<longleftrightarrow> (num \<noteq> highestPriority s \<and> waiting s > 1) \<or> inCrit s \<noteq> 0"

text \<open>
  \<^verbatim>\<open>while(waiting != 0){ ... }\<close> from its test on. When neither test in its body holds, \<^verbatim>\<open>waiting\<close> is negative and another round changes
  nothing: the loop goes on for ever with the mutex held.
\<close>

definition prio_outer :: "int \<Rightarrow> prio \<Rightarrow> prio \<times> wake \<times> prio_pc after" where
  "prio_outer num s =
     (if waiting s = 0 then prio_enter s
      else let s' = (if num > highestPriority s then s\<lparr>highestPriority := num\<rparr> else s) in
        if must_wait num s' then (s', NoWake, Wait Inner)
        else if num = highestPriority s' \<or> waiting s' = 1 then prio_enter (s'\<lparr>waiting := waiting s' - 1\<rparr>)
        else (s', NoWake, Abandon))"

fun prio_thread :: "int list \<Rightarrow> (prio, prio_pc) region" where
  "prio_thread nums t Arrive s = prio_outer (nums ! t) (if inCrit s \<noteq> 0 then s\<lparr>waiting := waiting s + 1\<rparr> else s)"
| "prio_thread nums t Inner s =
     (if must_wait (nums ! t) s then (s, NoWake, Wait Inner)
      else if nums ! t = highestPriority s \<or> waiting s = 1 then prio_enter (s\<lparr>waiting := waiting s - 1\<rparr>)
      else prio_outer (nums ! t) s)"
| "prio_thread nums t Leave s = (s\<lparr>inCrit := inCrit s - 1\<rparr>, Broadcast, Exit)"

definition prio_nums :: "int list" where "prio_nums = [2, 1, 4, 3, 5, 6]"

definition prio_init :: "(prio, prio_pc) monitor \<Rightarrow> bool" where
  "prio_init = mon_init \<lparr>waiting = 0, inCrit = 0, highestPriority = 0\<rparr> Arrive (length prio_nums)"

section \<open>Properties\<close>

text \<open>
  the section is occupied by thread 2; thread 4 waits; 2 leaves, 3 comes and takes the place of 4; 3 leaves, 4 enters; 1 comes
\<close>

definition prio_schedule :: "nat list" where "prio_schedule = [0, 2, 0, 3, 2, 3, 2, 1]"

text \<open>
  C40. The program \<^verbatim>\<open>priority.c\<close>, as its \<^verbatim>\<open>main\<close> starts it, does not keep the promise of its comment that no other thread can enter while
  one is in the critical section: a state is reachable in which two threads are inside it at once.
\<close>
theorem priority_two_inside:
  "\<exists>m. reachable prio_init (mon_step (prio_thread prio_nums)) m \<and> inCrit (shared m) = 2 \<and>
     locs m ! 1 = At Leave \<and> locs m ! 2 = At Leave"
proof -
  let ?m = "\<lparr>shared = \<lparr>waiting = 0, inCrit = 0, highestPriority = 0\<rparr>, locked = False, locs = replicate 6 (At Arrive)\<rparr>"
  have r: "reachable prio_init (mon_step (prio_thread prio_nums)) ?m"
    by (rule reachable_init) (simp add: prio_init_def mon_init_def prio_nums_def numeral_eq_Suc)
  let ?n = "\<lparr>shared = \<lparr>waiting = 0, inCrit = 2, highestPriority = 4\<rparr>, locked = False,
      locs = [Finished, At Leave, At Leave, Finished, At Arrive, At Arrive]\<rparr>"
  have "turns (prio_thread prio_nums) prio_schedule ?m = Some ?n" by code_simp
  then have "reachable prio_init (mon_step (prio_thread prio_nums)) ?n" using r by (rule turns_reachable)
  then show ?thesis by (intro exI [of _ ?n]) simp
qed

end
