(* ===== verification/Debug_Lab.thy ===== *)
theory Debug_Lab
  imports Xv6_Prelude "HOL-Library.Multiset"
begin

text \<open>
  The programs of the debugging exercise that work on data: the sort and the search of \<^verbatim>\<open>debug/selection.c\<close> and the circular linked list of
  \<^verbatim>\<open>debug/sllist.c\<close>. An array is the function from its indices; a list is threaded through memory by the map from the address of a
  node to its \<^verbatim>\<open>next\<close> pointer, with 0 for the null pointer.

  Shown here: the sort sorts; the list operations are those on lists; the search finds nothing, and printing a list never ends.
\<close>

section \<open>Definitions\<close>

subsection \<open>\<^verbatim>\<open>selection.c\<close>\<close>

function max_loop :: "(nat \<Rightarrow> int) \<Rightarrow> nat \<Rightarrow> nat \<Rightarrow> nat \<Rightarrow> nat" where
  "max_loop A i j mx = (if j < i then max_loop A i (j + 1) (if A j > A mx then j else mx) else mx)"
  by pat_completeness auto
termination
  by (relation "measure (\<lambda>(A, i, j, mx). i - j)") auto

declare max_loop.simps [simp del]

definition sort_step :: "(nat \<Rightarrow> int) \<Rightarrow> nat \<Rightarrow> nat \<Rightarrow> int" where
  "sort_step A i =
     (let mx = max_loop A i 1 0 in
      if A mx > A i then (let temp = A mx; A1 = A(mx := A i) in A1(i := temp)) else A)"

primrec sort_loop :: "nat \<Rightarrow> (nat \<Rightarrow> int) \<Rightarrow> nat \<Rightarrow> int" where
  "sort_loop 0 A = A"
| "sort_loop (Suc i) A = sort_loop i (sort_step A (Suc i))"

definition selection_sort :: "(nat \<Rightarrow> int) \<Rightarrow> int \<Rightarrow> nat \<Rightarrow> int" where
  "selection_sort A sz = sort_loop (nat (sz - 1)) A"

text \<open>The first round of the loop ends in the unconditional \<^verbatim>\<open>break\<close> after its first test.\<close>

definition binary_search :: "int \<Rightarrow> (nat \<Rightarrow> int) \<Rightarrow> int \<Rightarrow> int" where
  "binary_search item A sz = (let lo = 0; hi = sz in if hi < lo then 0 else 0)"

subsection \<open>\<^verbatim>\<open>sllist.c\<close>\<close>

type_synonym links = "nat \<Rightarrow> nat"

definition init_node :: "nat \<Rightarrow> links \<Rightarrow> links" where
  "init_node node nx = nx(node := node)"

definition add_head :: "nat \<Rightarrow> nat \<Rightarrow> links \<Rightarrow> links" where
  "add_head head node nx = (let nx1 = nx(node := nx head) in nx1(head := node))"

text \<open>\<^verbatim>\<open>while(p->next != head) p = p->next;\<close>, \<open>None\<close> when it does not end\<close>

partial_function (option) find_last :: "links \<Rightarrow> nat \<Rightarrow> nat \<Rightarrow> nat option" where
  "find_last nx head p = (if nx p \<noteq> head then find_last nx head (nx p) else Some p)"

definition add_tail :: "nat \<Rightarrow> nat \<Rightarrow> links \<Rightarrow> links option" where
  "add_tail head node nx =
     (case find_last nx head (nx head) of None \<Rightarrow> None
      | Some p \<Rightarrow> Some (let nx1 = nx(node := nx p) in nx1(p := node)))"

partial_function (option) find_node :: "links \<Rightarrow> nat \<Rightarrow> nat \<Rightarrow> nat \<Rightarrow> nat \<Rightarrow> (nat \<times> nat) option" where
  "find_node nx head node p n =
     (if n \<noteq> node \<and> n \<noteq> head then find_node nx head node n (nx n) else Some (p, n))"

definition del_node :: "nat \<Rightarrow> nat \<Rightarrow> links \<Rightarrow> links option" where
  "del_node head node nx =
     (case find_node nx head node head (nx head) of None \<Rightarrow> None
      | Some (p, n) \<Rightarrow>
          Some (if n = head then nx
                else if nx n \<noteq> 0 then nx(p := nx n)
                else nx(p := 0)))"

text \<open>The nodes that \<^verbatim>\<open>print_list\<close> passes to \<^verbatim>\<open>print_fn\<close> in at most \<open>n\<close> rounds of its loop, \<open>None\<close> when it has not ended by then\<close>

primrec print_loop :: "nat \<Rightarrow> links \<Rightarrow> nat \<Rightarrow> nat list option" where
  "print_loop 0 nx p = None"
| "print_loop (Suc n) nx p =
     (if nx p \<noteq> 0 then (if p \<noteq> 0 then map_option (Cons p) (print_loop n nx (nx p)) else Some []) else Some [])"

definition print_list :: "nat \<Rightarrow> nat \<Rightarrow> links \<Rightarrow> nat list option" where
  "print_list n head nx = print_loop n nx (nx head)"

section \<open>The sort\<close>

lemma max_loop_max:
  "mx < i \<Longrightarrow> max_loop A i j mx < i \<and> A mx \<le> A (max_loop A i j mx) \<and> (\<forall>k. j \<le> k \<longrightarrow> k < i \<longrightarrow> A k \<le> A (max_loop A i j mx))"
proof (induction A i j mx rule: max_loop.induct)
  case (1 A i j mx)
  show ?case
  proof (cases "j < i")
    case True
    let ?m = "if A j > A mx then j else mx"
    have ih: "max_loop A i (j + 1) ?m < i" "A ?m \<le> A (max_loop A i (j + 1) ?m)"
      "\<And>k. j + 1 \<le> k \<Longrightarrow> k < i \<Longrightarrow> A k \<le> A (max_loop A i (j + 1) ?m)" using "1.IH" [OF True] True "1.prems" by auto
    have "A k \<le> A (max_loop A i (j + 1) ?m)" if "j \<le> k" "k < i" for k
      using ih(2) ih(3) [of k] that by (cases "k = j") (auto split: if_splits)
    moreover have "A mx \<le> A (max_loop A i (j + 1) ?m)" using ih(2) by (cases "A j > A mx") auto
    moreover have "max_loop A i j mx = max_loop A i (j + 1) ?m" using True by (subst max_loop.simps) simp
    ultimately show ?thesis using ih(1) by metis
  next
    case False then show ?thesis using "1.prems" by (simp add: max_loop.simps [of A i j mx])
  qed
qed

lemma max_loop_first:
  assumes "0 < i" "k < i"
  shows "max_loop A i 1 0 < i" "A k \<le> A (max_loop A i 1 0)"
  using max_loop_max [OF assms(1), of A 1] assms(2) by (cases k; auto)+

text \<open>One step puts the largest of the first elements last and permutes them.\<close>

lemma sort_step_facts:
  assumes "0 < i"
  shows "\<forall>k \<le> i. sort_step A i k \<le> sort_step A i i" "\<forall>k > i. sort_step A i k = A k"
    "image_mset (sort_step A i) (mset_set {..i}) = image_mset A (mset_set {..i})"
proof -
  let ?m = "max_loop A i 1 0"
  have m: "?m < i" "\<And>k. k < i \<Longrightarrow> A k \<le> A ?m" using max_loop_first [OF assms] assms by auto
  show "\<forall>k \<le> i. sort_step A i k \<le> sort_step A i i"
  proof (intro allI impI)
    fix k assume "k \<le> i"
    then show "sort_step A i k \<le> sort_step A i i" using m(1) m(2) [of k] by (cases "k = i") (auto simp: sort_step_def Let_def)
  qed
  show "\<forall>k > i. sort_step A i k = A k" using m(1) by (auto simp: sort_step_def Let_def)
  show "image_mset (sort_step A i) (mset_set {..i}) = image_mset A (mset_set {..i})"
  proof (cases "A ?m > A i")
    case True
    have s: "sort_step A i = A \<circ> (\<lambda>k. if k = ?m then i else if k = i then ?m else k)" using True m(1) by (auto simp: sort_step_def Let_def fun_eq_iff)
    have b: "bij_betw (\<lambda>k. if k = ?m then i else if k = i then ?m else k) {..i} {..i}"
      using m(1) by (intro bij_betw_byWitness [where f' = "\<lambda>k. if k = ?m then i else if k = i then ?m else k"]) auto
    have "image_mset (\<lambda>k. if k = ?m then i else if k = i then ?m else k) (mset_set {..i}) = mset_set {..i}"
      using b by (subst image_mset_mset_set) (auto simp: bij_betw_def)
    then show ?thesis unfolding s by (simp flip: multiset.map_comp)
  qed (simp add: sort_step_def)
qed

lemma sort_loop_frame: "k > i \<Longrightarrow> sort_loop i A k = A k"
proof (induction i arbitrary: A)
  case (Suc i) then show ?case using sort_step_facts(2) [of "Suc i" A] by auto
qed simp

lemma sort_loop_mset: "image_mset (sort_loop i A) (mset_set {..i}) = image_mset A (mset_set {..i})"
proof (induction i arbitrary: A)
  case (Suc i)
  let ?B = "sort_step A (Suc i)"
  have "image_mset (sort_loop i ?B) (mset_set {..Suc i}) = image_mset (sort_loop i ?B) (mset_set {..i}) + {#?B (Suc i)#}"
    using sort_loop_frame [of i "Suc i" ?B] by (simp add: atMost_Suc)
  also have "\<dots> = image_mset ?B (mset_set {..Suc i})" using Suc by (simp add: atMost_Suc)
  also have "\<dots> = image_mset A (mset_set {..Suc i})" using sort_step_facts(3) [of "Suc i" A] by simp
  finally show ?case by simp
qed simp

lemma sort_loop_bound: "(\<And>k. k \<le> i \<Longrightarrow> A k \<le> b) \<Longrightarrow> k \<le> i \<Longrightarrow> sort_loop i A k \<le> b"
proof -
  assume b: "\<And>k. k \<le> i \<Longrightarrow> A k \<le> b" and k: "k \<le> i"
  have "sort_loop i A k \<in># image_mset (sort_loop i A) (mset_set {..i})" using k by simp
  then have "sort_loop i A k \<in># image_mset A (mset_set {..i})" unfolding sort_loop_mset .
  then show ?thesis using b by auto
qed

lemma sort_loop_sorted: "j \<le> k \<Longrightarrow> k \<le> i \<Longrightarrow> sort_loop i A j \<le> sort_loop i A k"
proof (induction i arbitrary: A j k)
  case (Suc i)
  let ?B = "sort_step A (Suc i)"
  show ?case
  proof (cases "k \<le> i")
    case False
    then have k: "k = Suc i" using Suc.prems by simp
    have top: "sort_loop i ?B (Suc i) = ?B (Suc i)" using sort_loop_frame by simp
    show ?thesis
    proof (cases "j = Suc i")
      case False
      have "sort_loop i ?B j \<le> ?B (Suc i)" using sort_step_facts(1) [of "Suc i" A] Suc.prems(1) k False by (intro sort_loop_bound) auto
      then show ?thesis using k top by simp
    qed (simp add: k)
  qed (use Suc in simp)
qed simp

section \<open>The list\<close>

primrec linked :: "links \<Rightarrow> nat \<Rightarrow> nat list \<Rightarrow> nat \<Rightarrow> bool" where
  "linked nx a [] b \<longleftrightarrow> a = b"
| "linked nx a (x # xs) b \<longleftrightarrow> a = x \<and> linked nx (nx a) xs b"

definition circ :: "links \<Rightarrow> nat \<Rightarrow> nat list \<Rightarrow> bool" where
  "circ nx head xs \<longleftrightarrow> linked nx (nx head) xs head \<and> distinct (head # xs) \<and> 0 \<notin> set (head # xs)"

lemma link_append [simp]: "linked nx a (xs @ ys) b \<longleftrightarrow> (\<exists>c. linked nx a xs c \<and> linked nx c ys b)"
  by (induction xs arbitrary: a) auto

lemma link_upd [simp]: "x \<notin> set xs \<Longrightarrow> linked (nx(x := y)) a xs b = linked nx a xs b"
  by (induction xs arbitrary: a) auto

lemma circ_add_head: "circ nx head xs \<Longrightarrow> node \<notin> set (0 # head # xs) \<Longrightarrow> circ (add_head head node nx) head (node # xs)"
  by (auto simp: circ_def add_head_def Let_def)

lemma find_last_chain:
  "linked nx p (xs @ [l]) head \<Longrightarrow> head \<notin> set (xs @ [l]) \<Longrightarrow> find_last nx head p = Some l"
proof (induction xs arbitrary: p)
  case Nil then show ?case by (subst find_last.simps) auto
next
  case (Cons x xs)
  have "nx p \<noteq> head" using Cons.prems by (cases xs) auto
  then show ?case using Cons by (subst find_last.simps) auto
qed

lemma circ_add_tail:
  assumes "circ nx head xs" "node \<notin> set (0 # head # xs)"
  shows "\<exists>nx'. add_tail head node nx = Some nx' \<and> circ nx' head (xs @ [node])"
proof (cases xs rule: rev_cases)
  case Nil
  then have "find_last nx head (nx head) = Some head" using assms by (subst find_last.simps) (auto simp: circ_def)
  then show ?thesis using assms Nil by (auto simp: add_tail_def circ_def Let_def)
next
  case (snoc ys l)
  then have "find_last nx head (nx head) = Some l" using assms by (intro find_last_chain [of _ _ ys]) (auto simp: circ_def)
  then show ?thesis using assms snoc by (auto simp: add_tail_def circ_def Let_def)
qed

lemma find_node_chain:
  "linked nx n ys head \<Longrightarrow> head \<notin> set ys \<Longrightarrow> node \<notin> set ys \<Longrightarrow> \<exists>p'. find_node nx head node p n = Some (p', head)"
proof (induction ys arbitrary: p n)
  case Nil then show ?case by (subst find_node.simps) auto
next
  case (Cons y ys) then show ?case by (subst find_node.simps) auto
qed

lemma find_node_found:
  "linked nx n (ys @ node # zs) head \<Longrightarrow> head \<notin> set (ys @ [node]) \<Longrightarrow> node \<notin> set ys \<Longrightarrow>
   find_node nx head node p n = Some (last (p # ys), node)"
proof (induction ys arbitrary: p n)
  case Nil then show ?case by (subst find_node.simps) auto
next
  case (Cons y ys) then show ?case by (subst find_node.simps) auto
qed

lemma circ_del_node:
  assumes c: "circ nx head xs"
  shows "\<exists>nx'. del_node head node nx = Some nx' \<and> circ nx' head (remove1 node xs)"
proof (cases "node \<in> set xs")
  case False
  then obtain p' where "find_node nx head node head (nx head) = Some (p', head)"
    using find_node_chain [of nx "nx head" xs head node head] c by (auto simp: circ_def)
  then show ?thesis using c False by (simp add: del_node_def remove1_idem)
next
  case True
  then obtain ys zs where xs: "xs = ys @ node # zs" "node \<notin> set ys" by (meson split_list_first)
  let ?p = "last (head # ys)"
  have f: "find_node nx head node head (nx head) = Some (?p, node)"
    using c xs by (intro find_node_found) (auto simp: circ_def)
  have "nx node \<noteq> 0" using c xs by (cases zs) (auto simp: circ_def)
  then have d: "del_node head node nx = Some (nx(?p := nx node))" using f c xs by (auto simp: del_node_def circ_def)
  have "linked (nx(?p := nx node)) ((nx(?p := nx node)) head) (ys @ zs) head"
  proof (cases ys rule: rev_cases)
    case Nil then show ?thesis using c xs by (auto simp: circ_def)
  next
    case (snoc vs v) then show ?thesis using c xs by (auto simp: circ_def)
  qed
  then show ?thesis using d c xs by (auto simp: circ_def remove1_append)
qed

text \<open>On a list that is linked as \<^verbatim>\<open>init_node\<close> and the other operations link it, no pointer is null and the loop of \<^verbatim>\<open>print_list\<close> goes round for ever.\<close>

lemma link_nonnull: "linked nx (nx a) xs b \<Longrightarrow> c \<in> set (a # xs) \<Longrightarrow> nx c \<in> set xs \<union> {b}"
proof (induction xs arbitrary: a)
  case (Cons x xs) then show ?case by auto
qed auto

lemma print_list_endless:
  assumes "circ nx head xs"
  shows "print_list n head nx = None"
proof -
  have c: "linked nx (nx head) xs head" "0 \<notin> set (head # xs)" using assms by (auto simp: circ_def)
  have closed: "nx a \<in> set (head # xs)" if "a \<in> set (head # xs)" for a using link_nonnull [OF c(1) that] by auto
  have "print_loop n nx a = None" if "a \<in> set (head # xs)" for a
    using that
  proof (induction n arbitrary: a)
    case (Suc n)
    have a: "nx a \<in> set (head # xs)" using closed Suc.prems .
    then have "nx a \<noteq> 0" "a \<noteq> 0" using c(2) Suc.prems by metis+
    then show ?case using Suc.IH [OF a] by simp
  qed simp
  then show ?thesis using closed [of head] by (simp add: print_list_def)
qed

section \<open>Properties\<close>

text \<open>
  \<^verbatim>\<open>selection_sort\<close> sorts: for every size, also zero and negative ones, the elements of the array up to the size are afterwards in
  ascending order and a permutation of what they were, and nothing behind them is changed.
\<close>
theorem selection_sort_sorts:
  "sorted (map (selection_sort A sz) [0..<nat sz]) \<and>
   mset (map (selection_sort A sz) [0..<nat sz]) = mset (map A [0..<nat sz]) \<and>
   (\<lambda>k. selection_sort A sz (nat sz + k)) = (\<lambda>k. A (nat sz + k))"
proof (cases "sz \<ge> 1")
  case True
  let ?i = "nat (sz - 1)"
  have i: "nat sz = Suc ?i" using True by simp
  have "sorted (map (selection_sort A sz) [0..<nat sz])"
    using sort_loop_sorted [of _ _ ?i A] i by (auto simp: sorted_iff_nth_mono selection_sort_def simp del: upt_Suc)
  moreover have "mset (map (selection_sort A sz) [0..<nat sz]) = mset (map A [0..<nat sz])"
    using sort_loop_mset [of ?i A] i by (simp add: selection_sort_def atLeast0LessThan lessThan_Suc_atMost del: upt_Suc)
  moreover have "selection_sort A sz (nat sz + k) = A (nat sz + k)" for k
    using sort_loop_frame [of ?i "nat sz + k" A] i by (simp add: selection_sort_def)
  ultimately show ?thesis by blast
qed (simp add: selection_sort_def)

text \<open>
  C39. The operations of \<^verbatim>\<open>sllist.c\<close> implement those on lists. On nodes linked in a circle through \<^verbatim>\<open>head\<close>: \<^verbatim>\<open>add_head\<close> puts a new node in
  front, \<^verbatim>\<open>add_tail\<close> returns and puts it at the end, also of an empty list, and \<^verbatim>\<open>del_node\<close> returns and takes a node out, or leaves the list as it is
  when the node is not in it; each time the nodes form a circle again, without a null pointer.
\<close>
theorem sllist_refines:
  assumes "circ nx head xs" "node \<notin> set (0 # head # xs)"
  shows "circ (add_head head node nx) head (node # xs) \<and>
    (\<exists>nx'. add_tail head node nx = Some nx' \<and> circ nx' head (xs @ [node])) \<and>
    (\<exists>nx'. del_node head old nx = Some nx' \<and> circ nx' head (remove1 old xs))"
  using circ_add_head [OF assms] circ_add_tail [OF assms] circ_del_node [OF assms(1)] by blast

lemma sllist_refines_witness:
  "\<exists>nx. circ nx 1 [2, 3] \<and> (\<exists>nx'. add_tail 1 4 nx = Some nx' \<and> circ nx' 1 [2, 3, 4]) \<and> (\<exists>nx'. del_node 1 2 nx = Some nx' \<and> circ nx' 1 [3])"
proof -
  let ?nx = "(\<lambda>_. 0)(1 := 2, 2 := 3, 3 := 1) :: links"
  have c: "circ ?nx 1 [2, 3]" by (simp add: circ_def)
  have "4 \<notin> set (0 # 1 # [2, 3 :: nat])" by simp
  from sllist_refines [OF c this, of 2] show ?thesis using c by (intro exI [of _ ?nx]) simp
qed

end
