(* ===== verification/Spec2Isabelle.thy ===== *)
theory Spec2Isabelle
  imports CString Kalloc Vm_Grow Vm_Copy Proc_Alloc Sleep_Wakeup Pipe Trap Fs_Spec Grep Umalloc Ulib Sh_Print Uart_Spec Virtio_Spec Inorder Jobs Priority Debug_Lab
begin

text \<open>
  A verification of the programs of this repository of operating-systems laboratories. Its main part is the teaching operating system
  xv6 for RISC-V, \<^verbatim>\<open>src/xv6-riscv\<close>, of which the kernel is modelled routine by routine; to it come its user library, two of its user programs and
  some of the exercises.

  \<^bold>\<open>The kernel and its layers.\<close> From the bottom up, with the theory that models each part:

  \<^item> \<^verbatim>\<open>kernel/string.c\<close>: \<open>CString\<close>. Memory is a function from 64-bit addresses to bytes.
  \<^item> \<^verbatim>\<open>kernel/spinlock.c\<close>: \<open>Spinlock\<close>, with the nesting of \<^verbatim>\<open>push_off\<close> and \<^verbatim>\<open>pop_off\<close>; \<open>Critical\<close> is the bracket of
    \<^verbatim>\<open>acquire\<close> and \<^verbatim>\<open>release\<close> that the other routines use.
  \<^item> the address macros of \<^verbatim>\<open>kernel/riscv.h\<close> and \<^verbatim>\<open>kernel/memlayout.h\<close>: \<open>Phys_Mem\<close>.
  \<^item> \<^verbatim>\<open>kernel/kalloc.c\<close>: \<open>Kalloc\<close>, the list of free pages threaded through the pages.
  \<^item> \<^verbatim>\<open>kernel/vm.c\<close>: \<open>Vm\<close> has the routines, \<open>Page_Table\<close> the meaning of a page table in memory, \<open>Vm_Correct\<close>, \<open>Vm_Grow\<close>,
    \<open>Vm_Copy\<close> and \<open>Vm_Frame\<close> what the routines do in these terms.
  \<^item> \<^verbatim>\<open>kernel/proc.c\<close>: \<open>Proc\<close> (the process table, sleep and wakeup, kill, wait), \<open>Proc_Alloc\<close> (\<^verbatim>\<open>allocproc\<close> and \<^verbatim>\<open>freeproc\<close>),
    \<open>Lifecycle\<close> (\<^verbatim>\<open>userinit\<close>, \<^verbatim>\<open>fork\<close>, \<^verbatim>\<open>exit\<close>), \<open>Sleep_Wakeup\<close> (their interleaving on two CPUs).
  \<^item> \<^verbatim>\<open>kernel/sleeplock.c\<close>: \<open>Sleeplock\<close>. \<^verbatim>\<open>kernel/pipe.c\<close>: \<open>Pipe\<close>, and \<^verbatim>\<open>pipealloc\<close> in \<open>File\<close>.
  \<^item> \<^verbatim>\<open>kernel/bio.c\<close>: \<open>Bio\<close>, with its contract in \<open>Bio_Spec\<close>. \<^verbatim>\<open>kernel/virtio_disk.c\<close>: \<open>Virtio\<close>, and \<open>Virtio_Spec\<close> for a whole request.
  \<^item> \<^verbatim>\<open>kernel/log.c\<close>: \<open>Log\<close>, its recovery from crashes in \<open>Log_Spec\<close>, the operations of system calls in \<open>Log_Ops\<close>.
  \<^item> \<^verbatim>\<open>kernel/fs.c\<close>: \<open>Fs\<close>, what it does to the blocks of a transaction in \<open>Txn\<close>, paths and inode table in \<open>Fs_Spec\<close>.
  \<^item> \<^verbatim>\<open>kernel/file.c\<close>, \<^verbatim>\<open>kernel/exec.c\<close>, \<^verbatim>\<open>kernel/sysfile.c\<close>, \<^verbatim>\<open>kernel/sysproc.c\<close>, \<^verbatim>\<open>kernel/syscall.c\<close>: \<open>File\<close>,
    \<open>Exec\<close>, \<open>Sysfile\<close>, \<open>Syscall\<close>, \<open>Syscall_Args\<close>.
  \<^item> \<^verbatim>\<open>kernel/uart.c\<close>, \<^verbatim>\<open>kernel/console.c\<close>, \<^verbatim>\<open>kernel/printf.c\<close>: \<open>Uart\<close>, \<open>Console\<close>, \<open>Kprintf\<close>;
    \<open>Ring\<close> has the ring buffers, \<open>Console_Spec\<close> and \<open>Uart_Spec\<close> what the two drivers promise.
  \<^item> \<^verbatim>\<open>kernel/trap.c\<close> and \<^verbatim>\<open>kernel/plic.c\<close>: \<open>Trap\<close>.

  \<open>Xv6_Prelude\<close> has the integer types, the results of kernel routines and generic lemmas; \<open>Interfaces\<close> the contracts that several
  components share, as locales, each interpreted by the components that provide it (the page allocator, the pipe ring, the transmit buffer of
  the serial line and the exercises among them); \<open>Kmonad\<close> the composition of routines from the buffer cache upwards, with a calculus of total correctness.

  \<^bold>\<open>User programs and exercises.\<close> \<^verbatim>\<open>user/grep.c\<close>: \<open>Grep\<close>. \<^verbatim>\<open>user/umalloc.c\<close>: \<open>Umalloc\<close>.
  \<^verbatim>\<open>user/ulib.c\<close> and \<^verbatim>\<open>user/printf.c\<close>: \<open>Ulib\<close>. The parser of \<^verbatim>\<open>user/sh.c\<close>: \<open>Sh\<close>, and \<open>Sh_Print\<close> with a printer of
  commands. The exercises on condition variables: \<open>Monitor\<close> models programs with one mutex and one condition variable, and
  \<open>Inorder\<close>, \<open>Jobs\<close> and \<open>Priority\<close> are \<^verbatim>\<open>condvar_basics/inorder.c\<close>, \<^verbatim>\<open>exam2/problem3/two_person_jobs.c\<close> and
  \<^verbatim>\<open>condvar_challenge/priority.c\<close>. \<open>Debug_Lab\<close>: \<^verbatim>\<open>debug/selection.c\<close> and \<^verbatim>\<open>debug/sllist.c\<close>.

  \<^bold>\<open>How the code is modelled.\<close> A C routine is a definition of the same name; integers have their width (\<open>u8\<close> to \<open>u64\<close> wrap around;
  C's \<^verbatim>\<open>int\<close> is \<open>int\<close> where it stays small). The kernel state is one record that each component extends by its own variables
  (\<open>kst\<close> of the page allocator, \<open>pst\<close> of the processes, \<open>bst\<close> of the buffer cache and so on), so that a lower routine
  leaves the fields of the upper layers alone by its type. A routine returns \<open>Inr\<close> of its value and the new state, or \<open>Inl\<close> of the reason
  why it did not return: a call of \<^verbatim>\<open>panic\<close> with its message, a lock that is held by another CPU, a condition it goes to sleep for
  (\<open>Sleep\<close> with the channel), or behaviour that C leaves undefined. Page tables, trap frames and the free list live in byte memory at the
  addresses the code computes; buffers, inodes, files and processes are indices into their tables.

  \<^bold>\<open>Concurrency.\<close> A routine runs as one CPU runs it, between two context switches; a routine that sleeps is split there (pipes, \<^verbatim>\<open>sleep\<close>,
  \<^verbatim>\<open>yield\<close>, the disk driver), or ends with the result \<open>Sleep\<close>. What other CPUs may do is modelled where the code's point is to deal
  with it: several CPUs at one spin lock (\<open>Spinlock\<close>), a sleeper and its waker (\<open>Sleep_Wakeup\<close>), the threads of the exercises
  (\<open>Monitor\<close>). The disk writes single blocks atomically and in order; a crash may come between any two of them.

  \<^bold>\<open>What is shown.\<close>
  \<^item> Log: recovery after a crash at any point of a commit gives all blocks of the transaction or none; \<^verbatim>\<open>end_op\<close> makes
    the writes of the transaction the contents of the disk; \<^verbatim>\<open>log_write\<close> absorbs and pins; what \<^verbatim>\<open>begin_op\<close> reserves, and that it is one block short.
  \<^item> Buffer cache: \<^verbatim>\<open>binit\<close>, \<^verbatim>\<open>bread\<close> and \<^verbatim>\<open>brelse\<close> refine reads of a map from block numbers to blocks; the victim is the least recently used buffer.
  \<^item> Disk driver: a request, from its submission through the device and the interrupt to the end of \<^verbatim>\<open>virtio_disk_rw\<close>, does the one transfer by which
    the cache is modelled and gives its descriptors back. The device is a parameter that serves chains of descriptors (\<open>serves\<close>).
  \<^item> File system: \<^verbatim>\<open>balloc\<close> and \<^verbatim>\<open>bfree\<close> change one bit of the bitmap and zero the block, inodes are read back as written, no inode has two
    entries in the table, paths split into their elements.
  \<^item> Virtual memory: mapping, unmapping, growing (all or nothing) and shrinking in terms of the translation and of the free list; copying between
    kernel and user memory.
  \<^item> Page allocator, spin locks, sleep and wakeup, process table, pipes, string routines: their contracts, with the behaviour when memory,
    entries or room in the pipe run out, and that \<^verbatim>\<open>kill(0)\<close> damages a later process.
  \<^item> Console and serial line: \<^verbatim>\<open>consoleintr\<close> refines a line editor on its ring buffer, \<^verbatim>\<open>uartputc\<close> delivers characters in order.
  \<^item> \<^verbatim>\<open>malloc\<close> and \<^verbatim>\<open>free\<close> of user programs return, keep blocks apart, merge free neighbours and lose no byte; the request that overflows the
    argument of \<^verbatim>\<open>sbrk\<close>. \<^verbatim>\<open>atoi\<close> reads back what \<^verbatim>\<open>printf\<close> prints; string routines and \<^verbatim>\<open>gets\<close> of the user library.
  \<^item> \<^verbatim>\<open>grep\<close> prints the lines in the language of the pattern; the shell's parser ends on every line, reads back every printed command, and its
    strings are cut apart correctly.
  \<^item> The threads of \<^verbatim>\<open>inorder.c\<close> and \<^verbatim>\<open>two_person_jobs.c\<close> all finish, those of \<^verbatim>\<open>priority.c\<close> can break into the critical section; the sort
    sorts and the list operations are right.

  \<^bold>\<open>Fuel.\<close> Recursion is structural or has a measure, except where the code follows pointers found in memory: \<open>freewalk\<close> carries the depth of the table,
  three for every table of the kernel; \<open>bscan\<close> the number of buffers plus one, which a circular list through all buffers never uses up;
  \<open>free_chain\<close> of the disk driver one more than there are descriptors, since freeing one twice panics; \<open>drain_used\<close> the \<open>2 ^ 16\<close> values of the
  used index; the erasing loop of the console the number of characters that can be erased; the parsers of the shell four calls per
  character, proved to be enough for every line. Loops on linked lists in \<open>Debug_Lab\<close> and \<open>Umalloc\<close>, and on strings in \<open>Ulib\<close>, are \<^theory_text>\<open>partial_function\<close>s, proved to return.

  \<^bold>\<open>Not modelled.\<close> Boot, assembly (\<^verbatim>\<open>entry.S\<close>, \<^verbatim>\<open>swtch.S\<close>, \<^verbatim>\<open>trampoline.S\<close>, \<^verbatim>\<open>kernelvec.S\<close>), \<^verbatim>\<open>start.c\<close>, \<^verbatim>\<open>main.c\<close> and the loading of
  the page-table register: effects on the machine below the C level. The devices themselves: what they answer is part of the state. \<^verbatim>\<open>ramdisk.c\<close>
  is not built. \<^verbatim>\<open>mkfs\<close>, the tests and the small user programs only drive system calls; \<^verbatim>\<open>runcmd\<close> of the shell does so on a parsed
  command. Three routines of the user library repeat loops of the kernel's. The ext2 reader is unfinished. The other exercises with condition
  variables update a variable under two different mutexes, which C leaves undefined; the remaining ones print from processes and threads with
  no state to speak of.
\<close>

end
